(* ===== verification/Prelude.thy ===== *)
theory Prelude
  imports Main "HOL-Library.Word"
begin

unbundle bit_operations_syntax

text \<open>
  Shared vocabulary of the development: Go's machine types as words, Go's errors and
  panics as values, readers as functions on the bytes still to be read, writers as the
  bytes they emit, and the generic lemmas on lists, options and words that every
  component uses.
\<close>

section \<open>Types\<close>

text \<open>
  A Go \<open>byte\<close>, and the fixed width unsigned integers.  A Go \<open>string\<close> and a
  \<open>[]byte\<close> are both lists of bytes; \<open>len\<close> is \<open>length\<close>.  Go's \<open>int\<close> and
  \<open>int64\<close> are \<open>int\<close> where they hold file sizes and offsets.
\<close>

type_synonym byte = "8 word"
type_synonym u16 = "16 word"
type_synonym u32 = "32 word"
type_synonym u64 = "64 word"
type_synonym gostring = "byte list"

text \<open>A literal of the source, as its bytes.\<close>

definition bytes_of :: "string \<Rightarrow> gostring" where
  "bytes_of s = map (\<lambda>c. of_nat (of_char c)) s"

lemma length_bytes_of [simp]: "length (bytes_of s) = length s"
  by (simp add: bytes_of_def)

text \<open>
  The errors the modelled code returns or compares against.  A panic unwinds every
  frame up to the caller that the model describes, so it is an outcome beside the
  errors; \<open>Panic\<close> carries the source's message.
\<close>

datatype goerr =
    EOF
  | UnexpectedEOF
  | ErrClosed
  | ErrExist
  | ErrNotExist
  | ENOTDIR
  | EISDIR
  | ELOOP
  | EINVAL
  | EIO
  | Err string
  | Panic string

section \<open>Automation shared by the components\<close>

named_theorems wire "what the writers emit and how the readers decode it"
named_theorems wire_len "the lengths of what the writers emit"

section \<open>Lists\<close>

lemma take_append_length [simp]: "length xs = n \<Longrightarrow> take n (xs @ ys) = xs"
  by simp

lemma drop_append_length [simp]: "length xs = n \<Longrightarrow> drop n (xs @ ys) = ys"
  by simp

section \<open>Words\<close>

text \<open>The value of a machine integer is below its modulus, with the numeral evaluated.\<close>

lemma unat_lt: "unat (w :: 'a::len word) < 2 ^ LENGTH('a)"
  by (rule unsigned_less)

lemma unat_bounds:
  "unat (b :: byte) < 256" "unat (h :: u16) < 65536" "unat (w :: u32) < 4294967296"
  "unat (d :: u64) < 18446744073709551616"
  using unat_lt [of b] unat_lt [of h] unat_lt [of w] unat_lt [of d] by simp_all

section \<open>Readers\<close>

text \<open>
  A reader consumes bytes from the front of what is left in the stream: the model of a
  Go function that takes an \<open>io.Reader\<close>.  The first error ends the calling function,
  as the source's \<open>if err != nil { return }\<close> does.
\<close>

type_synonym 'a reader = "byte list \<Rightarrow> goerr + ('a \<times> byte list)"

definition rreturn :: "'a \<Rightarrow> 'a reader" where
  "rreturn x r = Inr (x, r)"

definition rfail :: "goerr \<Rightarrow> 'a reader" where
  "rfail e r = Inl e"

definition rbind :: "'a reader \<Rightarrow> ('a \<Rightarrow> 'b reader) \<Rightarrow> 'b reader" where
  "rbind p f r = (case p r of Inl e \<Rightarrow> Inl e | Inr (x, r') \<Rightarrow> f x r')"

definition rthen :: "'a reader \<Rightarrow> 'b reader \<Rightarrow> 'b reader" where
  "rthen p q = rbind p (\<lambda>_. q)"

text \<open>
  \<open>io.ReadFull\<close> into a buffer of \<open>n\<close> bytes: no byte left is \<open>io.EOF\<close>, fewer than
  \<open>n\<close> is \<open>io.ErrUnexpectedEOF\<close>, and an empty buffer always succeeds.
\<close>

definition read_full :: "nat \<Rightarrow> byte list reader" where
  "read_full n r =
     (if n \<le> length r then Inr (take n r, drop n r)
      else if r = [] then Inl EOF else Inl UnexpectedEOF)"

lemma rbind_Inr: "p r = Inr (x, r') \<Longrightarrow> rbind p f r = f x r'"
  by (simp add: rbind_def)

lemma rbind_rreturn [simp]: "rbind (rreturn x) f = f x"
  by (simp add: fun_eq_iff rbind_def rreturn_def)

lemma rthen_Inr: "p r = Inr (x, r') \<Longrightarrow> rthen p q r = q r'"
  by (simp add: rthen_def rbind_def)

lemma rreturn_apply [simp]: "rreturn x r = Inr (x, r)"
  by (simp add: rreturn_def)

lemma rfail_apply [simp]: "rfail e r = Inl e"
  by (simp add: rfail_def)

lemma rbind_Inr_iff:
  "rbind p f r = Inr y \<longleftrightarrow> (\<exists>x r'. p r = Inr (x, r') \<and> f x r' = Inr y)"
  by (auto simp: rbind_def split: sum.splits)

lemma read_full_append [wire]: "length xs = n \<Longrightarrow> read_full n (xs @ r) = Inr (xs, r)"
  by (simp add: read_full_def)

lemma read_full_zero [simp]: "read_full 0 r = Inr ([], r)"
  by (simp add: read_full_def)

lemma read_full_exact [wire]: "length xs = n \<Longrightarrow> read_full n xs = Inr (xs, [])"
  by (simp add: read_full_def)

lemma read_full_Inr_iff:
  "read_full n r = Inr (xs, r') \<longleftrightarrow> length xs = n \<and> r = xs @ r'"
  by (auto simp: read_full_def)

section \<open>Writers\<close>

text \<open>
  What a \<open>WriteTo\<close> hands to its sink, in order, and how it ended: \<open>None\<close> is a nil
  error.  The sink is the documented one of the standard library's in-memory writers: it
  takes every byte it is given.
\<close>

type_synonym emission = "byte list \<times> goerr option"

definition emit :: "byte list \<Rightarrow> emission" where
  "emit bs = (bs, None)"

definition emit_fail :: "goerr \<Rightarrow> emission" where
  "emit_fail e = ([], Some e)"

definition ethen :: "emission \<Rightarrow> emission \<Rightarrow> emission" where
  "ethen a b = (case snd a of Some e \<Rightarrow> a | None \<Rightarrow> (fst a @ fst b, snd b))"

definition emit_all :: "emission list \<Rightarrow> emission" where
  "emit_all es = foldr ethen es (emit [])"

lemma ethen_emit [simp]: "ethen (emit xs) (emit ys) = emit (xs @ ys)"
  by (simp add: ethen_def emit_def)

lemma emit_inject [simp]: "emit xs = emit ys \<longleftrightarrow> xs = ys"
  by (simp add: emit_def)

lemma fst_emit [simp]: "fst (emit xs) = xs" and snd_emit [simp]: "snd (emit xs) = None"
  by (simp_all add: emit_def)

lemma emit_all_Nil [simp]: "emit_all [] = emit []"
  by (simp add: emit_all_def)

lemma emit_all_Cons [simp]: "emit_all (e # es) = ethen e (emit_all es)"
  by (simp add: emit_all_def)

lemma emit_all_emit: "emit_all (map emit xss) = emit (concat xss)"
  by (induction xss) auto

end
