(* ===== verification/Safecast.thy ===== *)
theory Safecast
  imports Prelude
begin

text \<open>
  \<open>pkg/safecast\<close>: the checked integer conversions.  A signed Go integer is a word read
  with \<open>sint\<close>, an unsigned one a word read with \<open>uint\<close>; a Go conversion truncates, or
  extends by the sign of its operand's type (\<open>scast\<close>, \<open>ucast\<close>).  \<open>int\<close> and \<open>uint\<close> are
  64 bits wide, as on the platforms the program is built for.  Each function either
  returns the same number in the other type or panics.
\<close>

section \<open>The conversions\<close>

type_synonym go_int8 = "8 word"
type_synonym go_int16 = "16 word"
type_synonym go_int32 = "32 word"
type_synonym go_int64 = "64 word"
type_synonym go_int = "64 word"
type_synonym go_uint8 = "8 word"
type_synonym go_uint16 = "16 word"
type_synonym go_uint32 = "32 word"
type_synonym go_uint64 = "64 word"
type_synonym go_uint = "64 word"

abbreviation out_of_bounds :: "goerr + 'a" where
  "out_of_bounds \<equiv> Inl (Panic ''out of bounds'')"

definition Int8ToUint :: "go_int8 \<Rightarrow> goerr + go_uint" where
  "Int8ToUint v = (if v <s 0 then out_of_bounds else Inr (scast v))"

definition Int8ToUint8 :: "go_int8 \<Rightarrow> goerr + go_uint8" where
  "Int8ToUint8 v = (if v <s 0 then out_of_bounds else Inr (scast v))"

definition Int8ToUint16 :: "go_int8 \<Rightarrow> goerr + go_uint16" where
  "Int8ToUint16 v = (if v <s 0 then out_of_bounds else Inr (scast v))"

definition Int8ToUint32 :: "go_int8 \<Rightarrow> goerr + go_uint32" where
  "Int8ToUint32 v = (if v <s 0 then out_of_bounds else Inr (scast v))"

definition Int8ToUint64 :: "go_int8 \<Rightarrow> goerr + go_uint64" where
  "Int8ToUint64 v = (if v <s 0 then out_of_bounds else Inr (scast v))"

definition Int16ToInt8 :: "go_int16 \<Rightarrow> goerr + go_int8" where
  "Int16ToInt8 v = (let r = scast v in if scast r \<noteq> v then out_of_bounds else Inr r)"

definition Int16ToUint :: "go_int16 \<Rightarrow> goerr + go_uint" where
  "Int16ToUint v = (if v <s 0 then out_of_bounds else Inr (scast v))"

definition Int16ToUint8 :: "go_int16 \<Rightarrow> goerr + go_uint8" where
  "Int16ToUint8 v = (if v <s 0 then out_of_bounds else
     let r = scast v in if ucast r \<noteq> v then out_of_bounds else Inr r)"

definition Int16ToUint16 :: "go_int16 \<Rightarrow> goerr + go_uint16" where
  "Int16ToUint16 v = (if v <s 0 then out_of_bounds else
     let r = scast v in if ucast r \<noteq> v then out_of_bounds else Inr r)"

definition Int16ToUint32 :: "go_int16 \<Rightarrow> goerr + go_uint32" where
  "Int16ToUint32 v = (if v <s 0 then out_of_bounds else Inr (scast v))"

definition Int16ToUint64 :: "go_int16 \<Rightarrow> goerr + go_uint64" where
  "Int16ToUint64 v = (if v <s 0 then out_of_bounds else Inr (scast v))"

definition Int32ToInt8 :: "go_int32 \<Rightarrow> goerr + go_int8" where
  "Int32ToInt8 v = (let r = scast v in if scast r \<noteq> v then out_of_bounds else Inr r)"

definition Int32ToInt16 :: "go_int32 \<Rightarrow> goerr + go_int16" where
  "Int32ToInt16 v = (let r = scast v in if scast r \<noteq> v then out_of_bounds else Inr r)"

definition Int32ToUint :: "go_int32 \<Rightarrow> goerr + go_uint" where
  "Int32ToUint v = (if v <s 0 then out_of_bounds else Inr (scast v))"

definition Int32ToUint8 :: "go_int32 \<Rightarrow> goerr + go_uint8" where
  "Int32ToUint8 v = (if v <s 0 then out_of_bounds else
     let r = scast v in if ucast r \<noteq> v then out_of_bounds else Inr r)"

definition Int32ToUint16 :: "go_int32 \<Rightarrow> goerr + go_uint16" where
  "Int32ToUint16 v = (if v <s 0 then out_of_bounds else
     let r = scast v in if ucast r \<noteq> v then out_of_bounds else Inr r)"

definition Int32ToUint32 :: "go_int32 \<Rightarrow> goerr + go_uint32" where
  "Int32ToUint32 v = (if v <s 0 then out_of_bounds else Inr (scast v))"

definition Int32ToUint64 :: "go_int32 \<Rightarrow> goerr + go_uint64" where
  "Int32ToUint64 v = (if v <s 0 then out_of_bounds else Inr (scast v))"

definition Int64ToInt :: "go_int64 \<Rightarrow> goerr + go_int" where
  "Int64ToInt v = (let r = scast v in if scast r \<noteq> v then out_of_bounds else Inr r)"

definition Int64ToInt8 :: "go_int64 \<Rightarrow> goerr + go_int8" where
  "Int64ToInt8 v = (let r = scast v in if scast r \<noteq> v then out_of_bounds else Inr r)"

definition Int64ToInt16 :: "go_int64 \<Rightarrow> goerr + go_int16" where
  "Int64ToInt16 v = (let r = scast v in if scast r \<noteq> v then out_of_bounds else Inr r)"

definition Int64ToInt32 :: "go_int64 \<Rightarrow> goerr + go_int32" where
  "Int64ToInt32 v = (let r = scast v in if scast r \<noteq> v then out_of_bounds else Inr r)"

definition Int64ToUint :: "go_int64 \<Rightarrow> goerr + go_uint" where
  "Int64ToUint v = (if v <s 0 then out_of_bounds else
     let r = scast v in if ucast r \<noteq> v then out_of_bounds else Inr r)"

definition Int64ToUint8 :: "go_int64 \<Rightarrow> goerr + go_uint8" where
  "Int64ToUint8 v = (if v <s 0 then out_of_bounds else
     let r = scast v in if ucast r \<noteq> v then out_of_bounds else Inr r)"

definition Int64ToUint16 :: "go_int64 \<Rightarrow> goerr + go_uint16" where
  "Int64ToUint16 v = (if v <s 0 then out_of_bounds else
     let r = scast v in if ucast r \<noteq> v then out_of_bounds else Inr r)"

definition Int64ToUint32 :: "go_int64 \<Rightarrow> goerr + go_uint32" where
  "Int64ToUint32 v = (if v <s 0 then out_of_bounds else
     let r = scast v in if ucast r \<noteq> v then out_of_bounds else Inr r)"

definition Int64ToUint64 :: "go_int64 \<Rightarrow> goerr + go_uint64" where
  "Int64ToUint64 v = (if v <s 0 then out_of_bounds else Inr (scast v))"

definition IntToInt8 :: "go_int \<Rightarrow> goerr + go_int8" where
  "IntToInt8 v = (let r = scast v in if scast r \<noteq> v then out_of_bounds else Inr r)"

definition IntToInt16 :: "go_int \<Rightarrow> goerr + go_int16" where
  "IntToInt16 v = (let r = scast v in if scast r \<noteq> v then out_of_bounds else Inr r)"

definition IntToInt32 :: "go_int \<Rightarrow> goerr + go_int32" where
  "IntToInt32 v = (let r = scast v in if scast r \<noteq> v then out_of_bounds else Inr r)"

definition IntToUint8 :: "go_int \<Rightarrow> goerr + go_uint8" where
  "IntToUint8 v = (if v <s 0 then out_of_bounds else
     let r = scast v in if ucast r \<noteq> v then out_of_bounds else Inr r)"

definition IntToUint16 :: "go_int \<Rightarrow> goerr + go_uint16" where
  "IntToUint16 v = (if v <s 0 then out_of_bounds else
     let r = scast v in if ucast r \<noteq> v then out_of_bounds else Inr r)"

definition IntToUint32 :: "go_int \<Rightarrow> goerr + go_uint32" where
  "IntToUint32 v = (if v <s 0 then out_of_bounds else
     let r = scast v in if ucast r \<noteq> v then out_of_bounds else Inr r)"

definition IntToUint64 :: "go_int \<Rightarrow> goerr + go_uint64" where
  "IntToUint64 v = (if v <s 0 then out_of_bounds else Inr (scast v))"

definition Uint8ToInt8 :: "go_uint8 \<Rightarrow> goerr + go_int8" where
  "Uint8ToInt8 v = (if 127 < v then out_of_bounds else Inr (ucast v))"

definition Uint16ToInt8 :: "go_uint16 \<Rightarrow> goerr + go_int8" where
  "Uint16ToInt8 v = (if 127 < v then out_of_bounds else Inr (ucast v))"

definition Uint16ToInt16 :: "go_uint16 \<Rightarrow> goerr + go_int16" where
  "Uint16ToInt16 v = (if 32767 < v then out_of_bounds else Inr (ucast v))"

definition Uint16ToUint8 :: "go_uint16 \<Rightarrow> goerr + go_uint8" where
  "Uint16ToUint8 v = (if 255 < v then out_of_bounds else Inr (ucast v))"

definition Uint32ToInt :: "go_uint32 \<Rightarrow> goerr + go_int" where
  "Uint32ToInt v = (let r = ucast v in if r <s 0 then out_of_bounds else Inr r)"

definition Uint32ToInt8 :: "go_uint32 \<Rightarrow> goerr + go_int8" where
  "Uint32ToInt8 v = (if 127 < v then out_of_bounds else Inr (ucast v))"

definition Uint32ToInt16 :: "go_uint32 \<Rightarrow> goerr + go_int16" where
  "Uint32ToInt16 v = (if 32767 < v then out_of_bounds else Inr (ucast v))"

definition Uint32ToInt32 :: "go_uint32 \<Rightarrow> goerr + go_int32" where
  "Uint32ToInt32 v = (if 2147483647 < v then out_of_bounds else Inr (ucast v))"

definition Uint32ToUint8 :: "go_uint32 \<Rightarrow> goerr + go_uint8" where
  "Uint32ToUint8 v = (if 255 < v then out_of_bounds else Inr (ucast v))"

definition Uint32ToUint16 :: "go_uint32 \<Rightarrow> goerr + go_uint16" where
  "Uint32ToUint16 v = (if 65535 < v then out_of_bounds else Inr (ucast v))"

definition Uint64ToInt :: "go_uint64 \<Rightarrow> goerr + go_int" where
  "Uint64ToInt v = (let r = ucast v in if r <s 0 then out_of_bounds else
     if ucast r \<noteq> v then out_of_bounds else Inr r)"

definition Uint64ToInt8 :: "go_uint64 \<Rightarrow> goerr + go_int8" where
  "Uint64ToInt8 v = (if 127 < v then out_of_bounds else Inr (ucast v))"

definition Uint64ToInt16 :: "go_uint64 \<Rightarrow> goerr + go_int16" where
  "Uint64ToInt16 v = (if 32767 < v then out_of_bounds else Inr (ucast v))"

definition Uint64ToInt32 :: "go_uint64 \<Rightarrow> goerr + go_int32" where
  "Uint64ToInt32 v = (if 2147483647 < v then out_of_bounds else Inr (ucast v))"

definition Uint64ToInt64 :: "go_uint64 \<Rightarrow> goerr + go_int64" where
  "Uint64ToInt64 v = (if 9223372036854775807 < v then out_of_bounds else Inr (ucast v))"

definition Uint64ToUint :: "go_uint64 \<Rightarrow> goerr + go_uint" where
  "Uint64ToUint v = (let r = ucast v in if ucast r \<noteq> v then out_of_bounds else Inr r)"

definition Uint64ToUint8 :: "go_uint64 \<Rightarrow> goerr + go_uint8" where
  "Uint64ToUint8 v = (if 255 < v then out_of_bounds else Inr (ucast v))"

definition Uint64ToUint16 :: "go_uint64 \<Rightarrow> goerr + go_uint16" where
  "Uint64ToUint16 v = (if 65535 < v then out_of_bounds else Inr (ucast v))"

definition Uint64ToUint32 :: "go_uint64 \<Rightarrow> goerr + go_uint32" where
  "Uint64ToUint32 v = (if 4294967295 < v then out_of_bounds else Inr (ucast v))"

definition UintToInt8 :: "go_uint \<Rightarrow> goerr + go_int8" where
  "UintToInt8 v = (if 127 < v then out_of_bounds else Inr (ucast v))"

definition UintToInt16 :: "go_uint \<Rightarrow> goerr + go_int16" where
  "UintToInt16 v = (if 32767 < v then out_of_bounds else Inr (ucast v))"

definition UintToInt32 :: "go_uint \<Rightarrow> goerr + go_int32" where
  "UintToInt32 v = (if 2147483647 < v then out_of_bounds else Inr (ucast v))"

definition UintToInt64 :: "go_uint \<Rightarrow> goerr + go_int64" where
  "UintToInt64 v = (if 9223372036854775807 < v then out_of_bounds else Inr (ucast v))"

definition UintToUint8 :: "go_uint \<Rightarrow> goerr + go_uint8" where
  "UintToUint8 v = (if 255 < v then out_of_bounds else Inr (ucast v))"

definition UintToUint16 :: "go_uint \<Rightarrow> goerr + go_uint16" where
  "UintToUint16 v = (if 65535 < v then out_of_bounds else Inr (ucast v))"

definition UintToUint32 :: "go_uint \<Rightarrow> goerr + go_uint32" where
  "UintToUint32 v = (if 4294967295 < v then out_of_bounds else Inr (ucast v))"

section \<open>The contract\<close>

text \<open>
  \<open>to_unsigned i r\<close>: the conversion of the number \<open>i\<close> ended as \<open>r\<close>, which is the same
  number as an unsigned word, or the panic when no word of that width is \<open>i\<close>;
  \<open>to_signed\<close> likewise in two's complement.
\<close>

definition to_unsigned :: "int \<Rightarrow> goerr + 'b::len word \<Rightarrow> bool" where
  "to_unsigned i r = (case r of
     Inr w \<Rightarrow> uint w = i
   | Inl e \<Rightarrow> e = Panic ''out of bounds'' \<and> (i < 0 \<or> 2 ^ LENGTH('b) \<le> i))"

definition to_signed :: "int \<Rightarrow> goerr + 'b::len word \<Rightarrow> bool" where
  "to_signed i r = (case r of
     Inr w \<Rightarrow> sint w = i
   | Inl e \<Rightarrow> e = Panic ''out of bounds'' \<and>
       (i < - (2 ^ (LENGTH('b) - 1)) \<or> 2 ^ (LENGTH('b) - 1) \<le> i))"
text \<open>The contract determines the outcome: there is one right answer.\<close>

lemma to_unsigned_unique: 
  fixes r :: "goerr + 'b::len word"
  shows "to_unsigned i r \<Longrightarrow> to_unsigned i r' \<Longrightarrow> r = r'"
  using uint_lt2p[where 'a='b] uint_ge_0[where 'a='b] by (fastforce simp: to_unsigned_def word_uint_eq_iff split: sum.splits dest: leD)

section \<open>The shapes of the conversions\<close>

text \<open>
  The source uses seven bodies, at every pair of widths.  Each is exact at all widths for
  which it is used; a conversion is then an instance.
\<close>

lemma uint_scast: "uint (scast (v :: 'a::len word) :: 'b::len word) = sint v mod 2 ^ LENGTH('b)"
  unfolding scast_eq by (rule uint_word_of_int)

lemma sint_scast: "sint (scast (v :: 'a::len word) :: 'b::len word) = signed_take_bit (LENGTH('b) - 1) (sint v)"
  by (simp add: signed_scast_eq)

lemma pow_len_mono: "LENGTH('a::len) \<le> LENGTH('b::len) \<Longrightarrow> (2::int) ^ (LENGTH('a) - 1) < 2 ^ LENGTH('b)"
  by (intro power_strict_increasing) (auto intro: le_less_trans diff_less order_less_le_trans)

lemma shape_extend:
  assumes "LENGTH('a::len) \<le> LENGTH('b::len)"
  shows "to_unsigned (sint (v :: 'a word)) (if v <s 0 then out_of_bounds else Inr (scast v :: 'b word))"
proof -
  have "sint v < 2 ^ LENGTH('b)"
    using sint_lt[of v] pow_len_mono[OF assms] by linarith
  then show ?thesis
    by (auto simp: to_unsigned_def word_sless_alt uint_scast)
qed

lemma sint_scast_id:
  assumes "LENGTH('b::len) \<le> LENGTH('a::len)"
  shows "sint (scast (r :: 'b word) :: 'a word) = sint r"
proof -
  have p: "(2::int) ^ (LENGTH('b) - 1) \<le> 2 ^ (LENGTH('a) - 1)"
    using assms by (intro power_increasing) auto
  have "sint r < 2 ^ (LENGTH('a) - 1)" "- (2 ^ (LENGTH('a) - 1)) \<le> sint r"
    using sint_lt[of r] sint_ge[of r] p by linarith+
  then show ?thesis
    by (simp add: sint_scast signed_take_bit_int_eq_self)
qed

lemma shape_signed:
  assumes "LENGTH('b::len) \<le> LENGTH('a::len)"
  shows "to_signed (sint (v :: 'a word))
    (let r = scast v :: 'b word in if scast r \<noteq> v then out_of_bounds else Inr r)"
proof -
  let ?r = "scast v :: 'b word"
  have eq: "scast ?r = v \<longleftrightarrow> sint ?r = sint v"
    using sint_scast_id[OF assms, of ?r] by (metis signed_word_eqI)
  show ?thesis
  proof (cases "sint ?r = sint v")
    case True then show ?thesis by (simp add: eq to_signed_def Let_def)
  next
    case False
    then have "sint v < - (2 ^ (LENGTH('b) - 1)) \<or> 2 ^ (LENGTH('b) - 1) \<le> sint v"
      by (auto simp: sint_scast signed_take_bit_int_eq_self_iff)
    with False show ?thesis by (simp add: eq to_signed_def Let_def)
  qed
qed

lemma sint_uint_nonneg: "0 \<le> sint (v :: 'a::len word) \<Longrightarrow> uint v = sint v"
proof -
  assume nn: "0 \<le> sint v"
  have "(2::int) ^ (LENGTH('a) - 1) \<le> 2 ^ LENGTH('a)" by (intro power_increasing) auto
  with sint_lt [of v] have "sint v < 2 ^ LENGTH('a)" by linarith
  with nn show ?thesis using uint_scast [of v, where 'b = 'a] by simp
qed

lemma uint_ucast_id:
  assumes "LENGTH('b::len) \<le> LENGTH('a::len)"
  shows "uint (ucast (r :: 'b word) :: 'a word) = uint r"
  using assms by (simp add: uint_up_ucast is_up_def target_size source_size)

lemma shape_unsigned:
  assumes "LENGTH('b::len) \<le> LENGTH('a::len)"
  shows "to_unsigned (sint (v :: 'a word))
    (if v <s 0 then out_of_bounds else
     let r = scast v :: 'b word in if ucast r \<noteq> v then out_of_bounds else Inr r)"
proof (cases "v <s 0")
  case True then show ?thesis by (simp add: to_unsigned_def word_sless_alt)
next
  case False
  let ?r = "scast v :: 'b word"
  from False have nn: "0 \<le> sint v" by (simp add: word_sless_alt)
  then have uv: "uint v = sint v"
    using sint_uint_nonneg by blast
  have eq: "ucast ?r = v \<longleftrightarrow> uint ?r = sint v"
    using uint_ucast_id[OF assms, of ?r] uv by (auto simp: word_uint_eq_iff)
  show ?thesis
  proof (cases "uint ?r = sint v")
    case True then show ?thesis using False by (simp add: eq to_unsigned_def Let_def)
  next
    case ne: False
    then have "2 ^ LENGTH('b) \<le> sint v"
      using nn by (auto simp: uint_scast intro: ccontr)
    with ne False show ?thesis by (simp add: eq to_unsigned_def Let_def)
  qed
qed

lemma shape_max_signed:
  assumes "uint m = 2 ^ (LENGTH('b::len) - 1) - 1"
  shows "to_signed (uint (v :: 'a::len word)) (if m < v then out_of_bounds else Inr (ucast v :: 'b word))"
proof (cases "m < v")
  case True
  with assms show ?thesis by (auto simp: to_signed_def word_less_def)
next
  case False
  then have "uint v < 2 ^ (LENGTH('b) - 1)"
    using assms by (simp add: word_less_def)
  moreover have "- (2 ^ (LENGTH('b) - 1)) \<le> uint v"
    using uint_ge_0 [of v] by (smt (verit) zero_le_power)
  ultimately have "sint (ucast v :: 'b word) = uint v"
    by (simp add: signed_ucast_eq signed_take_bit_int_eq_self)
  with False show ?thesis by (simp add: to_signed_def)
qed

lemma shape_max_unsigned:
  assumes "uint m = 2 ^ LENGTH('b::len) - 1"
  shows "to_unsigned (uint (v :: 'a::len word)) (if m < v then out_of_bounds else Inr (ucast v :: 'b word))"
proof (cases "m < v")
  case True
  with assms show ?thesis by (auto simp: to_unsigned_def word_less_def)
next
  case False
  then have "uint v < 2 ^ LENGTH('b)"
    using assms by (simp add: word_less_def)
  then have "uint (ucast v :: 'b word) = uint v"
    by (simp add: unsigned_ucast_eq take_bit_int_eq_self)
  with False show ?thesis by (simp add: to_unsigned_def)
qed

lemma neg_power_le_uint: "- (2 ^ n) \<le> uint v"
  by (rule order_trans [OF _ uint_ge_0]) simp

lemma shape_widen:
  "to_signed (uint (v :: 32 word)) (let r = ucast v :: 64 word in if r <s 0 then out_of_bounds else Inr r)"
proof -
  have b: "uint v < 2 ^ 32" "0 \<le> uint v"
    using uint_lt2p [of v] by simp_all
  have "signed_take_bit 63 (uint v) = uint v"
    by (rule signed_take_bit_int_eq_self [OF neg_power_le_uint]) (use b in simp)
  then have "sint (ucast v :: 64 word) = uint v"
    by (simp add: signed_ucast_eq)
  then show ?thesis by (simp add: to_signed_def word_sless_alt Let_def)
qed

lemma shape_same_width:
  "to_signed (uint (v :: 64 word)) (let r = ucast v :: 64 word in if r <s 0 then out_of_bounds else
     if ucast r \<noteq> v then out_of_bounds else Inr r)"
proof (cases "v <s 0")
  case True
  have "\<not> uint v < 2 ^ 63"
  proof
    assume "uint v < 2 ^ 63"
    then have "signed_take_bit 63 (uint v) = uint v"
      by (intro signed_take_bit_int_eq_self [OF neg_power_le_uint]) simp
    then have "0 \<le> sint v" by (simp add: sint_uint)
    with True show False by (simp add: word_sless_alt)
  qed
  with True show ?thesis by (simp add: to_signed_def Let_def not_less)
next
  case False
  then show ?thesis
    by (simp add: to_signed_def Let_def word_sless_alt sint_uint_nonneg)
qed


section \<open>Each conversion meets the contract\<close>

named_theorems safecast "the conversions return the same number or panic"

lemma Int8ToUint_exact [safecast]: "to_unsigned (sint v) (Int8ToUint v)"
  unfolding Int8ToUint_def by (rule shape_extend) simp

lemma Int8ToUint8_exact [safecast]: "to_unsigned (sint v) (Int8ToUint8 v)"
  unfolding Int8ToUint8_def by (rule shape_extend) simp

lemma Int8ToUint16_exact [safecast]: "to_unsigned (sint v) (Int8ToUint16 v)"
  unfolding Int8ToUint16_def by (rule shape_extend) simp

lemma Int8ToUint32_exact [safecast]: "to_unsigned (sint v) (Int8ToUint32 v)"
  unfolding Int8ToUint32_def by (rule shape_extend) simp

lemma Int8ToUint64_exact [safecast]: "to_unsigned (sint v) (Int8ToUint64 v)"
  unfolding Int8ToUint64_def by (rule shape_extend) simp

lemma Int16ToInt8_exact [safecast]: "to_signed (sint v) (Int16ToInt8 v)"
  unfolding Int16ToInt8_def by (rule shape_signed) simp

lemma Int16ToUint_exact [safecast]: "to_unsigned (sint v) (Int16ToUint v)"
  unfolding Int16ToUint_def by (rule shape_extend) simp

lemma Int16ToUint8_exact [safecast]: "to_unsigned (sint v) (Int16ToUint8 v)"
  unfolding Int16ToUint8_def by (rule shape_unsigned) simp

lemma Int16ToUint16_exact [safecast]: "to_unsigned (sint v) (Int16ToUint16 v)"
  unfolding Int16ToUint16_def by (rule shape_unsigned) simp

lemma Int16ToUint32_exact [safecast]: "to_unsigned (sint v) (Int16ToUint32 v)"
  unfolding Int16ToUint32_def by (rule shape_extend) simp

lemma Int16ToUint64_exact [safecast]: "to_unsigned (sint v) (Int16ToUint64 v)"
  unfolding Int16ToUint64_def by (rule shape_extend) simp

lemma Int32ToInt8_exact [safecast]: "to_signed (sint v) (Int32ToInt8 v)"
  unfolding Int32ToInt8_def by (rule shape_signed) simp

lemma Int32ToInt16_exact [safecast]: "to_signed (sint v) (Int32ToInt16 v)"
  unfolding Int32ToInt16_def by (rule shape_signed) simp

lemma Int32ToUint_exact [safecast]: "to_unsigned (sint v) (Int32ToUint v)"
  unfolding Int32ToUint_def by (rule shape_extend) simp

lemma Int32ToUint8_exact [safecast]: "to_unsigned (sint v) (Int32ToUint8 v)"
  unfolding Int32ToUint8_def by (rule shape_unsigned) simp

lemma Int32ToUint16_exact [safecast]: "to_unsigned (sint v) (Int32ToUint16 v)"
  unfolding Int32ToUint16_def by (rule shape_unsigned) simp

lemma Int32ToUint32_exact [safecast]: "to_unsigned (sint v) (Int32ToUint32 v)"
  unfolding Int32ToUint32_def by (rule shape_extend) simp

lemma Int32ToUint64_exact [safecast]: "to_unsigned (sint v) (Int32ToUint64 v)"
  unfolding Int32ToUint64_def by (rule shape_extend) simp

lemma Int64ToInt_exact [safecast]: "to_signed (sint v) (Int64ToInt v)"
  unfolding Int64ToInt_def by (rule shape_signed) simp

lemma Int64ToInt8_exact [safecast]: "to_signed (sint v) (Int64ToInt8 v)"
  unfolding Int64ToInt8_def by (rule shape_signed) simp

lemma Int64ToInt16_exact [safecast]: "to_signed (sint v) (Int64ToInt16 v)"
  unfolding Int64ToInt16_def by (rule shape_signed) simp

lemma Int64ToInt32_exact [safecast]: "to_signed (sint v) (Int64ToInt32 v)"
  unfolding Int64ToInt32_def by (rule shape_signed) simp

lemma Int64ToUint_exact [safecast]: "to_unsigned (sint v) (Int64ToUint v)"
  unfolding Int64ToUint_def by (rule shape_unsigned) simp

lemma Int64ToUint8_exact [safecast]: "to_unsigned (sint v) (Int64ToUint8 v)"
  unfolding Int64ToUint8_def by (rule shape_unsigned) simp

lemma Int64ToUint16_exact [safecast]: "to_unsigned (sint v) (Int64ToUint16 v)"
  unfolding Int64ToUint16_def by (rule shape_unsigned) simp

lemma Int64ToUint32_exact [safecast]: "to_unsigned (sint v) (Int64ToUint32 v)"
  unfolding Int64ToUint32_def by (rule shape_unsigned) simp

lemma Int64ToUint64_exact [safecast]: "to_unsigned (sint v) (Int64ToUint64 v)"
  unfolding Int64ToUint64_def by (rule shape_extend) simp

lemma IntToInt8_exact [safecast]: "to_signed (sint v) (IntToInt8 v)"
  unfolding IntToInt8_def by (rule shape_signed) simp

lemma IntToInt16_exact [safecast]: "to_signed (sint v) (IntToInt16 v)"
  unfolding IntToInt16_def by (rule shape_signed) simp

lemma IntToInt32_exact [safecast]: "to_signed (sint v) (IntToInt32 v)"
  unfolding IntToInt32_def by (rule shape_signed) simp

lemma IntToUint8_exact [safecast]: "to_unsigned (sint v) (IntToUint8 v)"
  unfolding IntToUint8_def by (rule shape_unsigned) simp

lemma IntToUint16_exact [safecast]: "to_unsigned (sint v) (IntToUint16 v)"
  unfolding IntToUint16_def by (rule shape_unsigned) simp

lemma IntToUint32_exact [safecast]: "to_unsigned (sint v) (IntToUint32 v)"
  unfolding IntToUint32_def by (rule shape_unsigned) simp

lemma IntToUint64_exact [safecast]: "to_unsigned (sint v) (IntToUint64 v)"
  unfolding IntToUint64_def by (rule shape_extend) simp

lemma Uint8ToInt8_exact [safecast]: "to_signed (uint v) (Uint8ToInt8 v)"
  unfolding Uint8ToInt8_def by (rule shape_max_signed) simp

lemma Uint16ToInt8_exact [safecast]: "to_signed (uint v) (Uint16ToInt8 v)"
  unfolding Uint16ToInt8_def by (rule shape_max_signed) simp

lemma Uint16ToInt16_exact [safecast]: "to_signed (uint v) (Uint16ToInt16 v)"
  unfolding Uint16ToInt16_def by (rule shape_max_signed) simp

lemma Uint16ToUint8_exact [safecast]: "to_unsigned (uint v) (Uint16ToUint8 v)"
  unfolding Uint16ToUint8_def by (rule shape_max_unsigned) simp

lemma Uint32ToInt_exact [safecast]: "to_signed (uint v) (Uint32ToInt v)"
  unfolding Uint32ToInt_def by (rule shape_widen)

lemma Uint32ToInt8_exact [safecast]: "to_signed (uint v) (Uint32ToInt8 v)"
  unfolding Uint32ToInt8_def by (rule shape_max_signed) simp

lemma Uint32ToInt16_exact [safecast]: "to_signed (uint v) (Uint32ToInt16 v)"
  unfolding Uint32ToInt16_def by (rule shape_max_signed) simp

lemma Uint32ToInt32_exact [safecast]: "to_signed (uint v) (Uint32ToInt32 v)"
  unfolding Uint32ToInt32_def by (rule shape_max_signed) simp

lemma Uint32ToUint8_exact [safecast]: "to_unsigned (uint v) (Uint32ToUint8 v)"
  unfolding Uint32ToUint8_def by (rule shape_max_unsigned) simp

lemma Uint32ToUint16_exact [safecast]: "to_unsigned (uint v) (Uint32ToUint16 v)"
  unfolding Uint32ToUint16_def by (rule shape_max_unsigned) simp

lemma Uint64ToInt_exact [safecast]: "to_signed (uint v) (Uint64ToInt v)"
  unfolding Uint64ToInt_def by (rule shape_same_width)

lemma Uint64ToInt8_exact [safecast]: "to_signed (uint v) (Uint64ToInt8 v)"
  unfolding Uint64ToInt8_def by (rule shape_max_signed) simp

lemma Uint64ToInt16_exact [safecast]: "to_signed (uint v) (Uint64ToInt16 v)"
  unfolding Uint64ToInt16_def by (rule shape_max_signed) simp

lemma Uint64ToInt32_exact [safecast]: "to_signed (uint v) (Uint64ToInt32 v)"
  unfolding Uint64ToInt32_def by (rule shape_max_signed) simp

lemma Uint64ToInt64_exact [safecast]: "to_signed (uint v) (Uint64ToInt64 v)"
  unfolding Uint64ToInt64_def by (rule shape_max_signed) simp

lemma Uint64ToUint_exact [safecast]: "to_unsigned (uint v) (Uint64ToUint v)"
  by (simp add: Uint64ToUint_def to_unsigned_def)

lemma Uint64ToUint8_exact [safecast]: "to_unsigned (uint v) (Uint64ToUint8 v)"
  unfolding Uint64ToUint8_def by (rule shape_max_unsigned) simp

lemma Uint64ToUint16_exact [safecast]: "to_unsigned (uint v) (Uint64ToUint16 v)"
  unfolding Uint64ToUint16_def by (rule shape_max_unsigned) simp

lemma Uint64ToUint32_exact [safecast]: "to_unsigned (uint v) (Uint64ToUint32 v)"
  unfolding Uint64ToUint32_def by (rule shape_max_unsigned) simp

lemma UintToInt8_exact [safecast]: "to_signed (uint v) (UintToInt8 v)"
  unfolding UintToInt8_def by (rule shape_max_signed) simp

lemma UintToInt16_exact [safecast]: "to_signed (uint v) (UintToInt16 v)"
  unfolding UintToInt16_def by (rule shape_max_signed) simp

lemma UintToInt32_exact [safecast]: "to_signed (uint v) (UintToInt32 v)"
  unfolding UintToInt32_def by (rule shape_max_signed) simp

lemma UintToInt64_exact [safecast]: "to_signed (uint v) (UintToInt64 v)"
  unfolding UintToInt64_def by (rule shape_max_signed) simp

lemma UintToUint8_exact [safecast]: "to_unsigned (uint v) (UintToUint8 v)"
  unfolding UintToUint8_def by (rule shape_max_unsigned) simp

lemma UintToUint16_exact [safecast]: "to_unsigned (uint v) (UintToUint16 v)"
  unfolding UintToUint16_def by (rule shape_max_unsigned) simp

lemma UintToUint32_exact [safecast]: "to_unsigned (uint v) (UintToUint32 v)"
  unfolding UintToUint32_def by (rule shape_max_unsigned) simp

section \<open>The package's contract\<close>

text \<open>
  C30: Every conversion from a signed type, to a signed or an unsigned one, returns the
  same number in the target type, and panics exactly on the numbers the target type
  does not have.
\<close>

theorem safecast_signed_exact:
  "to_unsigned (sint a) (Int8ToUint a) \<and>
   to_unsigned (sint a) (Int8ToUint8 a) \<and>
   to_unsigned (sint a) (Int8ToUint16 a) \<and>
   to_unsigned (sint a) (Int8ToUint32 a) \<and>
   to_unsigned (sint a) (Int8ToUint64 a) \<and>
   to_unsigned (sint b) (Int16ToUint b) \<and>
   to_unsigned (sint b) (Int16ToUint8 b) \<and>
   to_unsigned (sint b) (Int16ToUint16 b) \<and>
   to_unsigned (sint b) (Int16ToUint32 b) \<and>
   to_unsigned (sint b) (Int16ToUint64 b) \<and>
   to_unsigned (sint c) (Int32ToUint c) \<and>
   to_unsigned (sint c) (Int32ToUint8 c) \<and>
   to_unsigned (sint c) (Int32ToUint16 c) \<and>
   to_unsigned (sint c) (Int32ToUint32 c) \<and>
   to_unsigned (sint c) (Int32ToUint64 c) \<and>
   to_unsigned (sint d) (Int64ToUint d) \<and>
   to_unsigned (sint d) (Int64ToUint8 d) \<and>
   to_unsigned (sint d) (Int64ToUint16 d) \<and>
   to_unsigned (sint d) (Int64ToUint32 d) \<and>
   to_unsigned (sint d) (Int64ToUint64 d) \<and>
   to_unsigned (sint d) (IntToUint8 d) \<and>
   to_unsigned (sint d) (IntToUint16 d) \<and>
   to_unsigned (sint d) (IntToUint32 d) \<and>
   to_unsigned (sint d) (IntToUint64 d) \<and>
   to_signed (sint b) (Int16ToInt8 b) \<and>
   to_signed (sint c) (Int32ToInt8 c) \<and>
   to_signed (sint c) (Int32ToInt16 c) \<and>
   to_signed (sint d) (Int64ToInt d) \<and>
   to_signed (sint d) (Int64ToInt8 d) \<and>
   to_signed (sint d) (Int64ToInt16 d) \<and>
   to_signed (sint d) (Int64ToInt32 d) \<and>
   to_signed (sint d) (IntToInt8 d) \<and>
   to_signed (sint d) (IntToInt16 d) \<and>
   to_signed (sint d) (IntToInt32 d)"
  by (intro conjI safecast)

text \<open>
  C31: Every conversion from an unsigned type returns the same number in the target type,
  and panics exactly on the numbers the target type does not have.
\<close>

theorem safecast_unsigned_exact:
  "to_signed (uint a) (Uint8ToInt8 a) \<and>
   to_signed (uint b) (Uint16ToInt8 b) \<and>
   to_signed (uint b) (Uint16ToInt16 b) \<and>
   to_signed (uint c) (Uint32ToInt c) \<and>
   to_signed (uint c) (Uint32ToInt8 c) \<and>
   to_signed (uint c) (Uint32ToInt16 c) \<and>
   to_signed (uint c) (Uint32ToInt32 c) \<and>
   to_signed (uint d) (Uint64ToInt d) \<and>
   to_signed (uint d) (Uint64ToInt8 d) \<and>
   to_signed (uint d) (Uint64ToInt16 d) \<and>
   to_signed (uint d) (Uint64ToInt32 d) \<and>
   to_signed (uint d) (Uint64ToInt64 d) \<and>
   to_signed (uint d) (UintToInt8 d) \<and>
   to_signed (uint d) (UintToInt16 d) \<and>
   to_signed (uint d) (UintToInt32 d) \<and>
   to_signed (uint d) (UintToInt64 d) \<and>
   to_unsigned (uint b) (Uint16ToUint8 b) \<and>
   to_unsigned (uint c) (Uint32ToUint8 c) \<and>
   to_unsigned (uint c) (Uint32ToUint16 c) \<and>
   to_unsigned (uint d) (Uint64ToUint d) \<and>
   to_unsigned (uint d) (Uint64ToUint8 d) \<and>
   to_unsigned (uint d) (Uint64ToUint16 d) \<and>
   to_unsigned (uint d) (Uint64ToUint32 d) \<and>
   to_unsigned (uint d) (UintToUint8 d) \<and>
   to_unsigned (uint d) (UintToUint16 d) \<and>
   to_unsigned (uint d) (UintToUint32 d)"
  by (intro conjI safecast)

end
