(* ===== verification/Objects.thy ===== *)
theory Objects
  imports Prelude
begin

text \<open>
  The interfaces of \<open>pkg/storage/driver/object.go\<close> that the rest of the program reads
  through: an object of known size, \<open>ReadAt\<close> into the caller's buffer, and \<open>Seek\<close>.  An
  implementation states its contract once, as an interpretation of \<open>read_object\<close> or
  \<open>seekable\<close>; what clients need is proved inside the locales.
\<close>

section \<open>Objects\<close>

text \<open>
  \<open>ReadAt p off\<close> takes the caller's buffer and gives the buffer afterwards, the count
  \<open>n\<close> and the error.  Go passes a slice of a larger buffer; the callee can write the
  slice's bytes only, and the caller puts them back.
\<close>

record AnonymousObject =
  Size :: int
  ReadAt :: "byte list \<Rightarrow> int \<Rightarrow> byte list \<times> int \<times> goerr option"

text \<open>The bytes a call has read: the first \<open>n\<close> of the buffer.\<close>

definition read_bytes :: "byte list \<times> int \<times> goerr option \<Rightarrow> byte list" where
  "read_bytes r = (case r of (p, n, e) \<Rightarrow> take (nat n) p)"

text \<open>
  The contract of a read-only object that holds the bytes \<open>content\<close>.  A call inside the
  object reads up to its end, and reports the end of the file only with a short count; the rest
  of the buffer may be used as scratch space, as \<open>io.ReaderAt\<close> allows.
\<close>

definition reads_from :: "byte list \<Rightarrow> int \<Rightarrow> byte list \<Rightarrow> byte list \<times> int \<times> goerr option \<Rightarrow> bool" where
  "reads_from content off p r = (case r of (p', n, e) \<Rightarrow>
     n = min (int (length p)) (int (length content) - off) \<and>
     length p' = length p \<and>
     take (nat n) p' = take (nat n) (drop (nat off) content) \<and>
     (e = None \<or> e = Some EOF \<and> n < int (length p)))"

locale read_object =
  fixes obj :: AnonymousObject
    and content :: "byte list"
  assumes size_content: "Size obj = int (length content)"
    and read_inside: "0 \<le> off \<Longrightarrow> off < int (length content) \<Longrightarrow> p \<noteq> [] \<Longrightarrow>
          reads_from content off p (ReadAt obj p off)"
    and read_past: "int (length content) \<le> off \<Longrightarrow> p \<noteq> [] \<Longrightarrow> ReadAt obj p off = (p, 0, Some EOF)"
begin

lemma read_bytes_inside:
  assumes "0 \<le> off" "off < int (length content)" "p \<noteq> []"
  shows "read_bytes (ReadAt obj p off) = take (length p) (drop (nat off) content)"
proof -
  obtain p' n e where r: "ReadAt obj p off = (p', n, e)" by (cases "ReadAt obj p off")
  have "nat (min (int (length p)) (int (length content) - off)) = min (length p) (length content - nat off)"
    using assms by linarith
  then show ?thesis
    using read_inside [OF assms] by (auto simp: r reads_from_def read_bytes_def min_def)
qed

text \<open>A request that the object can fill is filled exactly, and only its own bytes appear.\<close>

lemma read_exact:
  assumes "0 \<le> off" "off + int (length p) \<le> int (length content)" "p \<noteq> []"
  shows "ReadAt obj p off = (take (length p) (drop (nat off) content), int (length p), None)"
proof -
  have "off < int (length content)"
    using assms by (cases p) auto
  then have "reads_from content off p (ReadAt obj p off)"
    using assms read_inside by blast
  then show ?thesis
    using assms by (cases "ReadAt obj p off") (auto simp: reads_from_def min_def split: if_splits)
qed

end

section \<open>bytes.Reader\<close>

text \<open>
  \<open>bytes.Reader.ReadAt\<close> of the standard library, which the in-memory drivers read through:
  it copies what fits and reports \<open>io.EOF\<close> with a short count.
\<close>

definition bytes_ReadAt :: "byte list \<Rightarrow> byte list \<Rightarrow> int \<Rightarrow> byte list \<times> int \<times> goerr option" where
  "bytes_ReadAt s b off =
     (if off < 0 then (b, 0, Some (Err ''bytes.Reader.ReadAt: negative offset''))
      else if off \<ge> int (length s) then (b, 0, Some EOF)
      else
        let src = drop (nat off) s; n = min (length b) (length src)
        in (take n src @ drop n b, int n, if n < length b then Some EOF else None))"

definition bytes_object :: "byte list \<Rightarrow> AnonymousObject" where
  "bytes_object s = \<lparr>Size = int (length s), ReadAt = bytes_ReadAt s\<rparr>"

interpretation bytes: read_object "bytes_object s" s for s
proof
  show "Size (bytes_object s) = int (length s)"
    by (simp add: bytes_object_def)
next
  fix off :: int and p :: "byte list"
  assume "0 \<le> off" "off < int (length s)" "p \<noteq> []"
  then show "reads_from s off p (ReadAt (bytes_object s) p off)"
    by (auto simp: bytes_object_def bytes_ReadAt_def reads_from_def Let_def)
qed (auto simp: bytes_object_def bytes_ReadAt_def)

section \<open>Seeking\<close>

definition SeekStart :: int where "SeekStart = 0"
definition SeekCurrent :: int where "SeekCurrent = 1"
definition SeekEnd :: int where "SeekEnd = 2"

lemmas whence_defs = SeekStart_def SeekCurrent_def SeekEnd_def

text \<open>
  Objects that remember a position and clamp it into the object.  The target of a seek is
  the offset, the position plus the offset or the size plus the offset; a \<open>whence\<close> that
  is none of the three leaves the position.
\<close>

definition seek_target :: "int \<Rightarrow> int \<Rightarrow> int \<Rightarrow> int \<Rightarrow> int" where
  "seek_target sz at offset whence =
     (if whence = SeekCurrent then at + offset
      else if whence = SeekStart then offset
      else if whence = SeekEnd then sz + offset else at)"

locale seekable =
  fixes seek :: "'s \<Rightarrow> int \<Rightarrow> int \<Rightarrow> 's \<times> (goerr + int)"
    and pos :: "'s \<Rightarrow> int"
    and sz :: "'s \<Rightarrow> int"
    and usable :: "'s \<Rightarrow> bool"
  assumes seek_known: "usable s \<Longrightarrow> 0 \<le> sz s \<Longrightarrow>
      seek s offset whence = (s', r) \<Longrightarrow>
      pos s' = min (sz s) (max 0 (seek_target (sz s) (pos s) offset whence)) \<and>
      r = Inr (pos s') \<and> sz s' = sz s \<and> usable s'"
begin

lemma seek_in_range:
  assumes "usable s" "0 \<le> sz s" "seek s offset whence = (s', r)"
  shows "0 \<le> pos s' \<and> pos s' \<le> sz s'"
  using seek_known [OF assms] assms(2) by simp

lemma seek_start_exact:
  assumes "usable s" "0 \<le> offset" "offset \<le> sz s" "seek s offset SeekStart = (s', r)"
  shows "pos s' = offset"
  using seek_known [OF assms(1) _ assms(4)] assms(2,3)
  by (simp add: seek_target_def whence_defs)

text \<open>Seeking to where one already is changes nothing: the idiom for telling the position.\<close>

lemma seek_tell:
  assumes "usable s" "0 \<le> pos s" "pos s \<le> sz s" "seek s 0 SeekCurrent = (s', r)"
  shows "pos s' = pos s \<and> r = Inr (pos s)"
  using seek_known [OF assms(1) _ assms(4)] assms(2,3)
  by (simp add: seek_target_def)

end

text \<open>
  The body that the \<open>Seek\<close> methods share, on the position \<open>at\<close> of an object of \<open>sz\<close> bytes:
  the position afterwards and the result.
\<close>

definition pos_Seek :: "int \<Rightarrow> int \<Rightarrow> int \<Rightarrow> int \<Rightarrow> int \<times> (goerr + int)" where
  "pos_Seek sz at offset whence =
     (if whence = SeekEnd \<and> sz < 0 then (at, Inl (Err ''unknown length''))
      else
        let p1 = (if whence = SeekCurrent then at + offset
                  else if whence = SeekStart then offset
                  else if whence = SeekEnd then sz + offset else at);
            p2 = (if p1 < 0 then 0 else if sz \<ge> 0 \<and> p1 > sz then sz else p1)
        in (p2, Inr p2))"

lemma pos_Seek_known:
  "0 \<le> sz \<Longrightarrow> pos_Seek sz at offset whence =
     (min sz (max 0 (seek_target sz at offset whence)), Inr (min sz (max 0 (seek_target sz at offset whence))))"
  by (auto simp: pos_Seek_def seek_target_def whence_defs Let_def min_def max_def)

end
