(* ===== verification/DateTime.thy ===== *)
theory DateTime
  imports Prelude
begin

text \<open>
  \<open>pkg/iso9660/datetime\<close>: the two time formats of ISO 9660, and the parts of package
  \<open>time\<close> behind them.  A \<open>time.Time\<close> is kept as its calendar fields in UTC, which is what
  \<open>t.UTC().Year()\<close> and the other accessors read.
\<close>

section \<open>Package time\<close>

record Time =
  Year :: int
  Month :: int
  Day :: int
  Hour :: int
  Minute :: int
  Second :: int
  Nanosecond :: int

definition isLeap :: "int \<Rightarrow> bool" where
  "isLeap y \<longleftrightarrow> y mod 4 = 0 \<and> (y mod 100 \<noteq> 0 \<or> y mod 400 = 0)"

definition daysIn :: "int \<Rightarrow> int \<Rightarrow> int" where
  "daysIn m y =
     (if m = 2 then (if isLeap y then 29 else 28)
      else if m = 4 \<or> m = 6 \<or> m = 9 \<or> m = 11 then 30 else 31)"

definition valid_time :: "Time \<Rightarrow> bool" where
  "valid_time t \<longleftrightarrow>
     1 \<le> Month t \<and> Month t \<le> 12 \<and> 1 \<le> Day t \<and> Day t \<le> daysIn (Month t) (Year t) \<and>
     0 \<le> Hour t \<and> Hour t < 24 \<and> 0 \<le> Minute t \<and> Minute t < 60 \<and> 0 \<le> Second t \<and> Second t < 60 \<and>
     0 \<le> Nanosecond t \<and> Nanosecond t < 1000000000"

definition epoch :: Time where
  "epoch = \<lparr>Year = 1970, Month = 1, Day = 1, Hour = 0, Minute = 0, Second = 0, Nanosecond = 0\<rparr>"

text \<open>
  \<open>time.Date\<close> takes fields out of range and carries them: seconds into minutes and so on,
  months into years, then days into months.
\<close>

lemma daysIn_bounds: "28 \<le> daysIn m y" "daysIn m y \<le> 31"
  by (simp_all add: daysIn_def)

function carry_days :: "int \<Rightarrow> int \<Rightarrow> int \<Rightarrow> int \<times> int \<times> int" where
  "carry_days y m d =
     (if d < 1 then
        (let y' = (if m = 1 then y - 1 else y); m' = (if m = 1 then 12 else m - 1)
         in carry_days y' m' (d + daysIn m' y'))
      else if d > daysIn m y then
        (if m = 12 then carry_days (y + 1) 1 (d - daysIn m y) else carry_days y (m + 1) (d - daysIn m y))
      else (y, m, d))"
  by pat_completeness auto
termination
proof (relation "measure (\<lambda>(y, m, d). nat (if d < 1 then 100 - d else d))")
  fix y m d y' m' :: int
  assume "d < 1"
  then show "((y', m', d + daysIn m' y'), y, m, d) \<in> measure (\<lambda>(y, m, d). nat (if d < 1 then 100 - d else d))"
    using daysIn_bounds [of m' y'] by auto
next
  fix y m d :: int
  assume "\<not> d < 1" "d > daysIn m y" "m = 12"
  then show "((y + 1, 1, d - daysIn m y), y, m, d) \<in> measure (\<lambda>(y, m, d). nat (if d < 1 then 100 - d else d))"
    using daysIn_bounds [of m y] by auto
next
  fix y m d :: int
  assume "\<not> d < 1" "d > daysIn m y" "m \<noteq> 12"
  then show "((y, m + 1, d - daysIn m y), y, m, d) \<in> measure (\<lambda>(y, m, d). nat (if d < 1 then 100 - d else d))"
    using daysIn_bounds [of m y] by auto
qed simp

declare carry_days.simps [simp del]

definition time_Date :: "int \<Rightarrow> int \<Rightarrow> int \<Rightarrow> int \<Rightarrow> int \<Rightarrow> int \<Rightarrow> Time" where
  "time_Date year month day hour minute second =
     (let y = year + (month - 1) div 12; m = (month - 1) mod 12 + 1;
          mi = minute + second div 60; h = hour + mi div 60;
          (y', m', d) = carry_days y m (day + h div 24)
      in \<lparr>Year = y', Month = m', Day = d, Hour = h mod 24, Minute = mi mod 60,
          Second = second mod 60, Nanosecond = 0\<rparr>)"

lemma carry_days_valid: "1 \<le> d \<Longrightarrow> d \<le> daysIn m y \<Longrightarrow> carry_days y m d = (y, m, d)"
  by (simp add: carry_days.simps)

lemma time_Date_valid:
  assumes "valid_time t"
  shows "time_Date (Year t) (Month t) (Day t) (Hour t) (Minute t) (Second t) = t\<lparr>Nanosecond := 0\<rparr>"
  using assms carry_days_valid [of "Day t" "Month t" "Year t"]
  by (auto simp: time_Date_def valid_time_def Let_def)

section \<open>Decimal fields\<close>

text \<open>\<open>%0Nd\<close>: at least \<open>N\<close> characters, a minus sign included.\<close>

fun decimal :: "nat \<Rightarrow> gostring" where
  "decimal n = (if n < 10 then [of_nat (48 + n)] else decimal (n div 10) @ [of_nat (48 + n mod 10)])"

declare decimal.simps [simp del]

definition zero_fill :: "nat \<Rightarrow> gostring \<Rightarrow> gostring" where
  "zero_fill w s = replicate (w - length s) 48 @ s"

definition sprintf_0d :: "nat \<Rightarrow> int \<Rightarrow> gostring" where
  "sprintf_0d w n = (if n < 0 then 45 # zero_fill (w - 1) (decimal (nat (- n))) else zero_fill w (decimal (nat n)))"

text \<open>What \<open>time.Parse\<close> reads of a numeric field of fixed width: digits only.\<close>

definition is_digit :: "byte \<Rightarrow> bool" where
  "is_digit b \<longleftrightarrow> 48 \<le> b \<and> b \<le> 57"

definition number_of :: "gostring \<Rightarrow> nat" where
  "number_of s = foldl (\<lambda>n b. n * 10 + (unat b - 48)) 0 s"

definition getnum :: "gostring \<Rightarrow> int option" where
  "getnum s = (if list_all is_digit s then Some (int (number_of s)) else None)"

text \<open>\<open>time.Parse("20060102150405", s)\<close> on 14 characters: the ranges are checked as it
  goes, the day against its month at the end.\<close>

definition time_Parse :: "gostring \<Rightarrow> Time option" where
  "time_Parse s =
     (case (getnum (take 4 s), getnum (take 2 (drop 4 s)), getnum (take 2 (drop 6 s)),
            getnum (take 2 (drop 8 s)), getnum (take 2 (drop 10 s)), getnum (take 2 (drop 12 s))) of
        (Some y, Some mo, Some d, Some h, Some mi, Some sec) \<Rightarrow>
          if mo \<le> 0 \<or> 12 < mo then None
          else if 24 \<le> h then None
          else if 60 \<le> mi then None
          else if 60 \<le> sec then None
          else if d < 1 \<or> d > daysIn mo y then None
          else Some (time_Date y mo d h mi sec)
      | _ \<Rightarrow> None)"

section \<open>datetime.go\<close>

definition NewDecDateTime :: "Time \<Rightarrow> byte list" where
  "NewDecDateTime t =
     take 4 (sprintf_0d 4 (Year t)) @
     take 2 (sprintf_0d 2 (Month t)) @
     take 2 (sprintf_0d 2 (Day t)) @
     take 2 (sprintf_0d 2 (Hour t)) @
     take 2 (sprintf_0d 2 (Minute t)) @
     take 2 (sprintf_0d 2 (Second t)) @
     take 2 (sprintf_0d 2 (Nanosecond t div 10000000)) @
     [50]"

definition DecDateTime_Timestamp :: "byte list \<Rightarrow> Time" where
  "DecDateTime_Timestamp ddt =
     (case time_Parse (take 14 ddt) of None \<Rightarrow> epoch | Some t \<Rightarrow> t)"

definition NewEntryDateTime :: "Time \<Rightarrow> byte list" where
  "NewEntryDateTime t =
     [of_int (Year t - 1900), of_int (Month t), of_int (Day t), of_int (Hour t),
      of_int (Minute t), of_int (Second t), 50]"

definition EntryDateTime_Timestamp :: "byte list \<Rightarrow> Time" where
  "EntryDateTime_Timestamp edt =
     time_Date (uint (edt ! 0) + 1900) (uint (edt ! 1)) (uint (edt ! 2)) (uint (edt ! 3))
       (uint (edt ! 4)) (uint (edt ! 5))"

definition MaxDecDateTime :: "byte list" where
  "MaxDecDateTime = [48, 48, 48, 48, 48, 48, 48, 48, 48, 48, 48, 48, 48, 48, 48, 48, 0]"

section \<open>Lemmas\<close>

lemma decimal_1: "n < 10 \<Longrightarrow> decimal n = [of_nat (48 + n)]"
  by (simp add: decimal.simps)

lemma decimal_2: "10 \<le> n \<Longrightarrow> n < 100 \<Longrightarrow> decimal n = [of_nat (48 + n div 10), of_nat (48 + n mod 10)]"
  by (simp add: decimal.simps [of n] decimal_1 less_mult_imp_div_less)

lemma length_decimal: "0 < w \<Longrightarrow> n < 10 ^ w \<Longrightarrow> length (decimal n) \<le> w"
proof (induction w arbitrary: n)
  case (Suc w)
  show ?case
  proof (cases "n < 10")
    case False
    then have "0 < w" using Suc.prems by (cases w) auto
    moreover have "n div 10 < 10 ^ w" using Suc.prems by (simp add: less_mult_imp_div_less)
    ultimately show ?thesis using Suc.IH [of "n div 10"] False by (simp add: decimal.simps [of n])
  qed (simp add: decimal_1)
qed simp

lemma digit_byte: "n < 10 \<Longrightarrow> is_digit (of_nat (48 + n)) \<and> unat (of_nat (48 + n) :: byte) = 48 + n"
proof -
  assume "n < 10"
  then have "unat (of_nat (48 + n) :: byte) = 48 + n" by (simp add: unat_of_nat del: of_nat_add)
  then show ?thesis using \<open>n < 10\<close> by (simp add: is_digit_def word_le_nat_alt del: of_nat_add)
qed

lemma decimal_digits: "list_all is_digit (decimal n) \<and> number_of (decimal n) = n"
proof (induction n rule: decimal.induct)
  case (1 n)
  show ?case
  proof (cases "n < 10")
    case True
    then show ?thesis using digit_byte [OF True] by (simp add: decimal_1 number_of_def del: of_nat_add)
  next
    case False
    have "n mod 10 < 10" by simp
    then show ?thesis using 1 [OF False] digit_byte [of "n mod 10"] False
      by (simp add: decimal.simps [of n] number_of_def del: of_nat_add)
  qed
qed

lemma zero_fill_digits: "list_all is_digit (zero_fill w (decimal n)) \<and> number_of (zero_fill w (decimal n)) = n"
proof -
  have z: "foldl (\<lambda>n b. n * 10 + (unat b - 48)) 0 (replicate k (48 :: byte)) = 0" for k
    by (induction k) auto
  have "is_digit 48" by (simp add: is_digit_def)
  then show ?thesis
    using decimal_digits [of n] z by (auto simp: zero_fill_def number_of_def list_all_iff set_replicate_conv_if)
qed

text \<open>A number that fits its field is read back.\<close>

lemma length_sprintf_0d: "0 < w \<Longrightarrow> 0 \<le> n \<Longrightarrow> n < 10 ^ w \<Longrightarrow> length (sprintf_0d w n) = w"
  using length_decimal [of w "nat n"] by (simp add: sprintf_0d_def zero_fill_def nat_less_iff)

lemma getnum_sprintf: "0 \<le> n \<Longrightarrow> getnum (sprintf_0d w n) = Some n"
  using zero_fill_digits [of w "nat n"] by (simp add: getnum_def sprintf_0d_def)

lemma length_sprintf_ge: "w \<le> length (sprintf_0d w n)"
  by (auto simp: sprintf_0d_def zero_fill_def)

lemma length_NewDecDateTime [wire_len, simp]: "length (NewDecDateTime t) = 17"
  using length_sprintf_ge [of 4 "Year t"] length_sprintf_ge [of 2]
  by (simp add: NewDecDateTime_def min_absorb2)

lemma length_NewEntryDateTime [wire_len, simp]: "length (NewEntryDateTime t) = 7"
  by (simp add: NewEntryDateTime_def)

lemma length_MaxDecDateTime [wire_len, simp]: "length MaxDecDateTime = 17"
  by (simp add: MaxDecDateTime_def)

text \<open>The times a format can carry, and what is left of them: whole seconds.\<close>

definition dec_time :: "Time \<Rightarrow> bool" where
  "dec_time t \<longleftrightarrow> valid_time t \<and> 0 \<le> Year t \<and> Year t \<le> 9999"

definition entry_time :: "Time \<Rightarrow> bool" where
  "entry_time t \<longleftrightarrow> valid_time t \<and> 1900 \<le> Year t \<and> Year t \<le> 2155"

definition whole_seconds :: "Time \<Rightarrow> Time" where
  "whole_seconds t = t\<lparr>Nanosecond := 0\<rparr>"

lemma DecDateTime_roundtrip [wire]:
  assumes "dec_time t"
  shows "DecDateTime_Timestamp (NewDecDateTime t) = whole_seconds t"
proof -
  have v: "valid_time t" and y: "0 \<le> Year t" "Year t < 10 ^ 4"
    using assms by (simp_all add: dec_time_def)
  have d: "daysIn (Month t) (Year t) \<le> 31" by (rule daysIn_bounds)
  have l: "length (sprintf_0d 4 (Year t)) = 4" "length (sprintf_0d 2 (Month t)) = 2"
    "length (sprintf_0d 2 (Day t)) = 2" "length (sprintf_0d 2 (Hour t)) = 2"
    "length (sprintf_0d 2 (Minute t)) = 2" "length (sprintf_0d 2 (Second t)) = 2"
    using v y d by (auto simp: valid_time_def intro!: length_sprintf_0d)
  have n: "getnum (sprintf_0d 4 (Year t)) = Some (Year t)" "getnum (sprintf_0d 2 (Month t)) = Some (Month t)"
    "getnum (sprintf_0d 2 (Day t)) = Some (Day t)" "getnum (sprintf_0d 2 (Hour t)) = Some (Hour t)"
    "getnum (sprintf_0d 2 (Minute t)) = Some (Minute t)" "getnum (sprintf_0d 2 (Second t)) = Some (Second t)"
    using v y by (auto simp: valid_time_def intro!: getnum_sprintf)
  have "time_Parse (take 14 (NewDecDateTime t)) = Some (whole_seconds t)"
    using v by (simp add: time_Parse_def NewDecDateTime_def l n time_Date_valid whole_seconds_def)
      (simp add: valid_time_def)
  then show ?thesis by (simp add: DecDateTime_Timestamp_def)
qed

lemma EntryDateTime_roundtrip [wire]:
  assumes "entry_time t"
  shows "EntryDateTime_Timestamp (NewEntryDateTime t) = whole_seconds t"
proof -
  have v: "valid_time t" and y: "1900 \<le> Year t" "Year t \<le> 2155"
    using assms by (simp_all add: entry_time_def)
  have d: "daysIn (Month t) (Year t) \<le> 31" by (rule daysIn_bounds)
  have u: "uint (of_int x :: byte) = x" if "0 \<le> x" "x < 256" for x
    using that by (simp add: uint_word_of_int)
  have "EntryDateTime_Timestamp (NewEntryDateTime t) =
      time_Date (Year t) (Month t) (Day t) (Hour t) (Minute t) (Second t)"
    using v y d by (simp add: EntryDateTime_Timestamp_def NewEntryDateTime_def valid_time_def u del: of_int_diff)
  then show ?thesis using v by (simp add: time_Date_valid whole_seconds_def)
qed

text \<open>C29:
  Both time formats of the image keep a time to the second: decoding what was encoded gives
  the time without its fraction, for the years the format can hold (a two-digit field
  would otherwise be truncated, a year byte would wrap).
\<close>

theorem datetime_roundtrip:
  "(dec_time t \<longrightarrow> DecDateTime_Timestamp (NewDecDateTime t) = t\<lparr>Nanosecond := 0\<rparr>) \<and>
   (entry_time t \<longrightarrow> EntryDateTime_Timestamp (NewEntryDateTime t) = t\<lparr>Nanosecond := 0\<rparr>)"
  by (simp add: DecDateTime_roundtrip EntryDateTime_roundtrip flip: whole_seconds_def)

theorem datetime_roundtrip_witness:
  "let t = \<lparr>Year = 2019, Month = 2, Day = 28, Hour = 23, Minute = 5, Second = 59, Nanosecond = 7\<rparr>
   in DecDateTime_Timestamp (NewDecDateTime t) = t\<lparr>Nanosecond := 0\<rparr> \<and>
      EntryDateTime_Timestamp (NewEntryDateTime t) = t\<lparr>Nanosecond := 0\<rparr>"
  using datetime_roundtrip
    [of "\<lparr>Year = 2019, Month = 2, Day = 28, Hour = 23, Minute = 5, Second = 59, Nanosecond = 7\<rparr>"]
  by (simp add: dec_time_def entry_time_def valid_time_def daysIn_def isLeap_def Let_def)

end
