(* ===== verification/Slices.thy ===== *)
theory Slices
  imports Objects DateTime
begin

text \<open>
  \<open>Slice\<close> of \<open>pkg/storage/storage.go\<close>: a range of an object as an object of its own, with a
  position that \<open>Read\<close> and \<open>Seek\<close> move.  A slice inside its object is an object again.
\<close>

section \<open>Slices\<close>

record slice_state =
  sl_base :: int
  sl_off :: int
  sl_limit :: int

definition Slice :: "int \<Rightarrow> int \<Rightarrow> slice_state" where
  "Slice off n = \<lparr>sl_base = off, sl_off = off, sl_limit = off + n\<rparr>"

definition slice_Size :: "slice_state \<Rightarrow> int" where
  "slice_Size s = sl_limit s - sl_base s"

definition slice_ReadAt :: "AnonymousObject \<Rightarrow> slice_state \<Rightarrow> byte list \<Rightarrow> int \<Rightarrow> byte list \<times> int \<times> goerr option" where
  "slice_ReadAt o' s p off =
     (if off < 0 \<or> off \<ge> sl_limit s - sl_base s then (p, 0, Some EOF)
      else
        let at = off + sl_base s; m = sl_limit s - at
        in if int (length p) > m
           then (case ReadAt o' (take (nat m) p) at of (d, n, err) \<Rightarrow>
                   (d @ drop (nat m) p, n, if err = None then Some EOF else err))
           else ReadAt o' p at)"

definition slice_Read :: "AnonymousObject \<Rightarrow> slice_state \<Rightarrow> byte list \<Rightarrow> slice_state \<times> byte list \<times> int \<times> goerr option" where
  "slice_Read o' s p =
     (if sl_off s \<ge> sl_limit s then (s, p, 0, Some EOF)
      else
        let m = sl_limit s - sl_off s; k = (if int (length p) > m then nat m else length p)
        in (case ReadAt o' (take k p) (sl_off s) of (d, n, err) \<Rightarrow>
              (s\<lparr>sl_off := sl_off s + n\<rparr>, d @ drop k p, n, err)))"

definition slice_Seek :: "slice_state \<Rightarrow> int \<Rightarrow> int \<Rightarrow> slice_state \<times> (goerr + int)" where
  "slice_Seek s offset whence =
     (if whence \<noteq> SeekStart \<and> whence \<noteq> SeekCurrent \<and> whence \<noteq> SeekEnd then (s, Inl (Err ''Seek: invalid whence''))
      else
        let offset' = (if whence = SeekStart then offset + sl_base s
                       else if whence = SeekCurrent then offset + sl_off s else offset + sl_limit s)
        in if offset' < sl_base s then (s, Inl (Err ''Seek: invalid offset''))
           else (s\<lparr>sl_off := offset'\<rparr>, Inr (offset' - sl_base s)))"

definition slice_object :: "AnonymousObject \<Rightarrow> int \<Rightarrow> int \<Rightarrow> AnonymousObject" where
  "slice_object o' off n = \<lparr>Size = slice_Size (Slice off n), ReadAt = slice_ReadAt o' (Slice off n)\<rparr>"

text \<open>A slice within an object holds that part of its bytes.\<close>

lemma slice_is_object:
  assumes obj: "read_object o' content" and b: "a + n \<le> length content"
  shows "read_object (slice_object o' (int a) (int n)) (take n (drop a content))"
proof
  have len: "length (take n (drop a content)) = n" using b by simp
  show "Size (slice_object o' (int a) (int n)) = int (length (take n (drop a content)))"
    by (simp only: len) (simp add: slice_object_def slice_Size_def Slice_def)
  fix off :: int and p :: "byte list"
  show "int (length (take n (drop a content))) \<le> off \<Longrightarrow> p \<noteq> [] \<Longrightarrow>
      ReadAt (slice_object o' (int a) (int n)) p off = (p, 0, Some EOF)"
    by (simp only: len) (simp add: slice_object_def slice_ReadAt_def Slice_def)
  assume off: "0 \<le> off" "off < int (length (take n (drop a content)))" and p: "p \<noteq> []"
  have off': "off < int n" using off(2) len by simp
  show "reads_from (take n (drop a content)) off p (ReadAt (slice_object o' (int a) (int n)) p off)"
  proof (cases "int (length p) > int n - off")
    case True
    define q where "q = take (nat (int n - off)) p"
    have q: "int (length q) = int n - off" using True off' by (simp add: q_def)
    then have ne: "q \<noteq> []" using off' by auto
    have "0 \<le> off + int a" "off + int a + int (length q) \<le> int (length content)" using off b q by simp_all
    from read_object.read_exact [OF obj this ne]
    have r: "ReadAt o' q (off + int a) = (take (length q) (drop (nat (off + int a)) content), int (length q), None)" .
    have sr: "slice_ReadAt o' (Slice (int a) (int n)) p off =
        (take (length q) (drop (nat (off + int a)) content) @ drop (nat (int n - off)) p, int (length q), Some EOF)"
      using off(1) off' True r by (simp add: slice_ReadAt_def Slice_def Let_def q_def algebra_simps)
    have tq: "take (length q) (drop (nat (off + int a)) content) = drop (nat off) (take n (drop a content))"
    proof -
      have "length q = n - nat off" "nat (off + int a) = a + nat off" using q off(1) off' by linarith+
      then show ?thesis by (simp add: drop_take add.commute)
    qed
    show ?thesis
    proof -
      have "min (int (length p)) (int n - off) = int (length q)" "int (length q) < int (length p)" using True q by simp_all
      moreover have "length (drop (nat off) (take n (drop a content))) = length q" using q len off(1) by auto
      moreover have "length q + length (drop (nat (int n - off)) p) = length p" using True q by auto
      ultimately show ?thesis
        unfolding reads_from_def slice_object_def AnonymousObject.select_convs len
        using tq by (simp add: sr)
    qed
  next
    case False
    have "0 \<le> off + int a" "off + int a + int (length p) \<le> int (length content)" using off b False by simp_all
    from read_object.read_exact [OF obj this p]
    have r: "ReadAt o' p (off + int a) = (take (length p) (drop (nat (off + int a)) content), int (length p), None)" .
    have "slice_ReadAt o' (Slice (int a) (int n)) p off = (take (length p) (drop (nat (off + int a)) content), int (length p), None)"
      using off(1) off' False r by (simp add: slice_ReadAt_def Slice_def Let_def algebra_simps)
    moreover have "take (length p) (drop (nat (off + int a)) content) = take (length p) (drop (nat off) (take n (drop a content)))"
    proof -
      have "length p \<le> n - nat off" "nat (off + int a) = a + nat off" using False off(1) by linarith+
      then show ?thesis by (simp add: drop_take add.commute min_absorb1)
    qed
    moreover have "min (int (length p)) (int n - off) = int (length p)" using False by simp
    moreover have "length (take (length p) (drop (nat (off + int a)) content)) = length p"
      using \<open>off + int a + int (length p) \<le> int (length content)\<close> \<open>0 \<le> off + int a\<close> by simp
    ultimately show ?thesis
      by (simp only: reads_from_def slice_object_def AnonymousObject.select_convs len prod.case) simp
  qed
qed

interpretation bytes_slice: read_object "slice_object (bytes_object s) (int (min a (length s))) (int (min n (length s - a)))"
  "take (min n (length s - a)) (drop (min a (length s)) s)" for s a n
  by (rule slice_is_object [OF bytes.read_object_axioms]) simp

end
