(* ===== verification/IoUtil.thy ===== *)
theory IoUtil
  imports Prelude
begin

text \<open>
  The byte level of the ISO 9660 image: \<open>pkg/iso9660/ioutil.go\<close> and the parts of
  \<open>encoding/binary\<close> it uses.  Both-endian integers, padding, sector arithmetic and the
  primitive readers, with the law that a reader inverts its writer.
\<close>

section \<open>encoding/binary\<close>

datatype byteOrder = LittleEndian | BigEndian

definition le16 :: "u16 \<Rightarrow> byte list" where
  "le16 v = [ucast v, ucast (drop_bit 8 v)]"

definition le32 :: "u32 \<Rightarrow> byte list" where
  "le32 v = [ucast v, ucast (drop_bit 8 v), ucast (drop_bit 16 v), ucast (drop_bit 24 v)]"

definition write16 :: "byteOrder \<Rightarrow> u16 \<Rightarrow> byte list" where
  "write16 bo v = (case bo of LittleEndian \<Rightarrow> le16 v | BigEndian \<Rightarrow> rev (le16 v))"

definition write32 :: "byteOrder \<Rightarrow> u32 \<Rightarrow> byte list" where
  "write32 bo v = (case bo of LittleEndian \<Rightarrow> le32 v | BigEndian \<Rightarrow> rev (le32 v))"

definition of_le16 :: "byte list \<Rightarrow> u16" where
  "of_le16 bs = ucast (bs ! 0) OR push_bit 8 (ucast (bs ! 1))"

definition of_le32 :: "byte list \<Rightarrow> u32" where
  "of_le32 bs = ucast (bs ! 0) OR push_bit 8 (ucast (bs ! 1)) OR
                push_bit 16 (ucast (bs ! 2)) OR push_bit 24 (ucast (bs ! 3))"

definition read16 :: "byteOrder \<Rightarrow> u16 reader" where
  "read16 bo = rbind (read_full 2) (\<lambda>bs.
     rreturn (of_le16 (case bo of LittleEndian \<Rightarrow> bs | BigEndian \<Rightarrow> rev bs)))"

definition read32 :: "byteOrder \<Rightarrow> u32 reader" where
  "read32 bo = rbind (read_full 4) (\<lambda>bs.
     rreturn (of_le32 (case bo of LittleEndian \<Rightarrow> bs | BigEndian \<Rightarrow> rev bs)))"

lemma length_le [simp]: "length (le16 v) = 2" "length (le32 w) = 4"
  by (simp_all add: le16_def le32_def)

lemma length_write [wire_len, simp]:
  "length (write16 bo v) = 2"
  "length (write32 bo w) = 4"
  by (cases bo; simp add: write16_def write32_def)+

lemma of_le16_le16 [simp]: "of_le16 (le16 v) = v"
proof -
  have "bit (of_le16 (le16 v)) n = bit v n" if "n < 16" for n
    using that by (cases "n < 8") (auto simp: of_le16_def le16_def bit_simps)
  then show ?thesis by (intro bit_word_eqI) simp
qed

lemma of_le32_le32 [simp]: "of_le32 (le32 v) = v"
proof -
  have "bit (of_le32 (le32 v)) n = bit v n" if "n < 32" for n
  proof -
    consider "n < 8" | "8 \<le> n" "n < 16" | "16 \<le> n" "n < 24" | "24 \<le> n"
      by linarith
    then show ?thesis
      using that by cases (auto simp: of_le32_def le32_def bit_simps)
  qed
  then show ?thesis by (intro bit_word_eqI) simp
qed

lemma read16_write16 [wire]: "read16 bo (write16 bo v @ r) = Inr (v, r)"
  by (cases bo) (simp_all add: read16_def write16_def rbind_def read_full_append)

lemma read32_write32 [wire]: "read32 bo (write32 bo v @ r) = Inr (v, r)"
  by (cases bo) (simp_all add: read32_def write32_def rbind_def read_full_append)

section \<open>Writers of ioutil.go\<close>

definition putBothUint16 :: "u16 \<Rightarrow> byte list" where
  "putBothUint16 v = write16 LittleEndian v @ write16 BigEndian v"

definition putBothUint32 :: "u32 \<Rightarrow> byte list" where
  "putBothUint32 v = write32 LittleEndian v @ write32 BigEndian v"

text \<open>\<open>pad\<close> writes one zero byte per turn of its loop.\<close>

fun pad :: "nat \<Rightarrow> byte list" where
  "pad 0 = []"
| "pad (Suc count) = 0 # pad count"

definition writeByte :: "byte \<Rightarrow> byte list" where
  "writeByte b = [b]"

lemma pad_replicate: "pad n = replicate n 0"
  by (induction n) auto

lemma length_pad [wire_len, simp]: "length (pad n) = n"
  by (simp add: pad_replicate)

lemma length_writeByte [wire_len, simp]: "length (writeByte b) = 1"
  by (simp add: writeByte_def)

lemma length_putBoth [wire_len, simp]:
  "length (putBothUint16 v) = 4" "length (putBothUint32 w) = 8"
  by (simp_all add: putBothUint16_def putBothUint32_def)

section \<open>Sectors\<close>

definition LogicalBlockSize :: nat where
  "LogicalBlockSize = 2048"

type_synonym LogicalBlockAddress = u32

text \<open>Unsigned 32 bit arithmetic, with Go's wrap-around.  An empty extent takes a sector.\<close>

definition bytesToSectors :: "u32 \<Rightarrow> u32" where
  "bytesToSectors bytes =
     (let sectors = bytes div 2048
      in if bytes mod 2048 \<noteq> 0 \<or> sectors = 0 then sectors + 1 else sectors)"

definition sectorsToBytes :: "u32 \<Rightarrow> u64" where
  "sectorsToBytes sectors = ucast sectors * 2048"

lemma unat_bytesToSectors:
  "unat (bytesToSectors bytes) =
     (if unat bytes mod 2048 \<noteq> 0 \<or> unat bytes < 2048 then unat bytes div 2048 + 1
      else unat bytes div 2048)"
proof -
  have d: "unat (bytes div 2048) = unat bytes div 2048"
    by (simp add: unat_div)
  have m: "bytes mod 2048 = 0 \<longleftrightarrow> unat bytes mod 2048 = 0"
    by (simp add: unat_mod flip: unat_eq_0)
  have z: "bytes div 2048 = 0 \<longleftrightarrow> unat bytes < 2048"
    by (simp add: d div_eq_0_iff flip: unat_eq_0)
  have b: "unat bytes div 2048 < 2 ^ 21"
    using unat_bounds(3) [of bytes] by (simp add: less_mult_imp_div_less)
  have s: "unat (bytes div 2048 + 1) = unat bytes div 2048 + 1"
    using b by (simp add: unat_word_ariths d)
  show ?thesis
    by (simp add: bytesToSectors_def Let_def m z s d)
qed

lemma unat_sectorsToBytes: "unat (sectorsToBytes s) = unat s * 2048"
proof -
  have "unat s < 2 ^ 32" using unat_bounds(3) [of s] by simp
  then show ?thesis
    by (simp add: sectorsToBytes_def unat_word_ariths unsigned_ucast_eq take_bit_nat_eq_self)
qed

text \<open>
  Rounding up to a whole number of sectors: the result covers the bytes, leaves less than
  one sector unused unless there is nothing to store, and does not wrap.
\<close>

lemma sectors_cover:
  "unat bytes \<le> unat (bytesToSectors bytes) * 2048"
  "0 < unat (bytesToSectors bytes)"
  "unat (bytesToSectors bytes) \<le> 2 ^ 21"
  "0 < unat bytes \<Longrightarrow> unat (bytesToSectors bytes) * 2048 < unat bytes + 2048"
proof -
  obtain q m where q: "unat bytes div 2048 = q" and m: "unat bytes mod 2048 = m"
    and eq: "unat bytes = q * 2048 + m" and lt: "m < 2048"
    by (metis div_mult_mod_eq mod_less_divisor zero_less_numeral)
  have s: "unat (bytesToSectors bytes) = (if m \<noteq> 0 \<or> q = 0 then q + 1 else q)"
    unfolding unat_bytesToSectors q m using eq lt by auto
  have b: "unat bytes < 4294967296" by (rule unat_bounds(3))
  show "unat bytes \<le> unat (bytesToSectors bytes) * 2048"
    and "0 < unat (bytesToSectors bytes)"
    and "unat (bytesToSectors bytes) \<le> 2 ^ 21"
    and "0 < unat bytes \<Longrightarrow> unat (bytesToSectors bytes) * 2048 < unat bytes + 2048"
    using eq lt b unfolding s by (auto split: if_splits)
qed

section \<open>Readers of ioutil.go\<close>

definition readByte :: "byte reader" where
  "readByte = rbind (read_full 1) (\<lambda>buf. rreturn (buf ! 0))"

definition readExpectedByte :: "byte \<Rightarrow> string \<Rightarrow> unit reader" where
  "readExpectedByte expected desc = rbind (read_full 1) (\<lambda>actual.
     if actual ! 0 \<noteq> expected then rfail (Err desc) else rreturn ())"

definition readExpectedString :: "gostring \<Rightarrow> string \<Rightarrow> unit reader" where
  "readExpectedString expected desc = rbind (read_full (length expected)) (\<lambda>actual.
     if actual \<noteq> expected then rfail (Err desc) else rreturn ())"

definition getBothUint16 :: "u16 reader" where
  "getBothUint16 = rbind (read16 LittleEndian) (\<lambda>a. rbind (read16 BigEndian) (\<lambda>b.
     if a \<noteq> b then rfail (Err ''getBothUint16 mismatch'') else rreturn a))"

definition getBothUint32 :: "u32 reader" where
  "getBothUint32 = rbind (read32 LittleEndian) (\<lambda>a. rbind (read32 BigEndian) (\<lambda>b.
     if a \<noteq> b then rfail (Err ''getBothUint32 mismatch'') else rreturn a))"

text \<open>\<open>io.CopyN\<close> to nowhere: a stream that ends first is \<open>io.EOF\<close>.\<close>

definition unpad :: "nat \<Rightarrow> unit reader" where
  "unpad count r = (if count \<le> length r then Inr ((), drop count r) else Inl EOF)"

lemma readByte_Cons [wire]: "readByte (b # r) = Inr (b, r)"
  by (simp add: readByte_def rbind_def read_full_def)

lemma readByte_Nil [simp]: "readByte [] = Inl EOF"
  by (simp add: readByte_def rbind_def read_full_def)

lemma readByte_writeByte [wire]: "readByte (writeByte b @ r) = Inr (b, r)"
  by (simp add: writeByte_def wire)

lemma readExpectedByte_Cons [wire]:
  "readExpectedByte e d (b # r) = (if b = e then Inr ((), r) else Inl (Err d))"
  by (simp add: readExpectedByte_def rbind_def read_full_def)

lemma readExpectedByte_writeByte [wire]: "readExpectedByte b d (writeByte b @ r) = Inr ((), r)"
  by (simp add: writeByte_def wire)

lemma readExpectedString_append [wire]: "readExpectedString s d (s @ r) = Inr ((), r)"
  by (simp add: readExpectedString_def rbind_def read_full_append)

lemma getBothUint16_put [wire]: "getBothUint16 (putBothUint16 v @ r) = Inr (v, r)"
  by (simp add: getBothUint16_def putBothUint16_def rbind_def wire)

lemma getBothUint32_put [wire]: "getBothUint32 (putBothUint32 v @ r) = Inr (v, r)"
  by (simp add: getBothUint32_def putBothUint32_def rbind_def wire)

lemma unpad_append [wire]: "length xs = n \<Longrightarrow> unpad n (xs @ r) = Inr ((), r)"
  by (simp add: unpad_def)

lemma unpad_pad [wire]: "unpad n (pad n @ r) = Inr ((), r)"
  by (simp add: unpad_def)

text \<open>A both-endian field whose halves disagree is always refused.\<close>

lemma getBothUint32_mismatch:
  "a \<noteq> b \<Longrightarrow> getBothUint32 (write32 LittleEndian a @ write32 BigEndian b @ r) =
     Inl (Err ''getBothUint32 mismatch'')"
  by (simp add: getBothUint32_def rbind_def wire)

end
