(* ===== verification/Utf8.thy ===== *)
theory Utf8
  imports Prelude
begin

text \<open>
  Go's strings are bytes; \<open>for i, r := range s\<close> decodes them as UTF-8.  This theory holds
  the functions of \<open>unicode/utf8\<close> and \<open>strings\<close> that the program uses, with the laws
  that encoding and decoding a rune are inverse.
\<close>

section \<open>Runes\<close>

type_synonym rune = nat

definition RuneError :: rune where
  "RuneError = 0xFFFD"

text \<open>The Unicode scalar values: what a UTF-8 sequence can stand for.\<close>

definition scalar :: "rune \<Rightarrow> bool" where
  "scalar r \<longleftrightarrow> r \<le> 0x10FFFF \<and> \<not> (0xD800 \<le> r \<and> r \<le> 0xDFFF)"

definition cont_byte :: "nat \<Rightarrow> byte" where
  "cont_byte x = of_nat (0x80 + x mod 64)"

definition EncodeRune :: "rune \<Rightarrow> byte list" where
  "EncodeRune r0 =
     (let r = (if scalar r0 then r0 else RuneError)
      in if r < 0x80 then [of_nat r]
         else if r < 0x800 then [of_nat (0xC0 + r div 64), cont_byte r]
         else if r < 0x10000 then [of_nat (0xE0 + r div 4096), cont_byte (r div 64), cont_byte r]
         else [of_nat (0xF0 + r div 262144), cont_byte (r div 4096), cont_byte (r div 64), cont_byte r])"

definition RuneLen :: "rune \<Rightarrow> int" where
  "RuneLen r =
     (if r < 0x80 then 1 else if r < 0x800 then 2
      else if 0xD800 \<le> r \<and> r \<le> 0xDFFF then -1
      else if r < 0x10000 then 3 else if r \<le> 0x10FFFF then 4 else -1)"

definition is_cont :: "nat \<Rightarrow> bool" where
  "is_cont b \<longleftrightarrow> 0x80 \<le> b \<and> b \<le> 0xBF"

text \<open>
  \<open>DecodeRuneInString\<close>: the rune at the front and its width; \<open>RuneError\<close> with width 1
  for anything that is not the shortest encoding of a scalar value, with width 0 at the
  end of the string.
\<close>

definition DecodeRune :: "byte list \<Rightarrow> rune \<times> nat" where
  "DecodeRune s =
     (case map unat s of
        [] \<Rightarrow> (RuneError, 0)
      | a # t \<Rightarrow>
          if a < 0x80 then (a, 1)
          else if 0xC2 \<le> a \<and> a \<le> 0xDF then
            (case t of b # _ \<Rightarrow>
               if is_cont b then ((a mod 32) * 64 + b mod 64, 2) else (RuneError, 1)
             | _ \<Rightarrow> (RuneError, 1))
          else if 0xE0 \<le> a \<and> a \<le> 0xEF then
            (case t of b # c # _ \<Rightarrow>
               if (if a = 0xE0 then 0xA0 else 0x80) \<le> b \<and> b \<le> (if a = 0xED then 0x9F else 0xBF) \<and> is_cont c
               then ((a mod 16) * 4096 + (b mod 64) * 64 + c mod 64, 3) else (RuneError, 1)
             | _ \<Rightarrow> (RuneError, 1))
          else if 0xF0 \<le> a \<and> a \<le> 0xF4 then
            (case t of b # c # d # _ \<Rightarrow>
               if (if a = 0xF0 then 0x90 else 0x80) \<le> b \<and> b \<le> (if a = 0xF4 then 0x8F else 0xBF)
                  \<and> is_cont c \<and> is_cont d
               then ((a mod 8) * 262144 + (b mod 64) * 4096 + (c mod 64) * 64 + d mod 64, 4)
               else (RuneError, 1)
             | _ \<Rightarrow> (RuneError, 1))
          else (RuneError, 1))"

lemma RuneError_facts [simp]: "scalar RuneError" "RuneLen RuneError = 3"
  by (simp_all add: scalar_def RuneError_def RuneLen_def)

lemma unat_of_nat_byte: "n < 256 \<Longrightarrow> unat (of_nat n :: byte) = n"
  by (simp add: unat_of_nat)

lemma unat_cont_byte [simp]: "unat (cont_byte x) = 0x80 + x mod 64"
proof -
  have "x mod 64 < 64" by simp
  then show ?thesis unfolding cont_byte_def by (intro unat_of_nat_byte) linarith
qed

lemma is_cont_mod [simp]: "is_cont (128 + x mod 64)"
proof -
  have "x mod 64 < 64" by simp
  then show ?thesis unfolding is_cont_def by linarith
qed

text \<open>A rune in base 64, as its encoding cuts it up.\<close>

lemma base64_digits:
  fixes r :: nat
  obtains w x y z where "x < 64" "y < 64" "z < 64" "r = w * 262144 + x * 4096 + y * 64 + z"
    "r div 262144 = w" "r div 4096 = w * 64 + x" "r div 64 = w * 4096 + x * 64 + y"
    "r div 4096 mod 64 = x" "r div 64 mod 64 = y" "r mod 64 = z"
proof
  have a: "r div 4096 = r div 64 div 64" and b: "r div 262144 = r div 64 div 64 div 64"
    by (simp_all flip: div_mult2_eq)
  have c: "q = q div 64 * 64 + q mod 64" for q :: nat
    by simp
  show "r div 4096 = r div 262144 * 64 + r div 4096 mod 64"
    using c [of "r div 64 div 64"] by (simp only: a b)
  show "r div 64 = r div 262144 * 4096 + r div 4096 mod 64 * 64 + r div 64 mod 64"
    unfolding a b using c [of "r div 64 div 64"] c [of "r div 64"] by linarith
  show "r = r div 262144 * 262144 + r div 4096 mod 64 * 4096 + r div 64 mod 64 * 64 + r mod 64"
    unfolding a b using c [of "r div 64 div 64"] c [of "r div 64"] c [of r] by linarith
qed simp_all

lemma cont_parts [simp]: "(128 + x mod 64) mod 64 = x mod (64::nat)"
  by (simp add: mod_simps flip: mod_add_left_eq)

section \<open>Decoding inverts encoding\<close>

lemma DecodeRune_1: "r < 0x80 \<Longrightarrow> DecodeRune (of_nat r # s) = (r, 1)"
  by (simp add: DecodeRune_def unat_of_nat_byte)

lemma bytes_mod:
  "y < 32 \<Longrightarrow> (192 + y) mod 32 = (y::nat)" "y < 16 \<Longrightarrow> (224 + y) mod 16 = (y::nat)"
  "y < 8 \<Longrightarrow> (240 + y) mod 8 = (y::nat)" "y < 64 \<Longrightarrow> (128 + y) mod 64 = (y::nat)"
  by (simp_all add: mod_simps flip: mod_add_left_eq)

text \<open>The three multi-byte forms on the base 64 digits of the rune.\<close>

lemma DecodeRune_digits2:
  assumes "unat a = 0xC0 + y" "unat b = 0x80 + z" "2 \<le> y" "y < 32" "z < 64"
  shows "DecodeRune (a # b # s) = (y * 64 + z, 2)"
  using assms(3-5) by (simp add: DecodeRune_def assms(1,2) bytes_mod is_cont_def)

lemma DecodeRune_digits3:
  assumes "unat a = 0xE0 + x" "unat b = 0x80 + y" "unat c = 0x80 + z" "x < 16" "y < 64" "z < 64"
    and "x = 0 \<longrightarrow> 32 \<le> y" "x = 13 \<longrightarrow> y < 32"
  shows "DecodeRune (a # b # c # s) = (x * 4096 + y * 64 + z, 3)"
  using assms(4-8) by (auto simp: DecodeRune_def assms(1-3) bytes_mod is_cont_def)

lemma DecodeRune_digits4:
  assumes "unat a = 0xF0 + w" "unat b = 0x80 + x" "unat c = 0x80 + y" "unat d = 0x80 + z"
    and "w \<le> 4" "x < 64" "y < 64" "z < 64" "w = 0 \<longrightarrow> 16 \<le> x" "w = 4 \<longrightarrow> x < 16"
  shows "DecodeRune (a # b # c # d # s) = (w * 262144 + x * 4096 + y * 64 + z, 4)"
  using assms(5-10) by (auto simp: DecodeRune_def assms(1-4) bytes_mod is_cont_def)

lemma DecodeRune_2:
  assumes "0x80 \<le> r" "r < 0x800"
  shows "DecodeRune (of_nat (0xC0 + r div 64) # cont_byte r # s) = (r, 2)"
proof -
  obtain w x y z where d: "x < 64" "y < 64" "z < 64" and r: "r = w * 262144 + x * 4096 + y * 64 + z"
    and q: "r div 64 = w * 4096 + x * 64 + y" "r mod 64 = z" by (rule base64_digits)
  have h: "w = 0" "x = 0" using assms d r by linarith+
  have k: "2 \<le> y" "y < 32" using assms d r h by linarith+
  show ?thesis
    using DecodeRune_digits2 [of "of_nat (192 + y)" y "cont_byte r" z s] h k d r
    by (simp add: q unat_of_nat_byte del: of_nat_add)
qed

lemma DecodeRune_3:
  assumes "0x800 \<le> r" "r < 0x10000" "scalar r"
  shows "DecodeRune (of_nat (0xE0 + r div 4096) # cont_byte (r div 64) # cont_byte r # s) = (r, 3)"
proof -
  obtain w x y z where d: "x < 64" "y < 64" "z < 64" and r: "r = w * 262144 + x * 4096 + y * 64 + z"
    and q: "r div 4096 = w * 64 + x" "r div 64 mod 64 = y" "r mod 64 = z" by (rule base64_digits)
  have h: "w = 0" "x < 16" using assms d r by linarith+
  have k: "x = 0 \<longrightarrow> 32 \<le> y" "x = 13 \<longrightarrow> y < 32"
    using assms d r h by (auto simp: scalar_def)
  have "DecodeRune (of_nat (0xE0 + r div 4096) # cont_byte (r div 64) # cont_byte r # s)
      = (x * 4096 + y * 64 + z, 3)"
    by (rule DecodeRune_digits3) (use h d k q in \<open>simp_all add: unat_of_nat_byte del: of_nat_add\<close>)
  moreover have "x * 4096 + y * 64 + z = r" using r h by simp
  ultimately show ?thesis by simp
qed

lemma DecodeRune_4:
  assumes "0x10000 \<le> r" "r \<le> 0x10FFFF"
  shows "DecodeRune (of_nat (0xF0 + r div 262144) # cont_byte (r div 4096) # cont_byte (r div 64) # cont_byte r # s) = (r, 4)"
proof -
  obtain w x y z where d: "x < 64" "y < 64" "z < 64" and r: "r = w * 262144 + x * 4096 + y * 64 + z"
    and q: "r div 262144 = w" "r div 4096 mod 64 = x" "r div 64 mod 64 = y" "r mod 64 = z"
    by (rule base64_digits)
  have h: "w \<le> 4" "w = 0 \<longrightarrow> 16 \<le> x" "w = 4 \<longrightarrow> x < 16" using assms d r by auto
  have "DecodeRune (of_nat (0xF0 + r div 262144) # cont_byte (r div 4096) # cont_byte (r div 64) # cont_byte r # s)
      = (w * 262144 + x * 4096 + y * 64 + z, 4)"
    by (rule DecodeRune_digits4) (use h d q in \<open>simp_all add: unat_of_nat_byte del: of_nat_add\<close>)
  then show ?thesis by (simp only: r)
qed

lemma EncodeRune_cases:
  assumes "scalar r"
  obtains "r < 0x80" "EncodeRune r = [of_nat r]"
  | "0x80 \<le> r" "r < 0x800" "EncodeRune r = [of_nat (0xC0 + r div 64), cont_byte r]"
  | "0x800 \<le> r" "r < 0x10000" "EncodeRune r = [of_nat (0xE0 + r div 4096), cont_byte (r div 64), cont_byte r]"
  | "0x10000 \<le> r" "r \<le> 0x10FFFF"
    "EncodeRune r = [of_nat (0xF0 + r div 262144), cont_byte (r div 4096), cont_byte (r div 64), cont_byte r]"
proof -
  have "r \<le> 0x10FFFF" using assms by (simp add: scalar_def)
  then consider "r < 0x80" | "0x80 \<le> r \<and> r < 0x800" | "0x800 \<le> r \<and> r < 0x10000" | "0x10000 \<le> r"
    by linarith
  then show thesis
    using assms that \<open>r \<le> 0x10FFFF\<close> by cases (auto simp: EncodeRune_def Let_def)
qed

lemma DecodeRune_EncodeRune:
  assumes "scalar r"
  shows "DecodeRune (EncodeRune r @ s) = (r, length (EncodeRune r))"
  using assms
proof (cases rule: EncodeRune_cases)
  case 1 then show ?thesis using DecodeRune_1 [of r s] by simp
next
  case 2 then show ?thesis using DecodeRune_2 [of r s] by simp
next
  case 3 then show ?thesis using DecodeRune_3 [of r s] assms by simp
next
  case 4 then show ?thesis using DecodeRune_4 [of r s] by simp
qed

lemma RuneLen_EncodeRune:
  assumes "scalar r" shows "RuneLen r = int (length (EncodeRune r))"
  using assms by (cases rule: EncodeRune_cases) (use assms in \<open>auto simp: RuneLen_def scalar_def\<close>)

lemma EncodeRune_nonempty [simp]: "EncodeRune r \<noteq> []"
  by (simp add: EncodeRune_def Let_def)

section \<open>Iterating over a string\<close>

lemma DecodeRune_width:
  assumes "s \<noteq> []"
  shows "0 < snd (DecodeRune s)" "snd (DecodeRune s) \<le> length s"
proof -
  obtain a t where at: "map unat s = a # t" using assms by (cases "map unat s") auto
  then have l: "length s = Suc (length t)" by (metis length_map length_Cons)
  consider (0) "t = []" | (1) b where "t = [b]" | (2) b c where "t = [b, c]"
    | (3) b c d u where "t = b # c # d # u"
    by (metis neq_Nil_conv)
  then have "0 < snd (DecodeRune s) \<and> snd (DecodeRune s) \<le> Suc (length t)"
    by cases (simp_all add: DecodeRune_def at)
  then show "0 < snd (DecodeRune s)" "snd (DecodeRune s) \<le> length s"
    by (simp_all add: l)
qed

text \<open>\<open>for i, r := range s\<close>: the byte index and the rune of each turn.\<close>

function range_from :: "nat \<Rightarrow> byte list \<Rightarrow> (nat \<times> rune) list" where
  "range_from i [] = []"
| "range_from i (b # bs) =
     (case DecodeRune (b # bs) of (r, n) \<Rightarrow> (i, r) # range_from (i + n) (drop n (b # bs)))"
  by pat_completeness auto
termination
proof (relation "measure (\<lambda>(i, s). length s)")
  fix i b bs r n
  assume "(r, n) = DecodeRune (b # bs)"
  then have "0 < n" using DecodeRune_width(1) [of "b # bs"] by (metis list.distinct(1) snd_conv)
  then show "((i + n, drop n (b # bs)), i, b # bs) \<in> measure (\<lambda>(i, s). length s)" by simp
qed simp

definition range_string :: "gostring \<Rightarrow> (nat \<times> rune) list" where
  "range_string s = range_from 0 s"

definition runes :: "gostring \<Rightarrow> rune list" where
  "runes s = map snd (range_string s)"

definition encode_runes :: "rune list \<Rightarrow> gostring" where
  "encode_runes rs = concat (map EncodeRune rs)"

lemma encode_runes_simps [simp]:
  "encode_runes [] = []" "encode_runes (r # rs) = EncodeRune r @ encode_runes rs"
  "encode_runes (rs @ rs') = encode_runes rs @ encode_runes rs'"
  by (simp_all add: encode_runes_def)

definition valid_utf8 :: "gostring \<Rightarrow> bool" where
  "valid_utf8 s \<longleftrightarrow> s = encode_runes (runes s) \<and> list_all scalar (runes s)"

lemma range_from_encode:
  "scalar r \<Longrightarrow> range_from i (EncodeRune r @ s) = (i, r) # range_from (i + length (EncodeRune r)) s"
  using DecodeRune_EncodeRune [of r s] by (cases "EncodeRune r @ s") (auto, metis append_eq_conv_conj)

lemma map_snd_range_from: "map snd (range_from i s) = map snd (range_from j s)"
proof (induction i s arbitrary: j rule: range_from.induct)
  case (2 i b bs)
  obtain r n where d: "DecodeRune (b # bs) = (r, n)" by fastforce
  show ?case using 2 [OF d [symmetric], of "j + n"] by (simp add: d)
qed simp

lemma runes_encode: "list_all scalar rs \<Longrightarrow> runes (encode_runes rs) = rs"
proof (induction rs)
  case (Cons r rs)
  then show ?case
    using range_from_encode [of r 0 "encode_runes rs"]
      map_snd_range_from [of "length (EncodeRune r)" "encode_runes rs" 0]
    by (simp add: runes_def range_string_def)
qed (simp add: runes_def range_string_def)

lemma valid_utf8_encode: "list_all scalar rs \<Longrightarrow> valid_utf8 (encode_runes rs)"
  by (simp add: valid_utf8_def runes_encode)

text \<open>ASCII strings are their own runes.\<close>

definition ascii :: "gostring \<Rightarrow> bool" where
  "ascii s \<longleftrightarrow> list_all (\<lambda>b. b < 0x80) s"

lemma range_from_ascii:
  "ascii s \<Longrightarrow> range_from i s = zip [i..<i + length s] (map unat s)"
proof (induction s arbitrary: i)
  case (Cons b s)
  have "unat b < 128" using Cons.prems by (simp add: ascii_def word_less_nat_alt)
  then have "DecodeRune (b # s) = (unat b, 1)"
    by (simp add: DecodeRune_def)
  moreover have "range_from (Suc i) s = zip [Suc i..<Suc i + length s] (map unat s)"
    using Cons by (simp add: ascii_def)
  moreover have "[i..<i + length (b # s)] = i # [Suc i..<Suc i + length s]"
    by (simp add: upt_rec)
  ultimately show ?case by simp
qed (simp add: ascii_def)

lemma runes_ascii: "ascii s \<Longrightarrow> runes s = map unat s"
  by (simp add: runes_def range_string_def range_from_ascii map_snd_zip)

section \<open>Substrings\<close>

lemma DecodeRune_cont:
  "is_cont (unat b) \<Longrightarrow> DecodeRune (b # s) = (RuneError, 1)"
  by (auto simp: DecodeRune_def is_cont_def)

lemma DecodeRune_conts:
  assumes "s \<noteq> []" "0 < i" "i < snd (DecodeRune s)"
  shows "is_cont (unat (s ! i))"
proof -
  have c: "i = 1 \<or> i = 2 \<or> i = 3 \<or> 4 \<le> i" using assms(2) by linarith
  obtain a t where s: "s = a # t" using assms(1) by (cases s) auto
  consider (0) "t = []" | (1) b where "t = [b]" | (2) b c where "t = [b, c]"
    | (3) b c d u where "t = b # c # d # u"
    by (metis neq_Nil_conv)
  then show ?thesis
    by cases (use assms(3) c in \<open>auto simp: s DecodeRune_def is_cont_def split: if_splits\<close>)
qed

lemma DecodeRune_take:
  assumes "s \<noteq> []" "0 < k"
  shows "DecodeRune (take k s) = (if snd (DecodeRune s) \<le> k then DecodeRune s else (RuneError, 1))"
proof -
  have c: "k = 1 \<or> k = 2 \<or> k = 3 \<or> (\<exists>j. k = Suc (Suc (Suc (Suc j))))"
  proof (cases "k < 4")
    case False
    then have "k = Suc (Suc (Suc (Suc (k - 4))))" by simp
    then show ?thesis by blast
  qed (use assms(2) in auto)
  obtain a t where s: "s = a # t" using assms(1) by (cases s) auto
  consider (0) "t = []" | (1) b where "t = [b]" | (2) b c where "t = [b, c]"
    | (3) b c d u where "t = b # c # d # u"
    by (metis neq_Nil_conv)
  then show ?thesis
  proof cases
    case 0 then show ?thesis using assms(2) by (cases k) (simp_all add: s DecodeRune_def)
  next
    case 1 from c show ?thesis by (elim disjE exE) (simp_all add: s 1 DecodeRune_def)
  next
    case 2 from c show ?thesis by (elim disjE exE) (simp_all add: s 2 DecodeRune_def)
  next
    case 3
    have k4: "DecodeRune (a # b # c # d # take j u) = DecodeRune (a # b # c # d # u)" for j
      by (simp add: DecodeRune_def)
    have le: "snd (DecodeRune (a # b # c # d # u)) \<le> 4" 
      using DecodeRune_width(2) [of "[a, b, c, d]"] k4 [of 0] by simp
    from c show ?thesis
    proof (elim disjE exE)
      fix j assume "k = Suc (Suc (Suc (Suc j)))" then show ?thesis using k4 [of j] le by (simp add: s 3)
    qed (simp_all add: s 3 DecodeRune_def)
  qed
qed

text \<open>Cutting a string between or inside runes adds nothing but \<open>RuneError\<close>.\<close>

lemma runes_Nil [simp]: "runes [] = []"
  by (simp add: runes_def range_string_def)

lemma runes_step: "s \<noteq> [] \<Longrightarrow> runes s = fst (DecodeRune s) # runes (drop (snd (DecodeRune s)) s)"
  using map_snd_range_from [of "snd (DecodeRune s)" "drop (snd (DecodeRune s)) s" 0]
  by (cases s) (auto simp: runes_def range_string_def split: prod.split)

lemma runes_conts_append:
  "list_all (\<lambda>b. is_cont (unat b)) cs \<Longrightarrow> set (runes (cs @ s)) \<subseteq> insert RuneError (set (runes s))"
  by (induction cs) (auto simp: runes_step DecodeRune_cont)

lemma runes_drop: "set (runes (drop k s)) \<subseteq> insert RuneError (set (runes s))"
proof (induction "length s" arbitrary: s k rule: less_induct)
  case less
  show ?case
  proof (cases "s = []")
    case False
    define n where "n = snd (DecodeRune s)"
    have n: "0 < n" "n \<le> length s" using DecodeRune_width [OF False] by (simp_all add: n_def)
    have tail: "set (runes (drop n s)) \<subseteq> set (runes s)"
      using runes_step [OF False] by (auto simp: n_def)
    show ?thesis
    proof (cases "n \<le> k")
      case True
      then have "drop k s = drop (k - n) (drop n s)" by simp
      moreover have "length (drop n s) < length s" using n by simp
      ultimately show ?thesis using less [of "drop n s" "k - n"] tail by (metis insert_mono subset_trans)
    next
      case nk: False
      show ?thesis
      proof (cases "k = 0")
        case False
        have "list_all (\<lambda>b. is_cont (unat b)) (take (n - k) (drop k s))"
          using DecodeRune_conts [OF \<open>s \<noteq> []\<close>] nk False n by (auto simp: list_all_length n_def)
        moreover have "drop k s = take (n - k) (drop k s) @ drop n s"
          using nk by (metis append_take_drop_id drop_drop le_add_diff_inverse2 linear not_less)
        ultimately show ?thesis using runes_conts_append [of "take (n - k) (drop k s)" "drop n s"] tail by auto
      qed auto
    qed
  qed simp
qed

lemma runes_take: "set (runes (take k s)) \<subseteq> insert RuneError (set (runes s))"
proof (induction "length s" arbitrary: s k rule: less_induct)
  case less
  show ?case
  proof (cases "s = [] \<or> k = 0")
    case False
    then have s: "s \<noteq> []" and k: "0 < k" by simp_all
    define n where "n = snd (DecodeRune s)"
    have n: "0 < n" "n \<le> length s" using DecodeRune_width [OF s] by (simp_all add: n_def)
    have step: "runes s = fst (DecodeRune s) # runes (drop n s)" using runes_step [OF s] by (simp add: n_def)
    have t: "take k s \<noteq> []" using s k by simp
    show ?thesis
    proof (cases "n \<le> k")
      case True
      then have "runes (take k s) = fst (DecodeRune s) # runes (take (k - n) (drop n s))"
        using runes_step [OF t] DecodeRune_take [OF s k] by (simp add: n_def drop_take)
      then show ?thesis using less [of "drop n s" "k - n"] n s step by auto
    next
      case nk: False
      have "list_all (\<lambda>b. is_cont (unat b)) (drop 1 (take k s))"
        using DecodeRune_conts [OF s] nk n by (auto simp: list_all_length n_def)
      then have "set (runes (drop 1 (take k s))) \<subseteq> {RuneError}"
        using runes_conts_append [of "drop 1 (take k s)" "[]"] by simp
      moreover have "runes (take k s) = RuneError # runes (drop 1 (take k s))"
        using runes_step [OF t] DecodeRune_take [OF s k] nk by (simp add: n_def)
      ultimately show ?thesis by auto
    qed
  qed auto
qed

section \<open>strings.ToUpper and strings.TrimRight\<close>

text \<open>
  \<open>up\<close> is the case table of package \<open>unicode\<close>.  An ASCII string takes the fast path
  without it.
\<close>

definition upper_byte :: "byte \<Rightarrow> byte" where
  "upper_byte b = (if 0x61 \<le> b \<and> b \<le> 0x7A then b - 32 else b)"

definition ToUpper :: "(rune \<Rightarrow> rune) \<Rightarrow> gostring \<Rightarrow> gostring" where
  "ToUpper up s = (if ascii s then map upper_byte s else encode_runes (map up (runes s)))"

fun drop_spaces :: "gostring \<Rightarrow> gostring" where
  "drop_spaces [] = []"
| "drop_spaces (b # bs) = (if b = 0x20 then drop_spaces bs else b # bs)"

definition TrimRight_space :: "gostring \<Rightarrow> gostring" where
  "TrimRight_space s = rev (drop_spaces (rev s))"

lemma drop_spaces_replicate: "drop_spaces (replicate n 0x20 @ s) = drop_spaces s"
  by (induction n) auto

lemma TrimRight_pad:
  "s = [] \<or> last s \<noteq> 0x20 \<Longrightarrow> TrimRight_space (s @ replicate n 0x20) = s"
  by (cases s rule: rev_cases) (auto simp: TrimRight_space_def drop_spaces_replicate rev_replicate
        intro: drop_spaces_replicate [of _ "[]", simplified])

section \<open>What decoding yields\<close>

text \<open>Every rune that ranging over a string yields is a scalar value, whatever the bytes.\<close>

lemma scalar_digits2: "x < 32 \<Longrightarrow> z < 64 \<Longrightarrow> scalar (x * 64 + z)"
  unfolding scalar_def by linarith

lemma scalar_digits3:
  assumes "x < 16" "y < 64" "z < 64" "x = 13 \<longrightarrow> y < 32"
  shows "scalar (x * 4096 + y * 64 + z)"
proof -
  consider "x < 13" | "x = 13" "y < 32" | "14 \<le> x" using assms(4) by linarith
  then show ?thesis unfolding scalar_def using assms(1-3) by cases linarith+
qed

lemma scalar_digits4:
  assumes "w \<le> 4" "x < 64" "y < 64" "z < 64" "w = 0 \<longrightarrow> 16 \<le> x" "w = 4 \<longrightarrow> x < 16"
  shows "scalar (w * 262144 + x * 4096 + y * 64 + z)"
proof -
  consider "w = 0" "16 \<le> x" | "1 \<le> w" "w < 4" | "w = 4" "x < 16" using assms(1,5,6) by linarith
  then show ?thesis unfolding scalar_def using assms(2-4) by cases linarith+
qed

lemma byte_digit:
  "128 \<le> b \<Longrightarrow> b \<le> 191 \<Longrightarrow> \<exists>k. b = 128 + k \<and> k < 64 \<and> b mod 64 = (k::nat)"
  "224 \<le> b \<Longrightarrow> b \<le> 239 \<Longrightarrow> \<exists>k. b = 224 + k \<and> k < 16 \<and> b mod 16 = (k::nat)"
  "240 \<le> b \<Longrightarrow> b \<le> 244 \<Longrightarrow> \<exists>k. b = 240 + k \<and> k \<le> 4 \<and> b mod 8 = (k::nat)"
  using bytes_mod(4) [of "b - 128"] bytes_mod(2) [of "b - 224"] bytes_mod(3) [of "b - 240"]
  by (auto intro!: exI [of _ "b - 128"] exI [of _ "b - 224"] exI [of _ "b - 240"])

lemma scalar_3:
  assumes "224 \<le> a" "a \<le> 239" "(if a = 224 then 160 else 128) \<le> b" "b \<le> (if a = 237 then 159 else 191)"
  shows "scalar (a mod 16 * 4096 + b mod 64 * 64 + c mod 64)"
proof -
  have b: "128 \<le> b" "b \<le> 191" using assms(3,4) by (auto split: if_splits)
  obtain k l where k: "a = 224 + k" "k < 16" "a mod 16 = k" and l: "b = 128 + l" "l < 64" "b mod 64 = l"
    using byte_digit(1) [OF b] byte_digit(2) [OF assms(1,2)] by blast
  have "k = 13 \<longrightarrow> l < 32" using assms(4) k(1) l(1) by (auto split: if_splits)
  then show ?thesis using k(2,3) l(2,3) by (simp add: scalar_digits3)
qed

lemma scalar_4:
  assumes "240 \<le> a" "a \<le> 244" "(if a = 240 then 144 else 128) \<le> b" "b \<le> (if a = 244 then 143 else 191)"
  shows "scalar (a mod 8 * 262144 + b mod 64 * 4096 + c mod 64 * 64 + d mod 64)"
proof -
  have b: "128 \<le> b" "b \<le> 191" using assms(3,4) by (auto split: if_splits)
  obtain k l where k: "a = 240 + k" "k \<le> 4" "a mod 8 = k" and l: "b = 128 + l" "l < 64" "b mod 64 = l"
    using byte_digit(1) [OF b] byte_digit(3) [OF assms(1,2)] by blast
  have "k = 0 \<longrightarrow> 16 \<le> l" "k = 4 \<longrightarrow> l < 16" using assms(3,4) k(1) l(1) by (auto split: if_splits)
  then show ?thesis using k(2,3) l(2,3) by (simp add: scalar_digits4)
qed

lemma scalar_if: "(P \<Longrightarrow> scalar x) \<Longrightarrow> scalar (fst (if P then (x, n) else (RuneError, m)))"
  by simp

lemma scalar_DecodeRune: "scalar (fst (DecodeRune s))"
proof (cases "map unat s")
  case (Cons a t)
  have b: "scalar (a mod 32 * 64 + b mod 64)" for b by (rule scalar_digits2) auto
  consider "a < 128" | "194 \<le> a" "a \<le> 223" | "224 \<le> a" "a \<le> 239" | "240 \<le> a" "a \<le> 244"
    | "128 \<le> a" "a < 194 \<or> 244 < a" by linarith
  then show ?thesis
  proof cases
    case 1
    then show ?thesis using Cons by (simp add: DecodeRune_def scalar_def)
  next
    case 2
    then show ?thesis using Cons by (cases t) (simp_all add: DecodeRune_def b)
  next
    case 3
    have "scalar (fst (DecodeRune s))" if "t = x # y # u" for x y u
    proof -
      have "DecodeRune s =
          (if (if a = 0xE0 then 0xA0 else 0x80) \<le> x \<and> x \<le> (if a = 0xED then 0x9F else 0xBF) \<and> is_cont y
           then ((a mod 16) * 4096 + (x mod 64) * 64 + y mod 64, 3) else (RuneError, 1))"
        using 3 by (simp add: DecodeRune_def Cons that)
      then show ?thesis using 3 by (simp only:, intro scalar_if scalar_3) simp_all
    qed
    moreover have "DecodeRune s = (RuneError, 1)" if "t = [] \<or> t = [x]" for x
      using 3 that by (auto simp: DecodeRune_def Cons)
    ultimately show ?thesis by (metis list.exhaust fst_conv RuneError_facts(1))
  next
    case 4
    have "scalar (fst (DecodeRune s))" if "t = x # y # z # u" for x y z u
    proof -
      have "DecodeRune s =
          (if (if a = 0xF0 then 0x90 else 0x80) \<le> x \<and> x \<le> (if a = 0xF4 then 0x8F else 0xBF)
              \<and> is_cont y \<and> is_cont z
           then ((a mod 8) * 262144 + (x mod 64) * 4096 + (y mod 64) * 64 + z mod 64, 4) else (RuneError, 1))"
        using 4 by (simp add: DecodeRune_def Cons that)
      then show ?thesis using 4 by (simp only:, intro scalar_if scalar_4) simp_all
    qed
    moreover have "DecodeRune s = (RuneError, 1)" if "t = [] \<or> t = [x] \<or> t = [x, y]" for x y
      using 4 that by (auto simp: DecodeRune_def Cons)
    ultimately show ?thesis by (metis list.exhaust fst_conv RuneError_facts(1))
  next
    case 5
    then show ?thesis using Cons by (auto simp: DecodeRune_def)
  qed
qed (simp add: DecodeRune_def)

lemma scalar_runes: "list_all scalar (runes s)"
proof (induction "length s" arbitrary: s rule: less_induct)
  case less
  show ?case
  proof (cases "s = []")
    case False
    then have "length (drop (snd (DecodeRune s)) s) < length s"
      using DecodeRune_width [of s] by (cases s) auto
    then show ?thesis using less False by (simp add: runes_step scalar_DecodeRune)
  qed simp
qed
lemma valid_utf8_ascii:
  assumes "ascii s" shows "valid_utf8 s"
proof -
  have "scalar (unat b) \<and> EncodeRune (unat b) = [b]" if "b \<in> set s" for b
  proof -
    have "unat b < 128" using assms that by (auto simp: ascii_def list_all_iff word_less_nat_alt)
    then show ?thesis by (simp add: EncodeRune_def scalar_def Let_def)
  qed
  then have "encode_runes (map unat s) = s" "list_all scalar (map unat s)"
    by (simp_all add: encode_runes_def list_all_iff comp_def cong: map_cong)
  then show ?thesis by (simp add: valid_utf8_def runes_ascii [OF assms])
qed

end
