(* ===== verification/IsoText.thy ===== *)
theory IsoText
  imports IoUtil Utf8
begin

text \<open>
  The fixed width text fields of the volume descriptor: \<open>stra.go\<close>, \<open>strd.go\<close> and the two
  readers \<open>readStrA\<close> and \<open>readStrD\<close> of \<open>ioutil.go\<close>.  \<open>up\<close> is \<open>unicode.ToUpper\<close> beyond
  ASCII; no lemma assumes anything of it.
\<close>

section \<open>Definitions\<close>

definition rune_of :: "char \<Rightarrow> rune" where
  "rune_of c = of_char c"

definition StrDRunes :: "rune list" where
  "StrDRunes = map rune_of ''ABCDEFGHIJKLMNOPQRSTUVWXYZ0123456789_''"

definition StrARunes :: "rune list" where
  "StrARunes = map rune_of ''ABCDEFGHIJKLMNOPQRSTUVWXYZ0123456789_!'' @ [0x22] @ map rune_of ''%&'' @
     [0x27] @ map rune_of ''()*+,-./:;<=>?''"

text \<open>The loop of both functions, with its break on the byte index.\<close>

fun str_loop :: "rune list \<Rightarrow> rune \<Rightarrow> nat \<Rightarrow> (nat \<times> rune) list \<Rightarrow> gostring" where
  "str_loop allowed other n [] = []"
| "str_loop allowed other n ((i, r) # rs) =
     (if n \<le> i then []
      else EncodeRune (if r \<in> set allowed then r else other) @ str_loop allowed other n rs)"

text \<open>\<open>fmt.Sprintf("%-Ns", b)\<close> fills up with spaces to \<open>N\<close> runes.\<close>

definition sprintf_left :: "nat \<Rightarrow> gostring \<Rightarrow> gostring" where
  "sprintf_left n s = s @ replicate (n - length (runes s)) 0x20"

definition StrA :: "(rune \<Rightarrow> rune) \<Rightarrow> gostring \<Rightarrow> nat \<Rightarrow> gostring" where
  "StrA up input n =
     sprintf_left n (str_loop StrARunes (rune_of CHR ''?'') n (range_string (ToUpper up input)))"

definition StrD :: "(rune \<Rightarrow> rune) \<Rightarrow> gostring \<Rightarrow> nat \<Rightarrow> gostring" where
  "StrD up input n =
     sprintf_left n (str_loop StrDRunes (rune_of CHR ''_'') n (range_string (ToUpper up input)))"

fun check_runes :: "rune list \<Rightarrow> string \<Rightarrow> (nat \<times> rune) list \<Rightarrow> goerr option" where
  "check_runes allowed msg [] = None"
| "check_runes allowed msg ((i, r) # rs) =
     (if r \<notin> set allowed then Some (Err msg) else check_runes allowed msg rs)"

definition readStrA :: "(rune \<Rightarrow> rune) \<Rightarrow> nat \<Rightarrow> gostring reader" where
  "readStrA up n = rbind (read_full n) (\<lambda>buf.
     let s = ToUpper up (TrimRight_space buf)
     in case check_runes StrARunes ''StrA field contains invalid rune'' (range_string s) of
          Some e \<Rightarrow> rfail e | None \<Rightarrow> rreturn s)"

definition readStrD :: "(rune \<Rightarrow> rune) \<Rightarrow> nat \<Rightarrow> gostring reader" where
  "readStrD up n = rbind (read_full n) (\<lambda>buf.
     let s = ToUpper up (TrimRight_space buf)
     in case check_runes StrDRunes ''StrD field contains invalid rune'' (range_string s) of
          Some e \<Rightarrow> rfail e | None \<Rightarrow> rreturn s)"

section \<open>Lemmas\<close>

text \<open>
  What the two alphabets have in common and the proofs rest on: ASCII, no space, no lower
  case letter.
\<close>

definition field_alphabet :: "rune list \<Rightarrow> bool" where
  "field_alphabet A \<longleftrightarrow> list_all (\<lambda>r. r < 0x80 \<and> r \<noteq> 0x20 \<and> \<not> (0x61 \<le> r \<and> r \<le> 0x7A)) A"

lemma alphabets [simp]:
  "field_alphabet StrARunes" "field_alphabet StrDRunes"
  "rune_of CHR ''?'' \<in> set StrARunes" "rune_of CHR ''_'' \<in> set StrDRunes"
  by (simp_all add: field_alphabet_def StrARunes_def StrDRunes_def rune_of_def)

lemma field_alphabetD:
  "field_alphabet A \<Longrightarrow> r \<in> set A \<Longrightarrow> r < 0x80 \<and> r \<noteq> 0x20 \<and> \<not> (0x61 \<le> r \<and> r \<le> 0x7A)"
  by (auto simp: field_alphabet_def list_all_iff)

text \<open>A field's text: bytes of the alphabet only.\<close>

definition field_text :: "rune list \<Rightarrow> gostring \<Rightarrow> bool" where
  "field_text A s \<longleftrightarrow> list_all (\<lambda>b. unat b \<in> set A) s"

lemma EncodeRune_ascii: "r < 0x80 \<Longrightarrow> EncodeRune r = [of_nat r]"
  by (simp add: EncodeRune_def Let_def scalar_def)

lemma str_loop_text:
  assumes "field_alphabet A" "other \<in> set A"
  shows "field_text A (str_loop A other n rs)"
proof (induction rs rule: list.induct)
  case (Cons x rs)
  obtain i r where x: "x = (i, r)" by fastforce
  define q where "q = (if r \<in> set A then r else other)"
  have "q \<in> set A" using assms(2) by (simp add: q_def)
  moreover have "q < 0x80" using field_alphabetD [OF assms(1) \<open>q \<in> set A\<close>] by simp
  ultimately show ?case
    using Cons by (simp add: x field_text_def EncodeRune_ascii unat_of_nat_byte flip: q_def)
qed (simp add: field_text_def)

lemma str_loop_length:
  assumes "field_alphabet A" "other \<in> set A"
  shows "length (str_loop A other n (range_from i s)) \<le> n - i"
proof (induction i s rule: range_from.induct)
  case (2 i b bs)
  obtain r k where d: "DecodeRune (b # bs) = (r, k)" by fastforce
  have k: "0 < k" using DecodeRune_width(1) [of "b # bs"] by (simp add: d)
  define q where "q = (if r \<in> set A then r else other)"
  have "q < 0x80" using field_alphabetD [OF assms(1), of q] assms(2) by (simp add: q_def)
  then have "length (EncodeRune q) = 1" by (simp add: EncodeRune_ascii)
  then show ?case using 2 [OF d [symmetric]] k by (simp add: d flip: q_def) linarith
qed simp

lemma field_text_ascii: "field_alphabet A \<Longrightarrow> field_text A s \<Longrightarrow> ascii s"
  by (auto simp: field_text_def ascii_def list_all_iff word_less_nat_alt dest: field_alphabetD)

lemma sprintf_left_ascii: "ascii s \<Longrightarrow> sprintf_left n s = s @ replicate (n - length s) 0x20"
  by (simp add: sprintf_left_def runes_ascii)

lemma length_Str [wire_len, simp]: "length (StrA up s n) = n" "length (StrD up s n) = n"
proof -
  have "length (sprintf_left n (str_loop A other n (range_string t))) = n"
    if "field_alphabet A" "other \<in> set A" for A other t
    using str_loop_length [OF that, of n 0 t] field_text_ascii [OF that(1) str_loop_text [OF that]]
    by (simp add: sprintf_left_ascii range_string_def)
  then show "length (StrA up s n) = n" "length (StrD up s n) = n"
    by (simp_all add: StrA_def StrD_def)
qed

lemma ToUpper_text:
  assumes "field_alphabet A" "field_text A s"
  shows "ToUpper up s = s"
proof -
  have "upper_byte b = b" if "b \<in> set s" for b
    using field_alphabetD [OF assms(1), of "unat b"] assms(2) that
    by (auto simp: upper_byte_def field_text_def list_all_iff word_le_nat_alt)
  then show ?thesis
    using field_text_ascii [OF assms] by (simp add: ToUpper_def map_idI)
qed

lemma check_runes_text: "field_text A s \<Longrightarrow> ascii s \<Longrightarrow> check_runes A msg (range_from i s) = None"
proof (induction s arbitrary: i)
  case (Cons b s)
  then have "unat b < 128" by (simp add: ascii_def word_less_nat_alt)
  then show ?case using Cons by (simp add: DecodeRune_def field_text_def ascii_def)
qed simp

lemma trim_field:
  assumes "field_alphabet A" "field_text A s"
  shows "TrimRight_space (s @ replicate k 0x20) = s"
proof (rule TrimRight_pad)
  have "b \<noteq> 0x20" if "b \<in> set s" for b
    using field_alphabetD [OF assms(1), of "unat b"] assms(2) that by (auto simp: field_text_def list_all_iff)
  then show "s = [] \<or> last s \<noteq> 0x20" using last_in_set by blast
qed

text \<open>
  The text a field carries: what \<open>StrA\<close> and \<open>StrD\<close> make of their input, before the
  padding.  Reading a field gives it back.
\<close>

definition textA :: "(rune \<Rightarrow> rune) \<Rightarrow> gostring \<Rightarrow> nat \<Rightarrow> gostring" where
  "textA up s n = str_loop StrARunes (rune_of CHR ''?'') n (range_string (ToUpper up s))"

definition textD :: "(rune \<Rightarrow> rune) \<Rightarrow> gostring \<Rightarrow> nat \<Rightarrow> gostring" where
  "textD up s n = str_loop StrDRunes (rune_of CHR ''_'') n (range_string (ToUpper up s))"

lemma field_text_of_text:
  "field_text StrARunes (textA up s n)" "field_text StrDRunes (textD up s n)"
  by (simp_all add: textA_def textD_def str_loop_text)

lemma read_field:
  assumes "field_alphabet A" "field_text A t" "length t \<le> n"
  shows "rbind (read_full n) (\<lambda>buf.
     let s = ToUpper up (TrimRight_space buf)
     in case check_runes A msg (range_string s) of Some e \<Rightarrow> rfail e | None \<Rightarrow> rreturn s)
     ((t @ replicate (n - length t) 0x20) @ r) = Inr (t, r)"
proof -
  have "read_full n ((t @ replicate (n - length t) 0x20) @ r) = Inr (t @ replicate (n - length t) 0x20, r)"
    using assms(3) by (intro read_full_append) simp
  then show ?thesis
    using check_runes_text [OF assms(2) field_text_ascii [OF assms(1,2)], of msg 0]
    by (simp only: rbind_Inr trim_field [OF assms(1,2)] ToUpper_text [OF assms(1,2)] Let_def
          range_string_def option.case rreturn_apply)
qed

lemma readStr_Str [wire]:
  "readStrA up n (StrA up s n @ r) = Inr (textA up s n, r)"
  "readStrD up n (StrD up s n @ r) = Inr (textD up s n, r)"
proof -
  have l: "length (textA up s n) \<le> n" "length (textD up s n) \<le> n"
    using str_loop_length [of StrARunes "rune_of CHR ''?''" n 0] str_loop_length [of StrDRunes "rune_of CHR ''_''" n 0]
    by (simp_all add: textA_def textD_def range_string_def)
  have a: "ascii (textA up s n)" "ascii (textD up s n)"
    using field_text_ascii [OF alphabets(1) field_text_of_text(1)]
      field_text_ascii [OF alphabets(2) field_text_of_text(2)] .
  have pa: "StrA up s n = textA up s n @ replicate (n - length (textA up s n)) 0x20"
    using sprintf_left_ascii [OF a(1), of n] by (simp add: StrA_def textA_def)
  have pd: "StrD up s n = textD up s n @ replicate (n - length (textD up s n)) 0x20"
    using sprintf_left_ascii [OF a(2), of n] by (simp add: StrD_def textD_def)
  show "readStrA up n (StrA up s n @ r) = Inr (textA up s n, r)"
    unfolding readStrA_def pa by (rule read_field [OF alphabets(1) field_text_of_text(1) l(1)])
  show "readStrD up n (StrD up s n @ r) = Inr (textD up s n, r)"
    unfolding readStrD_def pd by (rule read_field [OF alphabets(2) field_text_of_text(2) l(2)])
qed

text \<open>A text of the field's alphabet that fits is carried unchanged.\<close>

lemma str_loop_id:
  assumes "field_alphabet A" "field_text A s" "i + length s \<le> n"
  shows "str_loop A other n (range_from i s) = s"
  using assms(2,3)
proof (induction s arbitrary: i)
  case (Cons b s)
  have b: "unat b \<in> set A" using Cons.prems by (simp add: field_text_def)
  then have "unat b < 128" using field_alphabetD [OF assms(1)] by blast
  then show ?case using Cons b by (simp add: DecodeRune_def field_text_def EncodeRune_ascii)
qed simp

lemma text_id:
  "field_text StrARunes s \<Longrightarrow> length s \<le> n \<Longrightarrow> textA up s n = s"
  "field_text StrDRunes s \<Longrightarrow> length s \<le> n \<Longrightarrow> textD up s n = s"
  by (simp_all add: textA_def textD_def ToUpper_text [OF alphabets(1)] ToUpper_text [OF alphabets(2)]
        range_string_def str_loop_id)

end
