(* ===== verification/IsoNames.thy ===== *)
theory IsoNames
  imports Utf8
begin

text \<open>
  Names of directory entries: the validators of \<open>namevalidator.go\<close> and
  \<open>rrip/validator.go\<close>, and the short hidden identifiers of \<open>identifier.go\<close>.
  \<open>is_print\<close> is \<open>unicode.IsPrint\<close>.
\<close>

section \<open>Validators\<close>

definition posixPortableRunes :: "rune list" where
  "posixPortableRunes = map of_char
     ''ABCDEFGHIJKLMNOPQRSTUVWXYZabcdefghijklmnopqrstuvwxyz0123456789_-.''"

definition nvidiaExtendedInvalidRunes :: "rune list" where
  "nvidiaExtendedInvalidRunes = map of_char ''/'' @ [0x5C] @ map of_char ''?%*:|'' @ [0x22] @
     map of_char ''<> '' @ [0x0A, 0x09] @ map of_char ''$!''"

fun posix_loop :: "(nat \<times> rune) list \<Rightarrow> goerr option" where
  "posix_loop [] = None"
| "posix_loop ((i, r) # rs) =
     (if r \<notin> set posixPortableRunes then Some (Err ''PosixPortableNameValidator: invalid rune'')
      else posix_loop rs)"

definition Posix_IsValid :: "gostring \<Rightarrow> goerr option" where
  "Posix_IsValid s = posix_loop (range_string s)"

fun nvidia_loop :: "(rune \<Rightarrow> bool) \<Rightarrow> (nat \<times> rune) list \<Rightarrow> goerr option" where
  "nvidia_loop is_print [] = None"
| "nvidia_loop is_print ((i, r) # rs) =
     (if r \<in> set nvidiaExtendedInvalidRunes then Some (Err ''NvidiaExtendedNameValidator: invalid rune'')
      else if \<not> is_print r then Some (Err ''NvidiaExtendedNameValidator: non-printable rune'')
      else nvidia_loop is_print rs)"

definition Nvidia_IsValid :: "(rune \<Rightarrow> bool) \<Rightarrow> gostring \<Rightarrow> goerr option" where
  "Nvidia_IsValid is_print s = nvidia_loop is_print (range_string s)"

fun valid_loop :: "(rune \<Rightarrow> bool) \<Rightarrow> (nat \<times> rune) list \<Rightarrow> bool" where
  "valid_loop is_print [] = True"
| "valid_loop is_print ((i, r) # rs) =
     (if \<not> is_print r \<or> r = of_char CHR ''/'' then False else valid_loop is_print rs)"

definition isValid :: "(rune \<Rightarrow> bool) \<Rightarrow> gostring \<Rightarrow> bool" where
  "isValid is_print s = valid_loop is_print (range_string s)"

text \<open>What the program relies on of \<open>unicode.IsPrint\<close>: its documented value on ASCII.\<close>

definition is_print_law :: "(rune \<Rightarrow> bool) \<Rightarrow> bool" where
  "is_print_law p \<longleftrightarrow> (\<forall>r \<in> {0x20..0x7E}. p r) \<and> (\<forall>r \<in> {0..0x1F} \<union> {0x7F}. \<not> p r)"

definition ascii_print :: "rune \<Rightarrow> bool" where
  "ascii_print r \<longleftrightarrow> 0x20 \<le> r \<and> r \<le> 0x7E"

lemma ascii_print_law: "is_print_law ascii_print"
  by (auto simp: is_print_law_def ascii_print_def)

text \<open>A validator accepts a name exactly when every rune of it passes.\<close>

lemma Posix_IsValid_iff: "Posix_IsValid s = None \<longleftrightarrow> (\<forall>r \<in> set (runes s). r \<in> set posixPortableRunes)"
proof -
  have "posix_loop rs = None \<longleftrightarrow> (\<forall>x \<in> set rs. snd x \<in> set posixPortableRunes)" for rs
    by (induction rs rule: posix_loop.induct) auto
  then show ?thesis by (auto simp: Posix_IsValid_def runes_def)
qed

lemma Nvidia_IsValid_iff:
  "Nvidia_IsValid p s = None \<longleftrightarrow> (\<forall>r \<in> set (runes s). r \<notin> set nvidiaExtendedInvalidRunes \<and> p r)"
proof -
  have "nvidia_loop p rs = None \<longleftrightarrow> (\<forall>x \<in> set rs. snd x \<notin> set nvidiaExtendedInvalidRunes \<and> p (snd x))" for rs
    by (induction rs rule: list.induct) (auto split: if_splits)
  then show ?thesis by (auto simp: Nvidia_IsValid_def runes_def)
qed

lemma isValid_iff: "isValid p s \<longleftrightarrow> (\<forall>r \<in> set (runes s). p r \<and> r \<noteq> of_char CHR ''/'')"
proof -
  have "valid_loop p rs \<longleftrightarrow> (\<forall>x \<in> set rs. p (snd x) \<and> snd x \<noteq> of_char CHR ''/'')" for rs
    by (induction rs rule: list.induct) (auto split: if_splits)
  then show ?thesis by (auto simp: isValid_def runes_def)
qed

lemma posix_runes_printable:
  "r \<in> set posixPortableRunes \<Longrightarrow> r \<in> {0x20..0x7E} \<and> r \<notin> set nvidiaExtendedInvalidRunes"
proof -
  have "list_all (\<lambda>r. r \<in> {0x20..0x7E} \<and> r \<notin> set nvidiaExtendedInvalidRunes) posixPortableRunes"
    by (simp add: posixPortableRunes_def nvidiaExtendedInvalidRunes_def)
  then show "r \<in> set posixPortableRunes \<Longrightarrow> ?thesis" by (auto simp: list_all_iff)
qed

lemma slash_invalid: "of_char CHR ''/'' \<in> set nvidiaExtendedInvalidRunes"
  by (simp add: nvidiaExtendedInvalidRunes_def)

text \<open>
  The Rock Ridge check that a decoded name goes through is no stricter than either of the
  validators a name passed when it was added to a directory, as the comment on it asks;
  and a POSIX portable name is also a valid name of the extended set.
\<close>

theorem validators_ordered:
  assumes "is_print_law p"
  shows "(Posix_IsValid s = None \<longrightarrow> Nvidia_IsValid p s = None) \<and>
         (Nvidia_IsValid p s = None \<longrightarrow> isValid p s)"
proof -
  have "p r" if "r \<in> {0x20..0x7E}" for r
    using assms that by (simp add: is_print_law_def)
  then have "Posix_IsValid s = None \<longrightarrow> Nvidia_IsValid p s = None"
    using posix_runes_printable by (auto simp: Posix_IsValid_iff Nvidia_IsValid_iff)
  moreover have "Nvidia_IsValid p s = None \<longrightarrow> isValid p s"
    using slash_invalid by (auto simp: Nvidia_IsValid_iff isValid_iff)
  ultimately show ?thesis ..
qed

theorem validators_ordered_witness:
  "Posix_IsValid (bytes_of ''a.txt'') = None \<and> Nvidia_IsValid ascii_print (bytes_of ''a.txt'') = None \<and>
   isValid ascii_print (bytes_of ''a.txt'')"
proof -
  have "Posix_IsValid (bytes_of ''a.txt'') = None"
    by (simp add: Posix_IsValid_def range_string_def bytes_of_def posixPortableRunes_def DecodeRune_def)
  then show ?thesis
    using validators_ordered [OF ascii_print_law, of "bytes_of ''a.txt''"] by simp
qed

section \<open>Identifiers\<close>

text \<open>\<open>binary.PutUvarint\<close>, then base 32 with \<open>_\<close> as the padding character.\<close>

fun PutUvarint :: "nat \<Rightarrow> byte list" where
  "PutUvarint x = (if x < 0x80 then [of_nat x] else of_nat (x mod 0x80 + 0x80) # PutUvarint (x div 0x80))"

declare PutUvarint.simps [simp del]

definition base32_alphabet :: gostring where
  "base32_alphabet = bytes_of ''ABCDEFGHIJKLMNOPQRSTUVWXYZ234567''"

text \<open>The eight 5-bit blocks of five bytes; the missing bytes of a short quantum are 0.\<close>

definition quintets :: "byte \<Rightarrow> byte \<Rightarrow> byte \<Rightarrow> byte \<Rightarrow> byte \<Rightarrow> byte list" where
  "quintets s0 s1 s2 s3 s4 =
     [drop_bit 3 s0,
      (push_bit 2 s0 AND 0x1F) OR drop_bit 6 s1,
      drop_bit 1 s1 AND 0x1F,
      (push_bit 4 s1 AND 0x1F) OR drop_bit 4 s2,
      (push_bit 1 s2 AND 0x1F) OR drop_bit 7 s3,
      drop_bit 2 s3 AND 0x1F,
      (push_bit 3 s3 AND 0x1F) OR drop_bit 5 s4,
      s4 AND 0x1F]"

definition encode_quantum :: "nat \<Rightarrow> byte list \<Rightarrow> gostring" where
  "encode_quantum u qs =
     map (\<lambda>q. base32_alphabet ! unat q) (take u qs) @ replicate (8 - u) (of_char CHR ''_'')"

fun base32_Encode :: "byte list \<Rightarrow> gostring" where
  "base32_Encode [] = []"
| "base32_Encode [s0] = encode_quantum 2 (quintets s0 0 0 0 0)"
| "base32_Encode [s0, s1] = encode_quantum 4 (quintets s0 s1 0 0 0)"
| "base32_Encode [s0, s1, s2] = encode_quantum 5 (quintets s0 s1 s2 0 0)"
| "base32_Encode [s0, s1, s2, s3] = encode_quantum 7 (quintets s0 s1 s2 s3 0)"
| "base32_Encode (s0 # s1 # s2 # s3 # s4 # src) =
     encode_quantum 8 (quintets s0 s1 s2 s3 s4) @ base32_Encode src"

record IdentifierAllocator =
  ia_count :: u64

definition NewIdentifierAllocator :: IdentifierAllocator where
  "NewIdentifierAllocator = \<lparr>ia_count = 0\<rparr>"

definition IdentifierAllocator_Next :: "IdentifierAllocator \<Rightarrow> IdentifierAllocator \<times> gostring" where
  "IdentifierAllocator_Next ia =
     (ia\<lparr>ia_count := ia_count ia + 1\<rparr>, base32_Encode (PutUvarint (unat (ia_count ia))))"

text \<open>The identifiers of \<open>n\<close> calls in a row.\<close>

fun identifiers :: "nat \<Rightarrow> IdentifierAllocator \<Rightarrow> IdentifierAllocator \<times> gostring list" where
  "identifiers 0 ia = (ia, [])"
| "identifiers (Suc n) ia =
     (let (ia', name) = IdentifierAllocator_Next ia; (ia'', names) = identifiers n ia'
      in (ia'', name # names))"

subsection \<open>The encodings are injective\<close>

lemma PutUvarint_inj: "PutUvarint x = PutUvarint y \<Longrightarrow> x = y"
proof (induction x arbitrary: y rule: PutUvarint.induct)
  case (1 x)
  have w: "n < 256 \<Longrightarrow> m < 256 \<Longrightarrow> (of_nat n :: byte) = of_nat m \<Longrightarrow> n = m" for n m
    by (metis unat_of_nat_byte)
  have m: "n mod 128 + 128 < 256" for n :: nat
    using mod_less_divisor [of 128 n] by linarith
  have ne: "(of_nat (n mod 128 + 128) :: byte) \<noteq> of_nat k" if "k < 128" for n k :: nat
    using w [OF m, of k n] that by auto
  consider "x < 128" "y < 128" | "x < 128" "\<not> y < 128" | "\<not> x < 128" "y < 128" | "\<not> x < 128" "\<not> y < 128"
    by blast
  then show ?case
  proof cases
    case 1 then show ?thesis using "1.prems" w [of x y] by (simp add: PutUvarint.simps [of x] PutUvarint.simps [of y])
  next
    case 2 then show ?thesis using "1.prems" ne [of x y] by (simp add: PutUvarint.simps [of x] PutUvarint.simps [of y])
  next
    case 3 then show ?thesis using "1.prems" ne [of y x] by (simp add: PutUvarint.simps [of x] PutUvarint.simps [of y])
  next
    case 4
    then have "x mod 128 = y mod 128" and "PutUvarint (x div 128) = PutUvarint (y div 128)"
      using "1.prems" w [OF m m, of x y]
      by (simp_all add: PutUvarint.simps [of x] PutUvarint.simps [of y] del: of_nat_add)
    moreover from this(2) have "x div 128 = y div 128" using 4 "1.IH" by blast
    ultimately show ?thesis by (metis div_mult_mod_eq)
  qed
qed

lemma byte_eqI:
  fixes a b :: byte
  assumes "bit a 0 = bit b 0" "bit a 1 = bit b 1" "bit a 2 = bit b 2" "bit a 3 = bit b 3"
    "bit a 4 = bit b 4" "bit a 5 = bit b 5" "bit a 6 = bit b 6" "bit a 7 = bit b 7"
  shows "a = b"
proof (rule bit_word_eqI)
  fix n assume "n < LENGTH(8)"
  then have "n = 0 \<or> n = 1 \<or> n = 2 \<or> n = 3 \<or> n = 4 \<or> n = 5 \<or> n = 6 \<or> n = 7" by auto
  then show "bit a n = bit b n" using assms by blast
qed

text \<open>The bytes of a quantum, read back from its blocks.\<close>

lemma unquintet0: "push_bit 3 (drop_bit 3 s0) OR drop_bit 2 ((push_bit 2 s0 AND 0x1F) OR drop_bit 6 s1) = (s0 :: byte)"
  by (rule byte_eqI) (simp_all add: bit_simps eval_nat_numeral del: push_bit_Suc drop_bit_Suc)

lemma unquintet1: "push_bit 6 ((push_bit 2 s0 AND 0x1F) OR drop_bit 6 s1) OR push_bit 1 (drop_bit 1 s1 AND 0x1F)
    OR drop_bit 4 ((push_bit 4 s1 AND 0x1F) OR drop_bit 4 s2) = (s1 :: byte)"
  by (rule byte_eqI) (simp_all add: bit_simps eval_nat_numeral del: push_bit_Suc drop_bit_Suc)

lemma unquintet2: "push_bit 4 ((push_bit 4 s1 AND 0x1F) OR drop_bit 4 s2) OR
    drop_bit 1 ((push_bit 1 s2 AND 0x1F) OR drop_bit 7 s3) = (s2 :: byte)"
  by (rule byte_eqI) (simp_all add: bit_simps eval_nat_numeral del: push_bit_Suc drop_bit_Suc)

lemma unquintet3: "push_bit 7 ((push_bit 1 s2 AND 0x1F) OR drop_bit 7 s3) OR push_bit 2 (drop_bit 2 s3 AND 0x1F)
    OR drop_bit 3 ((push_bit 3 s3 AND 0x1F) OR drop_bit 5 s4) = (s3 :: byte)"
  by (rule byte_eqI) (simp_all add: bit_simps eval_nat_numeral del: push_bit_Suc drop_bit_Suc)

lemma unquintet4: "push_bit 5 ((push_bit 3 s3 AND 0x1F) OR drop_bit 5 s4) OR (s4 AND 0x1F) = (s4 :: byte)"
  by (rule byte_eqI) (simp_all add: bit_simps eval_nat_numeral del: push_bit_Suc drop_bit_Suc)

lemma quintets_inj:
  "quintets s0 s1 s2 s3 s4 = quintets t0 t1 t2 t3 t4 \<longleftrightarrow>
     s0 = t0 \<and> s1 = t1 \<and> s2 = t2 \<and> s3 = t3 \<and> s4 = t4"
  unfolding quintets_def
  by (metis (no_types, lifting) list.inject unquintet0 unquintet1 unquintet2 unquintet3 unquintet4)

lemma byte_high: "8 \<le> n \<Longrightarrow> \<not> bit (b :: byte) n"
  by (auto dest: bit_imp_le_length)

lemma quintet_small: "q \<in> set (quintets s0 s1 s2 s3 s4) \<Longrightarrow> unat q < 32"
proof -
  have a: "unat x < 32" if "\<not> bit x 5" "\<not> bit x 6" "\<not> bit x 7" for x :: byte
  proof -
    have "x AND 0x1F = x" by (rule byte_eqI) (simp_all add: bit_simps that)
    then have "x \<le> 0x1F" by (metis word_and_le1)
    then show ?thesis by (simp add: word_le_nat_alt)
  qed
  have "list_all (\<lambda>q. unat q < 32) (quintets s0 s1 s2 s3 s4)"
    unfolding quintets_def list.pred_inject
    by (intro conjI a TrueI) (simp_all add: bit_simps byte_high)
  then show "q \<in> set (quintets s0 s1 s2 s3 s4) \<Longrightarrow> ?thesis" by (auto simp: list_all_iff)
qed

text \<open>
  One step of the encoder for any length: a quantum of up to five bytes, of which the
  first \<open>blocks_used\<close> blocks are written.
\<close>

definition blocks_used :: "nat \<Rightarrow> nat" where
  "blocks_used n = (if n = 1 then 2 else if n = 2 then 4 else if n = 3 then 5 else if n = 4 then 7 else 8)"

definition quantum :: "byte list \<Rightarrow> byte list" where
  "quantum xs = (let p = xs @ [0, 0, 0, 0, 0] in quintets (p ! 0) (p ! 1) (p ! 2) (p ! 3) (p ! 4))"

lemma base32_step:
  assumes "xs \<noteq> []"
  shows "base32_Encode xs = encode_quantum (blocks_used (length xs)) (quantum xs) @ base32_Encode (drop 5 xs)"
  using assms by (cases xs rule: base32_Encode.cases) (simp_all add: blocks_used_def quantum_def)

lemma length_encode_quantum: "u \<le> 8 \<Longrightarrow> length qs = 8 \<Longrightarrow> length (encode_quantum u qs) = 8"
  by (simp add: encode_quantum_def)

lemma length_quantum [simp]: "length (quantum xs) = 8"
  by (simp add: quantum_def quintets_def Let_def)

lemma blocks_used_le [simp]: "blocks_used n \<le> 8"
  by (simp add: blocks_used_def)

lemma alphabet_inj:
  "i < 32 \<Longrightarrow> j < 32 \<Longrightarrow> base32_alphabet ! i = base32_alphabet ! j \<Longrightarrow> i = j"
proof -
  have "distinct base32_alphabet" "length base32_alphabet = 32"
    by (simp_all add: base32_alphabet_def bytes_of_def)
  then show "i < 32 \<Longrightarrow> j < 32 \<Longrightarrow> base32_alphabet ! i = base32_alphabet ! j \<Longrightarrow> i = j"
    by (simp add: nth_eq_iff_index_eq)
qed

lemma alphabet_no_pad: "i < 32 \<Longrightarrow> base32_alphabet ! i \<noteq> of_char CHR ''_''"
proof -
  have "list_all (\<lambda>b. b \<noteq> of_char CHR ''_'') base32_alphabet" "length base32_alphabet = 32"
    by (simp_all add: base32_alphabet_def bytes_of_def)
  then show "i < 32 \<Longrightarrow> ?thesis" by (auto simp: list_all_length)
qed

lemma quantum_small: "q \<in> set (quantum xs) \<Longrightarrow> unat q < 32"
  using quintet_small unfolding quantum_def Let_def by blast

lemma encode_quantum_inj:
  assumes "encode_quantum u (quantum xs) = encode_quantum v (quantum ys)" "u \<le> 8" "v \<le> 8"
  shows "u = v \<and> take u (quantum xs) = take u (quantum ys)"
proof -
  let ?f = "\<lambda>q :: byte. base32_alphabet ! unat q"
  have small: "unat q < 32" if "q \<in> set (take w (quantum zs))" for q w zs
    using that quantum_small in_set_takeD by metis
  have len: "length (takeWhile (\<lambda>c. c \<noteq> of_char CHR ''_'') (encode_quantum w (quantum zs))) = w"
    if "w \<le> 8" for w zs
  proof -
    have "c \<noteq> of_char CHR ''_''" if "c \<in> set (map ?f (take w (quantum zs)))" for c
      using that alphabet_no_pad small by auto
    then have "takeWhile (\<lambda>c. c \<noteq> of_char CHR ''_'') (encode_quantum w (quantum zs)) =
        map ?f (take w (quantum zs))"
      unfolding encode_quantum_def by (subst takeWhile_append2) (auto simp: takeWhile_eq_Nil_iff)
    then show ?thesis using that by simp
  qed
  have uv: "u = v" using len [OF assms(2), of xs] len [OF assms(3), of ys] assms(1) by simp
  have "map ?f (take u (quantum xs)) = map ?f (take u (quantum ys))"
    using assms(1) unfolding uv encode_quantum_def by (simp add: append_eq_append_conv)
  moreover have "inj_on ?f (set (take u (quantum xs)) \<union> set (take u (quantum ys)))"
    using alphabet_inj small by (auto intro!: inj_onI) (metis unsigned_word_eqI)+
  ultimately show ?thesis using uv inj_on_map_eq_map by blast
qed

text \<open>The blocks that are not written are those of absent bytes, hence 0.\<close>

lemma quantum_rest:
  assumes "xs \<noteq> []"
  shows "quantum xs = take (blocks_used (length xs)) (quantum xs) @ replicate (8 - blocks_used (length xs)) 0"
  using assms by (cases xs rule: base32_Encode.cases)
    (simp_all add: blocks_used_def quantum_def quintets_def numeral_eq_Suc)

lemma blocks_used_inj: "0 < n \<Longrightarrow> 0 < m \<Longrightarrow> blocks_used n = blocks_used m \<Longrightarrow> n = m \<or> 5 \<le> n \<and> 5 \<le> m"
  by (auto simp: blocks_used_def split: if_splits)

lemma quantum_bytes:
  assumes "quantum xs = quantum ys" "length xs = length ys \<or> 5 \<le> length xs \<and> 5 \<le> length ys"
  shows "take 5 xs = take 5 ys"
proof -
  have "(xs @ [0, 0, 0, 0, 0]) ! i = (ys @ [0, 0, 0, 0, 0]) ! i" if "i < 5" for i
  proof -
    have "i = 0 \<or> i = 1 \<or> i = 2 \<or> i = 3 \<or> i = 4" using that by auto
    then show ?thesis using assms(1) by (auto simp: quantum_def Let_def quintets_inj)
  qed
  then have "i < 5 \<Longrightarrow> i < length xs \<Longrightarrow> i < length ys \<Longrightarrow> xs ! i = ys ! i" for i
    by (metis nth_append)
  then show ?thesis using assms(2) by (intro nth_equalityI) auto
qed

lemma base32_Encode_inj: "base32_Encode xs = base32_Encode ys \<Longrightarrow> xs = ys"
proof (induction "length xs" arbitrary: xs ys rule: less_induct)
  case less
  have ne: "base32_Encode zs \<noteq> []" if "zs \<noteq> []" for zs
    using base32_step [OF that] length_encode_quantum [of "blocks_used (length zs)" "quantum zs"] by auto
  show ?case
  proof (cases "xs = [] \<or> ys = []")
    case True then show ?thesis using less.prems ne by (metis base32_Encode.simps(1))
  next
    case False
    let ?eq = "\<lambda>zs. encode_quantum (blocks_used (length zs)) (quantum zs)"
    have l: "length (?eq zs) = 8" for zs :: "byte list"
      by (simp add: length_encode_quantum)
    have "?eq xs @ base32_Encode (drop 5 xs) = ?eq ys @ base32_Encode (drop 5 ys)"
      using less.prems base32_step [of xs] base32_step [of ys] False by argo
    then have q: "?eq xs = ?eq ys" and r: "base32_Encode (drop 5 xs) = base32_Encode (drop 5 ys)"
      by (simp_all add: append_eq_append_conv l del: base32_Encode.simps)
    have u: "blocks_used (length xs) = blocks_used (length ys)"
      and t: "take (blocks_used (length xs)) (quantum xs) = take (blocks_used (length xs)) (quantum ys)"
      using encode_quantum_inj [OF q blocks_used_le blocks_used_le] by blast+
    have "quantum xs = take (blocks_used (length xs)) (quantum xs) @ replicate (8 - blocks_used (length xs)) 0"
      using False by (intro quantum_rest) simp
    also have "\<dots> = take (blocks_used (length ys)) (quantum ys) @ replicate (8 - blocks_used (length ys)) 0"
      by (simp only: t [unfolded u] u)
    also have "\<dots> = quantum ys"
      using False by (intro quantum_rest [symmetric]) simp
    finally have qq: "quantum xs = quantum ys" .
    have "length xs = length ys \<or> 5 \<le> length xs \<and> 5 \<le> length ys"
      using blocks_used_inj [OF _ _ u] False by blast
    then have "take 5 xs = take 5 ys" by (rule quantum_bytes [OF qq])
    moreover have "drop 5 xs = drop 5 ys"
      using less.hyps [of "drop 5 xs" "drop 5 ys"] r False by simp
    ultimately show ?thesis by (metis append_take_drop_id)
  qed
qed

lemma identifiers_eq:
  "snd (identifiers n ia) = map (\<lambda>i. base32_Encode (PutUvarint (unat (ia_count ia + of_nat i)))) [0..<n]"
proof (induction n arbitrary: ia)
  case (Suc n)
  have u: "map f [0..<Suc n] = f 0 # map (\<lambda>i. f (Suc i)) [0..<n]" for f :: "nat \<Rightarrow> gostring"
    by (simp only: upt_conv_Cons [OF zero_less_Suc] list.map map_Suc_upt [symmetric] list.map_comp comp_def)
  have "snd (identifiers (Suc n) ia) = base32_Encode (PutUvarint (unat (ia_count ia))) #
      snd (identifiers n (ia\<lparr>ia_count := ia_count ia + 1\<rparr>))"
    by (simp only: identifiers.simps IdentifierAllocator_Next_def Let_def split_beta prod.sel)
  also have "\<dots> = map (\<lambda>i. base32_Encode (PutUvarint (unat (ia_count ia + of_nat i)))) [0..<Suc n]"
    unfolding u Suc by (simp add: add.assoc)
  finally show ?case .
qed simp

text \<open>C28:
  The allocator's promise: until its 64-bit counter wraps, all the names it hands out are
  different, so two entries of a directory never share the hidden identifier.
\<close>

theorem identifiers_distinct:
  "n \<le> 2 ^ 64 \<Longrightarrow> distinct (snd (identifiers n ia)) \<and> length (snd (identifiers n ia)) = n"
proof -
  assume n: "n \<le> 2 ^ 64"
  have "i = j" if "i < n" "j < n"
    "base32_Encode (PutUvarint (unat (ia_count ia + of_nat i))) =
     base32_Encode (PutUvarint (unat (ia_count ia + of_nat j)))" for i j
  proof -
    have "ia_count ia + of_nat i = ia_count ia + (of_nat j :: u64)"
      using base32_Encode_inj [OF that(3)] PutUvarint_inj unsigned_word_eqI by blast
    then have "of_nat i = (of_nat j :: u64)" by simp
    then have "unat (of_nat i :: u64) = unat (of_nat j :: u64)" by simp
    moreover have "i < 2 ^ 64" "j < 2 ^ 64" using n that by simp_all
    ultimately show ?thesis by (simp add: unat_of_nat)
  qed
  then show ?thesis by (auto simp: identifiers_eq distinct_map intro!: inj_onI)
qed

theorem identifiers_distinct_witness:
  "distinct (snd (identifiers 3 \<lparr>ia_count = 18446744073709551615\<rparr>))"
  using identifiers_distinct [of 3 "\<lparr>ia_count = 18446744073709551615\<rparr>"] by simp

end
