(* ===== verification/SystemUse.thy ===== *)
theory SystemUse
  imports IoUtil IsoNames DateTime
begin

text \<open>
  The entries of a System Use field: the sharing protocol (\<open>susp/\<close>) and the Rock Ridge
  extensions (\<open>rrip/\<close>), with their \<open>Len\<close> and \<open>WriteTo\<close> methods, and the decoders of
  \<open>directoryrecord.go\<close>.  The struct types are records, the interface
  \<open>susp.SystemUseEntry\<close> is the datatype of what implements it.
\<close>

section \<open>The entries\<close>

record ContinuationAreaEntry =
  ce_start :: u32
  ce_off :: u32
  ce_len :: u32

record ExtensionsReferenceEntry =
  er_version :: byte
  er_identifier :: gostring
  er_descriptor :: gostring
  er_source :: gostring

record SharingProtocolEntry =
  lenSkp :: byte

record PosixEntry =
  Mode :: u32
  Nlink :: u32
  Uid :: u32
  Gid :: u32
  Ino :: u32

record Name =
  nm_data :: gostring
  nm_cont :: bool

type_synonym SymlinkComponentFlag = byte

definition SymlinkComponentFlagContinue :: SymlinkComponentFlag where "SymlinkComponentFlagContinue = 1"
definition SymlinkComponentFlagCurrent :: SymlinkComponentFlag where "SymlinkComponentFlagCurrent = 2"
definition SymlinkComponentFlagParent :: SymlinkComponentFlag where "SymlinkComponentFlagParent = 4"
definition SymlinkComponentFlagRoot :: SymlinkComponentFlag where "SymlinkComponentFlagRoot = 8"

lemmas symlink_flags = SymlinkComponentFlagContinue_def SymlinkComponentFlagCurrent_def
  SymlinkComponentFlagParent_def SymlinkComponentFlagRoot_def

record SymlinkComponent =
  sc_flags :: SymlinkComponentFlag
  sc_data :: gostring

record Symlink =
  sl_comp :: SymlinkComponent
  sl_cont :: bool

record Timestamps =
  tf_Created :: "Time option"
  tf_Modified :: "Time option"
  tf_Access :: "Time option"
  tf_Attributes :: "Time option"
  tf_Backup :: "Time option"
  tf_Expiration :: "Time option"
  tf_Effective :: "Time option"
  LongForm :: bool

datatype SystemUseEntry =
    CE ContinuationAreaEntry
  | ER ExtensionsReferenceEntry
  | SP SharingProtocolEntry
  | ST
  | PX PosixEntry
  | NM Name
  | SL Symlink
  | TF Timestamps

section \<open>Constructors\<close>

definition NewContinuationAreaEntry :: "u32 \<Rightarrow> u32 \<Rightarrow> u32 \<Rightarrow> ContinuationAreaEntry" where
  "NewContinuationAreaEntry start off len = \<lparr>ce_start = start, ce_off = off, ce_len = len\<rparr>"

definition NewExtensionsReferenceEntry ::
  "byte \<Rightarrow> gostring \<Rightarrow> gostring \<Rightarrow> gostring \<Rightarrow> goerr + SystemUseEntry" where
  "NewExtensionsReferenceEntry version identifier descriptor source =
     (if length identifier > 255 then Inl (Err ''identifier too long'')
      else if length descriptor > 255 then Inl (Err ''descriptor too long'')
      else if length source > 255 then Inl (Err ''source too long'')
      else Inr (ER \<lparr>er_version = version, er_identifier = identifier,
                    er_descriptor = descriptor, er_source = source\<rparr>))"

definition NewSharingProtocolEntry :: "byte \<Rightarrow> SystemUseEntry" where
  "NewSharingProtocolEntry n = SP \<lparr>lenSkp = n\<rparr>"

definition NewTerminatorEntry :: SystemUseEntry where
  "NewTerminatorEntry = ST"

definition NewNamePart :: "(rune \<Rightarrow> bool) \<Rightarrow> gostring \<Rightarrow> bool \<Rightarrow> goerr + SystemUseEntry" where
  "NewNamePart is_print data cont =
     (if \<not> isValid is_print data then Inl (Err ''Invalid RockRidge file name component'')
      else if length data > 250 then Inl (Err ''RockRidge file name component too long'')
      else Inr (NM \<lparr>nm_data = data, nm_cont = cont\<rparr>))"

definition NewSymlinkPart :: "SymlinkComponentFlag \<Rightarrow> gostring \<Rightarrow> bool \<Rightarrow> goerr + SystemUseEntry" where
  "NewSymlinkPart flags data cont = Inr (SL \<lparr>sl_comp = \<lparr>sc_flags = flags, sc_data = data\<rparr>, sl_cont = cont\<rparr>)"

section \<open>Len\<close>

definition ER_Len :: "ExtensionsReferenceEntry \<Rightarrow> nat" where
  "ER_Len er = 8 + length (er_identifier er) + length (er_descriptor er) + length (er_source er)"

definition Name_Len :: "Name \<Rightarrow> nat" where
  "Name_Len nm = length (nm_data nm) + 5"

definition SymlinkComponent_Len :: "SymlinkComponent \<Rightarrow> nat" where
  "SymlinkComponent_Len sc =
     (if sc_flags sc AND SymlinkComponentFlagCurrent \<noteq> 0 then 2
      else if sc_flags sc AND SymlinkComponentFlagParent \<noteq> 0 then 2
      else if sc_flags sc AND SymlinkComponentFlagRoot \<noteq> 0 then 2
      else 2 + length (sc_data sc))"

definition Symlink_Len :: "Symlink \<Rightarrow> nat" where
  "Symlink_Len sl = 5 + SymlinkComponent_Len (sl_comp sl)"

definition Timestamps_Len :: "Timestamps \<Rightarrow> nat" where
  "Timestamps_Len tf =
     (let tslen = (if LongForm tf then 17 else 7);
          add = (\<lambda>t. if t \<noteq> None then tslen else 0)
      in 5 + add (tf_Created tf) + add (tf_Modified tf) + add (tf_Access tf) + add (tf_Attributes tf) +
         add (tf_Backup tf) + add (tf_Expiration tf) + add (tf_Effective tf))"

fun Entry_Len :: "SystemUseEntry \<Rightarrow> nat" where
  "Entry_Len (CE ce) = 28"
| "Entry_Len (ER er) = ER_Len er"
| "Entry_Len (SP sp) = 7"
| "Entry_Len ST = 4"
| "Entry_Len (PX pe) = 44"
| "Entry_Len (NM nm) = Name_Len nm"
| "Entry_Len (SL sl) = Symlink_Len sl"
| "Entry_Len (TF tf) = Timestamps_Len tf"

section \<open>WriteTo\<close>

definition CE_WriteTo :: "ContinuationAreaEntry \<Rightarrow> emission" where
  "CE_WriteTo ce = emit (bytes_of ''CE'' @ writeByte 28 @ writeByte 1 @
     putBothUint32 (ce_start ce) @ putBothUint32 (ce_off ce) @ putBothUint32 (ce_len ce))"

definition ER_WriteTo :: "ExtensionsReferenceEntry \<Rightarrow> emission" where
  "ER_WriteTo er = emit (bytes_of ''ER'' @ writeByte (of_nat (ER_Len er)) @ writeByte 1 @
     writeByte (of_nat (length (er_identifier er))) @ writeByte (of_nat (length (er_descriptor er))) @
     writeByte (of_nat (length (er_source er))) @ writeByte (er_version er) @
     er_identifier er @ er_descriptor er @ er_source er)"

definition SP_WriteTo :: "SharingProtocolEntry \<Rightarrow> emission" where
  "SP_WriteTo sp = emit (bytes_of ''SP'' @ writeByte 7 @ writeByte 0x01 @ writeByte 0xBE @ writeByte 0xEF @
     writeByte (lenSkp sp))"

definition ST_WriteTo :: emission where
  "ST_WriteTo = emit (bytes_of ''ST'' @ writeByte 4 @ writeByte 0x01)"

text \<open>Rock Ridge entries compare what they wrote with the length byte and panic.\<close>

definition checked :: "nat \<Rightarrow> byte list \<Rightarrow> emission" where
  "checked expected out = (if length out \<noteq> expected then (out, Some (Panic ''never'')) else emit out)"

definition PX_WriteTo :: "PosixEntry \<Rightarrow> emission" where
  "PX_WriteTo pe = checked 44 (bytes_of ''PX'' @ writeByte 44 @ writeByte 1 @
     putBothUint32 (Mode pe) @ putBothUint32 (Nlink pe) @ putBothUint32 (Uid pe) @
     putBothUint32 (Gid pe) @ putBothUint32 (Ino pe))"

definition Name_WriteTo :: "Name \<Rightarrow> emission" where
  "Name_WriteTo nm =
     (let expectedLength = (of_nat (Name_Len nm) :: byte);
          flags = (if nm_cont nm then 0x1 else 0)
      in checked (unat expectedLength)
           (bytes_of ''NM'' @ writeByte expectedLength @ writeByte 1 @ writeByte flags @ nm_data nm))"

definition SymlinkComponent_WriteTo :: "SymlinkComponent \<Rightarrow> byte list" where
  "SymlinkComponent_WriteTo sc =
     writeByte (sc_flags sc) @ writeByte (of_nat (length (sc_data sc))) @ sc_data sc"

definition Symlink_WriteTo :: "Symlink \<Rightarrow> emission" where
  "Symlink_WriteTo sl =
     (let expectedLength = (of_nat (Symlink_Len sl) :: byte);
          flags = (if sl_cont sl then 1 else 0)
      in checked (unat expectedLength)
           (bytes_of ''SL'' @ writeByte expectedLength @ writeByte 1 @ writeByte flags @
            SymlinkComponent_WriteTo (sl_comp sl)))"

definition Timestamps_flags :: "Timestamps \<Rightarrow> byte" where
  "Timestamps_flags tf =
     (if tf_Created tf \<noteq> None then 0x1 else 0) OR (if tf_Modified tf \<noteq> None then 0x2 else 0) OR
     (if tf_Access tf \<noteq> None then 0x4 else 0) OR (if tf_Attributes tf \<noteq> None then 0x8 else 0) OR
     (if tf_Backup tf \<noteq> None then 0x10 else 0) OR (if tf_Expiration tf \<noteq> None then 0x20 else 0) OR
     (if tf_Effective tf \<noteq> None then 0x40 else 0) OR (if LongForm tf then 0x80 else 0)"

definition writeTimestamp :: "bool \<Rightarrow> Time option \<Rightarrow> byte list" where
  "writeTimestamp long ot =
     (case ot of None \<Rightarrow> [] | Some t \<Rightarrow> if long then NewDecDateTime t else NewEntryDateTime t)"

definition Timestamps_WriteTo :: "Timestamps \<Rightarrow> emission" where
  "Timestamps_WriteTo tf =
     (let expectedLength = (of_nat (Timestamps_Len tf) :: byte); w = writeTimestamp (LongForm tf)
      in checked (unat expectedLength)
           (bytes_of ''TF'' @ writeByte expectedLength @ writeByte 1 @ writeByte (Timestamps_flags tf) @
            w (tf_Created tf) @ w (tf_Modified tf) @ w (tf_Access tf) @ w (tf_Attributes tf) @
            w (tf_Backup tf) @ w (tf_Expiration tf) @ w (tf_Effective tf)))"

fun Entry_WriteTo :: "SystemUseEntry \<Rightarrow> emission" where
  "Entry_WriteTo (CE ce) = CE_WriteTo ce"
| "Entry_WriteTo (ER er) = ER_WriteTo er"
| "Entry_WriteTo (SP sp) = SP_WriteTo sp"
| "Entry_WriteTo ST = ST_WriteTo"
| "Entry_WriteTo (PX pe) = PX_WriteTo pe"
| "Entry_WriteTo (NM nm) = Name_WriteTo nm"
| "Entry_WriteTo (SL sl) = Symlink_WriteTo sl"
| "Entry_WriteTo (TF tf) = Timestamps_WriteTo tf"

section \<open>Decoding\<close>

definition read_all :: "byte list reader" where
  "read_all r = Inr (r, [])"

definition rlift :: "goerr + 'a \<Rightarrow> 'a reader" where
  "rlift v = (case v of Inl e \<Rightarrow> rfail e | Inr x \<Rightarrow> rreturn x)"

definition decodeSP :: "SystemUseEntry reader" where
  "decodeSP = rthen (readExpectedByte 0x01 ''SUSP SP Version'')
    (rthen (readExpectedByte 0xBE ''SUSP SP Check Byte 0xBE'')
    (rthen (readExpectedByte 0xEF ''SUSP SP Check Byte 0xEF'')
    (rbind readByte (\<lambda>n. rreturn (NewSharingProtocolEntry n)))))"

definition decodeST :: "SystemUseEntry reader" where
  "decodeST = rthen (readExpectedByte 0x01 ''SUSP ST Version'') (rreturn NewTerminatorEntry)"

definition decodeCE :: "SystemUseEntry reader" where
  "decodeCE = rthen (readExpectedByte 0x01 ''SUSP CE Version'')
    (rbind getBothUint32 (\<lambda>start. rbind getBothUint32 (\<lambda>off. rbind getBothUint32 (\<lambda>len.
     rreturn (CE (NewContinuationAreaEntry start off len))))))"

definition decodeER :: "SystemUseEntry reader" where
  "decodeER = rthen (readExpectedByte 0x01 ''SUSP ER Version'')
    (rbind readByte (\<lambda>idLen. rbind readByte (\<lambda>descLen. rbind readByte (\<lambda>srcLen. rbind readByte (\<lambda>version.
     rbind (read_full (unat idLen)) (\<lambda>identifier.
     rbind (read_full (unat descLen)) (\<lambda>descriptor.
     rbind (read_full (unat srcLen)) (\<lambda>source.
     rlift (NewExtensionsReferenceEntry version identifier descriptor source)))))))))"

definition decodeNM :: "(rune \<Rightarrow> bool) \<Rightarrow> SystemUseEntry reader" where
  "decodeNM is_print = rthen (readExpectedByte 0x01 ''RRIP NM Version'')
    (rbind readByte (\<lambda>flags. rbind read_all (\<lambda>data.
     rlift (NewNamePart is_print data (flags AND 0x1 \<noteq> 0)))))"

definition decodePX :: "SystemUseEntry reader" where
  "decodePX = rthen (readExpectedByte 0x01 ''RRIP PX Version'')
    (rbind getBothUint32 (\<lambda>mode. rbind getBothUint32 (\<lambda>nlink. rbind getBothUint32 (\<lambda>uid.
     rbind getBothUint32 (\<lambda>gid. rbind getBothUint32 (\<lambda>ino.
     rreturn (PX \<lparr>Mode = mode, Nlink = nlink, Uid = uid, Gid = gid, Ino = ino\<rparr>)))))))"

definition decodeSL :: "SystemUseEntry reader" where
  "decodeSL = rthen (readExpectedByte 0x01 ''RRIP SL Version'')
    (rbind readByte (\<lambda>flags. rbind readByte (\<lambda>componentFlags. rbind readByte (\<lambda>chunkLen.
     rbind read_all (\<lambda>data.
     if length data \<noteq> unat chunkLen then rfail (Err ''bad SL component data length'')
     else rlift (NewSymlinkPart componentFlags data (flags AND 0x1 \<noteq> 0)))))))"

definition readTimestamp :: "bool \<Rightarrow> bool \<Rightarrow> Time option reader" where
  "readTimestamp present long =
     (if \<not> present then rreturn None
      else if long then rbind (read_full 17) (\<lambda>ddt. rreturn (Some (DecDateTime_Timestamp ddt)))
      else rbind (read_full 7) (\<lambda>edt. rreturn (Some (EntryDateTime_Timestamp edt))))"

definition decodeTF :: "SystemUseEntry reader" where
  "decodeTF = rthen (readExpectedByte 0x01 ''RRIP TF Version'')
    (rbind readByte (\<lambda>flags. let long = (flags AND 0x80 \<noteq> 0) in
     rbind (readTimestamp (flags AND 0x1 \<noteq> 0) long) (\<lambda>created.
     rbind (readTimestamp (flags AND 0x2 \<noteq> 0) long) (\<lambda>modified.
     rbind (readTimestamp (flags AND 0x4 \<noteq> 0) long) (\<lambda>access.
     rbind (readTimestamp (flags AND 0x8 \<noteq> 0) long) (\<lambda>attributes.
     rbind (readTimestamp (flags AND 0x10 \<noteq> 0) long) (\<lambda>backup.
     rbind (readTimestamp (flags AND 0x20 \<noteq> 0) long) (\<lambda>expiration.
     rbind (readTimestamp (flags AND 0x40 \<noteq> 0) long) (\<lambda>effective.
     rreturn (TF \<lparr>tf_Created = created, tf_Modified = modified, tf_Access = access,
       tf_Attributes = attributes, tf_Backup = backup, tf_Expiration = expiration,
       tf_Effective = effective, LongForm = long\<rparr>))))))))))"

text \<open>The switch on the two-letter signature; an unknown one gives no entry.\<close>

definition decode_body :: "(rune \<Rightarrow> bool) \<Rightarrow> gostring \<Rightarrow> byte list \<Rightarrow> goerr + SystemUseEntry option" where
  "decode_body is_print sig body =
     (let run = (\<lambda>p :: SystemUseEntry reader.
            case p body of Inl e \<Rightarrow> Inl e | Inr (entry, _) \<Rightarrow> Inr (Some entry))
      in if sig = bytes_of ''SP'' then run decodeSP
         else if sig = bytes_of ''ST'' then run decodeST
         else if sig = bytes_of ''CE'' then run decodeCE
         else if sig = bytes_of ''ER'' then run decodeER
         else if sig = bytes_of ''NM'' then run (decodeNM is_print)
         else if sig = bytes_of ''PX'' then run decodePX
         else if sig = bytes_of ''SL'' then run decodeSL
         else if sig = bytes_of ''TF'' then run decodeTF
         else Inr None)"

text \<open>
  The loop reads up to the end of its reader.  \<open>body\<close> is limited to the declared length
  less three, and what a decoder leaves of it is discarded; a nil error comes only from
  the end of the stream before a signature.
\<close>

fun DecodeSystemUseEntries :: "(rune \<Rightarrow> bool) \<Rightarrow> byte list \<Rightarrow> goerr + SystemUseEntry list" where
  "DecodeSystemUseEntries is_print [] = Inr []"
| "DecodeSystemUseEntries is_print [nible0] = Inl EOF"
| "DecodeSystemUseEntries is_print [nible0, nible1] = Inl EOF"
| "DecodeSystemUseEntries is_print (nible0 # nible1 # entryLen # r) =
     (let body = take (unat entryLen - 3) r
      in case decode_body is_print [nible0, nible1] body of
           Inl e \<Rightarrow> Inl e
         | Inr entry \<Rightarrow>
             (case DecodeSystemUseEntries is_print (drop (unat entryLen - 3) r) of
                Inl e \<Rightarrow> Inl e
              | Inr entries \<Rightarrow> Inr ((case entry of None \<Rightarrow> [] | Some e \<Rightarrow> [e]) @ entries)))"

section \<open>Well-formed entries\<close>

text \<open>
  What an entry must satisfy to fit its encoding: the lengths fit their byte, a flagged
  symlink component has no data, a name passes the Rock Ridge check, the times are in the
  range of their format.
\<close>

definition times :: "Timestamps \<Rightarrow> Time option list" where
  "times tf = [tf_Created tf, tf_Modified tf, tf_Access tf, tf_Attributes tf, tf_Backup tf,
     tf_Expiration tf, tf_Effective tf]"

definition form_time :: "bool \<Rightarrow> Time \<Rightarrow> bool" where
  "form_time long t = (if long then dec_time t else entry_time t)"

definition special_component :: "SymlinkComponent \<Rightarrow> bool" where
  "special_component sc \<longleftrightarrow>
     sc_flags sc AND SymlinkComponentFlagCurrent \<noteq> 0 \<or>
     sc_flags sc AND SymlinkComponentFlagParent \<noteq> 0 \<or>
     sc_flags sc AND SymlinkComponentFlagRoot \<noteq> 0"

fun wf_entry :: "(rune \<Rightarrow> bool) \<Rightarrow> SystemUseEntry \<Rightarrow> bool" where
  "wf_entry p (ER er) \<longleftrightarrow> ER_Len er \<le> 255"
| "wf_entry p (NM nm) \<longleftrightarrow> length (nm_data nm) \<le> 250 \<and> isValid p (nm_data nm)"
| "wf_entry p (SL sl) \<longleftrightarrow> length (sc_data (sl_comp sl)) \<le> 248 \<and>
     (special_component (sl_comp sl) \<longrightarrow> sc_data (sl_comp sl) = [])"
| "wf_entry p (TF tf) \<longleftrightarrow> list_all (\<lambda>ot. case ot of None \<Rightarrow> True | Some t \<Rightarrow> form_time (LongForm tf) t) (times tf)"
| "wf_entry p e \<longleftrightarrow> True"

text \<open>What is read back: the entry, its times in whole seconds.\<close>

definition store_time :: "Time option \<Rightarrow> Time option" where
  "store_time = map_option whole_seconds"

fun stored :: "SystemUseEntry \<Rightarrow> SystemUseEntry" where
  "stored (TF tf) = TF \<lparr>tf_Created = store_time (tf_Created tf), tf_Modified = store_time (tf_Modified tf),
     tf_Access = store_time (tf_Access tf), tf_Attributes = store_time (tf_Attributes tf),
     tf_Backup = store_time (tf_Backup tf), tf_Expiration = store_time (tf_Expiration tf),
     tf_Effective = store_time (tf_Effective tf), LongForm = LongForm tf\<rparr>"
| "stored e = e"

section \<open>Each entry is read back\<close>

text \<open>
  The law of one entry: a signature, the length byte, and a body that its decoder maps back
  to the entry.
\<close>

definition entry_law :: "(rune \<Rightarrow> bool) \<Rightarrow> SystemUseEntry \<Rightarrow> bool" where
  "entry_law p e \<longleftrightarrow> (\<exists>n0 n1 body.
     Entry_WriteTo e = emit (n0 # n1 # of_nat (Entry_Len e) # body) \<and>
     length body = Entry_Len e - 3 \<and> 3 \<le> Entry_Len e \<and> Entry_Len e \<le> 255 \<and>
     decode_body p [n0, n1] body = Inr (Some (stored e)))"

lemma entry_lawI:
  assumes "Entry_WriteTo e = emit (na # nb # of_nat (Entry_Len e) # body)"
    "length body = Entry_Len e - 3" "3 \<le> Entry_Len e" "Entry_Len e \<le> 255"
    "decode_body p [na, nb] body = Inr (Some (stored e))"
  shows "entry_law p e"
  using assms by (auto simp: entry_law_def)

lemma checked_length: "length out = n \<Longrightarrow> checked n out = emit out"
  by (simp add: checked_def)

lemma read_all_apply [simp]: "read_all r = Inr (r, [])"
  by (simp add: read_all_def)

lemma rlift_Inr [simp]: "rlift (Inr x) = rreturn x"
  by (simp add: rlift_def)

lemma signature_bytes [simp]:
  "bytes_of ''SP'' = [0x53, 0x50]" "bytes_of ''ST'' = [0x53, 0x54]" "bytes_of ''CE'' = [0x43, 0x45]"
  "bytes_of ''ER'' = [0x45, 0x52]" "bytes_of ''NM'' = [0x4E, 0x4D]" "bytes_of ''PX'' = [0x50, 0x58]"
  "bytes_of ''SL'' = [0x53, 0x4C]" "bytes_of ''TF'' = [0x54, 0x46]"
  by (simp_all add: bytes_of_def)

lemma writeByte_append [simp]: "writeByte b @ r = b # r"
  by (simp add: writeByte_def)

lemma CE_law: "entry_law p (CE ce)"
  by (rule entry_lawI [where na = "0x43" and nb = "0x45" and body = "1 # putBothUint32 (ce_start ce) @ putBothUint32 (ce_off ce) @
          putBothUint32 (ce_len ce)"])
     (simp_all add: CE_WriteTo_def decode_body_def decodeCE_def rthen_def rbind_def wire
        NewContinuationAreaEntry_def getBothUint32_put [where r = "[]", simplified])

lemma SP_law: "entry_law p (SP sp)"
  by (rule entry_lawI [where na = "0x53" and nb = "0x50" and body = "[1, 0xBE, 0xEF, lenSkp sp]"])
     (simp_all add: SP_WriteTo_def decode_body_def decodeSP_def rthen_def rbind_def wire
        NewSharingProtocolEntry_def writeByte_def)

lemma ST_law: "entry_law p ST"
  by (rule entry_lawI [where na = "0x53" and nb = "0x54" and body = "[1]"])
     (simp_all add: ST_WriteTo_def decode_body_def decodeST_def rthen_def rbind_def wire
        NewTerminatorEntry_def writeByte_def)

lemma PX_law: "entry_law p (PX pe)"
  by (rule entry_lawI [where na = "0x50" and nb = "0x58" and body = "1 # putBothUint32 (Mode pe) @ putBothUint32 (Nlink pe) @
          putBothUint32 (Uid pe) @ putBothUint32 (Gid pe) @ putBothUint32 (Ino pe)"])
     (simp_all add: PX_WriteTo_def checked_length decode_body_def decodePX_def rthen_def rbind_def wire
        getBothUint32_put [where r = "[]", simplified])

lemma unat_of_nat_le: "n \<le> 255 \<Longrightarrow> unat (of_nat n :: byte) = n"
  by (rule unat_of_nat_byte) simp

lemma ER_law: "wf_entry p (ER er) \<Longrightarrow> entry_law p (ER er)"
proof -
  assume "wf_entry p (ER er)"
  then have l: "ER_Len er \<le> 255" by simp
  then have u: "unat (of_nat (length (er_identifier er)) :: byte) = length (er_identifier er)"
    "unat (of_nat (length (er_descriptor er)) :: byte) = length (er_descriptor er)"
    "unat (of_nat (length (er_source er)) :: byte) = length (er_source er)"
    by (simp_all add: ER_Len_def unat_of_nat_le)
  have n: "\<not> 255 < length (er_identifier er)" "\<not> 255 < length (er_descriptor er)"
    "\<not> 255 < length (er_source er)" using l by (simp_all add: ER_Len_def)
  show ?thesis
    by (rule entry_lawI [where na = "0x45" and nb = "0x52" and body = "1 # of_nat (length (er_identifier er)) # of_nat (length (er_descriptor er)) #
          of_nat (length (er_source er)) # er_version er # er_identifier er @ er_descriptor er @ er_source er"])
      (use l in \<open>simp_all add: ER_WriteTo_def ER_Len_def decode_body_def decodeER_def rthen_def rbind_def
        wire u n NewExtensionsReferenceEntry_def\<close>)
qed

lemma NM_law: "wf_entry p (NM nm) \<Longrightarrow> entry_law p (NM nm)"
proof -
  assume w: "wf_entry p (NM nm)"
  then have l: "unat (of_nat (Name_Len nm) :: byte) = Name_Len nm"
    by (simp add: Name_Len_def unat_of_nat_le del: of_nat_add)
  show ?thesis
    by (rule entry_lawI [where na = "0x4E" and nb = "0x4D" and body = "1 # (if nm_cont nm then 1 else 0) # nm_data nm"])
      (use w l in \<open>simp_all add: Name_WriteTo_def Let_def checked_def Name_Len_def decode_body_def
        decodeNM_def rthen_def rbind_def wire NewNamePart_def\<close>)
qed

lemma SL_law: "wf_entry p (SL sl) \<Longrightarrow> entry_law p (SL sl)"
proof -
  assume w: "wf_entry p (SL sl)"
  let ?d = "sc_data (sl_comp sl)"
  have len: "Symlink_Len sl = 7 + length ?d"
    using w by (auto simp: Symlink_Len_def SymlinkComponent_Len_def special_component_def)
  have l: "unat (of_nat (7 + length ?d) :: byte) = 7 + length ?d"
    by (rule unat_of_nat_le) (use w in simp)
  have k: "unat (of_nat (length ?d) :: byte) = length ?d"
    by (rule unat_of_nat_le) (use w in simp)
  show ?thesis
    by (rule entry_lawI [where na = "0x53" and nb = "0x4C" and body = "1 # (if sl_cont sl then 1 else 0) # sc_flags (sl_comp sl) #
          of_nat (length ?d) # ?d"])
      (use w l k in \<open>simp_all add: Symlink_WriteTo_def SymlinkComponent_WriteTo_def Let_def checked_def len
        decode_body_def decodeSL_def rthen_def rbind_def wire NewSymlinkPart_def del: of_nat_add\<close>)
qed

subsection \<open>Timestamps\<close>

lemma length_writeTimestamp:
  "length (writeTimestamp long ot) = (if ot = None then 0 else if long then 17 else 7)"
  by (cases ot) (simp_all add: writeTimestamp_def)

lemma readTimestamp_write [wire]:
  assumes "case ot of None \<Rightarrow> True | Some t \<Rightarrow> form_time long t"
  shows "readTimestamp (ot \<noteq> None) long (writeTimestamp long ot @ r) = Inr (store_time ot, r)"
  using assms by (cases ot)
    (auto simp: readTimestamp_def writeTimestamp_def rbind_def wire store_time_def form_time_def
       split: if_splits)

lemma flag_bit:
  fixes w :: byte
  shows "w AND 0x1 \<noteq> 0 \<longleftrightarrow> bit w 0" "w AND 0x2 \<noteq> 0 \<longleftrightarrow> bit w 1" "w AND 0x4 \<noteq> 0 \<longleftrightarrow> bit w 2"
    "w AND 0x8 \<noteq> 0 \<longleftrightarrow> bit w 3" "w AND 0x10 \<noteq> 0 \<longleftrightarrow> bit w 4" "w AND 0x20 \<noteq> 0 \<longleftrightarrow> bit w 5"
    "w AND 0x40 \<noteq> 0 \<longleftrightarrow> bit w 6" "w AND 0x80 \<noteq> 0 \<longleftrightarrow> bit w 7"
  using and_exp_eq_0_iff_not_bit [of w 0] and_exp_eq_0_iff_not_bit [of w 1]
    and_exp_eq_0_iff_not_bit [of w 2] and_exp_eq_0_iff_not_bit [of w 3]
    and_exp_eq_0_iff_not_bit [of w 4] and_exp_eq_0_iff_not_bit [of w 5]
    and_exp_eq_0_iff_not_bit [of w 6] and_exp_eq_0_iff_not_bit [of w 7]
  by simp_all

lemma bit_if_zero: "bit (if c then w else 0 :: byte) n \<longleftrightarrow> c \<and> bit w n"
  by simp

lemma Timestamps_flag_bits:
  "Timestamps_flags tf AND 0x1 \<noteq> 0 \<longleftrightarrow> tf_Created tf \<noteq> None"
  "Timestamps_flags tf AND 0x2 \<noteq> 0 \<longleftrightarrow> tf_Modified tf \<noteq> None"
  "Timestamps_flags tf AND 0x4 \<noteq> 0 \<longleftrightarrow> tf_Access tf \<noteq> None"
  "Timestamps_flags tf AND 0x8 \<noteq> 0 \<longleftrightarrow> tf_Attributes tf \<noteq> None"
  "Timestamps_flags tf AND 0x10 \<noteq> 0 \<longleftrightarrow> tf_Backup tf \<noteq> None"
  "Timestamps_flags tf AND 0x20 \<noteq> 0 \<longleftrightarrow> tf_Expiration tf \<noteq> None"
  "Timestamps_flags tf AND 0x40 \<noteq> 0 \<longleftrightarrow> tf_Effective tf \<noteq> None"
  "Timestamps_flags tf AND 0x80 \<noteq> 0 \<longleftrightarrow> LongForm tf"
  unfolding flag_bit Timestamps_flags_def by (simp_all add: bit_simps bit_if_zero)

lemma TF_law: "wf_entry p (TF tf) \<Longrightarrow> entry_law p (TF tf)"
proof -
  assume w: "wf_entry p (TF tf)"
  let ?w = "writeTimestamp (LongForm tf)"
  let ?body = "?w (tf_Created tf) @ ?w (tf_Modified tf) @ ?w (tf_Access tf) @ ?w (tf_Attributes tf) @
    ?w (tf_Backup tf) @ ?w (tf_Expiration tf) @ ?w (tf_Effective tf) @ []"
  have add: "(if ot \<noteq> None then if LongForm tf then 17 else 7 else 0) = length (?w ot)" for ot
    by (simp add: length_writeTimestamp)
  have tl: "Timestamps_Len tf = 5 + length ?body"
    unfolding Timestamps_Len_def Let_def add by simp
  have "length (?w ot) \<le> 17" for ot by (simp add: length_writeTimestamp)
  from this [of "tf_Created tf"] this [of "tf_Modified tf"] this [of "tf_Access tf"] this [of "tf_Attributes tf"]
    this [of "tf_Backup tf"] this [of "tf_Expiration tf"] this [of "tf_Effective tf"]
  have len: "length ?body = Timestamps_Len tf - 5" "5 \<le> Timestamps_Len tf" "Timestamps_Len tf \<le> 255"
    unfolding tl by simp_all
  have s5: "Suc (Suc (Suc (Suc (Suc (Timestamps_Len tf - 5))))) = Timestamps_Len tf"
    "Suc (Suc (Timestamps_Len tf - 5)) = Timestamps_Len tf - 3"
    using len(2) by simp_all
  have l: "unat (of_nat (Timestamps_Len tf) :: byte) = Timestamps_Len tf"
    using len by (intro unat_of_nat_le)
  have t: "\<forall>ot \<in> set (times tf). case ot of None \<Rightarrow> True | Some t \<Rightarrow> form_time (LongForm tf) t"
    using w by (simp add: list_all_iff)
  have dec: "decodeTF (1 # Timestamps_flags tf # ?body) = Inr (stored (TF tf), [])"
    using t unfolding decodeTF_def rthen_def rbind_def times_def
    by (simp only: readExpectedByte_Cons readByte_Cons Timestamps_flag_bits readTimestamp_write Let_def
        if_True sum.case prod.case list.set ball_simps insert_iff simp_thms rreturn_apply stored.simps)
  show ?thesis
  proof (rule entry_lawI [where na = "0x54" and nb = "0x46" and body = "1 # Timestamps_flags tf # ?body"])
    show "decode_body p [0x54, 0x46] (1 # Timestamps_flags tf # ?body) = Inr (Some (stored (TF tf)))"
      unfolding decode_body_def Let_def dec by simp
  qed (use len l s5 in \<open>simp_all add: Timestamps_WriteTo_def Let_def checked_def\<close>)
qed

lemma entry_law: "wf_entry p e \<Longrightarrow> entry_law p e"
  by (cases e) (simp_all add: CE_law SP_law ST_law PX_law ER_law NM_law SL_law TF_law del: wf_entry.simps)

lemma Entry_WriteTo_wf:
  assumes "wf_entry p e"
  shows "Entry_WriteTo e = emit (fst (Entry_WriteTo e))" "length (fst (Entry_WriteTo e)) = Entry_Len e"
  using entry_law [OF assms] by (auto simp: entry_law_def)

text \<open>
  A System Use field is read back entry by entry, whatever the number and the order of its
  entries.
\<close>

lemma DecodeSystemUseEntries_roundtrip:
  assumes "list_all (wf_entry p) es"
  shows "DecodeSystemUseEntries p (concat (map (fst \<circ> Entry_WriteTo) es)) = Inr (map stored es)"
  using assms
proof (induction es)
  case (Cons e es)
  obtain n0 n1 body where w: "Entry_WriteTo e = emit (n0 # n1 # of_nat (Entry_Len e) # body)"
    "length body = Entry_Len e - 3" "3 \<le> Entry_Len e" "Entry_Len e \<le> 255"
    "decode_body p [n0, n1] body = Inr (Some (stored e))"
    using entry_law [of p e] Cons.prems by (auto simp: entry_law_def)
  then show ?case
    using Cons by (simp add: unat_of_nat_le Let_def)
qed simp

lemma emit_all_entries:
  assumes "list_all (wf_entry p) es"
  shows "emit_all (map Entry_WriteTo es) = emit (concat (map (fst \<circ> Entry_WriteTo) es))"
    "length (concat (map (fst \<circ> Entry_WriteTo) es)) = sum_list (map Entry_Len es)"
  using assms
  by (induction es) (use Entry_WriteTo_wf in \<open>auto, metis ethen_emit\<close>)

end
