(* ===== verification/DirRecord.thy ===== *)
theory DirRecord
  imports SystemUse
begin

text \<open>
  Directory extents: \<open>fileflag.go\<close>, the record of \<open>directoryrecord.go\<close> and the sequence of
  records of \<open>directory.go\<close>.  A record never crosses a sector boundary; a zero length byte
  tells the reader to go on at the next sector.
\<close>

section \<open>Directory records\<close>

type_synonym FileFlag = byte

definition FileFlagDir :: FileFlag where "FileFlagDir = 0x02"
definition FileFlagNonTerminal :: FileFlag where "FileFlagNonTerminal = 0x80"

definition MaxDirectoryRecordLen :: nat where "MaxDirectoryRecordLen = 255"
definition MaxDirectoryRecordIdentifierLen :: nat where "MaxDirectoryRecordIdentifierLen = 30"

record DirectoryRecord =
  Identifier :: gostring
  Start :: LogicalBlockAddress
  Length :: u32
  Flags :: FileFlag
  Recorded :: Time
  SystemUse :: "SystemUseEntry list"
  ExtendedAttrRecordLength :: byte
  FileUnitSize :: byte
  InterleaveGap :: byte
  VolumeID :: u16

definition DirectoryRecord_Len :: "DirectoryRecord \<Rightarrow> nat" where
  "DirectoryRecord_Len rec =
     (let idLen = length (Identifier rec)
      in 34 + idLen - idLen mod 2 + sum_list (map Entry_Len (SystemUse rec)))"

definition DirectoryRecord_header :: "DirectoryRecord \<Rightarrow> byte list" where
  "DirectoryRecord_header rec =
     writeByte (of_nat (DirectoryRecord_Len rec)) @
     writeByte (ExtendedAttrRecordLength rec) @
     putBothUint32 (Start rec) @
     putBothUint32 (Length rec) @
     NewEntryDateTime (Recorded rec) @
     writeByte (Flags rec) @
     writeByte (FileUnitSize rec) @
     writeByte (InterleaveGap rec) @
     putBothUint16 (VolumeID rec) @
     writeByte (of_nat (length (Identifier rec))) @
     Identifier rec @
     (if length (Identifier rec) mod 2 = 0 then writeByte 0 else [])"

definition DirectoryRecord_WriteTo :: "DirectoryRecord \<Rightarrow> emission" where
  "DirectoryRecord_WriteTo rec =
     (if length (Identifier rec) > MaxDirectoryRecordIdentifierLen then
        emit_fail (Err ''DirectoryRecord.Identifier longer than 30 bytes'')
      else if DirectoryRecord_Len rec > MaxDirectoryRecordLen then emit_fail (Panic ''never'')
      else
        let out = ethen (emit (DirectoryRecord_header rec)) (emit_all (map Entry_WriteTo (SystemUse rec)))
        in (case snd out of
              Some e \<Rightarrow> out
            | None \<Rightarrow> checked (DirectoryRecord_Len rec) (fst out)))"

definition DecodeDirectoryRecord :: "(rune \<Rightarrow> bool) \<Rightarrow> DirectoryRecord reader" where
  "DecodeDirectoryRecord is_print =
    rbind readByte (\<lambda>ext.
    rbind getBothUint32 (\<lambda>start.
    rbind getBothUint32 (\<lambda>len.
    rbind (read_full 7) (\<lambda>recorded.
    rbind readByte (\<lambda>flags.
    rbind readByte (\<lambda>unit_size.
    rbind readByte (\<lambda>gap.
    rbind getBothUint16 (\<lambda>volume.
    rbind readByte (\<lambda>idlen.
    rbind (read_full (unat idlen)) (\<lambda>ident.
    rthen (if unat idlen mod 2 = 0 then readExpectedByte 0 ''DirectoryRecord.Identifier pad byte''
           else rreturn ())
    (\<lambda>r. case DecodeSystemUseEntries is_print r of
       Inl e \<Rightarrow> Inl e
     | Inr entries \<Rightarrow>
         Inr (\<lparr>Identifier = ident, Start = start, Length = len, Flags = flags,
               Recorded = EntryDateTime_Timestamp recorded, SystemUse = entries,
               ExtendedAttrRecordLength = ext, FileUnitSize = unit_size, InterleaveGap = gap,
               VolumeID = volume\<rparr>, []))))))))))))"

section \<open>Directories\<close>

record Directory =
  Records :: "DirectoryRecord list"

definition MaxPartSize :: nat where "MaxPartSize = 4294965248"

text \<open>The loop of \<open>WriteTo\<close>; \<open>written\<close> is the count kept by the \<open>CountingWriter\<close>.\<close>

fun write_records :: "nat \<Rightarrow> DirectoryRecord list \<Rightarrow> emission" where
  "write_records written [] = emit []"
| "write_records written (rec # recs) =
     (let l = DirectoryRecord_Len rec
      in if l > LogicalBlockSize then emit_fail (Err ''DirectoryRecord larger than sector'')
         else
           let sectorCapacity = LogicalBlockSize - written mod LogicalBlockSize;
               padding = (if l > sectorCapacity then pad sectorCapacity else []);
               e = ethen (emit padding) (DirectoryRecord_WriteTo rec)
           in ethen e (write_records (written + length (fst e)) recs))"

definition Directory_WriteTo :: "Directory \<Rightarrow> emission" where
  "Directory_WriteTo d =
     (let e = write_records 0 (Records d)
      in case snd e of
           Some _ \<Rightarrow> e
         | None \<Rightarrow> if length (fst e) > MaxPartSize
                   then (fst e, Some (Err ''Directory larger than MaxUint32'')) else e)"

definition Directory_Size :: "Directory \<Rightarrow> goerr + int" where
  "Directory_Size d =
     (case snd (Directory_WriteTo d) of
        Some err \<Rightarrow> Inl (Panic ''Directory.Size'')
      | None \<Rightarrow> Inr (sint (sectorsToBytes (bytesToSectors (of_nat (length (fst (Directory_WriteTo d))))))))"

text \<open>
  \<open>consumed\<close> is the count of the \<open>CountingReader\<close>; the record's decoder sees the declared
  length less the length byte, and on success leaves nothing of it.
\<close>

definition dir_padding :: "nat \<Rightarrow> nat" where
  "dir_padding consumed =
     nat (sint (sectorsToBytes (bytesToSectors (of_nat consumed)) - (of_nat consumed :: u64)))"

function decode_records :: "(rune \<Rightarrow> bool) \<Rightarrow> nat \<Rightarrow> byte list \<Rightarrow> goerr + DirectoryRecord list" where
  "decode_records is_print consumed [] = Inr []"
| "decode_records is_print consumed (rlen # r) =
     (if rlen = 0 then
        (case unpad (dir_padding (consumed + 1)) r of
           Inl e \<Rightarrow> Inl e
         | Inr (_, r') \<Rightarrow> decode_records is_print (consumed + 1 + dir_padding (consumed + 1)) r')
      else
        (let k = unat rlen - 1
         in case DecodeDirectoryRecord is_print (take k r) of
              Inl e \<Rightarrow> Inl e
            | Inr (rec, _) \<Rightarrow>
                (case decode_records is_print (consumed + 1 + length (take k r)) (drop k r) of
                   Inl e \<Rightarrow> Inl e | Inr recs \<Rightarrow> Inr (rec # recs))))"
  by pat_completeness auto
termination
  by (relation "measure (\<lambda>(p, c, r). length r)") (auto simp: unpad_def split: if_splits)

definition DecodeDirectory :: "(rune \<Rightarrow> bool) \<Rightarrow> byte list \<Rightarrow> goerr + Directory" where
  "DecodeDirectory is_print r =
     (case decode_records is_print 0 r of Inl e \<Rightarrow> Inl e | Inr recs \<Rightarrow> Inr \<lparr>Records = recs\<rparr>)"

section \<open>Records are read back\<close>

definition wf_record :: "(rune \<Rightarrow> bool) \<Rightarrow> DirectoryRecord \<Rightarrow> bool" where
  "wf_record p rec \<longleftrightarrow> length (Identifier rec) \<le> MaxDirectoryRecordIdentifierLen \<and>
     DirectoryRecord_Len rec \<le> MaxDirectoryRecordLen \<and>
     entry_time (Recorded rec) \<and> list_all (wf_entry p) (SystemUse rec)"

definition stored_record :: "DirectoryRecord \<Rightarrow> DirectoryRecord" where
  "stored_record rec = rec\<lparr>Recorded := whole_seconds (Recorded rec), SystemUse := map stored (SystemUse rec)\<rparr>"

text \<open>The bytes of a record, without its length byte.\<close>

definition record_body :: "DirectoryRecord \<Rightarrow> byte list" where
  "record_body rec = tl (DirectoryRecord_header rec) @ concat (map (fst \<circ> Entry_WriteTo) (SystemUse rec))"

lemma length_header:
  "length (DirectoryRecord_header rec) = 34 + length (Identifier rec) - length (Identifier rec) mod 2"
  by (simp add: DirectoryRecord_header_def)

lemma record_Len_ge: "34 \<le> DirectoryRecord_Len rec"
  by (simp add: DirectoryRecord_Len_def Let_def)

lemma DirectoryRecord_WriteTo_wf:
  assumes "wf_record p rec"
  shows "DirectoryRecord_WriteTo rec = emit (of_nat (DirectoryRecord_Len rec) # record_body rec)"
    "length (record_body rec) = DirectoryRecord_Len rec - 1"
proof -
  let ?su = "concat (map (fst \<circ> Entry_WriteTo) (SystemUse rec))"
  have es: "list_all (wf_entry p) (SystemUse rec)" using assms by (simp add: wf_record_def)
  have hd: "DirectoryRecord_header rec = of_nat (DirectoryRecord_Len rec) # tl (DirectoryRecord_header rec)"
    by (simp add: DirectoryRecord_header_def)
  have out: "DirectoryRecord_header rec @ ?su = of_nat (DirectoryRecord_Len rec) # record_body rec"
    unfolding record_body_def by (metis hd append_Cons)
  have len: "length (DirectoryRecord_header rec @ ?su) = DirectoryRecord_Len rec"
    using emit_all_entries(2) [OF es] by (simp add: length_header DirectoryRecord_Len_def Let_def)
  then show "length (record_body rec) = DirectoryRecord_Len rec - 1"
    unfolding out by simp
  show "DirectoryRecord_WriteTo rec = emit (of_nat (DirectoryRecord_Len rec) # record_body rec)"
    using assms len unfolding out
    by (simp add: DirectoryRecord_WriteTo_def emit_all_entries(1) [OF es] wf_record_def out Let_def
        checked_length)
qed

lemma record_body_eq:
  "record_body rec = ExtendedAttrRecordLength rec # putBothUint32 (Start rec) @ putBothUint32 (Length rec) @
     NewEntryDateTime (Recorded rec) @ Flags rec # FileUnitSize rec # InterleaveGap rec #
     putBothUint16 (VolumeID rec) @ of_nat (length (Identifier rec)) # Identifier rec @
     (if length (Identifier rec) mod 2 = 0 then [0] else []) @
     concat (map (fst \<circ> Entry_WriteTo) (SystemUse rec))"
  by (simp add: record_body_def DirectoryRecord_header_def writeByte_def)

lemma DecodeDirectoryRecord_roundtrip:
  assumes "wf_record p rec"
  shows "DecodeDirectoryRecord p (record_body rec) = Inr (stored_record rec, [])"
proof -
  have es: "list_all (wf_entry p) (SystemUse rec)" and t: "entry_time (Recorded rec)"
    and id: "length (Identifier rec) \<le> 30"
    using assms by (simp_all add: wf_record_def MaxDirectoryRecordIdentifierLen_def)
  have u: "unat (of_nat (length (Identifier rec)) :: byte) = length (Identifier rec)"
    using id by (intro unat_of_nat_le) simp
  show ?thesis
    unfolding record_body_eq
    by (simp add: DecodeDirectoryRecord_def rthen_def rbind_def wire u t
        DecodeSystemUseEntries_roundtrip [OF es] stored_record_def)
qed

section \<open>Sectors\<close>

text \<open>The padding that \<open>WriteTo\<close> puts before a record of length \<open>l\<close> at position \<open>written\<close>.\<close>

definition gap_before :: "nat \<Rightarrow> nat \<Rightarrow> nat" where
  "gap_before written l =
     (if l > LogicalBlockSize - written mod LogicalBlockSize then LogicalBlockSize - written mod LogicalBlockSize
      else 0)"

lemma write_records_Cons:
  assumes "wf_record p rec"
  shows "write_records written (rec # recs) =
     ethen (emit (pad (gap_before written (DirectoryRecord_Len rec)) @
                  of_nat (DirectoryRecord_Len rec) # record_body rec))
       (write_records (written + gap_before written (DirectoryRecord_Len rec) + DirectoryRecord_Len rec) recs)"
proof -
  have "\<not> DirectoryRecord_Len rec > LogicalBlockSize" "0 < DirectoryRecord_Len rec"
    using assms record_Len_ge [of rec]
    by (simp_all add: wf_record_def LogicalBlockSize_def MaxDirectoryRecordLen_def)
  then show ?thesis
    using DirectoryRecord_WriteTo_wf [OF assms]
    by (simp add: Let_def gap_before_def add.assoc)
qed

lemma write_records_emit: "list_all (wf_record p) recs \<Longrightarrow> \<exists>bs. write_records written recs = emit bs"
proof (induction recs arbitrary: written)
  case (Cons rec recs)
  then have "wf_record p rec" by simp
  moreover obtain bs where "write_records (written + gap_before written (DirectoryRecord_Len rec) +
      DirectoryRecord_Len rec) recs = emit bs" using Cons by auto
  ultimately show ?case by (simp add: write_records_Cons del: write_records.simps)
qed simp

text \<open>The gap ends the sector; the record that follows starts the next one.\<close>

lemma gap_before_cases:
  assumes "0 < l" "l \<le> 2048"
  shows "(gap_before w l = 0 \<and> w mod 2048 + l \<le> 2048) \<or>
         (0 < w mod 2048 \<and> gap_before w l = 2048 - w mod 2048 \<and> (w + gap_before w l) mod 2048 = 0 \<and>
          gap_before w l < l)"
proof (cases "l > 2048 - w mod 2048")
  case True
  obtain q m where w: "w = q * 2048 + m" "m < 2048" and m: "w mod 2048 = m"
    by (metis div_mult_mod_eq mod_less_divisor zero_less_numeral)
  then have "w + (2048 - m) = (q + 1) * 2048" by simp
  then have "(w + (2048 - w mod 2048)) mod 2048 = 0" unfolding m by simp
  then show ?thesis using True assms by (auto simp: gap_before_def LogicalBlockSize_def)
next
  case False
  have "w mod 2048 < 2048" by simp
  then have "w mod 2048 + l \<le> 2048" using False by linarith
  then show ?thesis using False by (simp add: gap_before_def LogicalBlockSize_def)
qed

lemma dir_padding_value:
  assumes "c < 4294967296"
  shows "dir_padding c = unat (bytesToSectors (of_nat c)) * 2048 - c"
proof -
  let ?s = "unat (bytesToSectors (of_nat c))"
  have u: "unat (of_nat c :: u32) = c" "unat (of_nat c :: u64) = c"
    using assms by (simp_all add: unat_of_nat)
  have cover: "c \<le> ?s * 2048" "?s \<le> 2 ^ 21" using sectors_cover [of "of_nat c"] u by simp_all
  let ?d = "sectorsToBytes (bytesToSectors (of_nat c)) - (of_nat c :: u64)"
  have d: "unat ?d = ?s * 2048 - c"
    using cover u by (subst unat_sub) (simp_all add: word_le_nat_alt unat_sectorsToBytes)
  have small: "?s * 2048 - c \<le> 2 ^ 32" using cover by simp
  have "uint ?d < 2 ^ (LENGTH(64) - 1)"
    using d small by (simp add: uint_nat)
  moreover have "- (2 ^ (LENGTH(64) - 1)) \<le> uint ?d"
    by (rule order_trans [of _ 0]) simp_all
  ultimately have "sint ?d = uint ?d"
    unfolding sint_uint One_nat_def [symmetric] by (intro signed_take_bit_int_eq_self)
  then show ?thesis by (simp add: dir_padding_def d flip: unat_eq_nat_uint)
qed

text \<open>Just after the zero byte at \<open>w\<close>, inside a sector, the padding is the rest of the sector.\<close>

lemma dir_padding_in_sector:
  assumes "0 < w mod 2048" "w < 4294967295"
  shows "dir_padding (w + 1) = 2048 - w mod 2048 - 1"
proof -
  obtain q m where w: "w = q * 2048 + m" "m < 2048" and qm: "w div 2048 = q" "w mod 2048 = m"
    by (metis div_mult_mod_eq mod_less_divisor zero_less_numeral)
  have "unat (of_nat (w + 1) :: u32) = (w + 1) mod 2 ^ LENGTH(32)" by (rule unat_of_nat)
  then have u: "unat (of_nat (w + 1) :: u32) = w + 1" using assms by simp
  have "unat (bytesToSectors (of_nat (w + 1))) = q + 1"
  proof (cases "m = 2047")
    case True
    then have "w + 1 = (q + 1) * 2048" using w by simp
    then show ?thesis unfolding unat_bytesToSectors u by simp
  next
    case False
    then have "(w + 1) mod 2048 = m + 1" "(w + 1) div 2048 = q" using w by simp_all
    then show ?thesis unfolding unat_bytesToSectors u by simp
  qed
  then show ?thesis using assms w qm by (simp add: dir_padding_value del: of_nat_add)
qed

section \<open>Directories are read back\<close>

lemma decode_pad:
  assumes "0 < w mod 2048" "w < 4294967295" "n = 2048 - w mod 2048"
  shows "decode_records p w (pad n @ r) = decode_records p (w + n) r"
proof -
  have "0 < n" using assms(3) mod_less_divisor [of 2048 w] by linarith
  then obtain k where n: "n = Suc k" using gr0_implies_Suc by blast
  have "dir_padding (w + 1) = k" using dir_padding_in_sector [OF assms(1,2)] assms(3) n by simp
  then show ?thesis by (simp add: n unpad_pad)
qed

lemma decode_record:
  assumes "wf_record p rec"
  shows "decode_records p w (of_nat (DirectoryRecord_Len rec) # record_body rec @ r) =
     (case decode_records p (w + DirectoryRecord_Len rec) r of
        Inl e \<Rightarrow> Inl e | Inr recs \<Rightarrow> Inr (stored_record rec # recs))"
proof -
  have l: "DirectoryRecord_Len rec \<le> 255" "34 \<le> DirectoryRecord_Len rec"
    using assms record_Len_ge [of rec] by (simp_all add: wf_record_def MaxDirectoryRecordLen_def)
  then have u: "unat (of_nat (DirectoryRecord_Len rec) :: byte) = DirectoryRecord_Len rec"
    by (intro unat_of_nat_le)
  then have nz: "(of_nat (DirectoryRecord_Len rec) :: byte) \<noteq> 0"
    using l by (metis unsigned_0 not_numeral_le_zero)
  have b: "length (record_body rec) = DirectoryRecord_Len rec - 1"
    by (rule DirectoryRecord_WriteTo_wf [OF assms])
  show ?thesis
    using l nz by (simp add: u b Let_def DecodeDirectoryRecord_roundtrip [OF assms] split: sum.split)
qed

lemma decode_write_records:
  assumes "list_all (wf_record p) recs" "w + length (fst (write_records w recs)) \<le> MaxPartSize"
    "r = pad (if (w + length (fst (write_records w recs))) mod 2048 = 0 then 0
              else 2048 - (w + length (fst (write_records w recs))) mod 2048)"
  shows "decode_records p w (fst (write_records w recs) @ r) = Inr (map stored_record recs)"
  using assms
proof (induction recs arbitrary: w)
  case Nil
  have "w mod 2048 = 0 \<or> decode_records p w r = Inr []"
    using Nil.prems(2,3) decode_pad [of w "2048 - w mod 2048" p "[]"] by (auto simp: MaxPartSize_def)
  then show ?case using Nil.prems(3) by auto
next
  case (Cons rec recs)
  let ?l = "DirectoryRecord_Len rec"
  let ?g = "gap_before w ?l"
  have wf: "wf_record p rec" and l: "0 < ?l" "?l \<le> 2048"
    using Cons.prems(1) record_Len_ge [of rec] by (auto simp: wf_record_def MaxDirectoryRecordLen_def)
  obtain bs where bs: "write_records (w + ?g + ?l) recs = emit bs"
    using write_records_emit Cons.prems(1) by fastforce
  have out: "fst (write_records w (rec # recs)) = pad ?g @ of_nat ?l # record_body rec @ bs"
    unfolding write_records_Cons [OF wf] bs by simp
  have b: "length (record_body rec) = ?l - 1"
    by (rule DirectoryRecord_WriteTo_wf [OF wf])
  have end': "w + length (fst (write_records w (rec # recs))) = w + ?g + ?l + length bs"
    using l by (simp only: out length_append length_pad length_Cons b)
  have gap: "decode_records p w (pad ?g @ s) = decode_records p (w + ?g) s" for s
    using gap_before_cases [OF l, of w] decode_pad [of w ?g p s] Cons.prems(2)
    unfolding end' by (auto simp: MaxPartSize_def)
  have "decode_records p (w + ?g + ?l) (fst (write_records (w + ?g + ?l) recs) @ r) =
      Inr (map stored_record recs)"
  proof (rule Cons.IH)
    show "list_all (wf_record p) recs" using Cons.prems(1) by simp
  qed (use Cons.prems(2,3) in \<open>simp_all only: bs fst_emit end'\<close>)
  then have "decode_records p (w + ?g + ?l) (bs @ r) = Inr (map stored_record recs)"
    by (simp only: bs fst_emit)
  then show ?case
    using decode_record [OF wf, of "w + ?g" "bs @ r"] unfolding out by (simp add: gap)
qed

text \<open>
  The extent of a directory: its records and the zero bytes up to the end of the last
  sector.
\<close>

definition extent_of :: "byte list \<Rightarrow> byte list" where
  "extent_of bs = bs @ pad (if length bs mod 2048 = 0 then 0 else 2048 - length bs mod 2048)"

lemma Directory_readback:
  assumes "list_all (wf_record p) recs" "Directory_WriteTo \<lparr>Records = recs\<rparr> = (bs, None)"
  shows "DecodeDirectory p (extent_of bs) = Inr \<lparr>Records = map stored_record recs\<rparr>"
proof -
  obtain cs where cs: "write_records 0 recs = emit cs"
    using write_records_emit [OF assms(1)] by blast
  have b: "cs = bs" "length bs \<le> MaxPartSize"
    using assms(2) by (auto simp: Directory_WriteTo_def cs Let_def emit_def split: if_splits)
  have "decode_records p 0 (extent_of bs) = Inr (map stored_record recs)"
    using decode_write_records [OF assms(1), of 0, OF _ refl] b(2)
    unfolding cs extent_of_def b(1) fst_emit add_0 by blast
  then show ?thesis by (simp add: DecodeDirectory_def)
qed

text \<open>C12:
  Reading a directory extent gives back every record that was written, in order, with its
  System Use entries: sector padding is skipped, no record is lost at a sector boundary,
  and the times keep whole seconds.
\<close>

theorem directory_roundtrip:
  assumes "list_all (wf_record p) recs" "Directory_WriteTo \<lparr>Records = recs\<rparr> = (bs, None)"
  shows "DecodeDirectory p (extent_of bs) =
     Inr \<lparr>Records = map (\<lambda>rec. rec\<lparr>Recorded := (Recorded rec)\<lparr>Nanosecond := 0\<rparr>,
                              SystemUse := map stored (SystemUse rec)\<rparr>) recs\<rparr>"
  using Directory_readback [OF assms]
  by (simp add: stored_record_def whole_seconds_def cong: map_cong)

definition sample_record :: DirectoryRecord where
  "sample_record = \<lparr>Identifier = [0], Start = 21, Length = 2048, Flags = FileFlagDir, Recorded = epoch,
     SystemUse = [SP \<lparr>lenSkp = 0\<rparr>, NM \<lparr>nm_data = [0x2E], nm_cont = False\<rparr>],
     ExtendedAttrRecordLength = 0, FileUnitSize = 0, InterleaveGap = 0, VolumeID = 1\<rparr>"

lemma sample_record_wf: "wf_record ascii_print sample_record"
  by (simp add: wf_record_def sample_record_def MaxDirectoryRecordIdentifierLen_def MaxDirectoryRecordLen_def
      DirectoryRecord_Len_def Name_Len_def epoch_def entry_time_def valid_time_def daysIn_def isValid_def
      range_string_def DecodeRune_def ascii_print_def)

theorem directory_roundtrip_witness:
  "\<exists>bs. DecodeDirectory ascii_print (extent_of bs) = Inr \<lparr>Records = [sample_record, sample_record]\<rparr>"
proof -
  have wf: "list_all (wf_record ascii_print) [sample_record, sample_record]"
    using sample_record_wf by simp
  obtain bs where bs: "write_records 0 [sample_record, sample_record] = emit bs"
    using write_records_emit [OF wf] by blast
  have l: "DirectoryRecord_Len sample_record = 47"
    by (simp add: sample_record_def DirectoryRecord_Len_def Name_Len_def)
  have "length bs = 94"
  proof -
    have "emit bs = ethen (emit (of_nat 47 # record_body sample_record)) (emit (of_nat 47 # record_body sample_record))"
      unfolding bs [symmetric]
      by (simp add: write_records_Cons [OF sample_record_wf] l gap_before_def LogicalBlockSize_def
          del: write_records.simps(2))
    then show ?thesis
      using DirectoryRecord_WriteTo_wf(2) [OF sample_record_wf] by (simp add: l)
  qed
  then have "Directory_WriteTo \<lparr>Records = [sample_record, sample_record]\<rparr> = (bs, None)"
    by (simp add: Directory_WriteTo_def bs MaxPartSize_def del: write_records.simps) (simp add: emit_def)
  from directory_roundtrip [OF wf this] show ?thesis
    by (auto simp: sample_record_def epoch_def)
qed

section \<open>No record crosses a sector boundary\<close>

text \<open>Where \<open>WriteTo\<close> puts each record.\<close>

fun record_offsets :: "nat \<Rightarrow> DirectoryRecord list \<Rightarrow> nat list" where
  "record_offsets w [] = []"
| "record_offsets w (rec # recs) =
     (let o' = w + gap_before w (DirectoryRecord_Len rec)
      in o' # record_offsets (o' + DirectoryRecord_Len rec) recs)"

lemma length_record_offsets: "length (record_offsets w recs) = length recs"
  by (induction recs arbitrary: w) (simp_all add: Let_def)

lemma record_offsets_placed:
  assumes "list_all (wf_record p) recs" "i < length recs"
  shows "\<exists>o'. record_offsets w recs ! i = w + o' \<and>
     take (DirectoryRecord_Len (recs ! i)) (drop o' (fst (write_records w recs))) =
       fst (DirectoryRecord_WriteTo (recs ! i)) \<and>
     (w + o') mod 2048 + DirectoryRecord_Len (recs ! i) \<le> 2048"
  using assms
proof (induction recs arbitrary: w i)
  case (Cons rec recs)
  let ?l = "DirectoryRecord_Len rec"
  let ?g = "gap_before w ?l"
  have wf: "wf_record p rec" and l: "0 < ?l" "?l \<le> 2048"
    using Cons.prems(1) record_Len_ge [of rec] by (auto simp: wf_record_def MaxDirectoryRecordLen_def)
  obtain bs where bs: "write_records (w + ?g + ?l) recs = emit bs"
    using write_records_emit Cons.prems(1) by fastforce
  have out: "fst (write_records w (rec # recs)) = (pad ?g @ fst (DirectoryRecord_WriteTo rec)) @ bs"
    unfolding write_records_Cons [OF wf] bs by (simp add: DirectoryRecord_WriteTo_wf(1) [OF wf])
  have len: "length (fst (DirectoryRecord_WriteTo rec)) = ?l"
    using l DirectoryRecord_WriteTo_wf [OF wf] by simp
  show ?case
  proof (cases i)
    case 0
    have "(w + ?g) mod 2048 + ?l \<le> 2048" using gap_before_cases [OF l, of w] l by auto
    then show ?thesis
      unfolding out using len by (intro exI [of _ ?g]) (simp add: 0 Let_def)
  next
    case (Suc j)
    then obtain o' where o': "record_offsets (w + ?g + ?l) recs ! j = w + ?g + ?l + o'"
      "take (DirectoryRecord_Len (recs ! j)) (drop o' bs) = fst (DirectoryRecord_WriteTo (recs ! j))"
      "(w + ?g + ?l + o') mod 2048 + DirectoryRecord_Len (recs ! j) \<le> 2048"
      using Cons.IH [of j "w + ?g + ?l"] Cons.prems unfolding bs by auto
    then show ?thesis
      unfolding out using len by (intro exI [of _ "?g + ?l + o'"]) (simp add: Suc Let_def add.assoc)
  qed
qed simp

text \<open>C26:
  Every record stands complete in the directory extent and inside one sector, as ISO 9660
  demands and the comment on \<open>WriteTo\<close> promises.
\<close>

theorem directory_no_straddle:
  assumes "list_all (wf_record p) recs" "i < length recs"
  shows "let o' = record_offsets 0 recs ! i; l = DirectoryRecord_Len (recs ! i);
             bs = fst (Directory_WriteTo \<lparr>Records = recs\<rparr>)
         in take l (drop o' bs) = fst (DirectoryRecord_WriteTo (recs ! i)) \<and>
            o' div LogicalBlockSize = (o' + l - 1) div LogicalBlockSize"
proof -
  obtain cs where cs: "write_records 0 recs = emit cs"
    using write_records_emit [OF assms(1)] by blast
  have d: "fst (Directory_WriteTo \<lparr>Records = recs\<rparr>) = cs"
    by (simp add: Directory_WriteTo_def cs Let_def)
  have l: "0 < DirectoryRecord_Len (recs ! i)" using record_Len_ge [of "recs ! i"] by simp
  have s: "o' div 2048 = (o' + k - 1) div 2048" if "o' mod 2048 + k \<le> 2048" "0 < k" for o' k :: nat
  proof -
    have "o' + k - 1 = o' div 2048 * 2048 + (o' mod 2048 + k - 1)"
      using that by simp
    then show ?thesis using that by (simp only: div_mult_self3) simp
  qed
  show ?thesis
    using record_offsets_placed [OF assms, of 0] s [OF _ l] by (auto simp: Let_def d cs LogicalBlockSize_def)
qed

theorem directory_no_straddle_witness:
  "take 47 (drop (record_offsets 0 [sample_record, sample_record] ! 1)
       (fst (Directory_WriteTo \<lparr>Records = [sample_record, sample_record]\<rparr>))) =
     fst (DirectoryRecord_WriteTo sample_record)"
proof -
  have l: "DirectoryRecord_Len sample_record = 47"
    by (simp add: sample_record_def DirectoryRecord_Len_def Name_Len_def)
  show ?thesis
    using directory_no_straddle [of ascii_print "[sample_record, sample_record]" 1] sample_record_wf
    by (simp add: Let_def l)
qed

end
