(* ===== verification/Pvd.thy ===== *)
theory Pvd
  imports DirRecord IsoText
begin

text \<open>
  The volume descriptors and the path table: \<open>pvd.go\<close>, \<open>terminator.go\<close>, \<open>pathtable.go\<close>.
  \<open>up\<close> is \<open>unicode.ToUpper\<close>, \<open>is_print\<close> is \<open>unicode.IsPrint\<close>.
\<close>

section \<open>The primary volume descriptor\<close>

definition CD001 :: gostring where "CD001 = bytes_of ''CD001''"

record PrimaryVolumeDescriptor =
  SystemIdentifier :: gostring
  VolumeIdentifier :: gostring
  VolumeSetIdentifier :: gostring
  PublisherIdentifier :: gostring
  DataPreparerIdentifier :: gostring
  ApplicationIdentifier :: gostring
  CopyrightFileIdentifier :: gostring
  AbstractFileIdentifier :: gostring
  BibliographicFileIdentifier :: gostring
  VolumeSpaceSize :: u32
  VolumeSetSize :: u16
  VolumeSequenceNumber :: u16
  PathTableSize :: u32
  LTableStart :: LogicalBlockAddress
  OptionalLTableStart :: LogicalBlockAddress
  MTableStart :: LogicalBlockAddress
  OptionalMTableStart :: LogicalBlockAddress
  RootStart :: LogicalBlockAddress
  RootLength :: u32
  RootModified :: Time
  Created :: Time
  Modified :: Time
  Effective :: Time

definition root_record :: "PrimaryVolumeDescriptor \<Rightarrow> DirectoryRecord" where
  "root_record pvd = \<lparr>Identifier = [0], Start = RootStart pvd, Length = RootLength pvd, Flags = FileFlagDir,
     Recorded = RootModified pvd, SystemUse = [], ExtendedAttrRecordLength = 0, FileUnitSize = 0,
     InterleaveGap = 0, VolumeID = 1\<rparr>"

definition pvd_before_root :: "(rune \<Rightarrow> rune) \<Rightarrow> PrimaryVolumeDescriptor \<Rightarrow> byte list" where
  "pvd_before_root up pvd =
     writeByte 1 @ CD001 @ writeByte 1 @ writeByte 0 @
     StrA up (SystemIdentifier pvd) 32 @
     StrD up (VolumeIdentifier pvd) 32 @
     pad 8 @
     putBothUint32 (VolumeSpaceSize pvd) @
     pad 32 @
     putBothUint16 (VolumeSetSize pvd) @
     putBothUint16 (VolumeSequenceNumber pvd) @
     putBothUint16 2048 @
     putBothUint32 (PathTableSize pvd) @
     write32 LittleEndian (LTableStart pvd) @
     write32 LittleEndian (OptionalLTableStart pvd) @
     write32 BigEndian (MTableStart pvd) @
     write32 BigEndian (OptionalMTableStart pvd)"

definition pvd_after_root :: "(rune \<Rightarrow> rune) \<Rightarrow> PrimaryVolumeDescriptor \<Rightarrow> byte list" where
  "pvd_after_root up pvd =
     StrD up (VolumeSetIdentifier pvd) 128 @
     StrA up (PublisherIdentifier pvd) 128 @
     StrA up (DataPreparerIdentifier pvd) 128 @
     StrA up (ApplicationIdentifier pvd) 128 @
     StrD up (CopyrightFileIdentifier pvd) 38 @
     StrD up (AbstractFileIdentifier pvd) 36 @
     StrD up (BibliographicFileIdentifier pvd) 37 @
     NewDecDateTime (Created pvd) @
     NewDecDateTime (Modified pvd) @
     MaxDecDateTime @
     NewDecDateTime (Effective pvd) @
     writeByte 1 @ writeByte 0 @
     replicate 512 0x20 @
     pad 653"

definition PrimaryVolumeDescriptor_WriteTo ::
  "(rune \<Rightarrow> rune) \<Rightarrow> PrimaryVolumeDescriptor \<Rightarrow> emission" where
  "PrimaryVolumeDescriptor_WriteTo up pvd =
     (let root = DirectoryRecord_WriteTo (root_record pvd)
      in ethen (emit (pvd_before_root up pvd))
         (ethen (case snd root of Some e \<Rightarrow> root | None \<Rightarrow> checked 34 (fst root))
                (emit (pvd_after_root up pvd))))"

text \<open>
  \<open>io.LimitReader\<close> around a decoder that, like \<open>DecodeDirectoryRecord\<close>, returns without
  error only when it has read up to the limit.
\<close>

definition rlimit :: "nat \<Rightarrow> 'a reader \<Rightarrow> 'a reader" where
  "rlimit k p r = (case p (take k r) of Inl e \<Rightarrow> Inl e | Inr (x, _) \<Rightarrow> Inr (x, drop k r))"

definition DecodePrimaryVolumeDescriptor ::
  "(rune \<Rightarrow> bool) \<Rightarrow> (rune \<Rightarrow> rune) \<Rightarrow> PrimaryVolumeDescriptor reader" where
  "DecodePrimaryVolumeDescriptor is_print up =
     rthen (readExpectedByte 1 ''Primary Volume Descriptor - Type Code'')
    (rthen (readExpectedString CD001 ''Primary Volume Descriptor - Standard Identifier'')
    (rthen (readExpectedByte 1 ''Primary Volume Descriptor - Version'')
    (rthen (readExpectedByte 0 ''Primary Volume Descriptor - Unused'')
    (rbind (readStrA up 32) (\<lambda>system.
     rbind (readStrD up 32) (\<lambda>volume.
     rthen (unpad 8)
    (rbind getBothUint32 (\<lambda>space.
     rthen (unpad 32)
    (rbind getBothUint16 (\<lambda>set_size.
     rbind getBothUint16 (\<lambda>seq_no.
     rbind getBothUint16 (\<lambda>block_size.
     rthen (if block_size \<noteq> 2048 then rfail (Err ''Unsupported Logical Block Size'') else rreturn ())
    (rbind getBothUint32 (\<lambda>table_size.
     rbind (read32 LittleEndian) (\<lambda>ltable.
     rbind (read32 LittleEndian) (\<lambda>optional_ltable.
     rbind (read32 BigEndian) (\<lambda>mtable.
     rbind (read32 BigEndian) (\<lambda>optional_mtable.
     rthen (readExpectedByte 34 ''Directory Record Length'')
    (rbind (rlimit 33 (DecodeDirectoryRecord is_print)) (\<lambda>root.
     rbind (readStrD up 128) (\<lambda>volume_set.
     rbind (readStrA up 128) (\<lambda>publisher.
     rbind (readStrA up 128) (\<lambda>preparer.
     rbind (readStrA up 128) (\<lambda>application.
     rbind (readStrD up 38) (\<lambda>copyright.
     rbind (readStrD up 36) (\<lambda>abstract.
     rbind (readStrD up 37) (\<lambda>bibliographic.
     rbind (read_full 17) (\<lambda>created.
     rbind (read_full 17) (\<lambda>modified.
     rbind (read_full 17) (\<lambda>expires.
     rbind (read_full 17) (\<lambda>effective.
     rthen (readExpectedByte 1 ''file structure version'')
    (rthen (readExpectedByte 0 ''unused'')
    (rthen (read_full 512)
    (rthen (read_full 653)
    (rreturn
       \<lparr>SystemIdentifier = system, VolumeIdentifier = volume, VolumeSetIdentifier = volume_set,
        PublisherIdentifier = publisher, DataPreparerIdentifier = preparer,
        ApplicationIdentifier = application, CopyrightFileIdentifier = copyright,
        AbstractFileIdentifier = abstract, BibliographicFileIdentifier = bibliographic,
        VolumeSpaceSize = space, VolumeSetSize = set_size, VolumeSequenceNumber = seq_no,
        PathTableSize = table_size, LTableStart = ltable, OptionalLTableStart = optional_ltable,
        MTableStart = mtable, OptionalMTableStart = optional_mtable, RootStart = Start root,
        RootLength = Length root, RootModified = Recorded root,
        Created = DecDateTime_Timestamp created, Modified = DecDateTime_Timestamp modified,
        Effective = DecDateTime_Timestamp effective\<rparr>)))))))))))))))))))))))))))))))))))"

section \<open>The terminator\<close>

definition Terminator_WriteTo :: emission where
  "Terminator_WriteTo = emit (writeByte 255 @ CD001 @ writeByte 1 @ pad 2041)"

section \<open>The path table\<close>

record PathTableRecord =
  pt_Identifier :: gostring
  pt_ExtendedAttributeRecordLength :: byte
  pt_Location :: LogicalBlockAddress
  pt_ParentIndex :: u16

record PathTable =
  pt_Records :: "PathTableRecord list"

fun encode_path_records :: "byteOrder \<Rightarrow> PathTableRecord list \<Rightarrow> byte list" where
  "encode_path_records bo [] = []"
| "encode_path_records bo (rec # recs) =
     writeByte (of_nat (length (pt_Identifier rec))) @
     writeByte (pt_ExtendedAttributeRecordLength rec) @
     write32 bo (pt_Location rec) @
     write16 bo (pt_ParentIndex rec) @
     pt_Identifier rec @
     (if length (pt_Identifier rec) mod 2 \<noteq> 0 then pad 1 else []) @
     encode_path_records bo recs"

definition PathTable_Encode :: "byteOrder \<Rightarrow> PathTable \<Rightarrow> emission" where
  "PathTable_Encode bo pt = emit (encode_path_records bo (pt_Records pt))"

definition PathTableEncodedLen :: "PathTable \<Rightarrow> int" where
  "PathTableEncodedLen pt = int (length (fst (PathTable_Encode LittleEndian pt)))"

section \<open>Lemmas\<close>

lemma length_CD001 [simp]: "length CD001 = 5"
  by (simp add: CD001_def)

lemma root_record_wf: "entry_time (RootModified pvd) \<Longrightarrow> wf_record p (root_record pvd)"
  by (simp add: wf_record_def root_record_def MaxDirectoryRecordIdentifierLen_def MaxDirectoryRecordLen_def
      DirectoryRecord_Len_def)

lemma root_record_Len: "DirectoryRecord_Len (root_record pvd) = 34"
  by (simp add: root_record_def DirectoryRecord_Len_def)

text \<open>The root record can always be written: it has no System Use field and a short name.\<close>

lemma root_record_WriteTo:
  "DirectoryRecord_WriteTo (root_record pvd) = emit (DirectoryRecord_header (root_record pvd))"
  "length (DirectoryRecord_header (root_record pvd)) = 34"
proof -
  show l: "length (DirectoryRecord_header (root_record pvd)) = 34"
    by (simp add: length_header) (simp add: root_record_def)
  have "SystemUse (root_record pvd) = []" "length (Identifier (root_record pvd)) = 1"
    by (simp_all add: root_record_def)
  then show "DirectoryRecord_WriteTo (root_record pvd) = emit (DirectoryRecord_header (root_record pvd))"
    using l by (simp add: DirectoryRecord_WriteTo_def root_record_Len MaxDirectoryRecordIdentifierLen_def
        MaxDirectoryRecordLen_def Let_def checked_length)
qed

lemma PVD_WriteTo_emit:
  "PrimaryVolumeDescriptor_WriteTo up pvd =
     emit (pvd_before_root up pvd @ DirectoryRecord_header (root_record pvd) @ pvd_after_root up pvd)"
  by (simp add: PrimaryVolumeDescriptor_WriteTo_def Let_def root_record_WriteTo checked_length)

lemma length_pvd_parts:
  "length (pvd_before_root up pvd) = 156" "length (pvd_after_root up pvd) = 1858"
  by (simp_all add: pvd_before_root_def pvd_after_root_def)

text \<open>What is stored of a descriptor.\<close>

definition stored_pvd :: "(rune \<Rightarrow> rune) \<Rightarrow> PrimaryVolumeDescriptor \<Rightarrow> PrimaryVolumeDescriptor" where
  "stored_pvd up pvd = pvd
     \<lparr>SystemIdentifier := textA up (SystemIdentifier pvd) 32,
      VolumeIdentifier := textD up (VolumeIdentifier pvd) 32,
      VolumeSetIdentifier := textD up (VolumeSetIdentifier pvd) 128,
      PublisherIdentifier := textA up (PublisherIdentifier pvd) 128,
      DataPreparerIdentifier := textA up (DataPreparerIdentifier pvd) 128,
      ApplicationIdentifier := textA up (ApplicationIdentifier pvd) 128,
      CopyrightFileIdentifier := textD up (CopyrightFileIdentifier pvd) 38,
      AbstractFileIdentifier := textD up (AbstractFileIdentifier pvd) 36,
      BibliographicFileIdentifier := textD up (BibliographicFileIdentifier pvd) 37,
      RootModified := whole_seconds (RootModified pvd), Created := whole_seconds (Created pvd),
      Modified := whole_seconds (Modified pvd), Effective := whole_seconds (Effective pvd)\<rparr>"

lemma rlimit_root [wire]:
  assumes "entry_time (RootModified pvd)"
  shows "rlimit 33 (DecodeDirectoryRecord p) (tl (DirectoryRecord_header (root_record pvd)) @ r) =
     Inr (stored_record (root_record pvd), r)"
proof -
  have "record_body (root_record pvd) = tl (DirectoryRecord_header (root_record pvd))"
    by (simp add: record_body_def root_record_def)
  moreover have "length (tl (DirectoryRecord_header (root_record pvd))) = 33"
    by (simp add: root_record_WriteTo)
  ultimately show ?thesis
    using DecodeDirectoryRecord_roundtrip [OF root_record_wf [OF assms], of p]
    by (simp add: rlimit_def)
qed

lemma root_header_Cons:
  "DirectoryRecord_header (root_record pvd) = 34 # tl (DirectoryRecord_header (root_record pvd))"
  by (simp add: DirectoryRecord_header_def root_record_Len)

lemma root_record_fields [simp]:
  "Start (root_record pvd) = RootStart pvd" "Length (root_record pvd) = RootLength pvd"
  "Recorded (root_record pvd) = RootModified pvd"
  by (simp_all add: root_record_def)

lemma pvd_readback:
  assumes "entry_time (RootModified pvd)" "dec_time (Created pvd)" "dec_time (Modified pvd)"
    "dec_time (Effective pvd)"
  shows "snd (PrimaryVolumeDescriptor_WriteTo up pvd) = None \<and>
     length (fst (PrimaryVolumeDescriptor_WriteTo up pvd)) = LogicalBlockSize \<and>
     DecodePrimaryVolumeDescriptor p up (fst (PrimaryVolumeDescriptor_WriteTo up pvd) @ r) =
       Inr (stored_pvd up pvd, r)"
proof (intro conjI)
  show "snd (PrimaryVolumeDescriptor_WriteTo up pvd) = None"
    by (simp add: PVD_WriteTo_emit)
  show "length (fst (PrimaryVolumeDescriptor_WriteTo up pvd)) = LogicalBlockSize"
    by (simp add: PVD_WriteTo_emit length_pvd_parts root_record_WriteTo LogicalBlockSize_def)
  show "DecodePrimaryVolumeDescriptor p up (fst (PrimaryVolumeDescriptor_WriteTo up pvd) @ r) =
     Inr (stored_pvd up pvd, r)"
    unfolding PVD_WriteTo_emit pvd_before_root_def pvd_after_root_def DecodePrimaryVolumeDescriptor_def
    by (subst root_header_Cons)
       (simp add: rthen_def rbind_def wire assms writeByte_def stored_pvd_def stored_record_def)
qed

text \<open>C27:
  The primary volume descriptor fills exactly one sector, and decoding it gives back every
  number and date of it (dates in whole seconds) and each text as its field carries it:
  upper case, unknown characters replaced, cut to the width of the field.
\<close>

theorem pvd_roundtrip:
  assumes "entry_time (RootModified pvd)" "dec_time (Created pvd)" "dec_time (Modified pvd)"
    "dec_time (Effective pvd)"
  shows "snd (PrimaryVolumeDescriptor_WriteTo up pvd) = None \<and>
     length (fst (PrimaryVolumeDescriptor_WriteTo up pvd)) = LogicalBlockSize \<and>
     DecodePrimaryVolumeDescriptor p up (fst (PrimaryVolumeDescriptor_WriteTo up pvd) @ r) =
       Inr (stored_pvd up pvd, r)"
  by (rule pvd_readback [OF assms])

definition sample_pvd :: PrimaryVolumeDescriptor where
  "sample_pvd = \<lparr>SystemIdentifier = bytes_of ''LINUX'', VolumeIdentifier = [], VolumeSetIdentifier = [],
     PublisherIdentifier = [], DataPreparerIdentifier = [], ApplicationIdentifier = [],
     CopyrightFileIdentifier = [], AbstractFileIdentifier = [], BibliographicFileIdentifier = [],
     VolumeSpaceSize = 20, VolumeSetSize = 2, VolumeSequenceNumber = 1, PathTableSize = 3, LTableStart = 17,
     OptionalLTableStart = 0, MTableStart = 20, OptionalMTableStart = 0, RootStart = 24, RootLength = 2048,
     RootModified = epoch, Created = epoch, Modified = epoch, Effective = epoch\<rparr>"

theorem pvd_roundtrip_witness:
  "\<exists>bs pvd. length bs = 2048 \<and> DecodePrimaryVolumeDescriptor ascii_print (\<lambda>r. r) bs = Inr (pvd, []) \<and>
     RootStart pvd = 24"
proof -
  have t: "entry_time (RootModified sample_pvd)" "dec_time (Created sample_pvd)" "dec_time (Modified sample_pvd)"
    "dec_time (Effective sample_pvd)"
    by (simp_all add: sample_pvd_def epoch_def entry_time_def dec_time_def valid_time_def daysIn_def)
  have "RootStart (stored_pvd (\<lambda>r. r) sample_pvd) = 24"
    by (simp add: stored_pvd_def sample_pvd_def)
  then show ?thesis
    using pvd_roundtrip [OF t, of "\<lambda>r. r" ascii_print "[]"] unfolding LogicalBlockSize_def append_Nil2 by blast
qed

lemma length_Terminator: "length (fst Terminator_WriteTo) = LogicalBlockSize" "snd Terminator_WriteTo = None"
  by (simp_all add: Terminator_WriteTo_def LogicalBlockSize_def)

lemma length_encode_path_records:
  "length (encode_path_records bo recs) =
     sum_list (map (\<lambda>rec. 8 + length (pt_Identifier rec) + length (pt_Identifier rec) mod 2) recs)"
  by (induction recs) (simp_all add: mod2_eq_if)

text \<open>The table's length does not depend on the byte order nor on the locations in it.\<close>

lemma PathTableEncodedLen_eq:
  "map pt_Identifier (pt_Records pt) = map pt_Identifier (pt_Records pt') \<Longrightarrow>
   int (length (fst (PathTable_Encode bo pt'))) = PathTableEncodedLen pt"
proof -
  assume e: "map pt_Identifier (pt_Records pt) = map pt_Identifier (pt_Records pt')"
  have q: "map (\<lambda>rec. 8 + length (pt_Identifier rec) + length (pt_Identifier rec) mod 2) (pt_Records q) =
      map (\<lambda>s. 8 + length s + length s mod 2) (map pt_Identifier (pt_Records q))" for q
    by simp
  show ?thesis
    unfolding PathTableEncodedLen_def PathTable_Encode_def fst_emit length_encode_path_records q e ..
qed

end
