(* ===== verification/Containers.thy ===== *)
theory Containers
  imports Prelude "HOL-Library.Multiset" "HOL-Library.List_Lexorder"
begin

text \<open>
  The containers that the program takes from other packages or from the language, as
  parameters: the first-in first-out queue of \<open>badgerodon/collections\<close>, and the order in
  which Go's \<open>for range\<close> visits a map, which the language leaves open.
\<close>

section \<open>Queues\<close>

record ('q, 'a) queue =
  q_New :: "'q"
  q_Enqueue :: "'a \<Rightarrow> 'q \<Rightarrow> 'q"
  q_Dequeue :: "'q \<Rightarrow> 'a \<times> 'q"
  q_Len :: "'q \<Rightarrow> nat"

text \<open>
  The documented behaviour, with \<open>items\<close> for the elements from the front to the back: a
  new queue is empty, \<open>Enqueue\<close> adds at the back, \<open>Dequeue\<close> takes from the front.
\<close>

definition queue_laws :: "('q, 'a) queue \<Rightarrow> ('q \<Rightarrow> 'a list) \<Rightarrow> bool" where
  "queue_laws Q items \<longleftrightarrow>
     items (q_New Q) = [] \<and>
     (\<forall>x q. items (q_Enqueue Q x q) = items q @ [x]) \<and>
     (\<forall>q. q_Len Q q = length (items q)) \<and>
     (\<forall>q x xs. items q = x # xs \<longrightarrow> fst (q_Dequeue Q q) = x \<and> items (snd (q_Dequeue Q q)) = xs)"

text \<open>The laws hold of lists, which the witnesses use.\<close>

definition list_queue :: "('a list, 'a) queue" where
  "list_queue = \<lparr>q_New = [], q_Enqueue = (\<lambda>x q. q @ [x]), q_Dequeue = (\<lambda>q. (hd q, tl q)), q_Len = length\<rparr>"

lemma list_queue_laws: "queue_laws list_queue (\<lambda>q. q)"
  by (simp add: queue_laws_def list_queue_def)

text \<open>Adding several elements, as the loops over a node's children do.\<close>

definition enqueue_all :: "('q, 'a) queue \<Rightarrow> 'a list \<Rightarrow> 'q \<Rightarrow> 'q" where
  "enqueue_all Q xs q = fold (q_Enqueue Q) xs q"

lemma items_enqueue_all:
  "queue_laws Q items \<Longrightarrow> items (enqueue_all Q xs q) = items q @ xs"
  by (induction xs arbitrary: q) (auto simp: enqueue_all_def queue_laws_def)

lemma queue_len: "queue_laws Q items \<Longrightarrow> 0 < q_Len Q q \<longleftrightarrow> items q \<noteq> []"
  by (simp add: queue_laws_def)

lemma queue_front:
  assumes "queue_laws Q items" "items q = x # xs"
  shows "fst (q_Dequeue Q q) = x" "items (snd (q_Dequeue Q q)) = xs"
  using assms by (simp_all add: queue_laws_def)

section \<open>The order of a map\<close>

text \<open>
  \<open>for k, v := range m\<close> visits the entries in an order that the language does not fix and
  that differs from one loop to the next: the \<open>i\<close>th loop sees the arrangement \<open>rng i\<close>.
\<close>

definition range_order :: "(nat \<Rightarrow> 'a list \<Rightarrow> 'a list) \<Rightarrow> bool" where
  "range_order rng \<longleftrightarrow> (\<forall>i xs. mset (rng i xs) = mset xs)"

lemma range_order_set: "range_order rng \<Longrightarrow> set (rng i xs) = set xs"
  by (metis range_order_def mset_eq_setD)

lemma range_order_id: "range_order (\<lambda>i xs. xs)"
  by (simp add: range_order_def)

lemma range_order_rev: "range_order (\<lambda>i xs. rev xs)"
  by (simp add: range_order_def)

section \<open>Tree maps\<close>

text \<open>
  The map of \<open>gods/maps/treemap\<close> with its string comparator: \<open>Iterator\<close> visits the entries
  in the order of their keys, byte by byte.
\<close>

record ('m, 'v) treemap =
  tm_New :: "'m"
  tm_Put :: "gostring \<Rightarrow> 'v \<Rightarrow> 'm \<Rightarrow> 'm"
  tm_Get :: "gostring \<Rightarrow> 'm \<Rightarrow> 'v option"
  tm_Iterator :: "'m \<Rightarrow> (gostring \<times> 'v) list"

definition treemap_laws :: "('m, 'v) treemap \<Rightarrow> bool" where
  "treemap_laws T \<longleftrightarrow>
     tm_Iterator T (tm_New T) = [] \<and>
     (\<forall>k v m. tm_Iterator T (tm_Put T k v m) =
        filter (\<lambda>e. fst e < k) (tm_Iterator T m) @ [(k, v)] @ filter (\<lambda>e. k < fst e) (tm_Iterator T m)) \<and>
     (\<forall>k m. tm_Get T k m = map_of (tm_Iterator T m) k)"

text \<open>The laws hold of sorted lists, which the witnesses use.\<close>

definition list_treemap :: "((gostring \<times> 'v) list, 'v) treemap" where
  "list_treemap = \<lparr>tm_New = [],
     tm_Put = (\<lambda>k v m. filter (\<lambda>e. fst e < k) m @ [(k, v)] @ filter (\<lambda>e. k < fst e) m),
     tm_Get = (\<lambda>k m. map_of m k), tm_Iterator = (\<lambda>m. m)\<rparr>"

lemma list_treemap_laws: "treemap_laws list_treemap"
  by (simp add: treemap_laws_def list_treemap_def)

lemma treemap_New: "treemap_laws T \<Longrightarrow> tm_Iterator T (tm_New T) = []"
  by (simp add: treemap_laws_def)

lemma treemap_Get: "treemap_laws T \<Longrightarrow> tm_Get T k m = map_of (tm_Iterator T m) k"
  by (simp add: treemap_laws_def)

text \<open>Putting under a new key adds an entry and keeps the others.\<close>

lemma treemap_Put_set:
  assumes "treemap_laws T" "k \<notin> fst ` set (tm_Iterator T m)"
  shows "set (tm_Iterator T (tm_Put T k v m)) = insert (k, v) (set (tm_Iterator T m))"
proof -
  have "fst e < k \<or> k < fst e" if "e \<in> set (tm_Iterator T m)" for e
    using assms(2) that by (metis image_eqI less_linear)
  then show ?thesis using assms(1) by (auto simp: treemap_laws_def)
qed

lemma treemap_Put_distinct:
  assumes "treemap_laws T" "distinct (map fst (tm_Iterator T m))"
  shows "distinct (map fst (tm_Iterator T (tm_Put T k v m)))"
  using assms by (auto simp: treemap_laws_def distinct_map inj_on_def)

lemma treemap_Put_Get:
  assumes "treemap_laws T"
  shows "tm_Get T k' (tm_Put T k v m) = (if k' = k then Some v else tm_Get T k' m)"
proof -
  have f: "map_of (filter P xs) k' = (if P' then map_of xs k' else None)"
    if "\<And>e. fst e = k' \<Longrightarrow> P e = P'" for P P' and xs :: "(gostring \<times> 'b) list"
    using that by (induction xs) auto
  show ?thesis
    using assms f [of "\<lambda>e. fst e < k" "k' < k"] f [of "\<lambda>e. k < fst e" "k < k'"]
    by (auto simp: treemap_laws_def map_add_def split: option.splits)
qed

lemma treemap_Put_length:
  assumes "treemap_laws T" "k \<notin> fst ` set (tm_Iterator T m)"
  shows "length (tm_Iterator T (tm_Put T k v m)) = Suc (length (tm_Iterator T m))"
proof -
  have "k < fst e \<longleftrightarrow> \<not> fst e < k" if "e \<in> set (tm_Iterator T m)" for e
    using assms(2) that by (metis image_eqI less_linear less_asym)
  then have "filter (\<lambda>e. k < fst e) (tm_Iterator T m) = filter (\<lambda>e. \<not> fst e < k) (tm_Iterator T m)"
    by (rule filter_cong [OF refl])
  then show ?thesis
    using assms sum_length_filter_compl [of "\<lambda>e. fst e < k" "tm_Iterator T m"] by (simp add: treemap_laws_def)
qed

end
