(* ===== verification/Continuation.thy ===== *)
theory Continuation
  imports DirRecord
begin

text \<open>
  \<open>continuation.go\<close>: the sectors behind a directory extent that take the System Use entries
  which do not fit their record.  \<open>Append\<close> fills the last sector, goes on in new ones, and
  links the pieces with CE entries.
\<close>

section \<open>The code\<close>

record continuationSector =
  room :: int
  sector_entries :: "SystemUseEntry list"

record ContinuationArea =
  ca_start :: LogicalBlockAddress
  ca_sectors :: "continuationSector list"

definition NewContinuationArea :: "LogicalBlockAddress \<Rightarrow> ContinuationArea" where
  "NewContinuationArea start = \<lparr>ca_start = start, ca_sectors = []\<rparr>"

definition entries_len :: "SystemUseEntry list \<Rightarrow> int" where
  "entries_len es = sum_list (map (int \<circ> Entry_Len) es)"

definition ContinuationAreaEntryLength :: int where
  "ContinuationAreaEntryLength = 28"

definition fresh_sector :: continuationSector where
  "fresh_sector = \<lparr>room = int LogicalBlockSize, sector_entries = []\<rparr>"

text \<open>The inner loop: entries are popped from the end until the rest and a CE fit.\<close>

function fit :: "int \<Rightarrow> SystemUseEntry list \<Rightarrow> SystemUseEntry list \<Rightarrow> int \<Rightarrow> int
    \<Rightarrow> SystemUseEntry list \<times> SystemUseEntry list \<times> int \<times> int" where
  "fit limit tmpEntries overflow baseLen extraLen =
     (if tmpEntries \<noteq> [] \<and> baseLen + extraLen > limit then
        let lastEntry = last tmpEntries
        in fit limit (butlast tmpEntries) (lastEntry # overflow) (baseLen - int (Entry_Len lastEntry))
             ContinuationAreaEntryLength
      else (tmpEntries, overflow, baseLen, extraLen))"
  by pat_completeness auto
termination
  by (relation "measure (\<lambda>(l, t, x, b, e). length t)") auto

declare fit.simps [simp del]

text \<open>
  The outer loop of \<open>Append\<close> on a non-empty list of entries and sectors, with the recursive
  call on the overflow.  \<open>None\<close> would be a call that never returns: an entry larger than a
  sector makes it append sectors for ever.
\<close>

partial_function (option) append_loop ::
  "LogicalBlockAddress \<Rightarrow> continuationSector list \<Rightarrow> SystemUseEntry list
    \<Rightarrow> (continuationSector list \<times> ContinuationAreaEntry) option" where
  "append_loop start sectors entries =
     (let lastSector = length sectors - 1;
          sec = sectors ! lastSector;
          ceOffset = int LogicalBlockSize - room sec
      in case fit (room sec) entries [] (entries_len entries) 0 of
           (tmpEntries, overflow, baseLen, extraLen) \<Rightarrow>
             if tmpEntries = [] then append_loop start (sectors @ [fresh_sector]) entries
             else if overflow = [] then
               Some (sectors[lastSector := \<lparr>room = room sec - baseLen,
                                            sector_entries = sector_entries sec @ tmpEntries\<rparr>],
                     NewContinuationAreaEntry (start + of_nat lastSector) (of_int ceOffset) (of_int baseLen))
             else
               let sectors' = sectors[lastSector := \<lparr>room = room sec - (baseLen + extraLen),
                                                     sector_entries = sector_entries sec @ tmpEntries\<rparr>]
               in Option.bind (append_loop start sectors' overflow) (\<lambda>(sectors'', nextCE).
                    let s = sectors'' ! lastSector
                    in Some (sectors''[lastSector := s\<lparr>sector_entries := sector_entries s @ [CE nextCE]\<rparr>],
                             NewContinuationAreaEntry (start + of_nat lastSector) (of_int ceOffset)
                               (of_int (baseLen + extraLen)))))"

definition ContinuationArea_Append ::
  "ContinuationArea \<Rightarrow> SystemUseEntry list \<Rightarrow> (ContinuationArea \<times> ContinuationAreaEntry option) option" where
  "ContinuationArea_Append ca entries =
     (if entries = [] then Some (ca, None)
      else
        let sectors = (if ca_sectors ca = [] then [fresh_sector] else ca_sectors ca)
        in map_option (\<lambda>(sectors', ce). (ca\<lparr>ca_sectors := sectors'\<rparr>, Some ce))
             (append_loop (ca_start ca) sectors entries))"

definition ContinuationArea_Len :: "ContinuationArea \<Rightarrow> int" where
  "ContinuationArea_Len ca = int (length (ca_sectors ca)) * int LogicalBlockSize"

definition padOutSector :: "nat \<Rightarrow> byte list" where
  "padOutSector written =
     (let remainder = written mod LogicalBlockSize
      in if remainder > 0 then pad (LogicalBlockSize - remainder) else [])"

fun write_sectors :: "nat \<Rightarrow> continuationSector list \<Rightarrow> emission" where
  "write_sectors written [] = emit []"
| "write_sectors written (s # ss) =
     (let e = emit_all (map Entry_WriteTo (sector_entries s));
          p = padOutSector (written + length (fst e))
      in ethen (ethen e (emit p)) (write_sectors (written + length (fst e) + length p) ss))"

definition ContinuationArea_WriteTo :: "ContinuationArea \<Rightarrow> emission" where
  "ContinuationArea_WriteTo ca = write_sectors 0 (ca_sectors ca)"

section \<open>The inner loop\<close>

lemma entries_len_simps [simp]:
  "entries_len [] = 0" "entries_len (e # es) = int (Entry_Len e) + entries_len es"
  "entries_len (es @ fs) = entries_len es + entries_len fs"
  by (simp_all add: entries_len_def)

lemma entries_len_nonneg [simp]: "0 \<le> entries_len es"
  by (induction es) simp_all

lemma fit_gen:
  assumes "fit limit tmp ovf base extra = (t, ov, b, e)" "base = entries_len tmp"
    "extra = (if ovf = [] then 0 else 28)"
    "ovf \<noteq> [] \<longrightarrow> base + int (Entry_Len (hd ovf)) + (if tl ovf = [] then 0 else 28) > limit"
  shows "t @ ov = tmp @ ovf \<and> b = entries_len t \<and> e = (if ov = [] then 0 else 28) \<and>
    (t = [] \<or> b + e \<le> limit) \<and>
    (ov \<noteq> [] \<longrightarrow> b + int (Entry_Len (hd ov)) + (if tl ov = [] then 0 else 28) > limit)"
  using assms
proof (induction limit tmp ovf base extra rule: fit.induct)
  case (1 limit tmp ovf base extra)
  show ?case
  proof (cases "tmp \<noteq> [] \<and> base + extra > limit")
    case True
    have split: "entries_len tmp = entries_len (butlast tmp) + int (Entry_Len (last tmp))"
      using True by (metis append_butlast_last_id entries_len_simps add.right_neutral)
    have "fit limit (butlast tmp) (last tmp # ovf) (base - int (Entry_Len (last tmp))) 28 = (t, ov, b, e)"
      using 1(2) True by (simp add: fit.simps [of limit tmp] ContinuationAreaEntryLength_def Let_def)
    moreover have "butlast tmp @ last tmp # ovf = tmp @ ovf"
      using True by (metis append_butlast_last_id append_Cons append_Nil append_assoc)
    ultimately show ?thesis
      using 1(1) [OF True refl] 1(3,4) True split by (auto simp: ContinuationAreaEntryLength_def)
  next
    case False
    then show ?thesis using 1(2-5) by (auto simp: fit.simps [of limit tmp])
  qed
qed

lemma fit_spec:
  assumes "fit limit es [] (entries_len es) 0 = (t, ov, b, e)"
  shows "t @ ov = es" "b = entries_len t" "e = (if ov = [] then 0 else 28)" "t = [] \<or> b + e \<le> limit"
    "ov \<noteq> [] \<Longrightarrow> b + int (Entry_Len (hd ov)) + (if tl ov = [] then 0 else 28) > limit"
  using fit_gen [OF assms] by auto

text \<open>When even the first entry is too long, nothing is taken.\<close>

lemma fit_nothing:
  assumes "es \<noteq> []" "int (Entry_Len (hd es)) > limit" "fit limit es [] (entries_len es) 0 = (t, ov, b, e)"
  shows "t = []"
proof (rule ccontr)
  assume t: "t \<noteq> []"
  then have "hd es = hd t" using fit_spec(1) [OF assms(3)] by (metis hd_append2)
  moreover have "int (Entry_Len (hd t)) \<le> entries_len t" using t by (cases t) auto
  moreover have "b + e \<le> limit" "0 \<le> e" using fit_spec(3,4) [OF assms(3)] t by auto
  ultimately show False using assms(2) fit_spec(2) [OF assms(3)] by simp
qed

section \<open>Chains of CE entries\<close>

definition sector_ok :: "(rune \<Rightarrow> bool) \<Rightarrow> continuationSector \<Rightarrow> bool" where
  "sector_ok p s \<longleftrightarrow> list_all (wf_entry p) (sector_entries s) \<and>
     entries_len (sector_entries s) + room s = 2048 \<and> 0 \<le> room s \<and> sector_entries s \<noteq> []"

text \<open>
  A CE entry and the list it stands for: the piece of a sector it points to, and what the
  CE at the end of the piece, if it is not the last, stands for.
\<close>

inductive chained :: "u32 \<Rightarrow> continuationSector list \<Rightarrow> ContinuationAreaEntry \<Rightarrow> SystemUseEntry list \<Rightarrow> bool" where
  chained_last: "i < length T \<Longrightarrow> sector_entries (T ! i) = pre @ es @ post \<Longrightarrow>
     ce = \<lparr>ce_start = start + of_nat i, ce_off = of_int (entries_len pre), ce_len = of_int (entries_len es)\<rparr> \<Longrightarrow>
     chained start T ce es"
| chained_more: "i < length T \<Longrightarrow> sector_entries (T ! i) = pre @ (es @ [CE ce']) @ post \<Longrightarrow>
     ce = \<lparr>ce_start = start + of_nat i, ce_off = of_int (entries_len pre),
          ce_len = of_int (entries_len (es @ [CE ce']))\<rparr> \<Longrightarrow>
     chained start T ce' fs \<Longrightarrow> chained start T ce (es @ fs)"

text \<open>Later calls only add entries to the last sector, and sectors.\<close>

definition extends :: "continuationSector list \<Rightarrow> continuationSector list \<Rightarrow> bool" where
  "extends S T \<longleftrightarrow> length S \<le> length T \<and>
     (\<forall>i < length S. \<exists>post. sector_entries (T ! i) = sector_entries (S ! i) @ post)"

lemma extends_refl [simp]: "extends S S"
  by (simp add: extends_def)

lemma extends_trans: "extends S T \<Longrightarrow> extends T U \<Longrightarrow> extends S U"
  unfolding extends_def by (meson append_assoc order_less_le_trans order_trans) (metis append_assoc order_less_le_trans order_trans)

lemma chained_extends: "chained start S ce es \<Longrightarrow> extends S T \<Longrightarrow> chained start T ce es"
proof (induction rule: chained.induct)
  case (chained_last i S pre es post ce start)
  then obtain q where "sector_entries (T ! i) = pre @ es @ (post @ q)" "i < length T"
    by (auto simp: extends_def)
  then show ?case using chained_last by (blast intro: chained.chained_last)
next
  case (chained_more i S pre es ce' post ce start fs)
  then obtain q where "sector_entries (T ! i) = pre @ (es @ [CE ce']) @ (post @ q)" "i < length T"
    by (auto simp: extends_def)
  then show ?case using chained_more by (blast intro: chained.chained_more)
qed

section \<open>Append returns and keeps the chain\<close>

lemma wf_entry_len: "wf_entry p e \<Longrightarrow> Entry_Len e \<le> 255"
  using entry_law [of p e] by (auto simp: entry_law_def)

lemma append_loop_grow:
  assumes "es \<noteq> []" "int (Entry_Len (hd es)) > room s"
  shows "append_loop start (S @ [s]) es = append_loop start (S @ [s] @ [fresh_sector]) es"
proof -
  obtain t ov b e where f: "fit (room s) es [] (entries_len es) 0 = (t, ov, b, e)" by (metis prod_cases4)
  then have "t = []" using fit_nothing [OF assms] by simp
  then show ?thesis by (subst append_loop.simps) (simp add: f Let_def)
qed

text \<open>
  From a fresh last sector: the entries go into it and into new sectors, and the sectors
  before it keep their contents.
\<close>

lemma list_update_middle: "length S = n \<Longrightarrow> (S @ x # S')[n := y] = S @ y # S'"
  by (simp add: list_update_append)

lemma append_loop_fresh:
  assumes "es \<noteq> []" "list_all (wf_entry p) es"
  shows "\<exists>T ce. append_loop start (S @ [fresh_sector]) es = Some (S @ T, ce) \<and>
     list_all (sector_ok p) T \<and> T \<noteq> [] \<and> chained start (S @ T) ce es \<and> length T \<le> length es"
  using assms
proof (induction "length es" arbitrary: es S rule: less_induct)
  case less
  obtain t ov b e where f: "fit 2048 es [] (entries_len es) 0 = (t, ov, b, e)" by (metis prod_cases4)
  note sp = fit_spec [OF f]
  have hd: "Entry_Len (hd es) \<le> 255" using less.prems wf_entry_len by (cases es) auto
  have t: "t \<noteq> []"
  proof
    assume "t = []"
    then have "ov = es" "b = 0" using sp(1,2) by auto
    then show False using sp(5) less.prems hd by (auto split: if_splits)
  qed
  have step: "append_loop start (S @ [fresh_sector]) es =
     (if ov = [] then Some (S @ [\<lparr>room = 2048 - b, sector_entries = t\<rparr>],
        NewContinuationAreaEntry (start + of_nat (length S)) 0 (of_int b))
      else Option.bind (append_loop start (S @ [\<lparr>room = 2048 - (b + e), sector_entries = t\<rparr>]) ov) (\<lambda>(T, ce).
        Some (T[length S := (T ! length S)\<lparr>sector_entries := sector_entries (T ! length S) @ [CE ce]\<rparr>],
          NewContinuationAreaEntry (start + of_nat (length S)) 0 (of_int (b + e)))))"
    by (subst append_loop.simps)
       (simp add: fresh_sector_def LogicalBlockSize_def f t Let_def list_update_middle)
  show ?case
  proof (cases "ov = []")
    case True
    let ?T = "[\<lparr>room = 2048 - b, sector_entries = t\<rparr>]"
    have te: "t = es" "b = entries_len es" "b \<le> 2048" using sp True t by auto
    have "chained start (S @ ?T) (NewContinuationAreaEntry (start + of_nat (length S)) 0 (of_int b)) es"
      by (rule chained_last [of "length S" _ "[]" _ "[]"]) (simp_all add: te NewContinuationAreaEntry_def)
    moreover have "list_all (sector_ok p) ?T" using te t less.prems by (simp add: sector_ok_def)
    moreover have "length ?T \<le> length es" using te(1) t by (cases es) auto
    ultimately show ?thesis using step True by fastforce
  next
    case False
    have e: "e = 28" "b + 28 \<le> 2048" "b = entries_len t" using sp t False by auto
    define S1 where "S1 = S @ [\<lparr>room = 2048 - (b + e), sector_entries = t\<rparr>]"
    have ov: "length ov < length es" "list_all (wf_entry p) ov"
      using sp(1) t less.prems by auto
    have "int (Entry_Len (hd ov)) > 2048 - (b + e)"
      using sp(5) [OF False] e by (auto split: if_splits)
    then have grow: "append_loop start S1 ov = append_loop start (S1 @ [fresh_sector]) ov"
      unfolding S1_def using append_loop_grow [OF False] by simp
    obtain T ce where T: "append_loop start S1 ov = Some (S1 @ T, ce)" "list_all (sector_ok p) T" "T \<noteq> []"
      "chained start (S1 @ T) ce ov" "length T \<le> length ov"
      using less.hyps [OF ov(1) False ov(2), of S1] unfolding grow by blast
    let ?s = "\<lparr>room = 2048 - (b + e), sector_entries = t @ [CE ce]\<rparr>"
    let ?ce = "NewContinuationAreaEntry (start + of_nat (length S)) 0 (of_int (b + e))"
    have res: "append_loop start (S @ [fresh_sector]) es = Some (S @ ?s # T, ?ce)"
      using step False T(1) by (simp add: S1_def list_update_middle)
    have "extends (S1 @ T) (S @ ?s # T)"
      by (auto simp: extends_def S1_def nth_append nth_Cons')
    then have "chained start (S @ ?s # T) ce ov" using T(4) chained_extends by blast
    then have "chained start (S @ ?s # T) ?ce (t @ ov)"
      by (intro chained_more [of "length S" _ "[]" t ce "[]"])
         (simp_all add: NewContinuationAreaEntry_def e)
    moreover have "sector_ok p ?s" using e t sp(1) less.prems by (auto simp: sector_ok_def)
    moreover have "length (?s # T) \<le> length es" using T(5) ov(1) by simp
    ultimately show ?thesis using res T(2) sp(1) by (intro exI [of _ "?s # T"] exI [of _ ?ce]) simp
  qed
qed

lemma append_loop_spec:
  assumes "es \<noteq> []" "list_all (wf_entry p) es" "S \<noteq> []" "list_all (sector_ok p) S"
  shows "\<exists>T ce. append_loop start S es = Some (T, ce) \<and> list_all (sector_ok p) T \<and> extends S T \<and>
     chained start T ce es \<and> length T \<le> length S + length es"
proof -
  obtain R s where S: "S = R @ [s]" using assms(3) by (metis rev_exhaust)
  have s: "sector_ok p s" "list_all (sector_ok p) R" using assms(4) by (simp_all add: S)
  obtain t ov b e where f: "fit (room s) es [] (entries_len es) 0 = (t, ov, b, e)" by (metis prod_cases4)
  note sp = fit_spec [OF f]
  define off where "off = entries_len (sector_entries s)"
  have off: "2048 - room s = off" using s(1) by (simp add: sector_ok_def off_def)
  have step: "append_loop start S es =
     (if t = [] then append_loop start (S @ [fresh_sector]) es
      else if ov = [] then Some (R @ [\<lparr>room = room s - b, sector_entries = sector_entries s @ t\<rparr>],
        NewContinuationAreaEntry (start + of_nat (length R)) (of_int off) (of_int b))
      else Option.bind (append_loop start (R @ [\<lparr>room = room s - (b + e), sector_entries = sector_entries s @ t\<rparr>]) ov)
        (\<lambda>(T, ce). Some (T[length R := (T ! length R)\<lparr>sector_entries := sector_entries (T ! length R) @ [CE ce]\<rparr>],
          NewContinuationAreaEntry (start + of_nat (length R)) (of_int off) (of_int (b + e)))))"
    unfolding S
    by (subst append_loop.simps)
       (simp add: LogicalBlockSize_def f Let_def list_update_middle off flip: append_assoc)
  show ?thesis
  proof (cases "t = []")
    case True
    obtain T ce where "append_loop start (S @ [fresh_sector]) es = Some (S @ T, ce)" "list_all (sector_ok p) T"
      "chained start (S @ T) ce es" "length T \<le> length es"
      using append_loop_fresh [OF assms(1,2)] by blast
    moreover have "extends S (S @ T)" by (simp add: extends_def nth_append)
    ultimately show ?thesis using step True assms(4) by auto
  next
    case t: False
    show ?thesis
    proof (cases "ov = []")
      case True
      let ?T = "R @ [\<lparr>room = room s - b, sector_entries = sector_entries s @ t\<rparr>]"
      let ?ce = "NewContinuationAreaEntry (start + of_nat (length R)) (of_int off) (of_int b)"
      have te: "t = es" "b = entries_len es" "b \<le> room s" using sp True t by auto
      have "chained start ?T ?ce es"
        by (rule chained_last [of "length R" _ "sector_entries s" _ "[]"])
           (simp_all add: te NewContinuationAreaEntry_def off_def)
      moreover have "list_all (sector_ok p) ?T" using te t s assms(2) by (simp add: sector_ok_def)
      moreover have "extends S ?T" by (auto simp: S extends_def nth_append)
      ultimately show ?thesis using step True t by (auto simp: S)
    next
      case False
      have e: "e = 28" "b + 28 \<le> room s" "b = entries_len t" using sp t False by auto
      let ?s1 = "\<lparr>room = room s - (b + e), sector_entries = sector_entries s @ t\<rparr>"
      have ov: "list_all (wf_entry p) ov" using sp(1) assms(2) by auto
      have "int (Entry_Len (hd ov)) > room ?s1"
        using sp(5) [OF False] e by (auto split: if_splits)
      then have grow: "append_loop start (R @ [?s1]) ov = append_loop start ((R @ [?s1]) @ [fresh_sector]) ov"
        using append_loop_grow [OF False] by simp
      obtain T ce where T: "append_loop start (R @ [?s1]) ov = Some ((R @ [?s1]) @ T, ce)" "list_all (sector_ok p) T"
        "chained start ((R @ [?s1]) @ T) ce ov" "length T \<le> length ov"
        using append_loop_fresh [OF False ov, of start "R @ [?s1]"] unfolding grow by blast
      let ?s = "?s1\<lparr>sector_entries := sector_entries ?s1 @ [CE ce]\<rparr>"
      let ?T = "R @ ?s # T"
      let ?ce = "NewContinuationAreaEntry (start + of_nat (length R)) (of_int off) (of_int (b + e))"
      have res: "append_loop start S es = Some (?T, ?ce)"
        using step t False T(1) by (simp add: list_update_middle)
      have "extends ((R @ [?s1]) @ T) ?T" "extends S ?T"
        by (auto simp: extends_def S nth_append nth_Cons')
      then have "chained start ?T ce ov" using T(3) chained_extends by blast
      then have "chained start ?T ?ce (t @ ov)"
        by (intro chained_more [of "length R" _ "sector_entries s" t ce "[]"])
           (simp_all add: NewContinuationAreaEntry_def e off_def)
      moreover have "sector_ok p ?s" using e t s sp(1) assms(2) by (auto simp: sector_ok_def)
      moreover have "length ?T \<le> length S + length es" using T(4) sp(1) by (auto simp: S)
      ultimately show ?thesis using res T(2) sp(1) s(2) \<open>extends S ?T\<close> by auto
    qed
  qed
qed

section \<open>The bytes of the area\<close>

definition entries_bytes :: "SystemUseEntry list \<Rightarrow> byte list" where
  "entries_bytes es = concat (map (fst \<circ> Entry_WriteTo) es)"

definition sector_image :: "continuationSector \<Rightarrow> byte list" where
  "sector_image s = entries_bytes (sector_entries s) @ pad (nat (room s))"

lemma entries_bytes_append [simp]: "entries_bytes (es @ fs) = entries_bytes es @ entries_bytes fs"
  by (simp add: entries_bytes_def)

lemma length_entries_bytes:
  "list_all (wf_entry p) es \<Longrightarrow> int (length (entries_bytes es)) = entries_len es"
proof -
  have "int (sum_list (map Entry_Len es)) = entries_len es"
    by (induction es) simp_all
  then show "list_all (wf_entry p) es \<Longrightarrow> ?thesis"
    using emit_all_entries(2) [of p es] by (simp add: entries_bytes_def)
qed

lemma length_sector_image: "sector_ok p s \<Longrightarrow> length (sector_image s) = 2048"
proof -
  assume s: "sector_ok p s"
  then have "int (length (entries_bytes (sector_entries s))) + room s = 2048" "0 \<le> room s"
    using length_entries_bytes [of p "sector_entries s"] by (simp_all add: sector_ok_def)
  then have "nat (room s) = 2048 - length (entries_bytes (sector_entries s))"
    "length (entries_bytes (sector_entries s)) \<le> 2048" by linarith+
  then show ?thesis by (simp add: sector_image_def)
qed

text \<open>\<open>WriteTo\<close> writes each sector in full.\<close>

lemma write_sectors_image:
  assumes "list_all (sector_ok p) T" "w mod 2048 = 0"
  shows "write_sectors w T = emit (concat (map sector_image T))"
  using assms
proof (induction T arbitrary: w)
  case (Cons s T)
  have ok: "list_all (wf_entry p) (sector_entries s)" "entries_len (sector_entries s) + room s = 2048"
    "0 \<le> room s" using Cons.prems by (simp_all add: sector_ok_def)
  let ?n = "length (entries_bytes (sector_entries s))"
  have n: "int ?n + room s = 2048" using length_entries_bytes [OF ok(1)] ok(2) by simp
  have e: "emit_all (map Entry_WriteTo (sector_entries s)) = emit (entries_bytes (sector_entries s))"
    using emit_all_entries(1) [OF ok(1)] by (simp add: entries_bytes_def)
  have "?n \<le> 2048" using n ok(3) by linarith
  have "(w + ?n) mod 2048 = ?n mod 2048" using Cons.prems(2) by (metis mod_add_left_eq add_0)
  then have pd: "padOutSector (w + ?n) = (if ?n mod 2048 > 0 then pad (2048 - ?n mod 2048) else [])"
    by (simp add: padOutSector_def LogicalBlockSize_def Let_def)
  have p: "padOutSector (w + ?n) = pad (nat (room s)) \<or> (?n = 0 \<and> padOutSector (w + ?n) = [])"
  proof (cases "?n = 2048")
    case False
    then have "?n mod 2048 = ?n" using \<open>?n \<le> 2048\<close> by simp
    moreover have "nat (room s) = 2048 - ?n" using n by linarith
    ultimately show ?thesis using pd by auto
  qed (use pd n in simp)
  have "?n \<noteq> 0"
  proof
    assume z: "?n = 0"
    obtain x xs where x: "sector_entries s = x # xs"
      using Cons.prems(1) by (cases "sector_entries s") (auto simp: sector_ok_def)
    have "3 \<le> Entry_Len x" using entry_law [of p x] ok(1) x by (auto simp: entry_law_def)
    moreover have "0 \<le> entries_len xs" by (rule entries_len_nonneg)
    ultimately have "0 < entries_len (sector_entries s)" unfolding x entries_len_simps by linarith
    then show False using z length_entries_bytes [OF ok(1)] by simp
  qed
  then have img: "ethen (emit (entries_bytes (sector_entries s))) (emit (padOutSector (w + ?n))) = emit (sector_image s)"
    using p by (simp add: sector_image_def)
  have "length (sector_image s) = 2048" using Cons.prems(1) length_sector_image [of p s] by simp
  then have len: "w + ?n + length (padOutSector (w + ?n)) = w + 2048"
    using p \<open>?n \<noteq> 0\<close> by (simp add: sector_image_def)
  have "write_sectors (w + 2048) T = emit (concat (map sector_image T))"
    using Cons by (intro Cons.IH) auto
  then show ?case by (simp only: write_sectors.simps Let_def e fst_emit img len) simp
qed simp

lemma blocks_nth:
  assumes "\<forall>x \<in> set xs. length x = k" "i < length xs" "a + b \<le> k"
  shows "take b (drop (i * k + a) (concat xs)) = take b (drop a (xs ! i))"
  using assms
proof (induction xs arbitrary: i)
  case (Cons x xs)
  show ?case
  proof (cases i)
    case 0
    then show ?thesis using Cons.prems by simp
  next
    case (Suc j)
    have "drop (i * k + a) (concat (x # xs)) = drop (j * k + a) (concat xs)"
      using Cons.prems(1) by (simp add: Suc)
    then show ?thesis using Cons Suc by simp
  qed
qed simp

end
