(* ===== verification/RockRidge.thy ===== *)
theory RockRidge
  imports SystemUse
begin

text \<open>
  File names and symbolic links as sequences of Rock Ridge entries: \<open>rrip/nm.go\<close>,
  \<open>rrip/sl.go\<close> and the lookups of \<open>rrip/px.go\<close> and \<open>rrip/tf.go\<close>.  A name is cut into
  chunks of 250 bytes, a link target into one entry per path segment (or chunk of 248
  bytes of it); the decoders put them together again.
\<close>

section \<open>Definitions\<close>

subsection \<open>Extension references\<close>

definition ExtensionsReference :: "goerr + SystemUseEntry" where
  "ExtensionsReference = NewExtensionsReferenceEntry 1 (bytes_of ''IEEE_P1282'')
     (bytes_of ''THE IEEE P1282 PROTOCOL PROVIDES SUPPORT FOR POSIX FILE SYSTEM SEMANTICS.'')
     (bytes_of ''PLEASE CONTACT THE IEEE STANDARDS DEPARTMENT, PISCATAWAY, NJ, USA FOR THE P1282 SPECIFICATION.'')"

definition ExtensionsReferenceLegacy :: "goerr + SystemUseEntry" where
  "ExtensionsReferenceLegacy = NewExtensionsReferenceEntry 1 (bytes_of ''RRIP_1991A'')
     (bytes_of ''THE ROCK RIDGE INTERCHANGE PROTOCOL PROVIDES SUPPORT FOR POSIX FILE SYSTEM SEMANTICS'')
     (bytes_of ''PLEASE CONTACT DISC PUBLISHER FOR SPECIFICATION SOURCE.  SEE PUBLISHER IDENTIFIER IN PRIMARY VOLUME DESCRIPTOR FOR CONTACT INFORMATION.'')"

subsection \<open>Names\<close>

function name_chunks :: "gostring \<Rightarrow> SystemUseEntry list" where
  "name_chunks remaining =
     (if length remaining > 0 then
        let (chunk, remaining') = (if length remaining > 250 then (take 250 remaining, drop 250 remaining)
                                   else (remaining, []))
        in NM \<lparr>nm_data = chunk, nm_cont = length remaining' > 0\<rparr> # name_chunks remaining'
      else [])"
  by pat_completeness auto
termination
  by (relation "measure length") (auto split: if_splits)

declare name_chunks.simps [simp del]

definition NewName :: "(rune \<Rightarrow> bool) \<Rightarrow> gostring \<Rightarrow> goerr + SystemUseEntry list" where
  "NewName is_print name =
     (if \<not> isValid is_print name then Inl (Err ''Invalid RockRidge file name'') else Inr (name_chunks name))"

fun name_loop :: "gostring \<Rightarrow> SystemUseEntry list \<Rightarrow> gostring \<times> bool" where
  "name_loop result [] = ([], False)"
| "name_loop result (NM v # entries) =
     (let result' = result @ nm_data v
      in if \<not> nm_cont v then (result', True) else name_loop result' entries)"
| "name_loop result (_ # entries) = name_loop result entries"

definition DecodeName :: "SystemUseEntry list \<Rightarrow> gostring \<times> bool" where
  "DecodeName entries = name_loop [] entries"

subsection \<open>Attributes and timestamps\<close>

fun DecodePosixEntry :: "SystemUseEntry list \<Rightarrow> PosixEntry option" where
  "DecodePosixEntry [] = None"
| "DecodePosixEntry (PX e # entries) = Some e"
| "DecodePosixEntry (_ # entries) = DecodePosixEntry entries"

fun DecodeTimestamps :: "SystemUseEntry list \<Rightarrow> Timestamps option" where
  "DecodeTimestamps [] = None"
| "DecodeTimestamps (TF e # entries) = Some e"
| "DecodeTimestamps (_ # entries) = DecodeTimestamps entries"

subsection \<open>Paths\<close>

definition slash :: byte where "slash = 0x2F"
definition dot :: gostring where "dot = [0x2E]"
definition dotdot :: gostring where "dotdot = [0x2E, 0x2E]"

fun split_slash :: "gostring \<Rightarrow> gostring list" where
  "split_slash [] = [[]]"
| "split_slash (c # cs) =
     (if c = slash then [] # split_slash cs
      else (case split_slash cs of [] \<Rightarrow> [[c]] | s # ss \<Rightarrow> (c # s) # ss))"

fun join_slash :: "gostring list \<Rightarrow> gostring" where
  "join_slash [] = []"
| "join_slash [s] = s"
| "join_slash (s # ss) = s @ [slash] @ join_slash ss"

text \<open>
  \<open>path.Clean\<close>: empty and \<open>.\<close> elements go, \<open>..\<close> removes the element before it, except that
  at the start it is kept in a relative path and dropped in a rooted one.
\<close>

fun clean_step :: "bool \<Rightarrow> gostring list \<Rightarrow> gostring \<Rightarrow> gostring list" where
  "clean_step rooted out c =
     (if c = [] \<or> c = dot then out
      else if c = dotdot then
        (case out of
           [] \<Rightarrow> (if rooted then [] else [dotdot])
         | x # xs \<Rightarrow> if x = dotdot then dotdot # out else xs)
      else c # out)"

definition path_Clean :: "gostring \<Rightarrow> gostring" where
  "path_Clean p =
     (if p = [] then dot
      else
        let rooted = (hd p = slash);
            out = join_slash (rev (foldl (clean_step rooted) [] (split_slash p)))
        in if rooted then slash # out else if out = [] then dot else out)"

subsection \<open>Symbolic links\<close>

function segment_chunks :: "gostring \<Rightarrow> gostring list" where
  "segment_chunks remaining =
     (if length remaining > 248 then take 248 remaining # segment_chunks (drop 248 remaining)
      else [remaining])"
  by pat_completeness auto
termination
  by (relation "measure length") auto

declare segment_chunks.simps [simp del]

definition NewSymlinkComponent :: "(rune \<Rightarrow> bool) \<Rightarrow> gostring \<Rightarrow> goerr + SymlinkComponent list" where
  "NewSymlinkComponent is_print segment =
     (if \<not> isValid is_print segment then
        Inl (Err ''symlink path segments must only contain characters from the POSIX portable file name character set'')
      else if segment = dot then Inr [\<lparr>sc_flags = SymlinkComponentFlagCurrent, sc_data = []\<rparr>]
      else if segment = dotdot then Inr [\<lparr>sc_flags = SymlinkComponentFlagParent, sc_data = []\<rparr>]
      else if segment = [] then Inr [\<lparr>sc_flags = SymlinkComponentFlagRoot, sc_data = []\<rparr>]
      else
        let components = map (\<lambda>chunk. \<lparr>sc_flags = SymlinkComponentFlagContinue, sc_data = chunk\<rparr>)
                             (segment_chunks segment);
            k = length components - 1
        in Inr (components[k := (components ! k)
             \<lparr>sc_flags := sc_flags (components ! k) XOR SymlinkComponentFlagContinue\<rparr>]))"

fun symlink_components :: "(rune \<Rightarrow> bool) \<Rightarrow> gostring list \<Rightarrow> goerr + SymlinkComponent list" where
  "symlink_components is_print [] = Inr []"
| "symlink_components is_print (segment # segments) =
     (case NewSymlinkComponent is_print segment of
        Inl e \<Rightarrow> Inl e
      | Inr components \<Rightarrow>
          (case symlink_components is_print segments of
             Inl e \<Rightarrow> Inl e | Inr later \<Rightarrow> Inr (components @ later)))"

definition NewSymlink :: "(rune \<Rightarrow> bool) \<Rightarrow> gostring \<Rightarrow> goerr + SystemUseEntry list" where
  "NewSymlink is_print target =
     (case symlink_components is_print (split_slash (path_Clean target)) of
        Inl e \<Rightarrow> Inl e
      | Inr components \<Rightarrow>
          let sls = map (\<lambda>c. \<lparr>sl_comp = c, sl_cont = True\<rparr>) components; k = length sls - 1
          in Inr (map SL (if length sls > 0 then sls[k := (sls ! k)\<lparr>sl_cont := False\<rparr>] else sls)))"

fun symlink_loop :: "gostring list \<Rightarrow> gostring \<Rightarrow> SystemUseEntry list \<Rightarrow> gostring \<times> bool" where
  "symlink_loop parts partial [] = ([], False)"
| "symlink_loop parts partial (SL v # entries) =
     (let comp = sl_comp v
      in if sc_flags comp AND SymlinkComponentFlagCurrent \<noteq> 0 then
           symlink_loop (parts @ [dot]) partial entries
         else if sc_flags comp AND SymlinkComponentFlagParent \<noteq> 0 then
           symlink_loop (parts @ [dotdot]) partial entries
         else if sc_flags comp AND SymlinkComponentFlagRoot \<noteq> 0 then
           symlink_loop (parts @ [[]]) partial entries
         else
           let partial' = partial @ sc_data comp;
               (parts', partial'') = (if sc_flags comp AND SymlinkComponentFlagContinue = 0
                                      then (parts @ [partial'], []) else (parts, partial'))
           in if \<not> sl_cont v then (join_slash parts', True) else symlink_loop parts' partial'' entries)"
| "symlink_loop parts partial (_ # entries) = symlink_loop parts partial entries"

definition DecodeSymlink :: "SystemUseEntry list \<Rightarrow> gostring \<times> bool" where
  "DecodeSymlink entries = symlink_loop [] [] entries"

section \<open>Names\<close>

lemma name_chunks_Nil [simp]: "name_chunks [] = []"
  by (simp add: name_chunks.simps)

lemma name_chunks_short: "s \<noteq> [] \<Longrightarrow> length s \<le> 250 \<Longrightarrow> name_chunks s = [NM \<lparr>nm_data = s, nm_cont = False\<rparr>]"
  by (simp add: name_chunks.simps [of s] Let_def)

lemma name_chunks_long:
  "250 < length s \<Longrightarrow> name_chunks s = NM \<lparr>nm_data = take 250 s, nm_cont = True\<rparr> # name_chunks (drop 250 s)"
  by (subst name_chunks.simps) (auto simp: Let_def)

lemma chunk_induct [case_names nil short long]:
  assumes "P []" "\<And>s. s \<noteq> [] \<Longrightarrow> length s \<le> 250 \<Longrightarrow> P s"
    "\<And>s. 250 < length s \<Longrightarrow> P (drop 250 s) \<Longrightarrow> P s"
  shows "P (s :: gostring)"
proof (induction "length s" arbitrary: s rule: less_induct)
  case less
  show ?case
    by (cases "s = []"; cases "length s \<le> 250") (use assms less in \<open>simp_all\<close>)
qed

definition is_NM :: "SystemUseEntry \<Rightarrow> bool" where
  "is_NM e = (case e of NM _ \<Rightarrow> True | _ \<Rightarrow> False)"

lemma name_loop_filter: "name_loop result entries = name_loop result (filter is_NM entries)"
  by (induction result entries rule: name_loop.induct) (simp_all add: is_NM_def Let_def)

lemma name_loop_chunks: "s \<noteq> [] \<Longrightarrow> name_loop result (name_chunks s @ later) = (result @ s, True)"
proof (induction s arbitrary: result rule: chunk_induct)
  case (long s)
  then have "name_loop (result @ take 250 s) (name_chunks (drop 250 s) @ later) =
      ((result @ take 250 s) @ drop 250 s, True)" by simp
  then show ?case using long by (simp add: name_chunks_long Let_def)
qed (simp_all add: name_chunks_short)

lemma name_chunks_parts:
  "e \<in> set (name_chunks s) \<Longrightarrow> \<exists>nm i. e = NM nm \<and> nm_data nm = take 250 (drop i s)"
proof (induction s rule: chunk_induct)
  case (short s)
  then have "e = NM \<lparr>nm_data = s, nm_cont = False\<rparr> \<and> s = take 250 (drop 0 s)"
    by (simp add: name_chunks_short)
  then show ?case by (metis Name.select_convs(1))
next
  case (long s)
  then consider "e = NM \<lparr>nm_data = take 250 s, nm_cont = True\<rparr>" | "e \<in> set (name_chunks (drop 250 s))"
    by (auto simp: name_chunks_long)
  then show ?case
  proof cases
    case 1 then show ?thesis by (metis Name.select_convs(1) drop0)
  next
    case 2 then show ?thesis using long.IH by (auto simp only: drop_drop)
  qed
qed simp

lemma is_NM_stored [simp]: "is_NM (stored e) = is_NM e" "is_NM e \<Longrightarrow> stored e = e"
  by (cases e; simp add: is_NM_def)+

lemma filter_NM_stored: "filter is_NM (map stored es) = filter is_NM es"
  by (induction es) auto

lemma isValid_part:
  assumes "isValid p s" "p RuneError"
  shows "isValid p (take n (drop i s))"
proof -
  have "set (runes (take n (drop i s))) \<subseteq> insert RuneError (set (runes s))"
    using runes_take [of n "drop i s"] runes_drop [of i s] by auto
  then show ?thesis
    using assms by (auto simp: isValid_iff RuneError_def)
qed

lemma name_chunks_wf:
  assumes "isValid p s" "p RuneError"
  shows "list_all (wf_entry p) (name_chunks s)"
  using name_chunks_parts [of _ s] isValid_part [OF assms] by (fastforce simp: list_all_iff)

lemma name_chunks_NM: "filter is_NM (name_chunks s) = name_chunks s"
  using name_chunks_parts [of _ s] by (fastforce simp: is_NM_def filter_id_conv)

text \<open>C13:
  A file name survives the image.  Whatever other well-formed entries stand between its
  parts, encoding the System Use field and decoding its bytes gives the name back, even
  when a chunk boundary falls inside a UTF-8 sequence.
\<close>

theorem name_roundtrip:
  assumes "isValid p name" "name \<noteq> []" "p RuneError"
  shows "\<exists>es. NewName p name = Inr es \<and> list_all (wf_entry p) es \<and>
     (\<forall>field. list_all (wf_entry p) field \<and> filter is_NM field = es \<longrightarrow>
        (\<exists>entries. DecodeSystemUseEntries p (concat (map (fst \<circ> Entry_WriteTo) field)) = Inr entries \<and>
           DecodeName entries = (name, True)))"
proof (intro exI conjI allI impI)
  show "NewName p name = Inr (name_chunks name)"
    using assms(1) by (simp add: NewName_def)
  show "list_all (wf_entry p) (name_chunks name)"
    by (rule name_chunks_wf [OF assms(1,3)])
  fix field assume f: "list_all (wf_entry p) field \<and> filter is_NM field = name_chunks name"
  then show "DecodeSystemUseEntries p (concat (map (fst \<circ> Entry_WriteTo) field)) = Inr (map stored field)"
    using DecodeSystemUseEntries_roundtrip by blast
  show "DecodeName (map stored field) = (name, True)"
    using name_loop_chunks [OF assms(2), of "[]" "[]"] name_loop_filter [of "[]" "map stored field"] f
    by (simp add: DecodeName_def filter_NM_stored)
qed

theorem name_roundtrip_witness:
  "\<exists>es. NewName (\<lambda>r. 0x20 \<le> r) (bytes_of ''readme'') = Inr es \<and> list_all (wf_entry (\<lambda>r. 0x20 \<le> r)) es"
proof -
  have "isValid (\<lambda>r. 0x20 \<le> r) (bytes_of ''readme'')"
    by (simp add: isValid_def range_string_def bytes_of_def DecodeRune_def)
  then show ?thesis
    using name_roundtrip [of "\<lambda>r. 0x20 \<le> r" "bytes_of ''readme''"]
    by (auto simp: RuneError_def bytes_of_def)
qed

section \<open>Symbolic links\<close>

lemma split_slash_nonempty [simp]: "split_slash s \<noteq> []"
  by (induction s) (auto split: list.splits)

lemma join_slash_Cons: "ss \<noteq> [] \<Longrightarrow> join_slash (s # ss) = s @ slash # join_slash ss"
  by (cases ss) auto

lemma join_split [simp]: "join_slash (split_slash s) = s"
proof (induction s)
  case (Cons c s)
  then show ?case
    by (cases "split_slash s"; cases "tl (split_slash s)") (auto simp: join_slash_Cons)
qed simp

lemma segment_chunks_nonempty [simp]: "segment_chunks s \<noteq> []"
  by (simp add: segment_chunks.simps [of s])

lemma concat_segment_chunks: "concat (segment_chunks s) = s"
proof (induction s rule: segment_chunks.induct)
  case (1 s)
  then show ?case by (cases "length s > 248") (simp_all add: segment_chunks.simps [of s])
qed

text \<open>The entries of one component list, all of them continued.\<close>

definition conts :: "SymlinkComponent list \<Rightarrow> SystemUseEntry list" where
  "conts cs = map (\<lambda>c. SL \<lparr>sl_comp = c, sl_cont = True\<rparr>) cs"

definition data_comp :: "SymlinkComponentFlag \<Rightarrow> gostring \<Rightarrow> SymlinkComponent" where
  "data_comp f s = \<lparr>sc_flags = f, sc_data = s\<rparr>"

lemma symlink_loop_chunks:
  "symlink_loop parts partial (conts (map (data_comp SymlinkComponentFlagContinue) cs) @ later) =
   symlink_loop parts (partial @ concat cs) later"
  by (induction cs arbitrary: partial)
     (simp_all add: conts_def data_comp_def symlink_flags Let_def)

definition normal_segment :: "gostring \<Rightarrow> bool" where
  "normal_segment s \<longleftrightarrow> s \<noteq> [] \<and> s \<noteq> dot \<and> s \<noteq> dotdot"

text \<open>A component list: all its parts but the last continue the segment.\<close>

lemma NewSymlinkComponent_normal:
  assumes "NewSymlinkComponent p s = Inr cs" "normal_segment s"
  shows "\<exists>ds d. cs = map (data_comp SymlinkComponentFlagContinue) ds @ [data_comp 0 d] \<and> concat ds @ d = s"
proof -
  let ?ds = "segment_chunks s"
  have l: "map f ?ds = map f (butlast ?ds) @ [f (last ?ds)]" for f :: "gostring \<Rightarrow> SymlinkComponent"
    by (metis append_butlast_last_id list.map(1,2) map_append segment_chunks_nonempty)
  have "cs = map (data_comp SymlinkComponentFlagContinue) (butlast ?ds) @ [data_comp 0 (last ?ds)]"
    using assms l [of "\<lambda>chunk. \<lparr>sc_flags = SymlinkComponentFlagContinue, sc_data = chunk\<rparr>"]
    by (auto simp: NewSymlinkComponent_def normal_segment_def Let_def data_comp_def list_update_append
        nth_append symlink_flags split: if_splits)
  moreover have "concat (butlast ?ds) @ last ?ds = s"
    using concat_segment_chunks [of s] append_butlast_last_id [OF segment_chunks_nonempty, of s]
    by (metis concat.simps concat_append append_Nil2)
  ultimately show ?thesis by blast
qed

lemma symlink_loop_segment:
  assumes "NewSymlinkComponent p s = Inr cs"
  shows "symlink_loop parts [] (conts cs @ later) = symlink_loop (parts @ [s]) [] later"
proof (cases "normal_segment s")
  case True
  then obtain ds d where cs: "cs = map (data_comp SymlinkComponentFlagContinue) ds @ [data_comp 0 d]"
    and s: "concat ds @ d = s" using NewSymlinkComponent_normal [OF assms] by blast
  have "conts cs @ later = conts (map (data_comp SymlinkComponentFlagContinue) ds) @
      SL \<lparr>sl_comp = data_comp 0 d, sl_cont = True\<rparr> # later"
    by (simp add: cs conts_def)
  then show ?thesis
    using s by (simp add: symlink_loop_chunks) (simp add: data_comp_def symlink_flags Let_def)
next
  case False
  then show ?thesis
    using assms by (auto simp: normal_segment_def NewSymlinkComponent_def conts_def symlink_flags Let_def
        split: if_splits)
qed

lemma symlink_loop_segments:
  "symlink_components p ss = Inr cs \<Longrightarrow>
   symlink_loop parts [] (conts cs @ later) = symlink_loop (parts @ ss) [] later"
proof (induction ss arbitrary: parts cs)
  case (Cons s ss)
  then obtain c d where c: "NewSymlinkComponent p s = Inr c" and d: "symlink_components p ss = Inr d"
    and cs: "cs = c @ d" by (auto split: sum.splits)
  have "conts cs @ later = conts c @ conts d @ later" by (simp add: cs conts_def)
  then show ?case using symlink_loop_segment [OF c] Cons.IH [OF d] by simp
qed (simp add: conts_def)

lemma symlink_components_append:
  "symlink_components p (ss @ ts) =
     (case symlink_components p ss of Inl e \<Rightarrow> Inl e
      | Inr c \<Rightarrow> (case symlink_components p ts of Inl e \<Rightarrow> Inl e | Inr d \<Rightarrow> Inr (c @ d)))"
  by (induction ss) (simp_all split: sum.split)

text \<open>What the last segment's component list becomes, with its last entry final.\<close>

lemma list_update_last: "xs \<noteq> [] \<Longrightarrow> xs[length xs - 1 := f (xs ! (length xs - 1))] = butlast xs @ [f (last xs)]"
  by (metis append_butlast_last_id butlast_list_update last_conv_nth last_list_update list_update_nonempty
      length_list_update)

lemma NewSymlinkComponent_nonempty: "NewSymlinkComponent p s = Inr cs \<Longrightarrow> cs \<noteq> []"
  by (auto simp: NewSymlinkComponent_def Let_def split: if_splits)

lemma symlink_loop_final:
  assumes "NewSymlinkComponent p s = Inr cs"
  shows "symlink_loop parts [] (conts (butlast cs) @ [SL \<lparr>sl_comp = last cs, sl_cont = False\<rparr>]) =
     (if normal_segment s then (join_slash (parts @ [s]), True) else ([], False))"
proof (cases "normal_segment s")
  case True
  then obtain ds d where cs: "cs = map (data_comp SymlinkComponentFlagContinue) ds @ [data_comp 0 d]"
    and s: "concat ds @ d = s" using NewSymlinkComponent_normal [OF assms] by blast
  then show ?thesis
    using True by (simp add: symlink_loop_chunks) (simp add: data_comp_def symlink_flags Let_def)
next
  case False
  then show ?thesis
    using assms by (auto simp: normal_segment_def NewSymlinkComponent_def conts_def symlink_flags Let_def
        split: if_splits)
qed

lemma DecodeSymlink_NewSymlink:
  assumes "NewSymlink p target = Inr es"
  shows "DecodeSymlink es = (if normal_segment (last (split_slash (path_Clean target)))
                             then (path_Clean target, True) else ([], False))"
proof -
  let ?ss = "split_slash (path_Clean target)"
  obtain cs where cs: "symlink_components p ?ss = Inr cs"
    using assms by (auto simp: NewSymlink_def Let_def split: sum.splits)
  have "symlink_components p (butlast ?ss @ [last ?ss]) = Inr cs" using cs by simp
  then obtain c d where c: "symlink_components p (butlast ?ss) = Inr c"
    and d: "NewSymlinkComponent p (last ?ss) = Inr d" and app: "cs = c @ d"
    unfolding symlink_components_append by (auto split: sum.splits)
  have d0: "d \<noteq> []" by (rule NewSymlinkComponent_nonempty [OF d])
  let ?sls = "map (\<lambda>x. \<lparr>sl_comp = x, sl_cont = True\<rparr>) cs"
  have "es = map SL (?sls[length ?sls - 1 := (?sls ! (length ?sls - 1))\<lparr>sl_cont := False\<rparr>])"
    using assms d0 app by (simp add: NewSymlink_def cs Let_def)
  also have "\<dots> = map SL (butlast ?sls @ [(last ?sls)\<lparr>sl_cont := False\<rparr>])"
    using d0 app by (subst list_update_last) simp_all
  also have "\<dots> = conts c @ conts (butlast d) @ [SL \<lparr>sl_comp = last d, sl_cont = False\<rparr>]"
    using d0 by (simp add: app conts_def butlast_append last_map map_butlast flip: map_butlast)
  finally have "DecodeSymlink es =
      symlink_loop (butlast ?ss) [] (conts (butlast d) @ [SL \<lparr>sl_comp = last d, sl_cont = False\<rparr>])"
    using symlink_loop_segments [OF c, of "[]"] by (simp add: DecodeSymlink_def)
  then show ?thesis
    using symlink_loop_final [OF d, of "butlast ?ss"] by simp
qed

text \<open>C25:
  A symbolic link written with \<open>NewSymlink\<close> is read back as its cleaned target whenever the
  target's last element is a name.  When it is \<open>.\<close>, \<open>..\<close> or the root, the decoder skips the
  test for the final entry and reports that there is no link: such a link is stored in the
  image and unreadable.
\<close>

theorem symlink_decode:
  assumes "NewSymlink p target = Inr es"
  shows "DecodeSymlink es =
     (if last (split_slash (path_Clean target)) \<notin> {[], dot, dotdot}
      then (path_Clean target, True) else ([], False))"
  using DecodeSymlink_NewSymlink [OF assms] by (simp add: normal_segment_def)

theorem symlink_decode_witness:
  "DecodeSymlink [SL \<lparr>sl_comp = \<lparr>sc_flags = 4, sc_data = []\<rparr>, sl_cont = True\<rparr>,
                  SL \<lparr>sl_comp = \<lparr>sc_flags = 0, sc_data = bytes_of ''lib''\<rparr>, sl_cont = False\<rparr>] =
     (bytes_of ''../lib'', True)"
proof -
  have "NewSymlink ascii_print (bytes_of ''x/..//../lib'') =
     Inr [SL \<lparr>sl_comp = \<lparr>sc_flags = 4, sc_data = []\<rparr>, sl_cont = True\<rparr>,
          SL \<lparr>sl_comp = \<lparr>sc_flags = 0, sc_data = bytes_of ''lib''\<rparr>, sl_cont = False\<rparr>]"
    by (simp add: NewSymlink_def path_Clean_def bytes_of_def slash_def dot_def dotdot_def Let_def
        NewSymlinkComponent_def segment_chunks.simps isValid_def range_string_def DecodeRune_def
        ascii_print_def symlink_flags)
  moreover have "path_Clean (bytes_of ''x/..//../lib'') = bytes_of ''../lib''"
    by (simp add: path_Clean_def bytes_of_def slash_def dot_def dotdot_def Let_def)
  ultimately show ?thesis
    using symlink_decode [of ascii_print "bytes_of ''x/..//../lib''"]
    by (simp add: bytes_of_def slash_def dot_def dotdot_def)
qed

end
