(* ===== verification/Inode.thy ===== *)
theory Inode
  imports Containers Continuation RockRidge IsoNames Objects
begin

text \<open>
  The nodes of a volume while it is built: \<open>sectorallocator.go\<close>, \<open>inode.go\<close>,
  \<open>fileinode.go\<close>, \<open>symlinkinode.go\<close> and the fields of \<open>directoryinode.go\<close>.  The nodes point
  at each other, so they live in a heap: a reference is an index into the list of the nodes
  that were allocated.
\<close>

section \<open>Sectors\<close>

record SectorAllocator =
  sa_next :: LogicalBlockAddress

definition NewSectorAllocator :: SectorAllocator where
  "NewSectorAllocator = \<lparr>sa_next = 0\<rparr>"

definition Alloc :: "u32 \<Rightarrow> SectorAllocator \<Rightarrow> SectorAllocator \<times> LogicalBlockAddress" where
  "Alloc numBytes sa = (let result = sa_next sa in (sa\<lparr>sa_next := sa_next sa + bytesToSectors numBytes\<rparr>, result))"

definition Allocated :: "SectorAllocator \<Rightarrow> u32" where
  "Allocated sa = sa_next sa"

section \<open>Parts\<close>

datatype InodeType = InodeTypeFile | InodeTypeDirectory | InodeTypeSymlink

record InodePart =
  part_start :: LogicalBlockAddress
  part_size :: u32

lemma max_part: "of_nat MaxPartSize = (4294965248 :: 'a::len word)"
  by (simp add: MaxPartSize_def)

lemma part_sub:
  fixes remaining :: u64
  shows "remaining > 4294965248 \<Longrightarrow> unat (remaining - ucast (4294965248 :: u32)) = unat remaining - 4294965248"
    "\<not> remaining > 4294965248 \<Longrightarrow> remaining - ucast (ucast remaining :: u32) = 0"
    "\<not> remaining > 4294965248 \<Longrightarrow> unat (ucast remaining :: u32) = unat remaining"
proof -
  assume r: "remaining > 4294965248"
  show "unat (remaining - ucast (4294965248 :: u32)) = unat remaining - 4294965248"
    using r by (simp add: unat_sub word_less_nat_alt word_le_nat_alt)
next
  assume "\<not> remaining > 4294965248"
  then have "unat remaining < 2 ^ 32" by (simp add: word_less_nat_alt)
  then show u: "unat (ucast remaining :: u32) = unat remaining"
    by (simp add: unsigned_ucast_eq take_bit_nat_eq_self)
  have "ucast (ucast remaining :: u32) = remaining"
    using u by (simp only: word_unat_eq_iff unsigned_ucast_eq) (simp add: take_bit_nat_eq_self unsigned_take_bit_eq)
  then show "remaining - ucast (ucast remaining :: u32) = 0" by simp
qed

text \<open>The loop of \<open>InodeParts\<close>; on the panic the parts made so far are lost with the call.\<close>

function InodeParts :: "LogicalBlockAddress \<Rightarrow> u64 \<Rightarrow> goerr + InodePart list" where
  "InodeParts start remaining =
     (let sz = (if remaining > of_nat MaxPartSize then of_nat MaxPartSize else ucast remaining);
          remaining' = remaining - ucast sz
      in if remaining' > 0 then
           let lba = start + bytesToSectors sz
           in if lba \<le> start then Inl (Panic ''overflow'')
              else (case InodeParts lba remaining' of
                      Inl e \<Rightarrow> Inl e
                    | Inr parts \<Rightarrow> Inr (\<lparr>part_start = start, part_size = sz\<rparr> # parts))
         else Inr [\<lparr>part_start = start, part_size = sz\<rparr>])"
  by pat_completeness auto
termination
proof (relation "measure (\<lambda>(s, r). unat r)")
  show "wf (measure (\<lambda>(s :: u32, r :: u64). unat r))" by simp
  fix start lba sz :: u32 and remaining remaining' :: u64
  assume sz: "sz = (if remaining > of_nat MaxPartSize then of_nat MaxPartSize else ucast remaining)"
    and r: "remaining' = remaining - ucast sz" and pos: "0 < remaining'"
  have big: "remaining > 4294965248"
    using part_sub(2) [of remaining] pos sz r unfolding max_part by (auto split: if_splits)
  then have "unat remaining' = unat remaining - 4294965248"
    using part_sub(1) sz r unfolding max_part by simp
  then show "((lba, remaining'), start, remaining) \<in> measure (\<lambda>(s, r). unat r)"
    using big by (simp add: word_less_nat_alt)
qed

declare InodeParts.simps [simp del]

lemma InodeParts_step:
  "InodeParts start remaining =
     (if remaining > 4294965248 then
        if start + 2097151 \<le> start then Inl (Panic ''overflow'')
        else (case InodeParts (start + 2097151) (remaining - 4294965248) of
                Inl e \<Rightarrow> Inl e
              | Inr parts \<Rightarrow> Inr (\<lparr>part_start = start, part_size = 4294965248\<rparr> # parts))
      else Inr [\<lparr>part_start = start, part_size = ucast remaining\<rparr>])"
proof -
  have b: "bytesToSectors 4294965248 = 2097151"
    by (simp add: bytesToSectors_def)
  show ?thesis
    unfolding InodeParts.simps [of start remaining] Let_def max_part
    using part_sub(2) [of remaining] by (simp add: b word_gt_0)
qed

definition part_count :: "nat \<Rightarrow> nat" where
  "part_count n = (if n = 0 then 1 else (n - 1) div MaxPartSize + 1)"

text \<open>Each part starts where the blocks of the one before it end, and all but the last are full.\<close>

definition chained_parts :: "LogicalBlockAddress \<Rightarrow> InodePart list \<Rightarrow> bool" where
  "chained_parts start ps \<longleftrightarrow>
     (\<forall>i < length ps. unat (part_start (ps ! i)) = unat start + i * 2097151) \<and>
     (\<forall>i < length ps - 1. unat (part_size (ps ! i)) = MaxPartSize) \<and>
     unat (part_size (last ps)) \<le> MaxPartSize"

lemma part_count_step: "MaxPartSize < n \<Longrightarrow> part_count n = Suc (part_count (n - MaxPartSize))"
proof -
  assume n: "MaxPartSize < n"
  then have "n - 1 = MaxPartSize + (n - MaxPartSize - 1)" by simp
  moreover have "0 < MaxPartSize" by (simp add: MaxPartSize_def)
  ultimately have "(n - 1) div MaxPartSize = Suc ((n - MaxPartSize - 1) div MaxPartSize)"
    by (metis div_add_self1 add.commute Suc_eq_plus1 less_numeral_extra(3))
  then show ?thesis using n by (simp add: part_count_def)
qed

lemma part_count_small: "n \<le> MaxPartSize \<Longrightarrow> part_count n = 1"
  by (auto simp: part_count_def)

lemma part_count_pos: "0 < part_count n"
  by (simp add: part_count_def)

lemma next_lba:
  fixes start :: u32
  shows "start + 2097151 \<le> start \<longleftrightarrow> 2 ^ 32 \<le> unat start + 2097151"
    "\<not> start + 2097151 \<le> start \<Longrightarrow> unat (start + 2097151) = unat start + 2097151"
proof -
  have u: "unat (start + 2097151) = (unat start + 2097151) mod 2 ^ 32"
    by (simp add: unat_word_ariths)
  have b: "unat start < 2 ^ 32" using unat_lt [of start] by simp
  show "start + 2097151 \<le> start \<longleftrightarrow> 2 ^ 32 \<le> unat start + 2097151"
    unfolding word_le_nat_alt u using b by (auto simp: mod_if)
  then show "\<not> start + 2097151 \<le> start \<Longrightarrow> unat (start + 2097151) = unat start + 2097151"
    unfolding u using b by simp
qed

lemma InodeParts_spec:
  "case InodeParts start sz of
     Inl e \<Rightarrow> e = Panic ''overflow'' \<and> 2 ^ 32 \<le> unat start + (part_count (unat sz) - 1) * 2097151
   | Inr ps \<Rightarrow> length ps = part_count (unat sz) \<and> chained_parts start ps \<and>
       sum_list (map (unat \<circ> part_size) ps) = unat sz \<and>
       unat start + (part_count (unat sz) - 1) * 2097151 < 2 ^ 32"
proof (induction "unat sz" arbitrary: start sz rule: less_induct)
  case less
  show ?case
  proof (cases "sz > 4294965248")
    case False
    then have "unat sz \<le> MaxPartSize" by (simp add: word_less_nat_alt MaxPartSize_def)
    then show ?thesis
      using False part_sub(3) [OF False] unat_lt [of start]
      by (simp add: InodeParts_step [of start sz] part_count_small chained_parts_def)
  next
    case True
    let ?r = "sz - 4294965248"
    have big: "MaxPartSize < unat sz" using True by (simp add: word_less_nat_alt MaxPartSize_def)
    have r: "unat ?r = unat sz - MaxPartSize"
      using part_sub(1) [OF True] by (simp add: MaxPartSize_def)
    have c: "part_count (unat sz) = Suc (part_count (unat ?r))"
      unfolding r by (rule part_count_step [OF big])
    obtain k where k: "part_count (unat ?r) = Suc k" using part_count_pos [of "unat ?r"] gr0_conv_Suc by blast
    show ?thesis
    proof (cases "start + 2097151 \<le> start")
      case True
      then have "2 ^ 32 \<le> unat start + 2097151" using next_lba(1) by blast
      then show ?thesis using \<open>sz > 4294965248\<close> True by (simp add: InodeParts_step [of start sz] c k)
    next
      case False
      note lba = next_lba(2) [OF False]
      have IH: "case InodeParts (start + 2097151) ?r of
         Inl e \<Rightarrow> e = Panic ''overflow'' \<and> 2 ^ 32 \<le> unat start + 2097151 + k * 2097151
       | Inr ps \<Rightarrow> length ps = Suc k \<and> chained_parts (start + 2097151) ps \<and>
           sum_list (map (unat \<circ> part_size) ps) = unat sz - MaxPartSize \<and>
           unat start + 2097151 + k * 2097151 < 2 ^ 32"
        using less [of ?r "start + 2097151"] big unfolding r [symmetric] lba k diff_Suc_1
        by (simp add: r MaxPartSize_def)
      show ?thesis
      proof (cases "InodeParts (start + 2097151) ?r")
        case (Inl e)
        then show ?thesis using IH \<open>sz > 4294965248\<close> False by (simp add: InodeParts_step [of start sz] c k)
      next
        case (Inr ps)
        let ?p = "\<lparr>part_start = start, part_size = 4294965248\<rparr>"
        have ps: "length ps = Suc k" "chained_parts (start + 2097151) ps"
          "sum_list (map (unat \<circ> part_size) ps) = unat sz - MaxPartSize"
          "unat start + 2097151 + k * 2097151 < 2 ^ 32"
          using IH by (simp_all add: Inr)
        have "chained_parts start (?p # ps)"
          using ps(1,2) lba by (auto simp: chained_parts_def nth_Cons MaxPartSize_def split: nat.split)
        then show ?thesis
          using ps(1,3,4) \<open>sz > 4294965248\<close> False big
          by (simp add: InodeParts_step [of start sz] Inr c k) (simp add: MaxPartSize_def)
      qed
    qed
  qed
qed

text \<open>
  C24: the parts of a file.  The call panics exactly when the blocks of the parts before the
  last leave no address for it; otherwise the parts follow each other block by block, only
  the last can be shorter than the maximum, and their sizes add up to the file's.
\<close>

theorem InodeParts_exact:
  "case InodeParts start sz of
     Inl e \<Rightarrow> e = Panic ''overflow'' \<and> 2 ^ 32 \<le> unat start + (part_count (unat sz) - 1) * 2097151
   | Inr ps \<Rightarrow> length ps = part_count (unat sz) \<and> chained_parts start ps \<and>
       sum_list (map (unat \<circ> part_size) ps) = unat sz \<and>
       unat start + (part_count (unat sz) - 1) * 2097151 < 2 ^ 32"
  by (rule InodeParts_spec)

section \<open>Nodes\<close>

type_synonym InodeNumber = u32

record Object = AnonymousObject +
  URL :: gostring

record FileInode =
  f_ino :: InodeNumber
  f_perm :: u32
  f_created :: Time
  f_modified :: Time
  f_nlink :: u32
  f_start :: LogicalBlockAddress
  f_o :: Object

type_synonym ref = nat

record SymlinkInode =
  s_ino :: InodeNumber
  s_perm :: u32
  s_created :: Time
  s_modified :: Time
  s_parent :: "ref option"
  s_target :: gostring

record dirEntry =
  de_name :: gostring
  de_child :: ref

record 'm DirectoryInode =
  d_ino :: InodeNumber
  d_perm :: u32
  d_created :: Time
  d_modified :: Time
  d_parent :: "ref option"
  d_start :: LogicalBlockAddress
  d_idAlloc :: IdentifierAllocator
  d_names :: "gostring \<rightharpoonup> gostring"
  d_children :: 'm
  d_size :: u32
  d_nameValidator :: "gostring \<Rightarrow> goerr option"

datatype 'm Inode = FileI FileInode | DirI "'m DirectoryInode" | SymI SymlinkInode

type_synonym 'm heap = "'m Inode list"

section \<open>Inode numbers\<close>

record inodeAllocator =
  ino_next :: InodeNumber
  exhausted :: bool

definition NewInodeAllocator :: inodeAllocator where
  "NewInodeAllocator = \<lparr>ino_next = 1, exhausted = False\<rparr>"

definition inodeAllocator_Next :: "inodeAllocator \<Rightarrow> inodeAllocator \<times> (goerr + InodeNumber)" where
  "inodeAllocator_Next ia =
     (if exhausted ia then (ia, Inl (Err ''inodes exhausted''))
      else (\<lparr>ino_next = ino_next ia + 1, exhausted = (ino_next ia + 1 = 0)\<rparr>, Inr (ino_next ia)))"

text \<open>
  The constructors give the node; the caller puts it on the heap.  The permissions are 0444,
  0777 and 0555 in octal.
\<close>

definition NewFileInode :: "inodeAllocator \<Rightarrow> Object \<Rightarrow> inodeAllocator \<times> (goerr + FileInode)" where
  "NewFileInode ia obj =
     (case inodeAllocator_Next ia of
        (ia', Inl e) \<Rightarrow> (ia', Inl e)
      | (ia', Inr num) \<Rightarrow>
          (ia', Inr \<lparr>f_ino = num, f_perm = 292, f_created = epoch, f_modified = epoch,
                     f_nlink = 0, f_start = 0, f_o = obj\<rparr>))"

definition NewSymlinkInode :: "inodeAllocator \<Rightarrow> gostring \<Rightarrow> inodeAllocator \<times> (goerr + SymlinkInode)" where
  "NewSymlinkInode ia target =
     (case inodeAllocator_Next ia of
        (ia', Inl e) \<Rightarrow> (ia', Inl e)
      | (ia', Inr num) \<Rightarrow>
          if length target < 1 then (ia', Inl (Err ''symlink target cannot be empty''))
          else (ia', Inr \<lparr>s_ino = num, s_perm = 511, s_created = epoch, s_modified = epoch,
                          s_parent = None, s_target = target\<rparr>))"

definition NewDirectoryInode ::
  "('m, dirEntry) treemap \<Rightarrow> inodeAllocator \<Rightarrow> (gostring \<Rightarrow> goerr option) \<Rightarrow>
   inodeAllocator \<times> (goerr + 'm DirectoryInode)" where
  "NewDirectoryInode T ia validator =
     (case inodeAllocator_Next ia of
        (ia', Inl e) \<Rightarrow> (ia', Inl e)
      | (ia', Inr num) \<Rightarrow>
          (ia', Inr \<lparr>d_ino = num, d_perm = 365, d_created = epoch, d_modified = epoch,
                     d_parent = None, d_start = 0, d_idAlloc = NewIdentifierAllocator,
                     d_names = Map.empty, d_children = tm_New T, d_size = 0,
                     d_nameValidator = validator\<rparr>))"

section \<open>The interface of a node\<close>

fun Inode_Type :: "'m Inode \<Rightarrow> InodeType" where
  "Inode_Type (FileI f) = InodeTypeFile"
| "Inode_Type (DirI d) = InodeTypeDirectory"
| "Inode_Type (SymI s) = InodeTypeSymlink"

fun Inode_Number :: "'m Inode \<Rightarrow> InodeNumber" where
  "Inode_Number (FileI f) = f_ino f"
| "Inode_Number (DirI d) = d_ino d"
| "Inode_Number (SymI s) = s_ino s"

fun Inode_Perm :: "'m Inode \<Rightarrow> u32" where
  "Inode_Perm (FileI f) = f_perm f"
| "Inode_Perm (DirI d) = d_perm d"
| "Inode_Perm (SymI s) = s_perm s"

fun Inode_Created :: "'m Inode \<Rightarrow> Time" where
  "Inode_Created (FileI f) = f_created f"
| "Inode_Created (DirI d) = d_created d"
| "Inode_Created (SymI s) = s_created s"

fun Inode_Modified :: "'m Inode \<Rightarrow> Time" where
  "Inode_Modified (FileI f) = f_modified f"
| "Inode_Modified (DirI d) = d_modified d"
| "Inode_Modified (SymI s) = s_modified s"

fun Inode_IsRoot :: "'m Inode \<Rightarrow> bool" where
  "Inode_IsRoot (FileI f) = False"
| "Inode_IsRoot (DirI d) = (d_parent d = None)"
| "Inode_IsRoot (SymI s) = False"

fun Inode_SetPerm :: "u32 \<Rightarrow> 'm Inode \<Rightarrow> 'm Inode" where
  "Inode_SetPerm perm (FileI f) = FileI (f\<lparr>f_perm := perm AND 511\<rparr>)"
| "Inode_SetPerm perm (DirI d) = DirI (d\<lparr>d_perm := perm AND 511\<rparr>)"
| "Inode_SetPerm perm (SymI s) = SymI (s\<lparr>s_perm := perm AND 511\<rparr>)"

fun Inode_SetCreated :: "Time \<Rightarrow> 'm Inode \<Rightarrow> 'm Inode" where
  "Inode_SetCreated t (FileI f) = FileI (f\<lparr>f_created := t\<rparr>)"
| "Inode_SetCreated t (DirI d) = DirI (d\<lparr>d_created := t\<rparr>)"
| "Inode_SetCreated t (SymI s) = SymI (s\<lparr>s_created := t\<rparr>)"

fun Inode_SetModified :: "Time \<Rightarrow> 'm Inode \<Rightarrow> 'm Inode" where
  "Inode_SetModified t (FileI f) = FileI (f\<lparr>f_modified := t\<rparr>)"
| "Inode_SetModified t (DirI d) = DirI (d\<lparr>d_modified := t\<rparr>)"
| "Inode_SetModified t (SymI s) = SymI (s\<lparr>s_modified := t\<rparr>)"

text \<open>A directory counts its subdirectories by looking at its children in the heap.\<close>

definition Directory_Nlink :: "('m, dirEntry) treemap \<Rightarrow> 'm heap \<Rightarrow> 'm DirectoryInode \<Rightarrow> u32" where
  "Directory_Nlink T h d =
     2 + of_nat (length (filter (\<lambda>(ident, dent). Inode_Type (h ! de_child dent) = InodeTypeDirectory)
                           (tm_Iterator T (d_children d))))"

fun Inode_Nlink :: "('m, dirEntry) treemap \<Rightarrow> 'm heap \<Rightarrow> 'm Inode \<Rightarrow> u32" where
  "Inode_Nlink T h (FileI f) = f_nlink f"
| "Inode_Nlink T h (DirI d) = Directory_Nlink T h d"
| "Inode_Nlink T h (SymI s) = (if s_parent s = None then 0 else 1)"

fun Inode_Parts :: "'m Inode \<Rightarrow> goerr + InodePart list" where
  "Inode_Parts (FileI f) = InodeParts (f_start f) (of_int (Size (f_o f)))"
| "Inode_Parts (DirI d) = InodeParts (d_start d) (ucast (d_size d))"
| "Inode_Parts (SymI s) = InodeParts 0 0"

fun AdditionalSystemUseEntries :: "(rune \<Rightarrow> bool) \<Rightarrow> 'm Inode \<Rightarrow> goerr + SystemUseEntry list" where
  "AdditionalSystemUseEntries is_print (SymI s) = NewSymlink is_print (s_target s)"
| "AdditionalSystemUseEntries is_print _ = Inr []"

text \<open>\<open>AddParent\<close> on the node at \<open>c\<close>; \<open>p\<close> is the parent.\<close>

fun Inode_AddParent :: "ref \<Rightarrow> ref \<Rightarrow> 'm Inode \<Rightarrow> goerr + 'm Inode" where
  "Inode_AddParent p c (FileI f) = Inr (FileI (f\<lparr>f_nlink := f_nlink f + 1\<rparr>))"
| "Inode_AddParent p c (DirI d) =
     (if d_parent d \<noteq> None then Inl (Panic ''Directories can only have one parent'')
      else Inr (DirI (if c \<noteq> p then d\<lparr>d_parent := Some p\<rparr> else d)))"
| "Inode_AddParent p c (SymI s) =
     (if s_parent s \<noteq> None then Inl (Panic ''Symlinks can only have one parent'')
      else Inr (SymI (s\<lparr>s_parent := Some p\<rparr>)))"

section \<open>System Use entries of a node\<close>

definition S_IFREG :: u32 where "S_IFREG = 0x8000"
definition S_IFDIR :: u32 where "S_IFDIR = 0x4000"
definition S_IFLNK :: u32 where "S_IFLNK = 0xA000"

definition Inode_mode :: "'m Inode \<Rightarrow> u32" where
  "Inode_mode i = Inode_Perm i OR
     (case Inode_Type i of InodeTypeFile \<Rightarrow> S_IFREG | InodeTypeDirectory \<Rightarrow> S_IFDIR | InodeTypeSymlink \<Rightarrow> S_IFLNK)"

text \<open>
  The two extension references are initialised with the package, which panics when it cannot
  make them.
\<close>

definition extension_references :: "goerr + SystemUseEntry list" where
  "extension_references =
     (case ExtensionsReferenceLegacy of
        Inl e \<Rightarrow> Inl e
      | Inr legacy \<Rightarrow> (case ExtensionsReference of Inl e \<Rightarrow> Inl e | Inr er \<Rightarrow> Inr [legacy, er]))"

definition InodeSystemUseEntries ::
  "(rune \<Rightarrow> bool) \<Rightarrow> ('m, dirEntry) treemap \<Rightarrow> 'm heap \<Rightarrow> gostring \<Rightarrow> gostring \<Rightarrow> 'm Inode \<Rightarrow>
   goerr + SystemUseEntry list" where
  "InodeSystemUseEntries is_print T h identifier name inode =
     (let sp = (if Inode_IsRoot inode \<and> identifier = [0] then [NewSharingProtocolEntry 0] else [])
      in case (if Inode_Type inode = InodeTypeDirectory then extension_references else Inr []) of
           Inl e \<Rightarrow> Inl e
         | Inr ers \<Rightarrow>
             (case NewName is_print name of
                Inl e \<Rightarrow> Inl e
              | Inr nms \<Rightarrow>
                  let px = PX \<lparr>Mode = Inode_mode inode, Nlink = Inode_Nlink T h inode, Uid = 0, Gid = 0,
                               Ino = Inode_Number inode\<rparr>;
                      tf = TF \<lparr>tf_Created = Some (Inode_Created inode), tf_Modified = Some (Inode_Modified inode),
                               tf_Access = None, tf_Attributes = None, tf_Backup = None, tf_Expiration = None,
                               tf_Effective = None, LongForm = False\<rparr>
                  in (case AdditionalSystemUseEntries is_print inode of
                        Inl e \<Rightarrow> Inl e
                      | Inr additional \<Rightarrow> Inr (sp @ ers @ nms @ [px, tf] @ additional))))"

end
