(* ===== verification/DirInode.thy ===== *)
theory DirInode
  imports Inode Pvd
begin

text \<open>
  \<open>directoryinode.go\<close>: adding children, the two walks over the tree, and turning a
  directory node into the records of its extent and their continuation area.
\<close>

section \<open>Children\<close>

text \<open>The receiver of a method of \<open>*DirectoryInode\<close>: the static type says what it points to.\<close>

fun the_dir :: "'m Inode \<Rightarrow> 'm DirectoryInode" where
  "the_dir (DirI d) = d"

definition add_child_error :: "goerr \<Rightarrow> goerr" where
  "add_child_error e = Err (''AddChild: '' @ (case e of Err s \<Rightarrow> s | _ \<Rightarrow> []))"

definition DirectoryInode_AddChild ::
  "('m, dirEntry) treemap \<Rightarrow> 'm heap \<Rightarrow> ref \<Rightarrow> gostring \<Rightarrow> ref \<Rightarrow> goerr + 'm heap" where
  "DirectoryInode_AddChild T h p name c =
     (let d = the_dir (h ! p)
      in if length name < 1 then Inl (Err ''Inode names may not be empty'')
         else (case d_nameValidator d name of
           Some e \<Rightarrow> Inl (add_child_error e)
         | None \<Rightarrow>
             if name = dot \<or> name = dotdot then Inl (Err ''Inode names '.' and '..' are reserved'')
             else if d_names d name \<noteq> None then Inl (Err ''Directory entry collision'')
             else
               let (ia', next) = IdentifierAllocator_Next (d_idAlloc d);
                   ident = (if Inode_Type (h ! c) \<noteq> InodeTypeDirectory then next @ bytes_of '';1'' else next);
                   d' = d\<lparr>d_idAlloc := ia', d_names := (d_names d)(name \<mapsto> ident),
                          d_children := tm_Put T ident \<lparr>de_name = name, de_child = c\<rparr> (d_children d)\<rparr>;
                   h' = h[p := DirI d']
               in (case Inode_AddParent p c (h' ! c) of
                     Inl e \<Rightarrow> Inl e
                   | Inr i \<Rightarrow> Inr (h'[c := i]))))"

definition DirectoryInode_GetChild ::
  "('m, dirEntry) treemap \<Rightarrow> 'm heap \<Rightarrow> ref \<Rightarrow> gostring \<Rightarrow> ref option" where
  "DirectoryInode_GetChild T h p name =
     (let d = the_dir (h ! p)
      in case d_names d name of
           None \<Rightarrow> None
         | Some ident \<Rightarrow> (case tm_Get T ident (d_children d) of
                            None \<Rightarrow> None
                          | Some dent \<Rightarrow> Some (de_child dent)))"

section \<open>The walks\<close>

record Relationship =
  rel_Parent :: ref
  rel_Identifier :: gostring
  rel_Name :: gostring
  rel_Child :: ref

text \<open>
  A visitor is a closure that changes the state it captured; \<open>heap_of\<close> finds the heap in that
  state.  It ends with the error it returns or the panic it raises; \<open>None\<close> is a visit that
  never returns.
\<close>

type_synonym 's visitor = "Relationship \<Rightarrow> 's \<Rightarrow> ('s \<times> goerr option) option"

definition entry_rel :: "ref \<Rightarrow> gostring \<times> dirEntry \<Rightarrow> Relationship" where
  "entry_rel p e = \<lparr>rel_Parent = p, rel_Identifier = fst e, rel_Name = de_name (snd e), rel_Child = de_child (snd e)\<rparr>"

definition child_entries :: "('m, dirEntry) treemap \<Rightarrow> 'm heap \<Rightarrow> ref \<Rightarrow> (gostring \<times> dirEntry) list" where
  "child_entries T h p = tm_Iterator T (d_children (the_dir (h ! p)))"

definition subdirectories :: "('m, dirEntry) treemap \<Rightarrow> 'm heap \<Rightarrow> ref \<Rightarrow> Relationship list" where
  "subdirectories T h p =
     map (entry_rel p) (filter (\<lambda>e. Inode_Type (h ! de_child (snd e)) = InodeTypeDirectory) (child_entries T h p))"

partial_function (option) visit_directories_loop ::
  "('m, dirEntry) treemap \<Rightarrow> ('q, Relationship) queue \<Rightarrow> ('s \<Rightarrow> 'm heap) \<Rightarrow> 's visitor \<Rightarrow>
   'q \<Rightarrow> 's \<Rightarrow> ('s \<times> goerr option) option" where
  "visit_directories_loop T Q heap_of visit q s =
     (if 0 < q_Len Q q then
        let rel = fst (q_Dequeue Q q); q' = snd (q_Dequeue Q q)
        in Option.bind (visit rel s) (\<lambda>r.
             if snd r \<noteq> None then Some r
             else if Inode_Type (heap_of (fst r) ! rel_Child rel) \<noteq> InodeTypeDirectory
             then Some (fst r, Some (Panic ''interface conversion''))
             else visit_directories_loop T Q heap_of visit
                    (enqueue_all Q (subdirectories T (heap_of (fst r)) (rel_Child rel)) q') (fst r))
      else Some (s, None))"

definition VisitDirectories ::
  "('m, dirEntry) treemap \<Rightarrow> ('q, Relationship) queue \<Rightarrow> ('s \<Rightarrow> 'm heap) \<Rightarrow> 's visitor \<Rightarrow>
   ref \<Rightarrow> 's \<Rightarrow> ('s \<times> goerr option) option" where
  "VisitDirectories T Q heap_of visit d s =
     visit_directories_loop T Q heap_of visit
       (q_Enqueue Q \<lparr>rel_Parent = d, rel_Identifier = [0], rel_Name = dot, rel_Child = d\<rparr> (q_New Q)) s"

text \<open>
  The loop over the children in \<open>VisitFiles\<close>.  The visitor's error is dropped, as in the
  code; a panic is not.
\<close>

fun is_panic :: "goerr option \<Rightarrow> bool" where
  "is_panic (Some (Panic m)) = True"
| "is_panic e = False"

fun visit_entries ::
  "('q, ref) queue \<Rightarrow> ('s \<Rightarrow> 'm heap) \<Rightarrow> 's visitor \<Rightarrow> ref \<Rightarrow> (gostring \<times> dirEntry) list \<Rightarrow>
   'q \<Rightarrow> 's \<Rightarrow> ('q \<times> 's \<times> goerr option) option" where
  "visit_entries Q heap_of visit p [] q s = Some (q, s, None)"
| "visit_entries Q heap_of visit p (e # es) q s =
     (case Inode_Type (heap_of s ! de_child (snd e)) of
        InodeTypeDirectory \<Rightarrow> visit_entries Q heap_of visit p es (q_Enqueue Q (de_child (snd e)) q) s
      | InodeTypeFile \<Rightarrow>
          Option.bind (visit (entry_rel p e) s) (\<lambda>(s', err).
            if is_panic err then Some (q, s', err) else visit_entries Q heap_of visit p es q s')
      | InodeTypeSymlink \<Rightarrow> visit_entries Q heap_of visit p es q s)"

partial_function (option) visit_files_loop ::
  "('m, dirEntry) treemap \<Rightarrow> ('q, ref) queue \<Rightarrow> ('s \<Rightarrow> 'm heap) \<Rightarrow> 's visitor \<Rightarrow>
   'q \<Rightarrow> 's \<Rightarrow> ('s \<times> goerr option) option" where
  "visit_files_loop T Q heap_of visit q s =
     (if 0 < q_Len Q q then
        let p = fst (q_Dequeue Q q)
        in Option.bind (visit_entries Q heap_of visit p (child_entries T (heap_of s) p) (snd (q_Dequeue Q q)) s)
             (\<lambda>r. if snd (snd r) \<noteq> None then Some (snd r)
                  else visit_files_loop T Q heap_of visit (fst r) (fst (snd r)))
      else Some (s, None))"

definition VisitFiles ::
  "('m, dirEntry) treemap \<Rightarrow> ('q, ref) queue \<Rightarrow> ('s \<Rightarrow> 'm heap) \<Rightarrow> 's visitor \<Rightarrow>
   ref \<Rightarrow> 's \<Rightarrow> ('s \<times> goerr option) option" where
  "VisitFiles T Q heap_of visit d s = visit_files_loop T Q heap_of visit (q_Enqueue Q d (q_New Q)) s"

section \<open>Directory extents\<close>

text \<open>
  The inner loop of \<open>splitInode\<close>: entries are popped off the record's end until it fits; with
  nothing left to pop the index is out of range.
\<close>

function pop_overflow :: "SystemUseEntry list \<Rightarrow> SystemUseEntry list \<Rightarrow> int \<Rightarrow> int
    \<Rightarrow> goerr + SystemUseEntry list \<times> SystemUseEntry list" where
  "pop_overflow use overflow baseLen extraLen =
     (if baseLen + extraLen > int MaxDirectoryRecordLen then
        if use = [] then Inl (Panic ''index out of range'')
        else pop_overflow (butlast use) (last use # overflow) (baseLen - int (Entry_Len (last use)))
               ContinuationAreaEntryLength
      else Inr (use, overflow))"
  by pat_completeness auto
termination
  by (relation "measure (\<lambda>(u, v, b, e). length u)") auto

declare pop_overflow.simps [simp del]

definition part_record :: "gostring \<Rightarrow> 'm Inode \<Rightarrow> InodePart \<Rightarrow> bool \<Rightarrow> SystemUseEntry list \<Rightarrow> DirectoryRecord" where
  "part_record identifier inode part later use =
     \<lparr>Identifier = identifier, Start = part_start part, Length = part_size part,
      Flags = (if Inode_Type inode = InodeTypeDirectory then FileFlagDir else 0) OR
              (if later then FileFlagNonTerminal else 0),
      Recorded = Inode_Modified inode, SystemUse = use, ExtendedAttrRecordLength = 0, FileUnitSize = 0,
      InterleaveGap = 0, VolumeID = 1\<rparr>"

text \<open>
  The loop over the parts of a node.  All the records' slices share the one array \<open>arr\<close> of
  entries, and appending the CE writes into it; a record is kept as the length of its slice
  until the array has its last value.  \<open>None\<close> is a call of \<open>Append\<close> that does not return.
\<close>

definition store_overflow ::
  "SystemUseEntry list \<Rightarrow> SystemUseEntry list \<Rightarrow> SystemUseEntry list \<Rightarrow> ContinuationArea \<Rightarrow>
   (nat \<times> SystemUseEntry list \<times> ContinuationArea) option" where
  "store_overflow use overflow arr ca =
     (if 0 < length overflow then
        Option.bind (ContinuationArea_Append ca overflow) (\<lambda>(ca', ce).
          case ce of
            None \<Rightarrow> None
          | Some ce' \<Rightarrow> Some (Suc (length use), arr[length use := CE ce'], ca'))
      else Some (length use, arr, ca))"

fun split_parts ::
  "gostring \<Rightarrow> 'm Inode \<Rightarrow> InodePart list \<Rightarrow> SystemUseEntry list \<Rightarrow> ContinuationArea \<Rightarrow>
   (goerr + nat list \<times> SystemUseEntry list \<times> ContinuationArea) option" where
  "split_parts identifier inode [] arr ca = Some (Inr ([], arr, ca))"
| "split_parts identifier inode (part # parts) arr ca =
     (case pop_overflow arr [] (int (DirectoryRecord_Len (part_record identifier inode part (parts \<noteq> []) arr))) 0 of
        Inl e \<Rightarrow> Some (Inl e)
      | Inr (use, overflow) \<Rightarrow>
          Option.bind (store_overflow use overflow arr ca) (\<lambda>(len, arr', ca').
            map_option (map_sum id (\<lambda>(lens, arr'', ca''). (len # lens, arr'', ca'')))
              (split_parts identifier inode parts arr' ca')))"

lemma split_parts_Cons:
  "split_parts identifier inode (part # parts) arr ca = Some (Inr (lens, arr2, ca2)) \<longleftrightarrow>
    (\<exists>use overflow len arr1 ca1 lens'.
       pop_overflow arr [] (int (DirectoryRecord_Len (part_record identifier inode part (parts \<noteq> []) arr))) 0
         = Inr (use, overflow) \<and>
       store_overflow use overflow arr ca = Some (len, arr1, ca1) \<and>
       split_parts identifier inode parts arr1 ca1 = Some (Inr (lens', arr2, ca2)) \<and> lens = len # lens')"
proof -
  have m: "map_sum id f z = Inr y \<longleftrightarrow> (\<exists>w. z = Inr w \<and> f w = y)"
    for f :: "nat list \<times> SystemUseEntry list \<times> ContinuationArea \<Rightarrow> _" and z :: "goerr + _" and y :: "nat list \<times> SystemUseEntry list \<times> ContinuationArea"
    by (cases z) auto
  show ?thesis by (auto simp: m split: sum.splits bind_splits)
qed

fun part_records :: "gostring \<Rightarrow> 'm Inode \<Rightarrow> InodePart list \<Rightarrow> nat list \<Rightarrow> SystemUseEntry list \<Rightarrow> DirectoryRecord list" where
  "part_records identifier inode (part # parts) (len # lens) arr =
     part_record identifier inode part (parts \<noteq> []) (take len arr) # part_records identifier inode parts lens arr"
| "part_records identifier inode _ _ arr = []"

definition splitInode ::
  "(rune \<Rightarrow> bool) \<Rightarrow> ('m, dirEntry) treemap \<Rightarrow> 'm heap \<Rightarrow> gostring \<Rightarrow> gostring \<Rightarrow> 'm Inode \<Rightarrow> ContinuationArea \<Rightarrow>
   (goerr + DirectoryRecord list \<times> ContinuationArea) option" where
  "splitInode is_print T h identifier name inode ca =
     (case InodeSystemUseEntries is_print T h identifier name inode of
        Inl e \<Rightarrow> Some (Inl e)
      | Inr entries \<Rightarrow>
          (case Inode_Parts inode of
             Inl e \<Rightarrow> Some (Inl e)
           | Inr parts \<Rightarrow>
               map_option (map_sum id (\<lambda>(lens, arr, ca'). (part_records identifier inode parts lens arr, ca')))
                 (split_parts identifier inode parts entries ca)))"

text \<open>The calls of \<open>splitInode\<close>, one after the other, with the records they append.\<close>

fun split_all ::
  "(rune \<Rightarrow> bool) \<Rightarrow> ('m, dirEntry) treemap \<Rightarrow> 'm heap \<Rightarrow> (gostring \<times> gostring \<times> 'm Inode) list \<Rightarrow> ContinuationArea \<Rightarrow>
   (goerr + DirectoryRecord list \<times> ContinuationArea) option" where
  "split_all is_print T h [] ca = Some (Inr ([], ca))"
| "split_all is_print T h ((identifier, name, inode) # xs) ca =
     Option.bind (splitInode is_print T h identifier name inode ca) (\<lambda>r.
       case r of
         Inl e \<Rightarrow> Some (Inl e)
       | Inr (recs, ca') \<Rightarrow>
           map_option (map_sum id (\<lambda>(recs', ca''). (recs @ recs', ca''))) (split_all is_print T h xs ca'))"

definition directory_members :: "('m, dirEntry) treemap \<Rightarrow> 'm heap \<Rightarrow> ref \<Rightarrow> (gostring \<times> gostring \<times> 'm Inode) list" where
  "directory_members T h p =
     ([0], dot, h ! p) # ([1], dotdot, h ! (case d_parent (the_dir (h ! p)) of None \<Rightarrow> p | Some q \<Rightarrow> q)) #
     map (\<lambda>(ident, dent). (ident, de_name dent, h ! de_child dent)) (child_entries T h p)"

definition toDirectory ::
  "(rune \<Rightarrow> bool) \<Rightarrow> ('m, dirEntry) treemap \<Rightarrow> 'm heap \<Rightarrow> ref \<Rightarrow> LogicalBlockAddress \<Rightarrow>
   (goerr + Directory \<times> ContinuationArea) option" where
  "toDirectory is_print T h p contStart =
     map_option (map_sum id (\<lambda>(recs, ca). (\<lparr>Records = recs\<rparr>, ca)))
       (split_all is_print T h (directory_members T h p) (NewContinuationArea contStart))"

definition ToDirectory ::
  "(rune \<Rightarrow> bool) \<Rightarrow> ('m, dirEntry) treemap \<Rightarrow> 'm heap \<Rightarrow> ref \<Rightarrow> (goerr + Directory \<times> ContinuationArea) option" where
  "ToDirectory is_print T h p =
     (case Inode_Parts (h ! p) of
        Inl e \<Rightarrow> Some (Inl e)
      | Inr parts \<Rightarrow>
          let sectors = bytesToSectors (part_size (hd parts))
          in toDirectory is_print T h p (d_start (the_dir (h ! p)) + sectors))"

section \<open>The path table\<close>

record path_state =
  ps_idx :: u16
  ps_indices :: "ref \<rightharpoonup> u16"
  ps_table :: "PathTableRecord list"

definition path_visitor :: "'m heap \<Rightarrow> path_state visitor" where
  "path_visitor h rel ps =
     (let indices = (ps_indices ps)(rel_Child rel \<mapsto> ps_idx ps)
      in case indices (rel_Parent rel) of
           None \<Rightarrow> Some (ps, Some (Panic ''never''))
         | Some parentIdx \<Rightarrow>
             Some (\<lparr>ps_idx = ps_idx ps + 1, ps_indices = indices,
               ps_table = ps_table ps @
                 [\<lparr>pt_Identifier = rel_Identifier rel, pt_ExtendedAttributeRecordLength = 0,
                   pt_Location = d_start (the_dir (h ! rel_Child rel)), pt_ParentIndex = parentIdx\<rparr>]\<rparr>, None))"

definition ToPathTable ::
  "('m, dirEntry) treemap \<Rightarrow> ('q, Relationship) queue \<Rightarrow> 'm heap \<Rightarrow> ref \<Rightarrow> (goerr + PathTable) option" where
  "ToPathTable T Q h d =
     map_option (\<lambda>(ps, err). case err of Some (Panic m) \<Rightarrow> Inl (Panic m) | _ \<Rightarrow> Inr \<lparr>pt_Records = ps_table ps\<rparr>)
       (VisitDirectories T Q (\<lambda>s. h) (path_visitor h) d \<lparr>ps_idx = 0, ps_indices = Map.empty, ps_table = []\<rparr>)"

section \<open>Well-formed trees\<close>

text \<open>The identifier of the \<open>k\<close>th entry of a directory.\<close>

definition entry_ident :: "nat \<Rightarrow> InodeType \<Rightarrow> gostring" where
  "entry_ident k ty = base32_Encode (PutUvarint k) @ (if ty \<noteq> InodeTypeDirectory then bytes_of '';1'' else [])"

lemma base32_length: "length (base32_Encode xs) mod 8 = 0"
proof (induction "length xs" arbitrary: xs rule: less_induct)
  case less
  show ?case
  proof (cases "xs = []")
    case False
    then have "length (base32_Encode (drop 5 xs)) mod 8 = 0" by (intro less) simp
    then show ?thesis
      using base32_step [OF False] length_encode_quantum [of "blocks_used (length xs)" "quantum xs"]
      by (simp add: mod_add_left_eq [symmetric] del: base32_Encode.simps)
  qed simp
qed

lemma entry_ident_inj: "entry_ident k ty = entry_ident k' ty' \<Longrightarrow> k = k'"
proof -
  assume e: "entry_ident k ty = entry_ident k' ty'"
  let ?b = "\<lambda>k. base32_Encode (PutUvarint k)" and ?s = "\<lambda>ty. if ty \<noteq> InodeTypeDirectory then bytes_of '';1'' else []"
  have m: "length (?b n) mod 8 = 0" for n by (rule base32_length)
  have "length (?s ty) = length (?s ty')"
  proof -
    have "length (entry_ident n t) mod 8 = length (?s t)" for n t
      unfolding entry_ident_def length_append using m [of n]
      by (subst mod_add_left_eq [symmetric]) simp
    then show ?thesis using e by metis
  qed
  then have "?b k = ?b k'" using e by (simp add: entry_ident_def append_eq_append_conv)
  then show "k = k'" using base32_Encode_inj PutUvarint_inj by blast
qed

text \<open>
  A directory at \<open>p\<close>: its two maps agree, its entries have names and carry the identifiers handed
  out so far, and its children are nodes of the heap that know their parent; a subdirectory stands
  behind its parent in the heap.
\<close>

fun child_of :: "ref \<Rightarrow> ref \<Rightarrow> 'm Inode \<Rightarrow> bool" where
  "child_of p c (FileI f) = (f_nlink f = 1)"
| "child_of p c (DirI d) = (d_parent d = Some p \<and> p < c)"
| "child_of p c (SymI s) = (s_parent s = Some p)"

fun orphan :: "'m Inode \<Rightarrow> bool" where
  "orphan (FileI f) = (f_nlink f = 0)"
| "orphan (DirI d) = (d_parent d = None)"
| "orphan (SymI s) = (s_parent s = None)"

definition dir_ok :: "('m, dirEntry) treemap \<Rightarrow> 'm heap \<Rightarrow> ref \<Rightarrow> 'm DirectoryInode \<Rightarrow> bool" where
  "dir_ok T h p d \<longleftrightarrow>
     (let es = tm_Iterator T (d_children d)
      in distinct (map fst es) \<and> distinct (map (de_child \<circ> snd) es) \<and>
         length es = unat (ia_count (d_idAlloc d)) \<and>
         (\<forall>name ident. d_names d name = Some ident \<longleftrightarrow> (\<exists>c. (ident, \<lparr>de_name = name, de_child = c\<rparr>) \<in> set es)) \<and>
         (\<forall>e \<in> set es. de_child (snd e) < length h \<and> child_of p (de_child (snd e)) (h ! de_child (snd e)) \<and>
            (\<exists>k < length es. fst e = entry_ident k (Inode_Type (h ! de_child (snd e)))) \<and> de_name (snd e) \<noteq> []) \<and>
         unat (d_size d) \<le> MaxPartSize)"

definition heap_ok :: "('m, dirEntry) treemap \<Rightarrow> 'm heap \<Rightarrow> bool" where
  "heap_ok T h \<longleftrightarrow> length h < 2 ^ 32 \<and> distinct (map Inode_Number h) \<and>
     (\<forall>p d. p < length h \<longrightarrow> h ! p = DirI d \<longrightarrow> dir_ok T h p d)"

lemma dir_okD:
  assumes "dir_ok T h p d" "e \<in> set (tm_Iterator T (d_children d))"
  shows "de_child (snd e) < length h" "child_of p (de_child (snd e)) (h ! de_child (snd e))"
    "\<exists>k < length (tm_Iterator T (d_children d)). fst e = entry_ident k (Inode_Type (h ! de_child (snd e)))"
    "de_name (snd e) \<noteq> []"
  using assms unfolding dir_ok_def Let_def by blast+

lemma dir_ok_count:
  assumes "dir_ok T h p d"
  shows "length (tm_Iterator T (d_children d)) \<le> length h"
proof -
  let ?cs = "map (de_child \<circ> snd) (tm_Iterator T (d_children d))"
  have "set ?cs \<subseteq> {..<length h}" "distinct ?cs"
    using assms by (auto simp: dir_ok_def Let_def)
  then have "card (set ?cs) \<le> length h" using card_mono [of "{..<length h}" "set ?cs"] by simp
  then show ?thesis using \<open>distinct ?cs\<close> distinct_card [of ?cs] by simp
qed

text \<open>A directory is not touched by changes to nodes that are none of its children.\<close>

lemma dir_ok_frame:
  assumes "dir_ok T h p d" "length h \<le> length h'"
    and "\<And>c. c \<in> (de_child \<circ> snd) ` set (tm_Iterator T (d_children d)) \<Longrightarrow>
       Inode_Type (h' ! c) = Inode_Type (h ! c) \<and> (child_of p c (h ! c) \<longrightarrow> child_of p c (h' ! c))"
  shows "dir_ok T h' p d"
  using assms unfolding dir_ok_def Let_def by (auto 0 3 intro: order.strict_trans2)

text \<open>\<open>AddChild\<close> succeeds exactly when the name is free and valid; then it is a new entry.\<close>

definition name_ok :: "'m DirectoryInode \<Rightarrow> gostring \<Rightarrow> bool" where
  "name_ok d name \<longleftrightarrow> name \<noteq> [] \<and> d_nameValidator d name = None \<and> name \<noteq> dot \<and> name \<noteq> dotdot \<and> d_names d name = None"

definition add_entry :: "('m, dirEntry) treemap \<Rightarrow> 'm heap \<Rightarrow> 'm DirectoryInode \<Rightarrow> gostring \<Rightarrow> ref \<Rightarrow> 'm DirectoryInode" where
  "add_entry T h d name c =
     (let ident = entry_ident (unat (ia_count (d_idAlloc d))) (Inode_Type (h ! c))
      in d\<lparr>d_idAlloc := (d_idAlloc d)\<lparr>ia_count := ia_count (d_idAlloc d) + 1\<rparr>, d_names := (d_names d)(name \<mapsto> ident),
           d_children := tm_Put T ident \<lparr>de_name = name, de_child = c\<rparr> (d_children d)\<rparr>)"

fun adopt :: "ref \<Rightarrow> 'm Inode \<Rightarrow> 'm Inode" where
  "adopt p (FileI f) = FileI (f\<lparr>f_nlink := f_nlink f + 1\<rparr>)"
| "adopt p (DirI d) = DirI (d\<lparr>d_parent := Some p\<rparr>)"
| "adopt p (SymI s) = SymI (s\<lparr>s_parent := Some p\<rparr>)"

lemma adopt_orphan:
  "orphan i \<Longrightarrow> p \<noteq> c \<Longrightarrow> Inode_AddParent p c i = Inr (adopt p i)"
  "Inode_Type (adopt p i) = Inode_Type i" "Inode_Number (adopt p i) = Inode_Number i"
  "orphan i \<Longrightarrow> (Inode_Type i = InodeTypeDirectory \<longrightarrow> p < c) \<Longrightarrow> child_of p c (adopt p i)"
  by (cases i; simp)+

definition refusal :: "'m DirectoryInode \<Rightarrow> gostring \<Rightarrow> goerr" where
  "refusal d name =
     (if name = [] then Err ''Inode names may not be empty''
      else case d_nameValidator d name of
        Some e \<Rightarrow> add_child_error e
      | None \<Rightarrow> if name = dot \<or> name = dotdot then Err ''Inode names '.' and '..' are reserved''
                else Err ''Directory entry collision'')"

lemma AddChild_eq:
  assumes "h ! p = DirI d" "p < length h" "p \<noteq> c" "orphan (h ! c)"
  shows "DirectoryInode_AddChild T h p name c =
     (if name_ok d name then Inr (h[p := DirI (add_entry T h d name c), c := adopt p (h ! c)])
      else Inl (refusal d name))"
  using assms adopt_orphan(1) [OF assms(4,3)]
  by (auto simp: DirectoryInode_AddChild_def name_ok_def add_entry_def entry_ident_def IdentifierAllocator_Next_def
      refusal_def Let_def split: option.splits)

lemma the_dir_DirI: "Inode_Type i = InodeTypeDirectory \<Longrightarrow> i = DirI (the_dir i)"
  by (cases i) simp_all

lemma fresh_ident:
  assumes "dir_ok T h p d" "length h < 2 ^ 64"
  shows "entry_ident (unat (ia_count (d_idAlloc d))) ty \<notin> fst ` set (tm_Iterator T (d_children d))"
proof
  assume "entry_ident (unat (ia_count (d_idAlloc d))) ty \<in> fst ` set (tm_Iterator T (d_children d))"
  then obtain e where e: "e \<in> set (tm_Iterator T (d_children d))"
    "fst e = entry_ident (unat (ia_count (d_idAlloc d))) ty" by force
  obtain k where "k < length (tm_Iterator T (d_children d))" "fst e = entry_ident k (Inode_Type (h ! de_child (snd e)))"
    using dir_okD(3) [OF assms(1) e(1)] by blast
  moreover have "length (tm_Iterator T (d_children d)) = unat (ia_count (d_idAlloc d))"
    using assms(1) by (simp add: dir_ok_def Let_def)
  ultimately show False using e(2) entry_ident_inj by (metis less_irrefl)
qed

text \<open>The parent after the new entry was added.\<close>

lemma dir_ok_add_entry:
  assumes T: "treemap_laws T" and d: "dir_ok T h p d" and len: "length h < 2 ^ 32"
    and c: "c < length h" "p \<noteq> c" "orphan (h ! c)" "Inode_Type (h ! c) = InodeTypeDirectory \<longrightarrow> p < c"
    and name: "name_ok d name" and p: "p < length h" and hp: "h ! p = DirI d"
  shows "dir_ok T (h[p := DirI (add_entry T h d name c), c := adopt p (h ! c)]) p (add_entry T h d name c)"
proof -
  let ?es = "tm_Iterator T (d_children d)" and ?d = "add_entry T h d name c"
  let ?ident = "entry_ident (unat (ia_count (d_idAlloc d))) (Inode_Type (h ! c))"
  let ?new = "(?ident, \<lparr>de_name = name, de_child = c\<rparr>)"
  let ?h = "h[p := DirI ?d, c := adopt p (h ! c)]"
  have len64: "length h < 2 ^ 64" using len by simp
  note fresh = fresh_ident [OF d len64, of "Inode_Type (h ! c)"]
  have es': "set (tm_Iterator T (d_children ?d)) = insert ?new (set ?es)"
    using treemap_Put_set [OF T fresh] by (simp add: add_entry_def Let_def)
  have len': "length (tm_Iterator T (d_children ?d)) = Suc (length ?es)"
    using treemap_Put_length [OF T fresh] by (simp add: add_entry_def Let_def)
  have count: "length ?es = unat (ia_count (d_idAlloc d))" using d by (simp add: dir_ok_def Let_def)
  moreover have "length ?es < 2 ^ 64 - 1" using dir_ok_count [OF d] len by simp
  ultimately have count': "unat (ia_count (d_idAlloc d) + 1) = Suc (length ?es)"
    by (simp add: unat_word_ariths)
  have old: "de_child (snd e) \<noteq> c \<and> de_child (snd e) \<noteq> p" if "e \<in> set ?es" for e
    using dir_okD(2) [OF d that] c(3) hp by (cases "h ! de_child (snd e)") auto
  have distinct: "distinct (map fst (tm_Iterator T (d_children ?d)))"
    using treemap_Put_distinct [OF T, of "d_children d"] d by (simp add: add_entry_def Let_def dir_ok_def)
  have "set (map (de_child \<circ> snd) (tm_Iterator T (d_children ?d))) = insert c (set (map (de_child \<circ> snd) ?es))"
    using es' by auto
  moreover have "card \<dots> = Suc (length ?es)"
  proof -
    have "c \<notin> set (map (de_child \<circ> snd) ?es)" using old by force
    moreover have "distinct (map (de_child \<circ> snd) ?es)" using d by (simp add: dir_ok_def Let_def)
    ultimately show ?thesis
      by (metis card_insert_disjoint finite_set distinct_card length_map)
  qed
  ultimately have children: "distinct (map (de_child \<circ> snd) (tm_Iterator T (d_children ?d)))"
    by (intro card_distinct) (simp add: len')
  have names: "d_names ?d nm = Some ident \<longleftrightarrow> (\<exists>c. (ident, \<lparr>de_name = nm, de_child = c\<rparr>) \<in> set (tm_Iterator T (d_children ?d)))" for nm ident
  proof -
    have n: "d_names d nm = Some ident \<longleftrightarrow> (\<exists>c. (ident, \<lparr>de_name = nm, de_child = c\<rparr>) \<in> set ?es)" for nm ident
      using d by (simp add: dir_ok_def Let_def)
    have "d_names d name = None" using name by (simp add: name_ok_def)
    then have "(ident, \<lparr>de_name = name, de_child = c'\<rparr>) \<notin> set ?es" for ident c' using n by (metis option.distinct(1))
    then show ?thesis unfolding es' by (auto simp: add_entry_def Let_def n)
  qed
  have child: "de_child (snd e) < length ?h \<and> child_of p (de_child (snd e)) (?h ! de_child (snd e)) \<and>
     (\<exists>k < Suc (length ?es). fst e = entry_ident k (Inode_Type (?h ! de_child (snd e)))) \<and> de_name (snd e) \<noteq> []"
    if e: "e \<in> insert ?new (set ?es)" for e
  proof (cases "e = ?new")
    case True
    then show ?thesis using c adopt_orphan(4) [OF c(3,4)] count name by (auto simp: adopt_orphan(2) name_ok_def)
  next
    case False
    then show ?thesis using e dir_okD [OF d, of e] old [of e] by (auto intro: less_SucI)
  qed
  have "unat (ia_count (d_idAlloc ?d)) = Suc (length ?es)" "d_size ?d = d_size d"
    using count' by (simp_all add: add_entry_def Let_def)
  then show ?thesis
    using distinct children names child d unfolding dir_ok_def Let_def len' es' by auto
qed

text \<open>\<open>AddChild\<close> keeps the heap well formed.\<close>

lemma heap_ok_AddChild:
  assumes T: "treemap_laws T" and h: "heap_ok T h" and p: "p < length h" "h ! p = DirI d"
    and c: "c < length h" "p \<noteq> c" "orphan (h ! c)" "Inode_Type (h ! c) = InodeTypeDirectory \<longrightarrow> p < c"
    and a: "DirectoryInode_AddChild T h p name c = Inr h'"
  shows "heap_ok T h'" "h' = h[p := DirI (add_entry T h d name c), c := adopt p (h ! c)]" "name_ok d name"
proof -
  have name: "name_ok d name" and h': "h' = h[p := DirI (add_entry T h d name c), c := adopt p (h ! c)]"
    using a AddChild_eq [OF p(2,1) c(2,3)] by (auto split: if_splits)
  then show "name_ok d name" "h' = h[p := DirI (add_entry T h d name c), c := adopt p (h ! c)]" by blast+
  have len: "length h' = length h" by (simp add: h')
  have "map Inode_Number h' = map Inode_Number h"
    unfolding h' by (rule nth_equalityI) (auto simp: nth_list_update adopt_orphan p c add_entry_def Let_def)
  moreover have "dir_ok T h' q e" if q: "q < length h'" "h' ! q = DirI e" for q e
  proof (cases "q = p")
    case True
    have "dir_ok T h p d" using h p by (simp add: heap_ok_def)
    moreover have "e = add_entry T h d name c"
      using q p(1) c(2) by (simp add: h' True)
    ultimately show ?thesis
      using dir_ok_add_entry [OF T _ _ c name p] h by (simp add: True heap_ok_def h')
  next
    case False
    obtain e0 where e0: "h ! q = DirI e0" "d_children e0 = d_children e" "d_idAlloc e0 = d_idAlloc e"
      "d_names e0 = d_names e" "d_size e0 = d_size e"
      using q False len by (cases "q = c"; cases "h ! c") (auto simp: h')
    have ok: "dir_ok T h q e0" using h q e0(1) by (simp add: heap_ok_def h')
    have "dir_ok T h' q e0"
    proof (rule dir_ok_frame [OF ok])
      show "length h \<le> length h'" by (simp add: len)
      fix r assume "r \<in> (de_child \<circ> snd) ` set (tm_Iterator T (d_children e0))"
      then have r: "child_of q r (h ! r)" "r < length h" using dir_okD [OF ok] by auto
      then have "r \<noteq> c" using c(3) by (cases "h ! c") auto
      then show "Inode_Type (h' ! r) = Inode_Type (h ! r) \<and> (child_of q r (h ! r) \<longrightarrow> child_of q r (h' ! r))"
        using p by (cases "r = p") (simp_all add: h' add_entry_def Let_def)
    qed
    then show ?thesis unfolding dir_ok_def Let_def e0 .
  qed
  ultimately show "heap_ok T h'" using h by (simp add: heap_ok_def len)
qed

text \<open>What \<open>GetChild\<close> finds afterwards.\<close>

lemma GetChild_eq:
  assumes T: "treemap_laws T" and d: "dir_ok T h p d" "h ! p = DirI d"
  shows "DirectoryInode_GetChild T h p name = Some c \<longleftrightarrow>
    (\<exists>ident. (ident, \<lparr>de_name = name, de_child = c\<rparr>) \<in> set (tm_Iterator T (d_children d)))"
proof -
  have n: "d_names d nm = Some ident \<longleftrightarrow> (\<exists>c. (ident, \<lparr>de_name = nm, de_child = c\<rparr>) \<in> set (tm_Iterator T (d_children d)))" for nm ident
    using d by (simp add: dir_ok_def Let_def)
  have g: "tm_Get T k (d_children d) = Some e \<longleftrightarrow> (k, e) \<in> set (tm_Iterator T (d_children d))" for k e
    using d(1) by (simp add: treemap_Get [OF T] dir_ok_def Let_def map_of_eq_Some_iff)
  have u: "dent = \<lparr>de_name = name, de_child = c\<rparr>"
    if "(ident, dent) \<in> set (tm_Iterator T (d_children d))" "(ident, \<lparr>de_name = name, de_child = c\<rparr>) \<in> set (tm_Iterator T (d_children d))"
    for ident dent name c using that g by (metis option.inject)
  show ?thesis
    unfolding DirectoryInode_GetChild_def Let_def d(2) the_dir.simps
    using u by (auto simp: n g split: option.splits) (metis (full_types) dirEntry.select_convs(2) g option.inject n option.distinct(1))+
qed

lemma GetChild_child:
  assumes "treemap_laws T" "heap_ok T h" "p < length h" "h ! p = DirI d" "DirectoryInode_GetChild T h p name = Some c"
  shows "c < length h" "child_of p c (h ! c)"
proof -
  have d: "dir_ok T h p d" using assms(2-4) by (simp add: heap_ok_def)
  obtain ident where "(ident, \<lparr>de_name = name, de_child = c\<rparr>) \<in> set (tm_Iterator T (d_children d))"
    using GetChild_eq [OF assms(1) d assms(4)] assms(5) by blast
  from dir_okD(1,2) [OF d this] show "c < length h" "child_of p c (h ! c)" by simp_all
qed

lemma name_ok_absent:
  "name_ok d name \<Longrightarrow> h ! p = DirI d \<Longrightarrow> DirectoryInode_GetChild T h p name = None"
  by (simp add: name_ok_def DirectoryInode_GetChild_def)

lemma GetChild_AddChild:
  assumes T: "treemap_laws T" and h: "heap_ok T h" and p: "p < length h" "h ! p = DirI d"
    and c: "c < length h" "p \<noteq> c" "orphan (h ! c)" "Inode_Type (h ! c) = InodeTypeDirectory \<longrightarrow> p < c"
    and a: "DirectoryInode_AddChild T h p name c = Inr h'" and q: "q < length h" "h ! q = DirI e"
  shows "DirectoryInode_GetChild T h' q nm = (if q = p \<and> nm = name then Some c else DirectoryInode_GetChild T h q nm)"
proof (cases "q = p")
  case False
  note h' = heap_ok_AddChild(2) [OF T h p c a]
  have same: "d_names (the_dir (h' ! q)) = d_names (the_dir (h ! q))" "d_children (the_dir (h' ! q)) = d_children (the_dir (h ! q))"
    using False q by (cases "q = c"; simp add: h')+
  then show ?thesis unfolding DirectoryInode_GetChild_def Let_def same using False by simp
next
  case True
  then have [simp]: "e = d" using p q by simp
  let ?ident = "entry_ident (unat (ia_count (d_idAlloc d))) (Inode_Type (h ! c))"
  have d: "dir_ok T h p d" using h p by (simp add: heap_ok_def)
  have "length h < 2 ^ 64" using h by (simp add: heap_ok_def)
  then have fresh: "?ident \<notin> fst ` set (tm_Iterator T (d_children d))" by (rule fresh_ident [OF d])
  have old: "d_names d nm \<noteq> Some ?ident" for nm
  proof
    assume "d_names d nm = Some ?ident"
    moreover have "d_names d nm = Some ?ident \<longleftrightarrow> (\<exists>c. (?ident, \<lparr>de_name = nm, de_child = c\<rparr>) \<in> set (tm_Iterator T (d_children d)))"
      using d unfolding dir_ok_def Let_def by blast
    ultimately show False using fresh by force
  qed
  have "h' ! p = DirI (add_entry T h d name c)"
    using heap_ok_AddChild(2) [OF T h p c a] p(1) c(2) by simp
  then show ?thesis
    using True p(2) old
    by (auto simp: DirectoryInode_GetChild_def add_entry_def Let_def treemap_Put_Get [OF T] split: option.split)
qed

section \<open>Looking up a path\<close>

fun lookup_path :: "('m, dirEntry) treemap \<Rightarrow> 'm heap \<Rightarrow> ref \<Rightarrow> gostring list \<Rightarrow> ref option" where
  "lookup_path T h p [] = Some p"
| "lookup_path T h p (n # ns) =
     (if Inode_Type (h ! p) = InodeTypeDirectory
      then Option.bind (DirectoryInode_GetChild T h p n) (\<lambda>c. lookup_path T h c ns) else None)"

lemma lookup_path_append:
  "lookup_path T h p (ns @ ms) = Option.bind (lookup_path T h p ns) (\<lambda>q. lookup_path T h q ms)"
  by (induction ns arbitrary: p) auto

lemma lookup_path_valid:
  assumes "treemap_laws T" "heap_ok T h" "p < length h" "lookup_path T h p ns = Some q"
  shows "q < length h"
  using assms(3,4)
proof (induction ns arbitrary: p)
  case (Cons n ns)
  then obtain c where c: "DirectoryInode_GetChild T h p n = Some c" "lookup_path T h c ns = Some q"
    and d: "h ! p = DirI (the_dir (h ! p))" by (auto simp: the_dir_DirI split: if_splits bind_splits)
  show ?case
    using Cons.IH [OF GetChild_child(1) [OF assms(1,2) Cons.prems(1) d c(1)] c(2)] .
qed simp

text \<open>Adding a node without children adds exactly one path from any other node that reaches the parent.\<close>

lemma lookup_path_AddChild:
  assumes T: "treemap_laws T" and h: "heap_ok T h" and p: "p < length h" "h ! p = DirI d"
    and c: "c < length h" "p \<noteq> c" "orphan (h ! c)" "Inode_Type (h ! c) = InodeTypeDirectory \<longrightarrow> p < c"
    and a: "DirectoryInode_AddChild T h p name c = Inr h'"
    and leaf: "\<And>n. Inode_Type (h ! c) = InodeTypeDirectory \<Longrightarrow> DirectoryInode_GetChild T h c n = None"
    and q: "q < length h" "q \<noteq> c"
  shows "lookup_path T h' q ns =
    (if \<exists>ms. ns = ms @ [name] \<and> lookup_path T h q ms = Some p then Some c else lookup_path T h q ns)"
  using q
proof (induction ns arbitrary: q)
  case (Cons n ns)
  note h' = heap_ok_AddChild(2) [OF T h p c a]
  have ty: "Inode_Type (h' ! r) = Inode_Type (h ! r)" for r
    using p c by (cases "r = c"; cases "r = p") (simp_all add: h' adopt_orphan)
  note gc = GetChild_AddChild [OF T h p c a]
  have absent: "DirectoryInode_GetChild T h p name = None"
    using name_ok_absent [of d name h p] heap_ok_AddChild(3) [OF T h p c a] p(2) by blast
  show ?case
  proof (cases "Inode_Type (h ! q) = InodeTypeDirectory")
    case False
    then have "\<nexists>ms. n # ns = ms @ [name] \<and> lookup_path T h q ms = Some p"
      using p(2) by (auto simp: Cons_eq_append_conv)
    then show ?thesis using False by (simp add: ty)
  next
    case True
    then have q: "h ! q = DirI (the_dir (h ! q))" by (rule the_dir_DirI)
    show ?thesis
    proof (cases "q = p \<and> n = name")
      case True
      have "lookup_path T h' c ns = (if ns = [] then Some c else None)"
        using gc [OF c(1) the_dir_DirI] leaf c(2) by (cases ns) (auto simp: ty)
      moreover have "(\<exists>ms. n # ns = ms @ [name] \<and> lookup_path T h q ms = Some p) \<longleftrightarrow> ns = []"
        using True absent by (auto simp: Cons_eq_append_conv split: if_splits)
      ultimately show ?thesis
        using True absent p gc [OF p, of name] by (auto simp: ty)
    next
      case False
      then have g: "DirectoryInode_GetChild T h' q n = DirectoryInode_GetChild T h q n"
        using gc [OF Cons.prems(1) q] by auto
      have e: "(\<exists>ms. n # ns = ms @ [name] \<and> lookup_path T h q ms = Some p) \<longleftrightarrow>
          (\<exists>ms r. DirectoryInode_GetChild T h q n = Some r \<and> ns = ms @ [name] \<and> lookup_path T h r ms = Some p)"
        using False True by (auto simp: Cons_eq_append_conv split: bind_splits) 
      show ?thesis
      proof (cases "DirectoryInode_GetChild T h q n")
        case None
        then show ?thesis using e True g by (simp add: ty)
      next
        case (Some r)
        note r = GetChild_child [OF T h Cons.prems(1) q Some]
        have "r \<noteq> c" using r(2) c(3) by (cases "h ! c") auto
        then show ?thesis using Cons.IH [OF r(1)] e True g Some by (auto simp: ty)
      qed
    qed
  qed
qed simp

text \<open>No two paths lead from the root to the same directory.\<close>

lemma path_unique:
  assumes T: "treemap_laws T" and h: "heap_ok T h" and root: "root < length h" "h ! root = DirI d0" "d_parent d0 = None"
    and "lookup_path T h root ms = Some p" "lookup_path T h root ns = Some p" "Inode_Type (h ! p) = InodeTypeDirectory"
  shows "ms = ns"
  using assms(6-8)
proof (induction p arbitrary: ms ns rule: less_induct)
  case (less p)
  have last: "\<exists>q d. xs = butlast xs @ [last xs] \<and> lookup_path T h root (butlast xs) = Some q \<and> q < length h \<and> h ! q = DirI d \<and>
      DirectoryInode_GetChild T h q (last xs) = Some p \<and> child_of q p (h ! p)"
    if "lookup_path T h root xs = Some p" "xs \<noteq> []" for xs
  proof -
    have x: "xs = butlast xs @ [last xs]" using that(2) by simp
    have "lookup_path T h root (butlast xs @ [last xs]) = Some p" using that(1) x by metis
    then obtain q where q: "lookup_path T h root (butlast xs) = Some q" "Inode_Type (h ! q) = InodeTypeDirectory"
      "DirectoryInode_GetChild T h q (last xs) = Some p"
      by (auto simp: lookup_path_append split: bind_splits if_splits)
    have "q < length h" by (rule lookup_path_valid [OF T h root(1) q(1)])
    then show ?thesis using x q the_dir_DirI [OF q(2)] GetChild_child [OF T h _ _ q(3)] by blast
  qed
  have not_root: "p \<noteq> root" if "child_of q p (h ! p)" for q
    using that root by auto
  obtain d where d: "h ! p = DirI d" using less.prems(3) the_dir_DirI by blast
  show ?case
  proof (cases "ms = [] \<or> ns = []")
    case True
    then show ?thesis using last [OF less.prems(1)] last [OF less.prems(2)] less.prems(1,2) not_root by fastforce
  next
    case False
    then obtain q e where m: "ms = butlast ms @ [last ms]" "lookup_path T h root (butlast ms) = Some q" "q < length h" "h ! q = DirI e"
      "DirectoryInode_GetChild T h q (last ms) = Some p" "child_of q p (h ! p)"
      using last [OF less.prems(1)] by blast
    from False obtain q' e' where n: "ns = butlast ns @ [last ns]" "lookup_path T h root (butlast ns) = Some q'"
      "DirectoryInode_GetChild T h q' (last ns) = Some p" "child_of q' p (h ! p)"
      using last [OF less.prems(2)] by blast
    have "q' = q" "q < p" using m(6) n(4) by (simp_all add: d)
    then have "butlast ms = butlast ns" using less.IH [of q] m n by (simp add: m(4))
    moreover have ok: "dir_ok T h q e" using h m(3,4) by (simp add: heap_ok_def)
    obtain i j where ij: "(i, \<lparr>de_name = last ms, de_child = p\<rparr>) \<in> set (tm_Iterator T (d_children e))"
      "(j, \<lparr>de_name = last ns, de_child = p\<rparr>) \<in> set (tm_Iterator T (d_children e))"
      using m(5) n(3) GetChild_eq [OF T ok m(4)] \<open>q' = q\<close> by blast
    have "inj_on (de_child \<circ> snd) (set (tm_Iterator T (d_children e)))"
      using ok by (simp add: dir_ok_def Let_def distinct_map)
    from inj_onD [OF this _ ij] have "last ms = last ns" by simp
    ultimately show ?thesis using m(1) n(1) by metis
  qed
qed

end
