(* ===== verification/Volume.thy ===== *)
theory Volume
  imports DirInode
begin

text \<open>
  \<open>volume.go\<close>: a volume is filled with files and links, then block addresses are given to
  everything in it, and the image is written in the same order.
\<close>

section \<open>Building\<close>

record 'm Volume =
  v_pvd :: PrimaryVolumeDescriptor
  v_inodeAlloc :: inodeAllocator
  v_root :: ref
  v_now :: Time
  v_nameValidator :: "gostring \<Rightarrow> goerr option"
  v_heap :: "'m heap"

text \<open>The zero value of a \<open>time.Time\<close>.\<close>

definition zero_time :: Time where
  "zero_time = \<lparr>Year = 1, Month = 1, Day = 1, Hour = 0, Minute = 0, Second = 0, Nanosecond = 0\<rparr>"

definition zero_pvd :: PrimaryVolumeDescriptor where
  "zero_pvd = \<lparr>SystemIdentifier = [], VolumeIdentifier = [], VolumeSetIdentifier = [],
     PublisherIdentifier = [], DataPreparerIdentifier = [], ApplicationIdentifier = [],
     CopyrightFileIdentifier = [], AbstractFileIdentifier = [], BibliographicFileIdentifier = [],
     VolumeSpaceSize = 0, VolumeSetSize = 0, VolumeSequenceNumber = 0, PathTableSize = 0, LTableStart = 0,
     OptionalLTableStart = 0, MTableStart = 0, OptionalMTableStart = 0, RootStart = 0, RootLength = 0,
     RootModified = zero_time, Created = zero_time, Modified = zero_time, Effective = zero_time\<rparr>"

text \<open>The body that the two constructors share; \<open>now\<close> is the clock.\<close>

definition new_volume ::
  "('m, dirEntry) treemap \<Rightarrow> Time \<Rightarrow> (gostring \<Rightarrow> goerr option) \<Rightarrow> goerr + 'm Volume" where
  "new_volume T now validator =
     (case NewDirectoryInode T NewInodeAllocator validator of
        (ia, Inl e) \<Rightarrow> Inl (Panic ''NewDirectoryInode'')
      | (ia, Inr root) \<Rightarrow>
          Inr \<lparr>v_pvd = zero_pvd\<lparr>VolumeSetSize := 1, VolumeSequenceNumber := 1, Created := now,
                                 Modified := now, Effective := now\<rparr>,
               v_inodeAlloc = ia, v_root = 0, v_now = now, v_nameValidator = validator,
               v_heap = [Inode_SetModified now (Inode_SetCreated now (DirI root))]\<rparr>)"

definition NewPosixPortableVolume :: "('m, dirEntry) treemap \<Rightarrow> Time \<Rightarrow> goerr + 'm Volume" where
  "NewPosixPortableVolume T now = new_volume T now Posix_IsValid"

definition NewNvidiaExtendedVolume ::
  "(rune \<Rightarrow> bool) \<Rightarrow> ('m, dirEntry) treemap \<Rightarrow> Time \<Rightarrow> goerr + 'm Volume" where
  "NewNvidiaExtendedVolume is_print T now = new_volume T now (Nvidia_IsValid is_print)"

text \<open>A new node on the heap, with the volume's time; the reference is its index.\<close>

definition put_inode :: "'m Volume \<Rightarrow> inodeAllocator \<Rightarrow> 'm Inode \<Rightarrow> 'm Volume" where
  "put_inode v ia i = v\<lparr>v_inodeAlloc := ia,
     v_heap := v_heap v @ [Inode_SetModified (v_now v) (Inode_SetCreated (v_now v) i)]\<rparr>"

fun addLeaf_loop ::
  "('m, dirEntry) treemap \<Rightarrow> 'm Volume \<Rightarrow> ref \<Rightarrow> gostring list \<Rightarrow> ref \<Rightarrow> 'm Volume \<times> goerr option" where
  "addLeaf_loop T v parent [] leaf = (v, None)"
| "addLeaf_loop T v parent [part] leaf =
     (case DirectoryInode_AddChild T (v_heap v) parent part leaf of
        Inl e \<Rightarrow> (v, Some e)
      | Inr h \<Rightarrow> (v\<lparr>v_heap := h\<rparr>, None))"
| "addLeaf_loop T v parent (part # part' # parts) leaf =
     (case DirectoryInode_GetChild T (v_heap v) parent part of
        Some r \<Rightarrow>
          if Inode_Type (v_heap v ! r) \<noteq> InodeTypeDirectory
          then (v, Some (Err ''Path segment exists and is not a directory''))
          else addLeaf_loop T v r (part' # parts) leaf
      | None \<Rightarrow>
          (case NewDirectoryInode T (v_inodeAlloc v) (v_nameValidator v) of
             (ia, Inl e) \<Rightarrow> (v\<lparr>v_inodeAlloc := ia\<rparr>, Some e)
           | (ia, Inr d) \<Rightarrow>
               let r = length (v_heap v); v' = put_inode v ia (DirI d)
               in (case DirectoryInode_AddChild T (v_heap v') parent part r of
                     Inl e \<Rightarrow> (v', Some e)
                   | Inr h \<Rightarrow> addLeaf_loop T (v'\<lparr>v_heap := h\<rparr>) r (part' # parts) leaf)))"

definition addLeaf :: "('m, dirEntry) treemap \<Rightarrow> 'm Volume \<Rightarrow> gostring \<Rightarrow> ref \<Rightarrow> 'm Volume \<times> goerr option" where
  "addLeaf T v pth leaf =
     (let cleaned = path_Clean pth;
          cleaned' = (if cleaned \<noteq> [] \<and> hd cleaned = slash then tl cleaned else cleaned)
      in addLeaf_loop T v (v_root v) (split_slash cleaned') leaf)"

definition AddFile :: "('m, dirEntry) treemap \<Rightarrow> 'm Volume \<Rightarrow> gostring \<Rightarrow> Object \<Rightarrow> 'm Volume \<times> goerr option" where
  "AddFile T v pth obj =
     (case NewFileInode (v_inodeAlloc v) obj of
        (ia, Inl e) \<Rightarrow> (v\<lparr>v_inodeAlloc := ia\<rparr>, Some e)
      | (ia, Inr f) \<Rightarrow> addLeaf T (put_inode v ia (FileI f)) pth (length (v_heap v)))"

definition AddSymlink :: "('m, dirEntry) treemap \<Rightarrow> 'm Volume \<Rightarrow> gostring \<Rightarrow> gostring \<Rightarrow> 'm Volume \<times> goerr option" where
  "AddSymlink T v pth target =
     (case NewSymlinkInode (v_inodeAlloc v) target of
        (ia, Inl e) \<Rightarrow> (v\<lparr>v_inodeAlloc := ia\<rparr>, Some e)
      | (ia, Inr l) \<Rightarrow> addLeaf T (put_inode v ia (SymI l)) pth (length (v_heap v)))"

definition Volume_SetSystemIdentifier :: "gostring \<Rightarrow> 'm Volume \<Rightarrow> 'm Volume" where
  "Volume_SetSystemIdentifier val v = v\<lparr>v_pvd := (v_pvd v)\<lparr>SystemIdentifier := val\<rparr>\<rparr>"

definition Volume_SetVolumeIdentifier :: "gostring \<Rightarrow> 'm Volume \<Rightarrow> 'm Volume" where
  "Volume_SetVolumeIdentifier val v = v\<lparr>v_pvd := (v_pvd v)\<lparr>VolumeIdentifier := val\<rparr>\<rparr>"

definition Volume_SetVolumeSetIdentifier :: "gostring \<Rightarrow> 'm Volume \<Rightarrow> 'm Volume" where
  "Volume_SetVolumeSetIdentifier val v = v\<lparr>v_pvd := (v_pvd v)\<lparr>VolumeSetIdentifier := val\<rparr>\<rparr>"

definition Volume_SetPublisherIdentifier :: "gostring \<Rightarrow> 'm Volume \<Rightarrow> 'm Volume" where
  "Volume_SetPublisherIdentifier val v = v\<lparr>v_pvd := (v_pvd v)\<lparr>PublisherIdentifier := val\<rparr>\<rparr>"

definition Volume_SetDataPreparerIdentifier :: "gostring \<Rightarrow> 'm Volume \<Rightarrow> 'm Volume" where
  "Volume_SetDataPreparerIdentifier val v = v\<lparr>v_pvd := (v_pvd v)\<lparr>DataPreparerIdentifier := val\<rparr>\<rparr>"

definition Volume_SetApplicationIdentifier :: "gostring \<Rightarrow> 'm Volume \<Rightarrow> 'm Volume" where
  "Volume_SetApplicationIdentifier val v = v\<lparr>v_pvd := (v_pvd v)\<lparr>ApplicationIdentifier := val\<rparr>\<rparr>"

definition Volume_SetCopyrightFileIdentifier :: "gostring \<Rightarrow> 'm Volume \<Rightarrow> 'm Volume" where
  "Volume_SetCopyrightFileIdentifier val v = v\<lparr>v_pvd := (v_pvd v)\<lparr>CopyrightFileIdentifier := val\<rparr>\<rparr>"

definition Volume_SetAbstractFileIdentifier :: "gostring \<Rightarrow> 'm Volume \<Rightarrow> 'm Volume" where
  "Volume_SetAbstractFileIdentifier val v = v\<lparr>v_pvd := (v_pvd v)\<lparr>AbstractFileIdentifier := val\<rparr>\<rparr>"

definition Volume_SetBibliographicFileIdentifier :: "gostring \<Rightarrow> 'm Volume \<Rightarrow> 'm Volume" where
  "Volume_SetBibliographicFileIdentifier val v = v\<lparr>v_pvd := (v_pvd v)\<lparr>BibliographicFileIdentifier := val\<rparr>\<rparr>"

section \<open>Addresses\<close>

record 'm assign_state =
  as_volume :: "'m Volume"
  as_sectors :: SectorAllocator
  as_visited :: "InodeNumber set"

definition as_heap :: "'m assign_state \<Rightarrow> 'm heap" where
  "as_heap s = v_heap (as_volume s)"

definition assign_alloc :: "u32 \<Rightarrow> 'm assign_state \<Rightarrow> 'm assign_state \<times> LogicalBlockAddress" where
  "assign_alloc n s = (case Alloc n (as_sectors s) of (sa, start) \<Rightarrow> (s\<lparr>as_sectors := sa\<rparr>, start))"

definition assign_directory ::
  "(rune \<Rightarrow> bool) \<Rightarrow> ('m, dirEntry) treemap \<Rightarrow> 'm assign_state visitor" where
  "assign_directory is_print T rel s =
     (case ToDirectory is_print T (as_heap s) (rel_Child rel) of
        None \<Rightarrow> None
      | Some (Inl e) \<Rightarrow> Some (s, Some e)
      | Some (Inr (d, c)) \<Rightarrow>
          (case Directory_Size d of
             Inl e \<Rightarrow> Some (s, Some e)
           | Inr sz \<Rightarrow>
               let dsize = of_int sz;
                   (s1, start) = assign_alloc dsize s;
                   v = as_volume s1;
                   dinode = (the_dir (v_heap v ! rel_Child rel))\<lparr>d_start := start, d_size := dsize\<rparr>;
                   pvd = (if d_parent dinode = None
                          then (v_pvd v)\<lparr>RootStart := start, RootLength := dsize, RootModified := d_modified dinode\<rparr>
                          else v_pvd v);
                   s2 = s1\<lparr>as_volume := v\<lparr>v_heap := (v_heap v)[rel_Child rel := DirI dinode], v_pvd := pvd\<rparr>\<rparr>;
                   clen = ContinuationArea_Len c
               in Some (if clen > 0 then fst (assign_alloc (of_int clen) s2) else s2, None)))"

definition assign_file :: "'m assign_state visitor" where
  "assign_file rel s =
     (case as_heap s ! rel_Child rel of
        FileI f \<Rightarrow>
          if f_ino f \<in> as_visited s then Some (s, None)
          else
            (case InodeParts (f_start f) (of_int (Size (f_o f))) of
               Inl e \<Rightarrow> Some (s\<lparr>as_visited := insert (f_ino f) (as_visited s)\<rparr>, Some e)
             | Inr ps \<Rightarrow>
                 let (s1, start) = assign_alloc (part_size (hd ps)) s;
                     v = as_volume s1;
                     s2 = s1\<lparr>as_visited := insert (f_ino f) (as_visited s),
                             as_volume := v\<lparr>v_heap := (v_heap v)[rel_Child rel := FileI (f\<lparr>f_start := start\<rparr>)]\<rparr>\<rparr>
                 in Some (fold (\<lambda>p s'. fst (assign_alloc (part_size p) s')) (tl ps) s2, None))
      | _ \<Rightarrow> Some (s, Some (Panic ''interface conversion'')))"

definition assignLogicalBlockAddresses ::
  "(rune \<Rightarrow> bool) \<Rightarrow> ('m, dirEntry) treemap \<Rightarrow> ('q, Relationship) queue \<Rightarrow> ('r, ref) queue \<Rightarrow>
   'm Volume \<Rightarrow> ('m Volume \<times> goerr option) option" where
  "assignLogicalBlockAddresses is_print T Q R v =
     (let (sa1, _) = Alloc (16 * 2048) NewSectorAllocator;
          (sa2, _) = Alloc 2048 sa1;
          (sa3, _) = Alloc 2048 sa2;
          (sa4, lstart) = Alloc (PathTableSize (v_pvd v)) sa3;
          (sa5, mstart) = Alloc (PathTableSize (v_pvd v)) sa4;
          v1 = v\<lparr>v_pvd := (v_pvd v)\<lparr>LTableStart := lstart, MTableStart := mstart\<rparr>\<rparr>
      in Option.bind (VisitDirectories T Q as_heap (assign_directory is_print T) (v_root v)
                        \<lparr>as_volume = v1, as_sectors = sa5, as_visited = {}\<rparr>)
           (\<lambda>(s, err).
             case err of
               Some e \<Rightarrow> Some (as_volume s, Some e)
             | None \<Rightarrow>
                 Option.bind (VisitFiles T R as_heap assign_file (v_root v) s)
                   (\<lambda>(s', err'). Some
                     (let v' = as_volume s'
                      in if err' \<noteq> None then (v', err')
                         else (v'\<lparr>v_pvd := (v_pvd v')\<lparr>VolumeSpaceSize := Allocated (as_sectors s')\<rparr>\<rparr>, None)))))"

section \<open>Writing\<close>

text \<open>The closures over the counting writer; \<open>out\<close> is what has been written.\<close>

definition pad_out :: "byte list \<Rightarrow> byte list" where
  "pad_out out = out @ padOutSector (length out)"

definition assertLBA :: "LogicalBlockAddress \<Rightarrow> byte list \<Rightarrow> goerr option" where
  "assertLBA expected out =
     (if length out mod LogicalBlockSize \<noteq> 0 then Some (Panic ''not at a sector'')
      else if expected \<noteq> of_nat (length out div LogicalBlockSize) then Some (Panic ''expected, actual'')
      else None)"

definition write_directory ::
  "(rune \<Rightarrow> bool) \<Rightarrow> ('m, dirEntry) treemap \<Rightarrow> 'm heap \<Rightarrow> byte list visitor" where
  "write_directory is_print T h rel out =
     (case assertLBA (d_start (the_dir (h ! rel_Child rel))) out of
        Some e \<Rightarrow> Some (out, Some e)
      | None \<Rightarrow>
          (case ToDirectory is_print T h (rel_Child rel) of
             None \<Rightarrow> None
           | Some (Inl e) \<Rightarrow> Some (out, Some e)
           | Some (Inr (d, c)) \<Rightarrow>
               let w = Directory_WriteTo d; out1 = out @ fst w
               in if snd w \<noteq> None then Some (out1, snd w)
                  else
                    let out2 = pad_out out1
                    in if ContinuationArea_Len c > 0 then
                         let w' = ContinuationArea_WriteTo c; out3 = out2 @ fst w'
                         in if snd w' \<noteq> None then Some (out3, snd w') else Some (pad_out out3, None)
                       else Some (pad_out out2, None)))"

definition WriteMetadataTo ::
  "(rune \<Rightarrow> bool) \<Rightarrow> (rune \<Rightarrow> rune) \<Rightarrow> ('m, dirEntry) treemap \<Rightarrow> ('q, Relationship) queue \<Rightarrow> ('r, ref) queue \<Rightarrow>
   'm Volume \<Rightarrow> ('m Volume \<times> byte list \<times> goerr option) option" where
  "WriteMetadataTo is_print up T Q R v =
     Option.bind (ToPathTable T Q (v_heap v) (v_root v)) (\<lambda>pt1. case pt1 of
       Inl e \<Rightarrow> Some (v, [], Some e)
     | Inr table \<Rightarrow>
     Option.bind (assignLogicalBlockAddresses is_print T Q R
         (v\<lparr>v_pvd := (v_pvd v)\<lparr>PathTableSize := of_int (PathTableEncodedLen table)\<rparr>\<rparr>)) (\<lambda>(v1, err). case err of
       Some e \<Rightarrow> Some (v1, [], Some e)
     | None \<Rightarrow>
     Option.bind (ToPathTable T Q (v_heap v1) (v_root v1)) (\<lambda>pt2. case pt2 of
       Inl e \<Rightarrow> Some (v1, [], Some e)
     | Inr table' \<Rightarrow>
         let pvd = v_pvd v1;
             out1 = pad (16 * LogicalBlockSize);
             w = PrimaryVolumeDescriptor_WriteTo up pvd; out2 = out1 @ fst w
         in if snd w \<noteq> None then Some (v1, out2, snd w)
            else let out3 = out2 @ fst Terminator_WriteTo
            in if snd Terminator_WriteTo \<noteq> None then Some (v1, out3, snd Terminator_WriteTo)
            else if assertLBA (LTableStart pvd) out3 \<noteq> None then Some (v1, out3, assertLBA (LTableStart pvd) out3)
            else let out4 = pad_out (out3 @ fst (PathTable_Encode LittleEndian table'))
            in if assertLBA (MTableStart pvd) out4 \<noteq> None then Some (v1, out4, assertLBA (MTableStart pvd) out4)
            else let out5 = pad_out (out4 @ fst (PathTable_Encode BigEndian table'))
            in map_option (\<lambda>(out6, err'). (v1, out6, err'))
                 (VisitDirectories T Q (\<lambda>out. v_heap v1) (write_directory is_print T (v_heap v1)) (v_root v1) out5))))"

end
