(* ===== verification/VolumeTree.thy ===== *)
theory VolumeTree
  imports Volume "HOL-Library.Sublist"
begin

text \<open>
  What adding files and links does to a volume: the invariant of the tree (\<open>volume_ok\<close>) is
  kept, whether the call succeeds or not, and a successful call adds the path that was asked
  for and nothing else.
\<close>

section \<open>The invariant\<close>

definition volume_ok :: "('m, dirEntry) treemap \<Rightarrow> 'm Volume \<Rightarrow> bool" where
  "volume_ok T v \<longleftrightarrow>
     heap_ok T (v_heap v) \<and> v_root v < length (v_heap v) \<and>
     (\<exists>d. v_heap v ! v_root v = DirI d \<and> d_parent d = None) \<and>
     (\<forall>i \<in> set (v_heap v). Inode_Number i \<noteq> 0 \<and>
        (exhausted (v_inodeAlloc v) \<or> Inode_Number i < ino_next (v_inodeAlloc v))) \<and>
     exhausted (v_inodeAlloc v) = (ino_next (v_inodeAlloc v) = 0)"

text \<open>A node as the constructors make it.\<close>

fun fresh_node :: "('m, dirEntry) treemap \<Rightarrow> 'm Inode \<Rightarrow> bool" where
  "fresh_node T (FileI f) = (f_nlink f = 0)"
| "fresh_node T (SymI s) = (s_parent s = None)"
| "fresh_node T (DirI d) = (d_parent d = None \<and> d_names d = Map.empty \<and> d_children d = tm_New T \<and>
     d_idAlloc d = NewIdentifierAllocator \<and> d_size d = 0)"

definition stamped :: "Time \<Rightarrow> 'm Inode \<Rightarrow> 'm Inode" where
  "stamped t i = Inode_SetModified t (Inode_SetCreated t i)"

lemma stamped_simps [simp]:
  "Inode_Number (stamped t i) = Inode_Number i" "Inode_Type (stamped t i) = Inode_Type i"
  "fresh_node T (stamped t i) = fresh_node T i"
  by (cases i; simp add: stamped_def)+

lemma fresh_orphan: "fresh_node T i \<Longrightarrow> orphan i"
  by (cases i) auto

lemma fresh_childless: "fresh_node T (h ! c) \<Longrightarrow> Inode_Type (h ! c) = InodeTypeDirectory \<Longrightarrow> DirectoryInode_GetChild T h c n = None"
  by (cases "h ! c") (simp_all add: DirectoryInode_GetChild_def)

lemma nonzero_numbers:
  assumes "distinct (map Inode_Number h)" "\<forall>i \<in> set h. Inode_Number i \<noteq> 0"
  shows "length h < 2 ^ 32"
proof -
  have "set (map Inode_Number h) \<subseteq> UNIV - {0}" using assms(2) by auto
  then have "card (set (map Inode_Number h)) \<le> card (UNIV - {0 :: u32})"
    by (intro card_mono) simp_all
  moreover have "card (UNIV - {0 :: u32}) = 2 ^ 32 - 1" by (simp add: card_Diff_singleton card_word)
  ultimately show ?thesis using distinct_card [OF assms(1)] by simp
qed

lemma word_succ: "x + 1 = 0 \<or> x < (x :: u32) + 1"
proof -
  have "unat (x + 1) = (unat x + 1) mod 2 ^ 32" by (simp add: unat_word_ariths)
  moreover have "unat x + 1 \<le> 2 ^ 32" using unat_lt [of x] by simp
  ultimately show ?thesis unfolding word_less_nat_alt unat_eq_0 [symmetric] by (cases "unat x + 1 = 2 ^ 32") simp_all
qed

lemma put_inode_heap: "v_heap (put_inode v ia i) = v_heap v @ [stamped (v_now v) i]"
  by (simp add: put_inode_def stamped_def)

lemma volume_ok_put:
  assumes T: "treemap_laws T" and v: "volume_ok T v"
    and n: "inodeAllocator_Next (v_inodeAlloc v) = (ia, Inr num)" and i: "Inode_Number i = num" "fresh_node T i"
  shows "volume_ok T (put_inode v ia i)"
proof -
  let ?h = "v_heap v" and ?h' = "v_heap (put_inode v ia i)"
  have ia: "num = ino_next (v_inodeAlloc v)" "\<not> exhausted (v_inodeAlloc v)" "ino_next ia = num + 1"
    "exhausted ia = (num + 1 = 0)" "num \<noteq> 0"
    using n v by (auto simp: inodeAllocator_Next_def volume_ok_def split: if_splits)
  have below: "Inode_Number j \<noteq> 0" "Inode_Number j < num" if "j \<in> set ?h" for j
    using v that ia by (auto simp: volume_ok_def)
  have "num \<notin> Inode_Number ` set ?h" using below(2) by (metis imageE less_irrefl)
  then have "distinct (map Inode_Number ?h')"
    using v i by (simp add: volume_ok_def heap_ok_def put_inode_heap)
  moreover have nz: "\<forall>j \<in> set ?h'. Inode_Number j \<noteq> 0"
    using below i ia by (auto simp: put_inode_heap)
  moreover have "length ?h' < 2 ^ 32" using calculation by (rule nonzero_numbers)
  moreover have "dir_ok T ?h' p d" if p: "p < length ?h'" "?h' ! p = DirI d" for p d
  proof (cases "p < length ?h")
    case True
    then have d: "dir_ok T ?h p d" using v p by (simp add: volume_ok_def heap_ok_def put_inode_heap nth_append)
    show ?thesis
      by (rule dir_ok_frame [OF d]) (use dir_okD(1) [OF d] in \<open>auto simp: put_inode_heap nth_append\<close>)
  next
    case False
    then have "stamped (v_now v) i = DirI d" using p by (auto simp: put_inode_heap nth_append split: if_splits)
    then have "fresh_node T (DirI d)" using i(2) by (metis stamped_simps(3))
    then show ?thesis
      by (auto simp: dir_ok_def treemap_New [OF T] NewIdentifierAllocator_def)
  qed
  moreover have "\<forall>j \<in> set ?h'. exhausted ia \<or> Inode_Number j < ino_next ia"
  proof
    fix j assume "j \<in> set ?h'"
    then have "Inode_Number j \<le> num" using below(2) i by (auto simp: put_inode_heap intro: less_imp_le)
    moreover have "num + 1 = 0 \<or> num < num + 1"
      by (rule word_succ)
    ultimately show "exhausted ia \<or> Inode_Number j < ino_next ia" unfolding ia(3,4) by auto
  qed
  ultimately show ?thesis
    using v ia(3,4) by (auto simp: volume_ok_def heap_ok_def put_inode_def nth_append)
qed

lemma new_volume_ok:
  assumes T: "treemap_laws T"
  shows "\<exists>v. new_volume T now validator = Inr v \<and> volume_ok T v \<and> v_now v = now \<and>
    (\<forall>ns. lookup_path T (v_heap v) (v_root v) ns = (if ns = [] then Some (v_root v) else None))"
proof -
  obtain v where v: "new_volume T now validator = Inr v" by (simp add: new_volume_def NewDirectoryInode_def
      NewInodeAllocator_def inodeAllocator_Next_def)
  then have "v_heap v = [stamped now (DirI \<lparr>d_ino = 1, d_perm = 365, d_created = epoch, d_modified = epoch,
      d_parent = None, d_start = 0, d_idAlloc = NewIdentifierAllocator, d_names = Map.empty,
      d_children = tm_New T, d_size = 0, d_nameValidator = validator\<rparr>)]" "v_root v = 0" "v_now v = now"
    "v_inodeAlloc v = \<lparr>ino_next = 2, exhausted = False\<rparr>"
    by (auto simp: new_volume_def NewDirectoryInode_def NewInodeAllocator_def inodeAllocator_Next_def stamped_def)
  moreover from this have "lookup_path T (v_heap v) (v_root v) ns = (if ns = [] then Some (v_root v) else None)" for ns
    by (cases ns) (simp_all add: fresh_childless stamped_def)
  ultimately show ?thesis
    using v by (auto simp: volume_ok_def heap_ok_def dir_ok_def treemap_New [OF T] NewIdentifierAllocator_def stamped_def)
qed

section \<open>Adding a leaf\<close>

text \<open>What survives of a node: its type, its number and what it was made from.\<close>

fun same_node :: "'m Inode \<Rightarrow> 'm Inode \<Rightarrow> bool" where
  "same_node (FileI f) (FileI g) = (f_ino f = f_ino g \<and> f_o f = f_o g)"
| "same_node (SymI s) (SymI t) = (s_ino s = s_ino t \<and> s_target s = s_target t)"
| "same_node (DirI d) (DirI e) = (d_ino d = d_ino e)"
| "same_node _ _ = False"

lemma same_node_refl [simp]: "same_node i i"
  by (cases i) simp_all

lemma same_node_trans: "same_node i j \<Longrightarrow> same_node j k \<Longrightarrow> same_node i k"
  by (cases i; cases j; cases k) auto

lemma same_node_type: "same_node i j \<Longrightarrow> Inode_Type i = Inode_Type j"
  by (cases i; cases j) auto

definition keeps_nodes :: "'m heap \<Rightarrow> 'm heap \<Rightarrow> bool" where
  "keeps_nodes h h' \<longleftrightarrow> length h \<le> length h' \<and> (\<forall>i < length h. same_node (h ! i) (h' ! i))"

lemma keeps_nodes_refl [simp]: "keeps_nodes h h"
  by (simp add: keeps_nodes_def)

lemma keeps_nodes_trans: "keeps_nodes h h' \<Longrightarrow> keeps_nodes h' h'' \<Longrightarrow> keeps_nodes h h''"
  unfolding keeps_nodes_def by (meson less_le_trans order_trans same_node_trans)

text \<open>One child is added under a directory that the root reaches.\<close>

lemma volume_AddChild:
  assumes T: "treemap_laws T" and v: "volume_ok T v" and p: "lookup_path T (v_heap v) (v_root v) pre = Some p"
    "Inode_Type (v_heap v ! p) = InodeTypeDirectory"
    and c: "c < length (v_heap v)" "p \<noteq> c" "c \<noteq> v_root v" "orphan (v_heap v ! c)"
      "Inode_Type (v_heap v ! c) = InodeTypeDirectory \<longrightarrow> p < c \<and> fresh_node T (v_heap v ! c)"
    and a: "DirectoryInode_AddChild T (v_heap v) p name c = Inr h'"
  shows "volume_ok T (v\<lparr>v_heap := h'\<rparr>)" "keeps_nodes (v_heap v) h'" "length h' = length (v_heap v)"
    "lookup_path T h' (v_root v) ns = (if ns = pre @ [name] then Some c else lookup_path T (v_heap v) (v_root v) ns)"
    "q \<noteq> p \<Longrightarrow> q \<noteq> c \<Longrightarrow> h' ! q = v_heap v ! q"
    "lookup_path T (v_heap v) (v_root v) (pre @ [name]) = None"
proof -
  let ?h = "v_heap v"
  have h: "heap_ok T ?h" and root: "v_root v < length ?h" using v by (simp_all add: volume_ok_def)
  obtain d0 where d0: "?h ! v_root v = DirI d0" "d_parent d0 = None" using v by (auto simp: volume_ok_def)
  have plen: "p < length ?h" by (rule lookup_path_valid [OF T h root p(1)])
  obtain d where d: "?h ! p = DirI d" using the_dir_DirI [OF p(2)] by blast
  have c5: "Inode_Type (?h ! c) = InodeTypeDirectory \<longrightarrow> p < c" using c(5) by blast
  note ac = heap_ok_AddChild [OF T h plen d c(1,2,4) c5 a]
  show len: "length h' = length ?h" by (simp add: ac(2))
  show "h' ! q = ?h ! q" if "q \<noteq> p" "q \<noteq> c" using that by (simp add: ac(2))
  have absent: "DirectoryInode_GetChild T ?h p name = None" by (rule name_ok_absent [OF ac(3) d])
  then show "lookup_path T ?h (v_root v) (pre @ [name]) = None"
    using p by (simp add: lookup_path_append)
  have node: "same_node (?h ! i) (h' ! i) \<and> Inode_Number (h' ! i) = Inode_Number (?h ! i)" for i
    using d plen c(1,2) by (cases "i = c"; cases "?h ! i"; cases "i = p")
      (auto simp: ac(2) add_entry_def Let_def)
  then show "keeps_nodes ?h h'" by (simp add: keeps_nodes_def len)
  have "h' ! v_root v = DirI (if v_root v = p then add_entry T ?h d name c else d0)"
    using c(2,3) d0 plen by (cases "v_root v = p") (simp_all add: ac(2))
  moreover have "d_parent (if v_root v = p then add_entry T ?h d name c else d0) = None"
    using d0 d by (auto simp: add_entry_def Let_def)
  moreover have "Inode_Number i \<noteq> 0 \<and> (exhausted (v_inodeAlloc v) \<or> Inode_Number i < ino_next (v_inodeAlloc v))"
    if i: "i \<in> set h'" for i
  proof -
    obtain k where "k < length h'" "i = h' ! k" using i by (auto simp: in_set_conv_nth)
    then have "Inode_Number i = Inode_Number (?h ! k)" "?h ! k \<in> set ?h" by (simp_all add: len node)
    then show ?thesis using v unfolding volume_ok_def by metis
  qed
  ultimately show "volume_ok T (v\<lparr>v_heap := h'\<rparr>)"
    using v ac(1) len by (simp add: volume_ok_def)
  have one: "lookup_path T h' (v_root v) ns =
    (if \<exists>ms. ns = ms @ [name] \<and> lookup_path T ?h (v_root v) ms = Some p then Some c
     else lookup_path T ?h (v_root v) ns)"
    by (rule lookup_path_AddChild [OF T h plen d c(1,2,4) c5 a _ root])
      (use c(3,5) fresh_childless [of T ?h c] in blast)+
  have "(\<exists>ms. ns = ms @ [name] \<and> lookup_path T ?h (v_root v) ms = Some p) \<longleftrightarrow> ns = pre @ [name]"
    using path_unique [OF T h root d0 _ p(1) p(2)] p(1) by blast
  then show "lookup_path T h' (v_root v) ns = (if ns = pre @ [name] then Some c else lookup_path T ?h (v_root v) ns)"
    unfolding one by simp
qed

text \<open>
  The loop of \<open>addLeaf\<close>.  \<open>added v v' ns c\<close>: the only paths of \<open>v'\<close> that \<open>v\<close> has not are
  prefixes of \<open>ns\<close>, and the old ones lead where they led.
\<close>

definition added :: "('m, dirEntry) treemap \<Rightarrow> 'm Volume \<Rightarrow> 'm Volume \<Rightarrow> gostring list \<Rightarrow> bool" where
  "added T v v' ns \<longleftrightarrow>
     volume_ok T v' \<and> v_root v' = v_root v \<and> v_now v' = v_now v \<and> keeps_nodes (v_heap v) (v_heap v') \<and>
     (\<forall>ms. \<not> prefix ms ns \<longrightarrow> lookup_path T (v_heap v') (v_root v') ms = lookup_path T (v_heap v) (v_root v) ms) \<and>
     (\<forall>ms r. lookup_path T (v_heap v) (v_root v) ms = Some r \<longrightarrow> lookup_path T (v_heap v') (v_root v') ms = Some r)"

lemma added_refl: "volume_ok T v \<Longrightarrow> added T v v ns"
  by (simp add: added_def)

lemma added_trans: "added T v v' ns \<Longrightarrow> added T v' v'' ns \<Longrightarrow> added T v v'' ns"
  unfolding added_def using keeps_nodes_trans by (metis (full_types))

lemma lookup_path_put:
  assumes T: "treemap_laws T" and v: "volume_ok T v" and q: "q < length (v_heap v)"
  shows "lookup_path T (v_heap (put_inode v ia i)) q ns = lookup_path T (v_heap v) q ns"
  using q
proof (induction ns arbitrary: q)
  case (Cons n ns)
  have h: "heap_ok T (v_heap v)" using v by (simp add: volume_ok_def)
  have g: "DirectoryInode_GetChild T (v_heap (put_inode v ia i)) q n = DirectoryInode_GetChild T (v_heap v) q n"
    and t: "v_heap (put_inode v ia i) ! q = v_heap v ! q"
    using Cons.prems by (simp_all add: put_inode_heap DirectoryInode_GetChild_def nth_append)
  show ?case
  proof (cases "Inode_Type (v_heap v ! q) = InodeTypeDirectory \<and> DirectoryInode_GetChild T (v_heap v) q n \<noteq> None")
    case True
    then obtain c where "DirectoryInode_GetChild T (v_heap v) q n = Some c" by blast
    then show ?thesis
      using Cons.IH [of c] GetChild_child(1) [OF T h Cons.prems the_dir_DirI] True by (simp add: g t)
  qed (auto simp: g t)
qed simp

lemma added_put:
  assumes T: "treemap_laws T" and v: "volume_ok T v"
    and n: "inodeAllocator_Next (v_inodeAlloc v) = (ia, Inr num)" and i: "Inode_Number i = num" "fresh_node T i"
  shows "added T v (put_inode v ia i) ns"
  using volume_ok_put [OF assms] lookup_path_put [OF T v, of "v_root v"] v
  by (auto simp: added_def volume_ok_def put_inode_def keeps_nodes_def nth_append)

lemma volume_ok_alloc:
  "volume_ok T v \<Longrightarrow> inodeAllocator_Next (v_inodeAlloc v) = (ia, Inl e) \<Longrightarrow> ia = v_inodeAlloc v"
  by (simp add: inodeAllocator_Next_def split: if_splits)

lemma NewDirectoryInode_cases:
  assumes "NewDirectoryInode T ia validator = (ia', r)"
  obtains e where "r = Inl e" "inodeAllocator_Next ia = (ia', Inl e)"
  | d where "r = Inr d" "inodeAllocator_Next ia = (ia', Inr (d_ino d))" "fresh_node T (DirI d)"
proof (cases "inodeAllocator_Next ia")
  case (Pair a s)
  show thesis
  proof (cases s)
    case (Inl e)
    then show thesis using assms Pair that(1) [of e] by (simp add: NewDirectoryInode_def)
  next
    case (Inr num)
    then have "\<exists>d. r = Inr d \<and> d_ino d = num \<and> fresh_node T (DirI d)" "a = ia'"
      using assms Pair by (auto simp: NewDirectoryInode_def)
    then show thesis using that(2) Pair Inr by metis
  qed
qed

lemma addLeaf_loop_added:
  assumes T: "treemap_laws T" and "volume_ok T v" and "lookup_path T (v_heap v) (v_root v) pre = Some p"
    and "Inode_Type (v_heap v ! p) = InodeTypeDirectory" and "leaf < length (v_heap v)"
    and "orphan (v_heap v ! leaf)" "Inode_Type (v_heap v ! leaf) \<noteq> InodeTypeDirectory"
    and "addLeaf_loop T v p parts leaf = (v', err)" "parts \<noteq> []"
  shows "added T v v' (pre @ parts) \<and>
    (err = None \<longrightarrow> lookup_path T (v_heap v') (v_root v') (pre @ parts) = Some leaf \<and>
       lookup_path T (v_heap v) (v_root v) (pre @ parts) = None)"
  using assms(2-)
proof (induction parts arbitrary: v pre p)
  case Nil
  then show ?case by simp
next
  case (Cons part parts)
  note v = Cons.prems(1) and p = Cons.prems(2,3) and leaf = Cons.prems(4-6)
  have root: "Inode_Type (v_heap v ! v_root v) = InodeTypeDirectory" "v_root v < length (v_heap v)"
    using v by (auto simp: volume_ok_def)
  show ?case
  proof (cases parts)
    case Nil
    show ?thesis
    proof (cases "DirectoryInode_AddChild T (v_heap v) p part leaf")
      case (Inl e)
      then show ?thesis using Cons.prems(7) Nil added_refl [OF v] by auto
    next
      case (Inr h)
      have "p \<noteq> leaf" "leaf \<noteq> v_root v" "Inode_Type (v_heap v ! leaf) = InodeTypeDirectory \<longrightarrow> p < leaf \<and> fresh_node T (v_heap v ! leaf)"
        using leaf p root by auto
      note ac = volume_AddChild [OF T v p leaf(1) this(1,2) leaf(2) this(3) Inr]
      have e: "v' = v\<lparr>v_heap := h\<rparr>" "err = None" using Cons.prems(7) Nil Inr by auto
      have "added T v v' (pre @ [part])"
        using ac(1,2,4,6) by (auto simp: added_def e)
      then show ?thesis using ac(4,6) Nil by (simp add: e)
    qed
  next
    case (Cons part' parts')
    note ps = Cons
    let ?g = "DirectoryInode_GetChild T (v_heap v) p part"
    show ?thesis
    proof (cases ?g)
      case (Some r)
      then have look: "lookup_path T (v_heap v) (v_root v) (pre @ [part]) = Some r"
        using p by (simp add: lookup_path_append)
      show ?thesis
      proof (cases "Inode_Type (v_heap v ! r) = InodeTypeDirectory")
        case True
        then show ?thesis
          using Cons.IH [OF v look True leaf] Cons.prems(7) Some ps by simp
      next
        case False
        then show ?thesis using Cons.prems(7) Some ps added_refl [OF v] by auto
      qed
    next
      case None
      obtain ia nd where nd: "NewDirectoryInode T (v_inodeAlloc v) (v_nameValidator v) = (ia, nd)" by fastforce
      then show ?thesis
      proof (cases rule: NewDirectoryInode_cases)
        case (1 e)
        have "v' = v" using Cons.prems(7) None ps nd 1 volume_ok_alloc [OF v 1(2)] by simp
        then show ?thesis using Cons.prems(7) None ps nd 1 added_refl [OF v] by auto
      next
        case (2 d)
        let ?v = "put_inode v ia (DirI d)" and ?r = "length (v_heap v)"
        have num: "Inode_Number (DirI d) = d_ino d" by simp
        note v1 = volume_ok_put [OF T v 2(2) num 2(3)] and ad1 = added_put [OF T v 2(2) num 2(3)]
        have same: "v_heap ?v ! q = v_heap v ! q" if "q < length (v_heap v)" for q
          using that by (simp add: put_inode_heap nth_append)
        have plen: "p < length (v_heap v)"
          using lookup_path_valid [OF T _ root(2) p(1)] v by (simp add: volume_ok_def)
        have new: "v_heap ?v ! ?r = stamped (v_now v) (DirI d)" "?r < length (v_heap ?v)" by (simp_all add: put_inode_heap)
        have look: "lookup_path T (v_heap ?v) (v_root ?v) pre = Some p" "Inode_Type (v_heap ?v ! p) = InodeTypeDirectory"
          using p lookup_path_put [OF T v root(2), of ia "DirI d" pre] same [OF plen] by (simp_all add: put_inode_def)
        have r: "p \<noteq> ?r" "?r \<noteq> v_root ?v" "orphan (v_heap ?v ! ?r)"
          "Inode_Type (v_heap ?v ! ?r) = InodeTypeDirectory \<longrightarrow> p < ?r \<and> fresh_node T (v_heap ?v ! ?r)"
          using plen root(2) 2(3) unfolding new(1) by (auto simp: put_inode_def intro: fresh_orphan)
        show ?thesis
        proof (cases "DirectoryInode_AddChild T (v_heap ?v) p part ?r")
          case (Inl e)
          then show ?thesis using Cons.prems(7) None ps nd 2(1) ad1 by (auto simp: Let_def)
        next
          case (Inr h)
          note ac = volume_AddChild [OF T v1 look new(2) r Inr]
          let ?v2 = "?v\<lparr>v_heap := h\<rparr>"
          have ad2: "added T ?v ?v2 (pre @ part # parts)"
            using ac(1,2,4,6) by (auto simp: added_def)
          have dirr: "Inode_Type (h ! ?r) = InodeTypeDirectory"
          proof -
            have "same_node (v_heap ?v ! ?r) (h ! ?r)" using ac(2) new(2) by (simp add: keeps_nodes_def)
            then show ?thesis using same_node_type new(1) by (metis stamped_simps(2) Inode_Type.simps(2))
          qed
          have lf: "h ! leaf = v_heap v ! leaf"
            using ac(5) [of leaf] leaf p same [OF leaf(1)] by auto
          have rest: "addLeaf_loop T ?v2 ?r parts leaf = (v', err)"
            using Cons.prems(7) None ps nd 2(1) Inr by (simp add: Let_def)
          have look2: "lookup_path T (v_heap ?v2) (v_root ?v2) (pre @ [part]) = Some ?r"
            using ac(4) by simp
          have "added T ?v2 v' ((pre @ [part]) @ parts) \<and>
            (err = None \<longrightarrow> lookup_path T (v_heap v') (v_root v') ((pre @ [part]) @ parts) = Some leaf \<and>
             lookup_path T (v_heap ?v2) (v_root ?v2) ((pre @ [part]) @ parts) = None)"
            by (rule Cons.IH [OF ac(1) look2]) (use dirr lf leaf ac(3) rest ps in \<open>auto simp: put_inode_heap\<close>)
          moreover have "lookup_path T (v_heap v) (v_root v) (pre @ part # parts) = None"
            using None p by (simp add: lookup_path_append)
          ultimately show ?thesis using added_trans [OF added_trans [OF ad1 ad2]] by simp
        qed
      qed
    qed
  qed
qed

section \<open>Files and links\<close>

text \<open>The path that \<open>addLeaf\<close> takes from a name.\<close>

definition path_parts :: "gostring \<Rightarrow> gostring list" where
  "path_parts pth =
     (let cleaned = path_Clean pth
      in split_slash (if cleaned \<noteq> [] \<and> hd cleaned = slash then tl cleaned else cleaned))"

lemma split_slash_ne: "split_slash s \<noteq> []"
  by (induction s) (auto split: list.splits)

lemma path_parts_ne: "path_parts pth \<noteq> []"
  by (simp add: path_parts_def Let_def split_slash_ne)

lemma addLeaf_eq: "addLeaf T v pth leaf = addLeaf_loop T v (v_root v) (path_parts pth) leaf"
  by (simp add: addLeaf_def path_parts_def Let_def)

text \<open>What the call with a node \<open>i\<close> does: the summary that both properties below state.\<close>

definition adds_path :: "('m, dirEntry) treemap \<Rightarrow> 'm Volume \<Rightarrow> gostring list \<Rightarrow> ('m Inode \<Rightarrow> bool) \<Rightarrow>
    'm Volume \<Rightarrow> goerr option \<Rightarrow> bool" where
  "adds_path T v ns is_leaf v' err \<longleftrightarrow>
     volume_ok T v' \<and>
     (\<forall>ms r. lookup_path T (v_heap v) (v_root v) ms = Some r \<longrightarrow>
        lookup_path T (v_heap v') (v_root v') ms = Some r \<and> same_node (v_heap v ! r) (v_heap v' ! r)) \<and>
     (\<forall>ms. \<not> prefix ms ns \<longrightarrow> lookup_path T (v_heap v') (v_root v') ms = lookup_path T (v_heap v) (v_root v) ms) \<and>
     (err = None \<longrightarrow> lookup_path T (v_heap v) (v_root v) ns = None \<and>
        (\<exists>c. lookup_path T (v_heap v') (v_root v') ns = Some c \<and> is_leaf (v_heap v' ! c)))"

lemma adds_path_node:
  assumes T: "treemap_laws T" and v: "volume_ok T v"
    and n: "inodeAllocator_Next (v_inodeAlloc v) = (ia, Inr num)" and i: "Inode_Number i = num" "fresh_node T i"
      "Inode_Type i \<noteq> InodeTypeDirectory"
    and a: "addLeaf T (put_inode v ia i) pth (length (v_heap v)) = (v', err)"
    and leaf: "\<And>j. same_node (stamped (v_now v) i) j \<Longrightarrow> is_leaf j"
  shows "adds_path T v (path_parts pth) is_leaf v' err"
proof -
  let ?v = "put_inode v ia i" and ?c = "length (v_heap v)"
  note v1 = volume_ok_put [OF T v n i(1,2)] and ad1 = added_put [OF T v n i(1,2)]
  have root: "Inode_Type (v_heap ?v ! v_root ?v) = InodeTypeDirectory" using v1 by (auto simp: volume_ok_def)
  have new: "v_heap ?v ! ?c = stamped (v_now v) i" "?c < length (v_heap ?v)" by (simp_all add: put_inode_heap)
  have or: "orphan (v_heap ?v ! ?c)" "Inode_Type (v_heap ?v ! ?c) \<noteq> InodeTypeDirectory"
    unfolding new(1) using i(2,3) by (simp_all add: fresh_orphan)
  have look: "lookup_path T (v_heap ?v) (v_root ?v) [] = Some (v_root ?v)" by simp
  have l: "added T ?v v' ([] @ path_parts pth) \<and>
    (err = None \<longrightarrow> lookup_path T (v_heap v') (v_root v') ([] @ path_parts pth) = Some ?c \<and>
       lookup_path T (v_heap ?v) (v_root ?v) ([] @ path_parts pth) = None)"
    by (rule addLeaf_loop_added [OF T v1 look root new(2) or a [unfolded addLeaf_eq] path_parts_ne])
  have all: "added T v v' (path_parts pth)" using added_trans [OF ad1] l by simp
  have old: "lookup_path T (v_heap ?v) (v_root ?v) ns = lookup_path T (v_heap v) (v_root v) ns" for ns
    using lookup_path_put [OF T v, of "v_root v"] v by (simp add: volume_ok_def put_inode_def)
  have valid: "r < length (v_heap v)" if "lookup_path T (v_heap v) (v_root v) ms = Some r" for ms r
    using lookup_path_valid [OF T _ _ that] v by (simp add: volume_ok_def)
  have "same_node (v_heap ?v ! ?c) (v_heap v' ! ?c)" using l new(2) by (simp add: added_def keeps_nodes_def)
  then have "is_leaf (v_heap v' ! ?c)" using leaf new(1) by simp
  then show ?thesis
    using all l old valid by (auto simp: adds_path_def added_def keeps_nodes_def)
qed

lemma adds_path_refused: "volume_ok T v \<Longrightarrow> adds_path T v ns P v (Some e)"
  by (simp add: adds_path_def)

lemma AddFile_adds:
  assumes T: "treemap_laws T" and v: "volume_ok T v" and a: "AddFile T v pth obj = (v', err)"
  shows "adds_path T v (path_parts pth) (\<lambda>i. \<exists>f. i = FileI f \<and> f_o f = obj) v' err"
proof (cases "inodeAllocator_Next (v_inodeAlloc v)")
  case (Pair ia r)
  show ?thesis
  proof (cases r)
    case (Inl e)
    then have "v' = v" "err = Some e"
      using a Pair volume_ok_alloc [OF v] by (auto simp: AddFile_def NewFileInode_def)
    then show ?thesis using adds_path_refused [OF v] by simp
  next
    case (Inr num)
    define f where "f = \<lparr>f_ino = num, f_perm = 292, f_created = epoch, f_modified = epoch,
                     f_nlink = 0, f_start = 0, f_o = obj\<rparr>"
    have al: "addLeaf T (put_inode v ia (FileI f)) pth (length (v_heap v)) = (v', err)"
      using a by (simp add: AddFile_def NewFileInode_def Pair Inr f_def)
    show ?thesis
    proof (rule adds_path_node [OF T v Pair [unfolded Inr] _ _ _ al])
      fix j assume "same_node (stamped (v_now v) (FileI f)) j"
      then show "\<exists>f. j = FileI f \<and> f_o f = obj" by (cases j) (auto simp: stamped_def f_def)
    qed (simp_all add: f_def)
  qed
qed

lemma AddSymlink_adds:
  assumes T: "treemap_laws T" and v: "volume_ok T v" and a: "AddSymlink T v pth target = (v', err)"
  shows "adds_path T v (path_parts pth) (\<lambda>i. \<exists>s. i = SymI s \<and> s_target s = target \<and> target \<noteq> []) v' err"
proof (cases "inodeAllocator_Next (v_inodeAlloc v)")
  case (Pair ia r)
  show ?thesis
  proof (cases r)
    case (Inl e)
    then have "v' = v" "err = Some e"
      using a Pair volume_ok_alloc [OF v] by (auto simp: AddSymlink_def NewSymlinkInode_def)
    then show ?thesis using adds_path_refused [OF v] by simp
  next
    case (Inr num)
    define s where "s = \<lparr>s_ino = num, s_perm = 511, s_created = epoch, s_modified = epoch,
                          s_parent = None, s_target = target\<rparr>"
    show ?thesis
    proof (cases "target = []")
      case True
      then have e: "v' = v\<lparr>v_inodeAlloc := ia\<rparr>" "err = Some (Err ''symlink target cannot be empty'')"
        using a by (auto simp: AddSymlink_def NewSymlinkInode_def Pair Inr)
      have "volume_ok T v'"
      proof -
        have "num = ino_next (v_inodeAlloc v)" "\<not> exhausted (v_inodeAlloc v)" "ino_next ia = num + 1" "exhausted ia = (num + 1 = 0)"
          using Pair Inr by (auto simp: inodeAllocator_Next_def split: if_splits)
        then show ?thesis
          using v word_succ [of num] by (auto simp: volume_ok_def e)
      qed
      then show ?thesis by (simp add: adds_path_def e)
    next
      case False
      have al: "addLeaf T (put_inode v ia (SymI s)) pth (length (v_heap v)) = (v', err)"
        using a False by (simp add: AddSymlink_def NewSymlinkInode_def Pair Inr s_def)
      show ?thesis
      proof (rule adds_path_node [OF T v Pair [unfolded Inr] _ _ _ al])
        fix j assume "same_node (stamped (v_now v) (SymI s)) j"
        then show "\<exists>s. j = SymI s \<and> s_target s = target \<and> target \<noteq> []"
          using False by (cases j) (auto simp: stamped_def s_def)
      qed (simp_all add: s_def)
    qed
  qed
qed

section \<open>Volumes that can be built\<close>

text \<open>The volumes a client can make: a new one, then any calls, whether they succeed or not.\<close>

inductive built :: "('m, dirEntry) treemap \<Rightarrow> 'm Volume \<Rightarrow> bool" for T where
  new_built: "new_volume T now validator = Inr v \<Longrightarrow> built T v"
| add_file: "built T v \<Longrightarrow> built T (fst (AddFile T v pth obj))"
| add_symlink: "built T v \<Longrightarrow> built T (fst (AddSymlink T v pth target))"
| set_pvd: "built T v \<Longrightarrow> built T (v\<lparr>v_pvd := p\<rparr>)"

lemma built_ok:
  assumes T: "treemap_laws T" and b: "built T v"
  shows "volume_ok T v"
  using b
proof (induction rule: built.induct)
  case (new_built now validator v)
  then show ?case using new_volume_ok [OF T, of now validator] by auto
next
  case (add_file v pth obj)
  then show ?case using AddFile_adds [OF T, of v pth obj] by (cases "AddFile T v pth obj") (simp add: adds_path_def)
next
  case (add_symlink v pth target)
  then show ?case using AddSymlink_adds [OF T, of v pth target] by (cases "AddSymlink T v pth target") (simp add: adds_path_def)
next
  case (set_pvd v p)
  then show ?case unfolding volume_ok_def by auto
qed

text \<open>
  C21: the invariant of a volume under construction.  After any calls, also failed ones, the
  nodes have different inode numbers, every directory's name map and child map agree, its
  entries have different identifiers, each child knows its parent, and exactly one path leads
  to a directory.
\<close>

theorem built_volume_invariant:
  assumes "treemap_laws T" "built T v"
  shows "volume_ok T v \<and> distinct (map Inode_Number (v_heap v)) \<and>
    (\<forall>ms ns p. lookup_path T (v_heap v) (v_root v) ms = Some p \<longrightarrow> lookup_path T (v_heap v) (v_root v) ns = Some p \<longrightarrow>
       Inode_Type (v_heap v ! p) = InodeTypeDirectory \<longrightarrow> ms = ns)"
proof -
  note ok = built_ok [OF assms]
  then show ?thesis
    using path_unique [OF assms(1)] by (auto simp: volume_ok_def heap_ok_def)
qed

definition sample_object :: Object where
  "sample_object = \<lparr>Size = 3, ReadAt = bytes_ReadAt [1, 2, 3], URL = []\<rparr>"

definition sample_new :: "(gostring \<times> dirEntry) list Volume" where
  "sample_new = (case new_volume list_treemap epoch (\<lambda>name. None) of Inr v \<Rightarrow> v)"

definition sample_added :: "(gostring \<times> dirEntry) list Volume \<times> goerr option" where
  "sample_added = AddFile list_treemap sample_new [0x61, 0x2F, 0x62] sample_object"

lemma sample_built: "built list_treemap sample_new" "built list_treemap (fst sample_added)"
proof -
  obtain v where "new_volume (list_treemap :: ((gostring \<times> dirEntry) list, dirEntry) treemap) epoch (\<lambda>name. None) = Inr v"
    using new_volume_ok [OF list_treemap_laws] by blast
  then show "built list_treemap sample_new"
    unfolding sample_new_def by (auto intro: new_built)
  then show "built list_treemap (fst sample_added)" unfolding sample_added_def by (rule add_file)
qed

theorem built_volume_invariant_witness:
  "volume_ok list_treemap (fst sample_added) \<and> distinct (map Inode_Number (v_heap (fst sample_added)))"
  using built_volume_invariant [OF list_treemap_laws sample_built(2)] by blast

text \<open>
  C22: adding a file.  On an error or not, the volume stays well formed, every path leads where
  it led, and only prefixes of the new path can appear (the directories made on the way,
  which an error leaves behind); on success the path was free and now leads to a file node
  with the object.
\<close>

theorem AddFile_adds_path:
  assumes "treemap_laws T" "volume_ok T v" "AddFile T v pth obj = (v', err)"
  shows "adds_path T v (path_parts pth) (\<lambda>i. \<exists>f. i = FileI f \<and> f_o f = obj) v' err"
  by (rule AddFile_adds [OF assms])

lemmas volume_eval = sample_new_def new_volume_def NewDirectoryInode_def NewInodeAllocator_def
  inodeAllocator_Next_def AddSymlink_def NewSymlinkInode_def AddFile_def NewFileInode_def addLeaf_def
  path_Clean_def slash_def dot_def dotdot_def put_inode_def list_treemap_def DirectoryInode_GetChild_def
  DirectoryInode_AddChild_def IdentifierAllocator_Next_def NewIdentifierAllocator_def Let_def

theorem AddFile_adds_path_witness:
  "adds_path list_treemap sample_new [[0x61], [0x62]] (\<lambda>i. \<exists>f. i = FileI f \<and> f_o f = sample_object)
     (fst sample_added) None"
proof -
  have a: "AddFile list_treemap sample_new [0x61, 0x2F, 0x62] sample_object = (fst sample_added, None)"
    by (rule prod_eqI) (simp_all add: sample_added_def volume_eval)
  have p: "path_parts [0x61, 0x2F, 0x62] = [[0x61], [0x62]]"
    by (simp add: path_parts_def path_Clean_def slash_def dot_def dotdot_def)
  show ?thesis
    using AddFile_adds_path [OF list_treemap_laws built_ok [OF list_treemap_laws sample_built(1)] a]
    unfolding p .
qed

text \<open>
  C23: adding a symbolic link, in the same terms; an empty target is refused.
\<close>

theorem AddSymlink_adds_path:
  assumes "treemap_laws T" "volume_ok T v" "AddSymlink T v pth target = (v', err)"
  shows "adds_path T v (path_parts pth) (\<lambda>i. \<exists>s. i = SymI s \<and> s_target s = target \<and> target \<noteq> []) v' err"
  by (rule AddSymlink_adds [OF assms])

theorem AddSymlink_adds_path_witness:
  "\<exists>v'. AddSymlink list_treemap sample_new [0x61] [0x62] = (v', None) \<and>
     adds_path list_treemap sample_new [[0x61]] (\<lambda>i. \<exists>s. i = SymI s \<and> s_target s = [0x62] \<and> [0x62] \<noteq> ([] :: gostring)) v' None"
proof -
  have "snd (AddSymlink list_treemap sample_new [0x61] [0x62]) = None"
    by (simp add: volume_eval)
  then obtain v' where a: "AddSymlink list_treemap sample_new [0x61] [0x62] = (v', None)" by (metis prod.collapse)
  have p: "path_parts [0x61] = [[0x61]]"
    by (simp add: path_parts_def path_Clean_def slash_def dot_def dotdot_def)
  show ?thesis
    using AddSymlink_adds_path [OF list_treemap_laws built_ok [OF list_treemap_laws sample_built(1)] a]
    unfolding p by (intro exI [of _ v'] conjI a)
qed

end
