(* ===== verification/Layout.thy ===== *)
theory Layout
  imports VolumeTree
begin

text \<open>
  The two passes of \<open>volume.go\<close> agree.  Addresses are assigned in one walk over the tree and
  the image is written in another; between them nodes change their addresses and nothing
  else, so records and continuation areas keep their lengths, and every extent is written at
  the address it was given.
\<close>

section \<open>Lengths do not depend on addresses\<close>

definition same_lens :: "SystemUseEntry list \<Rightarrow> SystemUseEntry list \<Rightarrow> bool" where
  "same_lens es es' \<longleftrightarrow> map Entry_Len es = map Entry_Len es'"

definition same_sector :: "continuationSector \<Rightarrow> continuationSector \<Rightarrow> bool" where
  "same_sector s s' \<longleftrightarrow> room s = room s' \<and> same_lens (sector_entries s) (sector_entries s')"

lemma same_lens_simps [simp]:
  "same_lens [] []" "same_lens es es" "same_lens (e # es) (e' # es') \<longleftrightarrow> Entry_Len e = Entry_Len e' \<and> same_lens es es'"
  "same_lens [] es \<longleftrightarrow> es = []" "same_lens es [] \<longleftrightarrow> es = []"
  by (auto simp: same_lens_def)

lemma same_lens_length: "same_lens es es' \<Longrightarrow> length es = length es'"
  unfolding same_lens_def by (metis length_map)

lemma same_lens_append: "same_lens es es' \<Longrightarrow> same_lens fs fs' \<Longrightarrow> same_lens (es @ fs) (es' @ fs')"
  by (simp add: same_lens_def)

lemma same_lens_take: "same_lens es es' \<Longrightarrow> same_lens (take n es) (take n es')"
  unfolding same_lens_def by (metis take_map)

lemma same_lens_update:
  "same_lens es es' \<Longrightarrow> Entry_Len e = Entry_Len e' \<Longrightarrow> same_lens (es[i := e]) (es'[i := e'])"
  by (simp add: same_lens_def map_update)

lemma same_lens_butlast: "same_lens es es' \<Longrightarrow> same_lens (butlast es) (butlast es')"
  unfolding same_lens_def by (metis map_butlast)

lemma same_lens_last: "same_lens es es' \<Longrightarrow> es \<noteq> [] \<Longrightarrow> Entry_Len (last es) = Entry_Len (last es')"
  unfolding same_lens_def by (metis last_map list.map_disc_iff)

lemma same_lens_empty: "same_lens es es' \<Longrightarrow> es = [] \<longleftrightarrow> es' = []"
  by auto

lemma same_lens_entries_len: "same_lens es es' \<Longrightarrow> entries_len es = entries_len es'"
proof -
  have e: "entries_len es = sum_list (map int (map Entry_Len es))" for es by (simp add: entries_len_def comp_def)
  show "same_lens es es' \<Longrightarrow> entries_len es = entries_len es'" unfolding e same_lens_def by simp
qed

lemma fit_same:
  assumes "fit limit tmp ovf base extra = (t, ov, b, e)" "same_lens tmp tmp'" "same_lens ovf ovf'"
  shows "\<exists>t' ov'. fit limit tmp' ovf' base extra = (t', ov', b, e) \<and> same_lens t t' \<and> same_lens ov ov'"
  using assms
proof (induction limit tmp ovf base extra arbitrary: tmp' ovf' rule: fit.induct)
  case (1 limit tmp ovf base extra)
  note ne = same_lens_empty [OF "1.prems"(2)]
  show ?case
  proof (cases "tmp \<noteq> [] \<and> base + extra > limit")
    case True
    then have l: "Entry_Len (last tmp) = Entry_Len (last tmp')" using same_lens_last "1.prems"(2) by blast
    have "fit limit (butlast tmp) (last tmp # ovf) (base - int (Entry_Len (last tmp))) ContinuationAreaEntryLength = (t, ov, b, e)"
      using "1.prems"(1) True by (simp add: fit.simps [of limit tmp] Let_def)
    from "1.IH" [OF True refl this same_lens_butlast [OF "1.prems"(2)], of "last tmp' # ovf'"]
    show ?thesis using True ne l "1.prems"(3) by (simp add: fit.simps [of limit tmp'] Let_def)
  next
    case False
    then show ?thesis using 1 ne by (auto simp: fit.simps [of limit tmp] fit.simps [of limit tmp'])
  qed
qed

lemma same_sector_fresh [simp]: "same_sector fresh_sector fresh_sector"
  by (simp add: same_sector_def)

lemma append_loop_same:
  assumes "append_loop start S es = Some r" "S \<noteq> []" "list_all2 same_sector S S'" "same_lens es es'"
  shows "\<exists>T' ce'. append_loop start' S' es' = Some (T', ce') \<and> list_all2 same_sector (fst r) T' \<and> length S \<le> length T'"
proof -
  have "S \<noteq> [] \<Longrightarrow> list_all2 same_sector S S' \<Longrightarrow> same_lens es es' \<Longrightarrow>
    \<exists>T' ce'. append_loop start' S' es' = Some (T', ce') \<and> list_all2 same_sector (fst r) T' \<and> length S \<le> length T'" for S' es'
  proof (rule append_loop.raw_induct [OF _ assms(1), where P = "\<lambda>start S es r. \<forall>S' es'. S \<noteq> [] \<longrightarrow> list_all2 same_sector S S' \<longrightarrow>
      same_lens es es' \<longrightarrow> (\<exists>T' ce'. append_loop start' S' es' = Some (T', ce') \<and> list_all2 same_sector (fst r) T' \<and> length S \<le> length T')",
      rule_format], goal_cases)
    case (1 loop start S es r S' es')
    note ih = 1(4) and body = 1(5) and ne = 1(6) and S = 1(7) and es = 1(8)
    let ?k = "length S - 1" and ?k' = "length S' - 1"
    have k: "?k < length S" "?k' = ?k" "length S' = length S" "S' \<noteq> []"
      using ne list_all2_lengthD [OF S] by (cases S; auto)+
    have sec: "same_sector (S ! ?k) (S' ! ?k)" using S k by (simp add: list_all2_nthD)
    then have rm: "room (S' ! ?k) = room (S ! ?k)"
      and sl: "same_lens (sector_entries (S ! ?k)) (sector_entries (S' ! ?k))" by (simp_all add: same_sector_def)
    have en: "entries_len es' = entries_len es" using same_lens_entries_len [OF es] by simp
    obtain t ov b e where f: "fit (room (S ! ?k)) es [] (entries_len es) 0 = (t, ov, b, e)" by (metis prod_cases4)
    obtain t' ov' where f': "fit (room (S ! ?k)) es' [] (entries_len es) 0 = (t', ov', b, e)"
      and t: "same_lens t t'" and ov: "same_lens ov ov'" using fit_same [OF f es] by auto
    note emp = same_lens_empty [OF t] same_lens_empty [OF ov]
    let ?upd = "\<lambda>S t n. S[?k := \<lparr>room = room (S ! ?k) - n, sector_entries = sector_entries (S ! ?k) @ t\<rparr>]"
    have upd: "list_all2 same_sector (?upd S t n) (?upd S' t' n)" for n
      using S sec same_lens_append [OF sl t] by (intro list_all2_update_cong) (simp_all add: same_sector_def)
    have unf: "append_loop start' S' es' =
      (if t' = [] then append_loop start' (S' @ [fresh_sector]) es'
       else if ov' = [] then Some (?upd S' t' b, NewContinuationAreaEntry (start' + of_nat ?k)
              (of_int (int LogicalBlockSize - room (S ! ?k))) (of_int b))
       else Option.bind (append_loop start' (?upd S' t' (b + e)) ov') (\<lambda>(S'', ce).
              Some (S''[?k := (S'' ! ?k)\<lparr>sector_entries := sector_entries (S'' ! ?k) @ [CE ce]\<rparr>],
                    NewContinuationAreaEntry (start' + of_nat ?k)
                      (of_int (int LogicalBlockSize - room (S ! ?k))) (of_int (b + e)))))"
      by (subst append_loop.simps) (simp only: Let_def k(2) rm en f' prod.case)
    consider (grow) "t = []" | (last) "t \<noteq> []" "ov = []" | (more) "t \<noteq> []" "ov \<noteq> []" by blast
    then show ?case
    proof cases
      case grow
      then have l: "loop start (S @ [fresh_sector]) es = Some r" using body f by (simp add: Let_def)
      have "list_all2 same_sector (S @ [fresh_sector]) (S' @ [fresh_sector])"
        using S by (simp add: list_all2_appendI)
      from ih [OF l _ this es] show ?thesis using grow emp unf by (metis Nil_is_append_conv length_append le_add1 le_trans not_Cons_self2)
    next
      case last
      then have "fst r = ?upd S t b" using body f by (auto simp: Let_def)
      then show ?thesis using upd [of b] last emp unf by (intro exI) (auto simp: k)
    next
      case more
      then obtain T ce where l: "loop start (?upd S t (b + e)) ov = Some (T, ce)"
        and r: "fst r = T[?k := (T ! ?k)\<lparr>sector_entries := sector_entries (T ! ?k) @ [CE ce]\<rparr>]"
        using body f by (auto simp: Let_def split: bind_splits)
      obtain T' ce' where T': "append_loop start' (?upd S' t' (b + e)) ov' = Some (T', ce')"
        "list_all2 same_sector T T'" "length S \<le> length T'"
        using ih [OF l _ upd ov] ne by auto
      have kT: "?k < length T'" "length T = length T'" using T'(3) k(1) list_all2_lengthD [OF T'(2)] by auto
      have "same_sector (T ! ?k) (T' ! ?k)" using T'(2) kT by (simp add: list_all2_nthD)
      then have "list_all2 same_sector (fst r)
          (T'[?k := (T' ! ?k)\<lparr>sector_entries := sector_entries (T' ! ?k) @ [CE ce']\<rparr>])"
        unfolding r using T'(2)
        by (intro list_all2_update_cong) (simp_all add: same_sector_def same_lens_append)
      then show ?thesis using more emp unf T'(1,3) by auto
    qed
  qed
  then show ?thesis using assms by blast
qed

definition same_area :: "ContinuationArea \<Rightarrow> ContinuationArea \<Rightarrow> bool" where
  "same_area ca ca' \<longleftrightarrow> list_all2 same_sector (ca_sectors ca) (ca_sectors ca')"

lemma same_area_refl: "same_area (NewContinuationArea a) (NewContinuationArea b)"
  by (simp add: same_area_def NewContinuationArea_def)

lemma Append_same:
  assumes "ContinuationArea_Append ca es = Some (ca2, ce)" "same_area ca ca'" "same_lens es es'"
  shows "\<exists>ca2' ce'. ContinuationArea_Append ca' es' = Some (ca2', ce') \<and> same_area ca2 ca2' \<and> (ce = None \<longleftrightarrow> ce' = None)"
proof (cases "es = []")
  case True
  then have "es' = []" using same_lens_empty [OF assms(3)] by simp
  then show ?thesis using assms True by (auto simp: ContinuationArea_Append_def)
next
  case False
  let ?S = "if ca_sectors ca = [] then [fresh_sector] else ca_sectors ca"
  let ?S' = "if ca_sectors ca' = [] then [fresh_sector] else ca_sectors ca'"
  have ne: "es' \<noteq> []" "?S \<noteq> []" using False same_lens_empty [OF assms(3)] by auto
  obtain r where r: "append_loop (ca_start ca) ?S es = Some r" "ca_sectors ca2 = fst r" "ce \<noteq> None"
    using assms(1) False by (auto simp: ContinuationArea_Append_def Let_def)
  have "list_all2 same_sector ?S ?S'"
    using assms(2) list_all2_lengthD [of same_sector "ca_sectors ca" "ca_sectors ca'"] by (auto simp: same_area_def)
  from append_loop_same [OF r(1) ne(2) this assms(3), of "ca_start ca'"]
  show ?thesis using r ne by (auto simp: ContinuationArea_Append_def same_area_def Let_def)
qed

lemma same_area_Len: "same_area ca ca' \<Longrightarrow> ContinuationArea_Len ca = ContinuationArea_Len ca'"
  using list_all2_lengthD by (fastforce simp: same_area_def ContinuationArea_Len_def)

lemma pop_overflow_same:
  assumes "pop_overflow use ovf base extra = Inr (u, ov)" "same_lens use use'" "same_lens ovf ovf'"
  shows "\<exists>u' ov'. pop_overflow use' ovf' base extra = Inr (u', ov') \<and> same_lens u u' \<and> same_lens ov ov'"
  using assms
proof (induction use ovf base extra arbitrary: use' ovf' rule: pop_overflow.induct)
  case (1 use ovf base extra)
  note ne = same_lens_empty [OF "1.prems"(2)]
  show ?case
  proof (cases "base + extra > int MaxDirectoryRecordLen")
    case True
    then have u: "use \<noteq> []" using "1.prems"(1) by (auto simp: pop_overflow.simps [of use])
    then have l: "Entry_Len (last use) = Entry_Len (last use')" using same_lens_last "1.prems"(2) by blast
    have "pop_overflow (butlast use) (last use # ovf) (base - int (Entry_Len (last use))) ContinuationAreaEntryLength = Inr (u, ov)"
      using "1.prems"(1) True u by (simp add: pop_overflow.simps [of use])
    from "1.IH" [OF True u this same_lens_butlast [OF "1.prems"(2)], of "last use' # ovf'"]
    show ?thesis using True ne u l "1.prems"(3) by (simp add: pop_overflow.simps [of use'])
  next
    case False
    then show ?thesis using "1.prems" by (auto simp: pop_overflow.simps [of use] pop_overflow.simps [of use'])
  qed
qed

text \<open>Nodes and heaps that differ in their addresses only.\<close>

fun erase :: "'m Inode \<Rightarrow> 'm Inode" where
  "erase (FileI f) = FileI (f\<lparr>f_start := 0\<rparr>)"
| "erase (DirI d) = DirI (d\<lparr>d_start := 0, d_size := 0\<rparr>)"
| "erase (SymI s) = SymI s"

lemma erase_keeps:
  "Inode_Type (erase i) = Inode_Type i" "Inode_Number (erase i) = Inode_Number i" "Inode_Perm (erase i) = Inode_Perm i"
  "Inode_Created (erase i) = Inode_Created i" "Inode_Modified (erase i) = Inode_Modified i"
  "Inode_IsRoot (erase i) = Inode_IsRoot i" "AdditionalSystemUseEntries pr (erase i) = AdditionalSystemUseEntries pr i"
  by (cases i; simp)+

lemma erase_dir:
  "Inode_Type i = InodeTypeDirectory \<Longrightarrow> d_children (the_dir (erase i)) = d_children (the_dir i)"
  "Inode_Type i = InodeTypeDirectory \<Longrightarrow> d_parent (the_dir (erase i)) = d_parent (the_dir i)"
  by (cases i; simp)+

definition moved :: "'m heap \<Rightarrow> 'm heap \<Rightarrow> bool" where
  "moved h h' \<longleftrightarrow> map erase h = map erase h'"

lemma moved_refl [simp]: "moved h h"
  by (simp add: moved_def)

lemma moved_trans: "moved h h' \<Longrightarrow> moved h' h'' \<Longrightarrow> moved h h''"
  by (simp add: moved_def)

lemma moved_sym: "moved h h' \<Longrightarrow> moved h' h"
  by (simp add: moved_def)

lemma moved_update: "erase i = erase (h ! p) \<Longrightarrow> moved h (h[p := i])"
  unfolding moved_def by (metis list_update_id map_update)

lemma moved_length: "moved h h' \<Longrightarrow> length h = length h'"
  unfolding moved_def by (metis length_map)

lemma moved_nth: "moved h h' \<Longrightarrow> p < length h \<Longrightarrow> erase (h ! p) = erase (h' ! p)"
  unfolding moved_def by (metis length_map nth_map)

lemma erase_facts:
  assumes "erase i = erase j"
  shows "Inode_Type i = Inode_Type j" "Inode_Number i = Inode_Number j" "Inode_Perm i = Inode_Perm j"
    "Inode_Created i = Inode_Created j" "Inode_Modified i = Inode_Modified j" "Inode_IsRoot i = Inode_IsRoot j"
    "AdditionalSystemUseEntries pr i = AdditionalSystemUseEntries pr j"
  by (metis assms erase_keeps)+

lemma moved_type: "moved h h' \<Longrightarrow> p < length h \<Longrightarrow> Inode_Type (h' ! p) = Inode_Type (h ! p)"
  using moved_nth erase_facts(1) by metis

lemma moved_dir:
  assumes "moved h h'" "p < length h" "Inode_Type (h ! p) = InodeTypeDirectory"
  shows "d_children (the_dir (h' ! p)) = d_children (the_dir (h ! p))" "d_parent (the_dir (h' ! p)) = d_parent (the_dir (h ! p))"
  using assms erase_dir moved_nth [OF assms(1,2)] moved_type [OF assms(1,2)] by metis+

lemma moved_children:
  "moved h h' \<Longrightarrow> p < length h \<Longrightarrow> Inode_Type (h ! p) = InodeTypeDirectory \<Longrightarrow> child_entries T h' p = child_entries T h p"
  by (simp add: child_entries_def moved_dir)

text \<open>In a well-formed heap the children of a directory are nodes of it.\<close>

lemma child_entries_valid:
  assumes "heap_ok T h" "p < length h" "Inode_Type (h ! p) = InodeTypeDirectory" "e \<in> set (child_entries T h p)"
  shows "de_child (snd e) < length h" "child_of p (de_child (snd e)) (h ! de_child (snd e))"
proof -
  have "h ! p = DirI (the_dir (h ! p))" by (rule the_dir_DirI [OF assms(3)])
  then have "dir_ok T h p (the_dir (h ! p))" using assms(1,2) by (simp add: heap_ok_def)
  from dir_okD(1,2) [OF this] show "de_child (snd e) < length h" "child_of p (de_child (snd e)) (h ! de_child (snd e))"
    using assms(4) by (simp_all add: child_entries_def)
qed

lemma moved_Nlink:
  assumes h: "heap_ok T h" and m: "moved h h'" and p: "p < length h"
  shows "Inode_Nlink T h' (h' ! p) = Inode_Nlink T h (h ! p)"
proof (cases "h ! p")
  case (DirI d)
  then have t: "Inode_Type (h ! p) = InodeTypeDirectory" by simp
  obtain d' where d': "h' ! p = DirI d'" using moved_type [OF m p] t the_dir_DirI by metis
  have "filter (\<lambda>(ident, dent). Inode_Type (h' ! de_child dent) = InodeTypeDirectory) (child_entries T h p)
      = filter (\<lambda>(ident, dent). Inode_Type (h ! de_child dent) = InodeTypeDirectory) (child_entries T h p)"
    using moved_type [OF m] child_entries_valid(1) [OF h p t] by (intro filter_cong) auto
  then show ?thesis
    using moved_children [OF m p t, of T] DirI d' by (simp add: Directory_Nlink_def child_entries_def)
next
  case (FileI f)
  then obtain g where "h' ! p = FileI g" "f\<lparr>f_start := 0\<rparr> = g\<lparr>f_start := 0\<rparr>"
    using moved_nth [OF m p] by (cases "h' ! p") auto
  then show ?thesis using FileI by (cases f; cases g) simp
next
  case (SymI s)
  then show ?thesis using moved_nth [OF m p] by (cases "h' ! p") auto
qed

lemma moved_entries:
  assumes "heap_ok T h" "moved h h'" "p < length h"
  shows "InodeSystemUseEntries pr T h' ident name (h' ! p) = InodeSystemUseEntries pr T h ident name (h ! p)"
proof -
  note f = erase_facts [OF moved_nth [OF assms(2,3), symmetric]]
  show ?thesis
    unfolding InodeSystemUseEntries_def Inode_mode_def f moved_Nlink [OF assms] ..
qed

text \<open>The parts of a moved node: as many, of the same sizes, when both calls return.\<close>

definition small_dirs :: "'m heap \<Rightarrow> bool" where
  "small_dirs h \<longleftrightarrow> (\<forall>d. DirI d \<in> set h \<longrightarrow> unat (d_size d) \<le> MaxPartSize)"

lemma InodeParts_same:
  assumes "InodeParts s n = Inr ps" "InodeParts s' n = Inr ps'"
  shows "length ps' = length ps"
  using InodeParts_spec [of s n] InodeParts_spec [of s' n] assms by simp

lemma small_parts:
  assumes "unat n \<le> MaxPartSize"
  shows "InodeParts s (ucast (n :: u32)) = Inr [\<lparr>part_start = s, part_size = n\<rparr>]"
proof -
  have "unat (ucast n :: u64) = unat n" 
    using unat_bounds(3) [of n] by (simp add: unsigned_ucast_eq unsigned_take_bit_eq take_bit_nat_eq_self)
  then have "\<not> (ucast n :: u64) > 4294965248" using assms by (simp add: word_less_nat_alt MaxPartSize_def)
  moreover have "ucast (ucast n :: u64) = n"
    by (rule bit_word_eqI) (simp add: bit_simps)
  ultimately show ?thesis by (simp add: InodeParts_step)
qed

lemma moved_parts:
  assumes m: "moved h h'" and p: "p < length h" and s: "small_dirs h" "small_dirs h'"
    and ps: "Inode_Parts (h ! p) = Inr ps" "Inode_Parts (h' ! p) = Inr ps'"
  shows "length ps' = length ps"
proof (cases "h ! p")
  case (FileI f)
  then obtain g where g: "h' ! p = FileI g" "f\<lparr>f_start := 0\<rparr> = g\<lparr>f_start := 0\<rparr>"
    using moved_nth [OF m p] by (cases "h' ! p") auto
  have "f_o f = f_o g" using arg_cong [OF g(2), of f_o] by simp
  then have "InodeParts (f_start f) (of_int (Size (f_o g))) = Inr ps" "InodeParts (f_start g) (of_int (Size (f_o g))) = Inr ps'"
    using ps by (simp_all add: FileI g(1))
  then show ?thesis by (rule InodeParts_same)
next
  case (DirI d)
  then obtain e where e: "h' ! p = DirI e" using moved_nth [OF m p] by (cases "h' ! p") auto
  have "DirI d \<in> set h" "DirI e \<in> set h'" using DirI e p moved_length [OF m] by (metis nth_mem)+
  then have "unat (d_size d) \<le> MaxPartSize" "unat (d_size e) \<le> MaxPartSize" using s by (simp_all add: small_dirs_def)
  from small_parts [OF this(1), of "d_start d"] small_parts [OF this(2), of "d_start e"]
  have "Inr ps = Inr [\<lparr>part_start = d_start d, part_size = d_size d\<rparr>]" "Inr ps' = Inr [\<lparr>part_start = d_start e, part_size = d_size e\<rparr>]"
    using ps unfolding DirI e Inode_Parts.simps by simp_all
  then show ?thesis by simp
next
  case (SymI s)
  then have "h' ! p = SymI s" using moved_nth [OF m p] by (cases "h' ! p") auto
  then show ?thesis using ps SymI by simp
qed

lemma Parts_nonempty: "Inode_Parts i = Inr ps \<Longrightarrow> ps \<noteq> []"
proof -
  have "InodeParts s n = Inr ps \<Longrightarrow> ps \<noteq> []" for s n ps
    using InodeParts_spec [of s n] part_count_pos [of "unat n"] by auto
  then show "Inode_Parts i = Inr ps \<Longrightarrow> ps \<noteq> []" by (cases i) auto
qed

section \<open>Records keep their lengths\<close>

lemma part_record_Len:
  "DirectoryRecord_Len (part_record ident i part later use) =
     34 + length ident - length ident mod 2 + sum_list (map Entry_Len use)"
  by (simp add: DirectoryRecord_Len_def part_record_def Let_def)

lemma store_overflow_same:
  assumes "store_overflow use ov arr ca = Some (len, arr1, ca1)" "same_lens use use'" "same_lens ov ov'"
    "same_lens arr arr'" "same_area ca ca'"
  shows "\<exists>arr1' ca1'. store_overflow use' ov' arr' ca' = Some (len, arr1', ca1') \<and> same_lens arr1 arr1' \<and> same_area ca1 ca1'"
proof (cases "ov = []")
  case True
  then show ?thesis using assms same_lens_length [OF assms(2)] by (auto simp: store_overflow_def)
next
  case False
  then obtain ce where a: "ContinuationArea_Append ca ov = Some (ca1, Some ce)" "len = Suc (length use)"
    "arr1 = arr[length use := CE ce]"
    using assms(1) by (auto simp: store_overflow_def split: bind_splits option.splits)
  obtain ca1' ce' where "ContinuationArea_Append ca' ov' = Some (ca1', ce')" "same_area ca1 ca1'" "ce' \<noteq> None"
    using Append_same [OF a(1) assms(5,3)] by auto
  then show ?thesis
    using False same_lens_length [OF assms(2)] same_lens_length [OF assms(3)] a(2,3) same_lens_update [OF assms(4), of "CE ce"]
    by (auto simp: store_overflow_def)
qed

lemma split_parts_same:
  assumes "split_parts ident i parts arr ca = Some (Inr (lens, arr2, ca2))"
    and "same_lens arr arr'" "same_area ca ca'" "length parts' = length parts"
  shows "\<exists>arr2' ca2'. split_parts ident i' parts' arr' ca' = Some (Inr (lens, arr2', ca2')) \<and>
     same_lens arr2 arr2' \<and> same_area ca2 ca2'"
  using assms
proof (induction parts arbitrary: lens arr ca parts' arr' ca')
  case Nil
  then show ?case by auto
next
  case (Cons part parts)
  obtain part' ps' where ps: "parts' = part' # ps'" "length ps' = length parts"
    using Cons.prems(4) by (cases parts') auto
  obtain use ov len arr1 ca1 lens' where st:
    "pop_overflow arr [] (int (DirectoryRecord_Len (part_record ident i part (parts \<noteq> []) arr))) 0 = Inr (use, ov)"
    "store_overflow use ov arr ca = Some (len, arr1, ca1)"
    "split_parts ident i parts arr1 ca1 = Some (Inr (lens', arr2, ca2))" "lens = len # lens'"
    using Cons.prems(1) unfolding split_parts_Cons by blast
  have base': "DirectoryRecord_Len (part_record ident i' part' (ps' \<noteq> []) arr') = DirectoryRecord_Len (part_record ident i part (parts \<noteq> []) arr)"
    using Cons.prems(2) by (simp add: part_record_Len same_lens_def)
  obtain use' ov' where pop': "pop_overflow arr' [] (int (DirectoryRecord_Len (part_record ident i part (parts \<noteq> []) arr))) 0 = Inr (use', ov')"
    "same_lens use use'" "same_lens ov ov'"
    using pop_overflow_same [OF st(1) Cons.prems(2)] by auto
  obtain arr1' ca1' where so: "store_overflow use' ov' arr' ca' = Some (len, arr1', ca1')" "same_lens arr1 arr1'" "same_area ca1 ca1'"
    using store_overflow_same [OF st(2) pop'(2,3) Cons.prems(2,3)] by blast
  obtain arr2' ca2' where "split_parts ident i' ps' arr1' ca1' = Some (Inr (lens', arr2', ca2'))" "same_lens arr2 arr2'" "same_area ca2 ca2'"
    using Cons.IH [OF st(3) so(2,3) ps(2)] by blast
  then show ?case unfolding ps(1) split_parts_Cons base' using pop'(1) so(1) st(4) by blast
qed

lemma split_parts_length: "split_parts ident i parts arr ca = Some (Inr (lens, arr2, ca2)) \<Longrightarrow> length lens = length parts"
  by (induction parts arbitrary: lens arr ca) (auto simp: split_parts_Cons simp del: split_parts.simps(2))

lemma part_records_Len:
  "length lens = length parts \<Longrightarrow> map DirectoryRecord_Len (part_records ident i parts lens arr) =
     map (\<lambda>n. 34 + length ident - length ident mod 2 + sum_list (map Entry_Len (take n arr))) lens"
  by (induction ident i parts lens arr rule: part_records.induct) (auto simp: part_record_Len)

definition same_record_lens :: "DirectoryRecord list \<Rightarrow> DirectoryRecord list \<Rightarrow> bool" where
  "same_record_lens rs rs' \<longleftrightarrow> map DirectoryRecord_Len rs = map DirectoryRecord_Len rs'"

lemma splitInode_Inr:
  "splitInode pr T h ident name i ca = Some (Inr (recs, ca2)) \<longleftrightarrow>
    (\<exists>entries parts lens arr. InodeSystemUseEntries pr T h ident name i = Inr entries \<and> Inode_Parts i = Inr parts \<and>
       split_parts ident i parts entries ca = Some (Inr (lens, arr, ca2)) \<and> recs = part_records ident i parts lens arr)"
proof -
  have m: "map_sum id f z = Inr y \<longleftrightarrow> (\<exists>w. z = Inr w \<and> f w = y)"
    for f :: "nat list \<times> SystemUseEntry list \<times> ContinuationArea \<Rightarrow> DirectoryRecord list \<times> ContinuationArea"
      and z :: "goerr + _" and y
    by (cases z) auto
  show ?thesis unfolding splitInode_def by (auto simp: m split: sum.splits)
qed

lemma splitInode_same:
  assumes h: "heap_ok T h" and m: "moved h h'" and p: "p < length h" and s: "small_dirs h" "small_dirs h'"
    and a: "splitInode pr T h ident name (h ! p) ca = Some (Inr (recs, ca2))"
    and b: "splitInode pr T h' ident name (h' ! p) ca' = Some (Inr (recs', ca2'))" and ca: "same_area ca ca'"
  shows "same_record_lens recs recs'" "same_area ca2 ca2'" "recs \<noteq> []"
proof -
  obtain entries parts lens arr where A: "InodeSystemUseEntries pr T h ident name (h ! p) = Inr entries"
    "Inode_Parts (h ! p) = Inr parts" "split_parts ident (h ! p) parts entries ca = Some (Inr (lens, arr, ca2))"
    "recs = part_records ident (h ! p) parts lens arr"
    using a unfolding splitInode_Inr by blast
  obtain parts' lens' arr' where B: "Inode_Parts (h' ! p) = Inr parts'"
    "split_parts ident (h' ! p) parts' entries ca' = Some (Inr (lens', arr', ca2'))"
    "recs' = part_records ident (h' ! p) parts' lens' arr'"
    using b A(1) unfolding splitInode_Inr moved_entries [OF h m p] by auto
  have len: "length parts' = length parts" by (rule moved_parts [OF m p s A(2) B(1)])
  have r: "lens' = lens" "same_lens arr arr'" "same_area ca2 ca2'"
    using split_parts_same [OF A(3) _ ca len, of entries "h' ! p"] B(2) by auto
  then show "same_area ca2 ca2'" by blast
  have l: "length lens = length parts" "length lens = length parts'"
    using split_parts_length [OF A(3)] len by simp_all
  have "sum_list (map Entry_Len (take n arr)) = sum_list (map Entry_Len (take n arr'))" for n
    using same_lens_take [OF r(2), of n] by (simp add: same_lens_def)
  then show "same_record_lens recs recs'"
    unfolding same_record_lens_def A(4) B(3) r(1) part_records_Len [OF l(1)] part_records_Len [OF l(2)] by simp
  show "recs \<noteq> []"
    using Parts_nonempty [OF A(2)] l(1) A(4) by (cases parts; cases lens) auto
qed

section \<open>Directories keep their lengths\<close>

definition member_refs :: "('m, dirEntry) treemap \<Rightarrow> 'm heap \<Rightarrow> ref \<Rightarrow> (gostring \<times> gostring \<times> ref) list" where
  "member_refs T h p =
     ([0], dot, p) # ([1], dotdot, case d_parent (the_dir (h ! p)) of None \<Rightarrow> p | Some q \<Rightarrow> q) #
     map (\<lambda>(ident, dent). (ident, de_name dent, de_child dent)) (child_entries T h p)"

lemma directory_members_refs:
  "directory_members T h p = map (\<lambda>(ident, name, q). (ident, name, h ! q)) (member_refs T h p)"
  by (simp add: directory_members_def member_refs_def comp_def case_prod_unfold split: option.split)

text \<open>A directory that the walk can reach.\<close>

definition reached :: "'m heap \<Rightarrow> ref \<Rightarrow> bool" where
  "reached h p \<longleftrightarrow> p < length h \<and> Inode_Type (h ! p) = InodeTypeDirectory \<and>
     (\<forall>q. d_parent (the_dir (h ! p)) = Some q \<longrightarrow> q < length h)"

lemma member_refs_valid:
  assumes "heap_ok T h" "reached h p" "(ident, name, q) \<in> set (member_refs T h p)"
  shows "q < length h"
proof -
  have "de_child (snd e) < length h" if "e \<in> set (child_entries T h p)" for e
    using child_entries_valid(1) [OF assms(1) _ _ that] assms(2) by (simp add: reached_def)
  then show ?thesis using assms(2,3) by (force simp: member_refs_def reached_def split: option.splits)
qed

lemma moved_member_refs:
  "moved h h' \<Longrightarrow> reached h p \<Longrightarrow> member_refs T h' p = member_refs T h p"
  by (simp add: member_refs_def reached_def moved_dir moved_children)

lemma split_all_Cons:
  "split_all pr T h ((ident, name, i) # xs) ca = Some (Inr (recs, ca2)) \<longleftrightarrow>
    (\<exists>recs1 ca1 recs2. splitInode pr T h ident name i ca = Some (Inr (recs1, ca1)) \<and>
       split_all pr T h xs ca1 = Some (Inr (recs2, ca2)) \<and> recs = recs1 @ recs2)"
proof -
  have m: "map_sum id f z = Inr y \<longleftrightarrow> (\<exists>w. z = Inr w \<and> f w = y)"
    for f :: "DirectoryRecord list \<times> ContinuationArea \<Rightarrow> DirectoryRecord list \<times> ContinuationArea"
      and z :: "goerr + _" and y
    by (cases z) auto
  show ?thesis by (auto simp: m split: sum.splits bind_splits)
qed

lemma same_record_lens_append:
  "same_record_lens a a' \<Longrightarrow> same_record_lens b b' \<Longrightarrow> same_record_lens (a @ b) (a' @ b')"
  by (simp add: same_record_lens_def)

lemma split_all_same:
  assumes h: "heap_ok T h" "moved h h'" "small_dirs h" "small_dirs h'"
    and "\<forall>(ident, name, q) \<in> set xs. q < length h"
    and "split_all pr T h (map (\<lambda>(ident, name, q). (ident, name, h ! q)) xs) ca = Some (Inr (recs, ca2))"
    and "split_all pr T h' (map (\<lambda>(ident, name, q). (ident, name, h' ! q)) xs) ca' = Some (Inr (recs', ca2'))"
    and "same_area ca ca'"
  shows "same_record_lens recs recs' \<and> same_area ca2 ca2' \<and> (xs \<noteq> [] \<longrightarrow> recs \<noteq> [])"
  using assms(5-)
proof (induction xs arbitrary: ca ca' recs recs')
  case Nil
  then show ?case by (simp add: same_record_lens_def)
next
  case (Cons x xs)
  obtain ident name q where x: "x = (ident, name, q)" by (cases x)
  obtain r1 c1 r2 where A: "splitInode pr T h ident name (h ! q) ca = Some (Inr (r1, c1))"
    "split_all pr T h (map (\<lambda>(ident, name, q). (ident, name, h ! q)) xs) c1 = Some (Inr (r2, ca2))" "recs = r1 @ r2"
    using Cons.prems(2) unfolding x list.map prod.case split_all_Cons by blast
  obtain r1' c1' r2' where B: "splitInode pr T h' ident name (h' ! q) ca' = Some (Inr (r1', c1'))"
    "split_all pr T h' (map (\<lambda>(ident, name, q). (ident, name, h' ! q)) xs) c1' = Some (Inr (r2', ca2'))" "recs' = r1' @ r2'"
    using Cons.prems(3) unfolding x list.map prod.case split_all_Cons by blast
  have q: "q < length h" using Cons.prems(1) by (simp add: x)
  note one = splitInode_same [OF h(1,2) q h(3,4) A(1) B(1) Cons.prems(4)]
  show ?case
    using Cons.IH [OF _ A(2) B(2) one(2)] Cons.prems(1) one(1,3) A(3) B(3)
    by (auto intro: same_record_lens_append)
qed

lemma ToDirectory_same:
  assumes h: "heap_ok T h" "moved h h'" "small_dirs h" "small_dirs h'" and p: "reached h p"
    and a: "ToDirectory pr T h p = Some (Inr (d, c))" and b: "ToDirectory pr T h' p = Some (Inr (d', c'))"
  shows "same_record_lens (Records d) (Records d')" "same_area c c'" "Records d \<noteq> []"
proof -
  obtain s where A: "split_all pr T h (map (\<lambda>(ident, name, q). (ident, name, h ! q)) (member_refs T h p)) (NewContinuationArea s)
      = Some (Inr (Records d, c))"
    using a by (auto simp: ToDirectory_def toDirectory_def directory_members_refs split: sum.splits) (case_tac z; auto)
  obtain s' where B: "split_all pr T h' (map (\<lambda>(ident, name, q). (ident, name, h' ! q)) (member_refs T h p)) (NewContinuationArea s')
      = Some (Inr (Records d', c'))"
    using b moved_member_refs [OF h(2) p, of T]
    by (auto simp: ToDirectory_def toDirectory_def directory_members_refs split: sum.splits) (case_tac z; auto)
  have "\<forall>(ident, name, q) \<in> set (member_refs T h p). q < length h"
    using member_refs_valid [OF h(1) p] by auto
  from split_all_same [OF h this A B same_area_refl]
  show "same_record_lens (Records d) (Records d')" "same_area c c'" "Records d \<noteq> []"
    by (simp_all add: member_refs_def)
qed

text \<open>The bytes of a directory that was written without an error.\<close>

fun records_end :: "nat \<Rightarrow> nat list \<Rightarrow> nat" where
  "records_end written [] = 0"
| "records_end written (l # ls) =
     (let capacity = LogicalBlockSize - written mod LogicalBlockSize; n = (if l > capacity then capacity else 0) + l
      in n + records_end (written + n) ls)"

lemma length_WriteTo_Len:
  assumes "snd (DirectoryRecord_WriteTo rec) = None"
  shows "length (fst (DirectoryRecord_WriteTo rec)) = DirectoryRecord_Len rec"
  using assms by (auto simp: DirectoryRecord_WriteTo_def checked_def emit_fail_def emit_def Let_def split: if_splits option.splits)

lemma snd_ethen: "snd (ethen a b) = None \<longleftrightarrow> snd a = None \<and> snd b = None"
  by (auto simp: ethen_def split: option.splits)

lemma fst_ethen: "snd a = None \<Longrightarrow> fst (ethen a b) = fst a @ fst b"
  by (simp add: ethen_def)

lemma length_write_records:
  "snd (write_records written recs) = None \<Longrightarrow>
   length (fst (write_records written recs)) = records_end written (map DirectoryRecord_Len recs)"
proof (induction written recs rule: write_records.induct)
  case (2 written rec recs)
  let ?l = "DirectoryRecord_Len rec" and ?cap = "LogicalBlockSize - written mod LogicalBlockSize"
  let ?e = "ethen (emit (if ?l > ?cap then pad ?cap else [])) (DirectoryRecord_WriteTo rec)"
  have l: "\<not> ?l > LogicalBlockSize" using "2.prems" by (auto simp: Let_def emit_fail_def)
  have e: "snd ?e = None" and w: "snd (write_records (written + length (fst ?e)) recs) = None"
    using "2.prems" l by (simp_all only: write_records.simps Let_def if_False snd_ethen)
  have len: "length (fst ?e) = (if ?l > ?cap then ?cap else 0) + ?l"
    using e length_WriteTo_Len [of rec] by (simp add: snd_ethen fst_ethen)
  from "2.IH" [OF refl l refl refl refl w]
  show ?case
    using l e by (simp only: write_records.simps Let_def if_False fst_ethen length_append list.map records_end.simps len)
qed simp

lemma length_Directory_WriteTo:
  assumes "snd (Directory_WriteTo d) = None"
  shows "length (fst (Directory_WriteTo d)) = records_end 0 (map DirectoryRecord_Len (Records d))"
    "length (fst (Directory_WriteTo d)) \<le> MaxPartSize"
proof -
  have "snd (write_records 0 (Records d)) = None"
    using assms by (auto simp: Directory_WriteTo_def Let_def split: option.splits)
  moreover from this have "fst (Directory_WriteTo d) = fst (write_records 0 (Records d))"
    "length (fst (write_records 0 (Records d))) \<le> MaxPartSize"
    using assms by (auto simp: Directory_WriteTo_def Let_def split: if_splits)
  ultimately show "length (fst (Directory_WriteTo d)) = records_end 0 (map DirectoryRecord_Len (Records d))"
    "length (fst (Directory_WriteTo d)) \<le> MaxPartSize"
    using length_write_records [of 0 "Records d"] by simp_all
qed

lemma records_end_pos: "rs \<noteq> [] \<Longrightarrow> 0 < records_end w (map DirectoryRecord_Len rs)"
proof (cases rs)
  case (Cons r rs')
  have "0 < DirectoryRecord_Len r" using record_Len_ge [of r] by simp
  then show ?thesis by (simp add: Cons Let_def)
qed simp

end
