(* ===== verification/LevelOrder.thy ===== *)
theory LevelOrder
  imports Layout
begin

text \<open>
  The order in which \<open>VisitDirectories\<close> and \<open>VisitFiles\<close> of \<open>directoryinode.go\<close> visit a
  well-formed tree: every directory once, parents first, the same in every walk as long as
  visitors change nothing but addresses.
\<close>

section \<open>The order of the walk\<close>

text \<open>
  \<open>walks T h q xs\<close>: with the queue \<open>q\<close>, the relationships visited are \<open>xs\<close>, in that order.
\<close>

inductive walks :: "('m, dirEntry) treemap \<Rightarrow> 'm heap \<Rightarrow> Relationship list \<Rightarrow> Relationship list \<Rightarrow> bool"
  for T h where
  walks_end: "walks T h [] []"
| walks_step: "Inode_Type (h ! rel_Child r) = InodeTypeDirectory \<Longrightarrow>
    walks T h (rs @ subdirectories T h (rel_Child r)) xs \<Longrightarrow> walks T h (r # rs) (r # xs)"

fun run_visits :: "'s visitor \<Rightarrow> Relationship list \<Rightarrow> 's \<Rightarrow> ('s \<times> goerr option) option" where
  "run_visits visit [] s = Some (s, None)"
| "run_visits visit (r # rs) s =
     Option.bind (visit r s) (\<lambda>(s', e). if e \<noteq> None then Some (s', e) else run_visits visit rs s')"

definition root_rel :: "ref \<Rightarrow> Relationship" where
  "root_rel d = \<lparr>rel_Parent = d, rel_Identifier = [0], rel_Name = dot, rel_Child = d\<rparr>"

lemma subdirectories_valid:
  assumes h: "heap_ok T h" and p: "reached h p" and r: "r \<in> set (subdirectories T h p)"
  shows "reached h (rel_Child r)" "p < rel_Child r" "d_parent (the_dir (h ! rel_Child r)) = Some p"
proof -
  obtain e where e: "e \<in> set (child_entries T h p)" "rel_Child r = de_child (snd e)"
    "Inode_Type (h ! de_child (snd e)) = InodeTypeDirectory"
    using r by (auto simp: subdirectories_def entry_rel_def)
  have v: "de_child (snd e) < length h" "child_of p (de_child (snd e)) (h ! de_child (snd e))"
    using child_entries_valid [OF h _ _ e(1)] p by (simp_all add: reached_def)
  obtain d where "h ! de_child (snd e) = DirI d" using the_dir_DirI [OF e(3)] by blast
  then show "reached h (rel_Child r)" "p < rel_Child r" "d_parent (the_dir (h ! rel_Child r)) = Some p"
    using v p by (simp_all add: e reached_def)
qed

lemma subdirectories_distinct:
  assumes "heap_ok T h" "reached h p"
  shows "distinct (map rel_Child (subdirectories T h p))"
proof -
  have "h ! p = DirI (the_dir (h ! p))" using assms(2) by (simp add: reached_def the_dir_DirI)
  then have "dir_ok T h p (the_dir (h ! p))" using assms by (simp add: heap_ok_def reached_def)
  then have "distinct (map (de_child \<circ> snd) (child_entries T h p))"
    by (simp add: dir_ok_def child_entries_def Let_def)
  then show ?thesis
    by (simp add: subdirectories_def entry_rel_def comp_def distinct_map_filter)
qed

lemma moved_subdirectories:
  assumes "heap_ok T h" "moved h h'" "reached h p"
  shows "subdirectories T h' p = subdirectories T h p"
proof -
  have p: "p < length h" "Inode_Type (h ! p) = InodeTypeDirectory" using assms(3) by (simp_all add: reached_def)
  have "filter (\<lambda>e. Inode_Type (h' ! de_child (snd e)) = InodeTypeDirectory) (child_entries T h p)
      = filter (\<lambda>e. Inode_Type (h ! de_child (snd e)) = InodeTypeDirectory) (child_entries T h p)"
    using moved_type [OF assms(2)] child_entries_valid(1) [OF assms(1) p] by (intro filter_cong) auto
  then show ?thesis unfolding subdirectories_def moved_children [OF assms(2) p] by simp
qed

text \<open>The walk ends: subdirectories stand behind their parents, and there are finitely many nodes.\<close>

function below :: "('m, dirEntry) treemap \<Rightarrow> 'm heap \<Rightarrow> ref \<Rightarrow> nat" where
  "below T h p = Suc (sum_list (map (\<lambda>r. if p < rel_Child r \<and> rel_Child r < length h then below T h (rel_Child r) else 0)
     (subdirectories T h p)))"
  by auto
termination by (relation "measure (\<lambda>(T, h, p). length h - p)") auto

declare below.simps [simp del]

lemma below_eq:
  assumes "heap_ok T h" "reached h p"
  shows "below T h p = Suc (sum_list (map (\<lambda>r. below T h (rel_Child r)) (subdirectories T h p)))"
proof -
  have "map (\<lambda>r. if p < rel_Child r \<and> rel_Child r < length h then below T h (rel_Child r) else 0) (subdirectories T h p)
      = map (\<lambda>r. below T h (rel_Child r)) (subdirectories T h p)"
    using subdirectories_valid [OF assms] by (intro map_cong) (auto simp: reached_def)
  then show ?thesis unfolding below.simps [of T h p] by (rule arg_cong)
qed

lemma walks_exists:
  assumes "heap_ok T h" "\<forall>r \<in> set q. reached h (rel_Child r)"
  shows "\<exists>xs. walks T h q xs"
  using assms(2)
proof (induction "sum_list (map (\<lambda>r. below T h (rel_Child r)) q)" arbitrary: q rule: less_induct)
  case less
  show ?case
  proof (cases q)
    case Nil
    then show ?thesis using walks_end by blast
  next
    case (Cons r rs)
    let ?subs = "subdirectories T h (rel_Child r)"
    have r: "reached h (rel_Child r)" using less.prems by (simp add: Cons)
    have "\<forall>x \<in> set (rs @ ?subs). reached h (rel_Child x)"
      using less.prems subdirectories_valid(1) [OF assms(1) r] by (auto simp: Cons)
    moreover have "(\<Sum>x\<leftarrow>rs @ ?subs. below T h (rel_Child x)) < (\<Sum>x\<leftarrow>q. below T h (rel_Child x))"
      using below_eq [OF assms(1) r] by (simp add: Cons)
    ultimately obtain xs where "walks T h (rs @ ?subs) xs" using less.hyps by blast
    then show ?thesis using r walks_step unfolding Cons reached_def by blast
  qed
qed

lemma walks_reached:
  "walks T h q xs \<Longrightarrow> heap_ok T h \<Longrightarrow> \<forall>r \<in> set q. reached h (rel_Child r) \<Longrightarrow> \<forall>r \<in> set xs. reached h (rel_Child r)"
proof (induction rule: walks.induct)
  case (walks_step r rs xs)
  then show ?case using subdirectories_valid(1) by fastforce
qed simp

text \<open>Every directory is visited once.\<close>

definition occ :: "ref \<Rightarrow> Relationship list \<Rightarrow> nat" where
  "occ c xs = length (filter (\<lambda>x. rel_Child x = c) xs)"

lemma occ_simps [simp]:
  "occ c [] = 0" "occ c (x # xs) = (if rel_Child x = c then 1 else 0) + occ c xs" "occ c (xs @ ys) = occ c xs + occ c ys"
  by (simp_all add: occ_def)

lemma occ_distinct: "(\<And>c. occ c xs \<le> 1) \<Longrightarrow> distinct (map rel_Child xs)"
proof (induction xs)
  case (Cons x xs)
  have "occ c xs \<le> 1" for c using Cons.prems [of c] by (simp split: if_splits)
  moreover have "rel_Child x \<notin> rel_Child ` set xs"
  proof
    assume "rel_Child x \<in> rel_Child ` set xs"
    then have "filter (\<lambda>y. rel_Child y = rel_Child x) xs \<noteq> []" by (auto simp: filter_empty_conv)
    then have "0 < occ (rel_Child x) xs" by (simp add: occ_def)
    then show False using Cons.prems [of "rel_Child x"] by simp
  qed
  ultimately show ?case using Cons.IH by simp
qed simp

lemma distinct_occ: "distinct (map rel_Child xs) \<Longrightarrow> occ c xs \<le> 1"
proof (induction xs)
  case (Cons x xs)
  have "rel_Child x = c \<Longrightarrow> occ c xs = 0" using Cons.prems by (auto simp: occ_def filter_empty_conv) (metis image_eqI)
  then show ?case using Cons by auto
qed simp

lemma walks_occ:
  "walks T h q xs \<Longrightarrow> occ c xs = occ c q + sum_list (map (\<lambda>x. occ c (subdirectories T h (rel_Child x))) xs)"
  by (induction rule: walks.induct) auto

lemma walks_distinct:
  assumes w: "walks T h [root_rel d] xs" and h: "heap_ok T h" and d: "reached h d" "d_parent (the_dir (h ! d)) = None"
  shows "distinct (map rel_Child xs)"
proof (rule occ_distinct)
  have reach: "\<forall>x \<in> set xs. reached h (rel_Child x)"
    using walks_reached [OF w h] d(1) by (simp add: root_rel_def)
  let ?occ = "\<lambda>x c. occ c (subdirectories T h (rel_Child x))"
  have parent: "d_parent (the_dir (h ! c)) = Some (rel_Child x) \<and> rel_Child x < c" if "x \<in> set xs" "?occ x c \<noteq> 0" for x c
  proof -
    note x = that
    obtain r where "r \<in> set (subdirectories T h (rel_Child x))" "rel_Child r = c"
      using x(2) by (auto simp: occ_def filter_empty_conv)
    then show ?thesis using subdirectories_valid(2,3) [OF h] reach x(1) by blast
  qed
  have eq: "occ c xs = (if c = d then 1 else 0) + sum_list (map (\<lambda>x. ?occ x c) xs)" for c
    using walks_occ [OF w, of c] by (simp add: root_rel_def)
  have le: "sum_list (map (\<lambda>x. ?occ x c) xs) \<le> occ q xs" if "d_parent (the_dir (h ! c)) = Some q" for c q
  proof -
    have "?occ x c \<le> (if rel_Child x = q then 1 else 0)" if x: "x \<in> set xs" for x
    proof (cases "?occ x c = 0")
      case False
      then have "rel_Child x = q" using parent [OF x False] \<open>d_parent (the_dir (h ! c)) = Some q\<close> by simp
      moreover have "?occ x c \<le> 1" using distinct_occ subdirectories_distinct [OF h] reach x by blast
      ultimately show ?thesis by simp
    qed simp
    then have "sum_list (map (\<lambda>x. ?occ x c) xs) \<le> sum_list (map (\<lambda>x. if rel_Child x = q then 1 else 0) xs)"
      by (rule sum_list_mono)
    also have "\<dots> = occ q xs" by (induction xs) auto
    finally show ?thesis .
  qed
  show "occ c xs \<le> 1" for c
  proof (induction c rule: less_induct)
    case (less c)
    show ?case
    proof (cases "sum_list (map (\<lambda>x. ?occ x c) xs) = 0")
      case True
      show ?thesis unfolding eq [of c] True by simp
    next
      case False
      then obtain x where x: "x \<in> set xs" "?occ x c \<noteq> 0" by (metis (mono_tags, lifting) sum_list_eq_0_iff in_set_conv_decomp image_iff list.set_map)
      note p = parent [OF x]
      then have "c \<noteq> d" using d(2) by auto
      then show ?thesis using eq [of c] le [of c "rel_Child x"] less.IH [of "rel_Child x"] p by simp
    qed
  qed
qed

text \<open>Visitors that change nothing in the nodes but their addresses.\<close>

definition keeps :: "'m heap \<Rightarrow> ('s \<Rightarrow> 'm heap) \<Rightarrow> 's visitor \<Rightarrow> Relationship list \<Rightarrow> bool" where
  "keeps h heap_of visit xs \<longleftrightarrow>
     (\<forall>r \<in> set xs. \<forall>s s' e. moved h (heap_of s) \<longrightarrow> visit r s = Some (s', e) \<longrightarrow> moved h (heap_of s'))"

lemma keepsD: "keeps h heap_of visit xs \<Longrightarrow> r \<in> set xs \<Longrightarrow> moved h (heap_of s) \<Longrightarrow> visit r s = Some (s', e) \<Longrightarrow> moved h (heap_of s')"
  unfolding keeps_def by blast

lemma keeps_subset: "keeps h heap_of visit xs \<Longrightarrow> set ys \<subseteq> set xs \<Longrightarrow> keeps h heap_of visit ys"
  unfolding keeps_def by blast

text \<open>The loop of \<open>VisitDirectories\<close> visits them in that order, whatever the visitor writes into the nodes.\<close>

lemma visit_loop_walks:
  assumes Q: "queue_laws Q items" and h: "heap_ok T h"
    and keep: "keeps h heap_of visit xs"
    and w: "walks T h (items q) xs" and r: "\<forall>r \<in> set xs. reached h (rel_Child r)" and m: "moved h (heap_of s)"
  shows "visit_directories_loop T Q heap_of visit q s = run_visits visit xs s"
  using w keep r m
proof (induction "items q" xs arbitrary: q s rule: walks.induct)
  case walks_end
  then show ?case using queue_len [OF Q, of q] by (simp add: visit_directories_loop.simps [of T Q heap_of visit q s])
next
  case (walks_step r rs xs)
  note deq = queue_front [OF Q walks_step.hyps(4) [symmetric]]
  have ne: "0 < q_Len Q q" using queue_len [OF Q, of q] walks_step.hyps(4) by (metis list.distinct(1))
  have rr: "reached h (rel_Child r)" using walks_step.prems(2) by simp
  let ?q' = "snd (q_Dequeue Q q)"
  have rest: "visit_directories_loop T Q heap_of visit (enqueue_all Q (subdirectories T (heap_of s') (rel_Child r)) ?q') s'
      = run_visits visit xs s'" if "moved h (heap_of s')" for s'
  proof (rule walks_step.hyps(3))
    show "rs @ subdirectories T h (rel_Child r) = items (enqueue_all Q (subdirectories T (heap_of s') (rel_Child r)) ?q')"
      using moved_subdirectories [OF h that rr] by (simp add: items_enqueue_all [OF Q] deq)
    show "keeps h heap_of visit xs" using walks_step.prems(1) by (rule keeps_subset) auto
  qed (use walks_step.prems(2) that in auto)
  have ty: "Inode_Type (heap_of s' ! rel_Child r) = InodeTypeDirectory" if "moved h (heap_of s')" for s'
    using moved_type [OF that] rr by (simp add: reached_def)
  show ?case
  proof (cases "visit r s")
    case None
    then show ?thesis using ne by (subst visit_directories_loop.simps) (simp add: Let_def deq)
  next
    case (Some se)
    obtain s' e where se: "se = (s', e)" by (cases se)
    have mv: "moved h (heap_of s')" using keepsD [OF walks_step.prems(1), of r s s' e] walks_step.prems(3) Some se by simp
    show ?thesis
      using ne Some se rest [OF mv] ty [OF mv] by (subst visit_directories_loop.simps) (simp add: Let_def deq)
  qed
qed

section \<open>Files\<close>

text \<open>The visits of \<open>VisitFiles\<close>: an error of the visitor is dropped, a panic is not.\<close>

fun run_files :: "'s visitor \<Rightarrow> Relationship list \<Rightarrow> 's \<Rightarrow> ('s \<times> goerr option) option" where
  "run_files visit [] s = Some (s, None)"
| "run_files visit (r # rs) s =
     Option.bind (visit r s) (\<lambda>(s', e). if is_panic e then Some (s', e) else run_files visit rs s')"

definition files_in :: "'m heap \<Rightarrow> ref \<Rightarrow> (gostring \<times> dirEntry) list \<Rightarrow> Relationship list" where
  "files_in h p es = map (entry_rel p) (filter (\<lambda>e. Inode_Type (h ! de_child (snd e)) = InodeTypeFile) es)"

definition dirs_in :: "'m heap \<Rightarrow> (gostring \<times> dirEntry) list \<Rightarrow> ref list" where
  "dirs_in h es = map (de_child \<circ> snd) (filter (\<lambda>e. Inode_Type (h ! de_child (snd e)) = InodeTypeDirectory) es)"

definition files_of :: "('m, dirEntry) treemap \<Rightarrow> 'm heap \<Rightarrow> ref \<Rightarrow> Relationship list" where
  "files_of T h p = files_in h p (child_entries T h p)"

lemma run_files_append:
  "run_files visit (xs @ ys) s = Option.bind (run_files visit xs s) (\<lambda>(s', e). if is_panic e then Some (s', e) else run_files visit ys s')"
  by (induction xs arbitrary: s) (auto split: bind_splits)

lemma run_files_err: "run_files visit xs s = Some (s', e) \<Longrightarrow> e \<noteq> None \<longleftrightarrow> is_panic e"
  by (induction xs arbitrary: s) (auto split: bind_splits if_splits elim: is_panic.elims)

lemma visit_entries_run:
  assumes keep: "keeps h heap_of visit (files_in h p es)"
    and valid: "\<forall>e \<in> set es. de_child (snd e) < length h" and m: "moved h (heap_of s)"
  shows "case run_files visit (files_in h p es) s of
      None \<Rightarrow> visit_entries Q heap_of visit p es q s = None
    | Some (s', e) \<Rightarrow>
        if e \<noteq> None then \<exists>q'. visit_entries Q heap_of visit p es q s = Some (q', s', e)
        else moved h (heap_of s') \<and> visit_entries Q heap_of visit p es q s = Some (enqueue_all Q (dirs_in h es) q, s', None)"
  using assms
proof (induction es arbitrary: q s)
  case Nil
  then show ?case by (simp add: files_in_def dirs_in_def enqueue_all_def)
next
  case (Cons x es)
  have ty: "Inode_Type (heap_of s ! de_child (snd x)) = Inode_Type (h ! de_child (snd x))"
    using moved_type [OF Cons.prems(3)] Cons.prems(2) by simp
  have keep: "keeps h heap_of visit (files_in h p es)"
    using Cons.prems(1) by (rule keeps_subset) (auto simp: files_in_def)
  have valid: "\<forall>e \<in> set es. de_child (snd e) < length h" using Cons.prems(2) by simp
  note ih = Cons.IH [OF keep valid]
  show ?case
  proof (cases "Inode_Type (h ! de_child (snd x))")
    case InodeTypeDirectory
    then have fi: "files_in h p (x # es) = files_in h p es" "dirs_in h (x # es) = de_child (snd x) # dirs_in h es"
      and ve: "visit_entries Q heap_of visit p (x # es) q s = visit_entries Q heap_of visit p es (q_Enqueue Q (de_child (snd x)) q) s"
      using ty by (simp_all add: files_in_def dirs_in_def)
    have en: "enqueue_all Q (c # cs) q = enqueue_all Q cs (q_Enqueue Q c q)" for c cs by (simp add: enqueue_all_def)
    show ?thesis unfolding fi ve en by (rule ih [OF Cons.prems(3)])
  next
    case InodeTypeSymlink
    then have fi: "files_in h p (x # es) = files_in h p es" "dirs_in h (x # es) = dirs_in h es"
      and ve: "visit_entries Q heap_of visit p (x # es) q s = visit_entries Q heap_of visit p es q s"
      using ty by (simp_all add: files_in_def dirs_in_def)
    show ?thesis unfolding fi ve by (rule ih [OF Cons.prems(3)])
  next
    case InodeTypeFile
    then have fi: "files_in h p (x # es) = entry_rel p x # files_in h p es" "dirs_in h (x # es) = dirs_in h es"
      by (simp_all add: files_in_def dirs_in_def)
    show ?thesis
    proof (cases "visit (entry_rel p x) s")
      case None
      then show ?thesis using ty InodeTypeFile by (simp add: fi)
    next
      case (Some se)
      obtain s1 e1 where se: "se = (s1, e1)" by (cases se)
      have m1: "moved h (heap_of s1)" using keepsD [OF Cons.prems(1), of "entry_rel p x" s s1 e1] Cons.prems(3) Some se by (simp add: fi)
      show ?thesis
      proof (cases "is_panic e1")
        case True
        then have "e1 \<noteq> None" by (cases e1) auto
        then show ?thesis using True Some se ty InodeTypeFile by (simp add: fi)
      next
        case False
        have ve: "visit_entries Q heap_of visit p (x # es) q s = visit_entries Q heap_of visit p es q s1"
          "run_files visit (files_in h p (x # es)) s = run_files visit (files_in h p es) s1"
          using False Some se ty InodeTypeFile by (simp_all add: fi)
        show ?thesis unfolding ve fi(2) by (rule ih [OF m1])
      qed
    qed
  qed
qed

lemma visit_files_walks:
  assumes Q: "queue_laws Q items" and h: "heap_ok T h" and w: "walks T h rels xs"
    and r: "\<forall>r \<in> set xs. reached h (rel_Child r)" and items: "items q = map rel_Child rels"
    and keep: "keeps h heap_of visit (concat (map (files_of T h \<circ> rel_Child) xs))"
    and m: "moved h (heap_of s)"
  shows "visit_files_loop T Q heap_of visit q s = run_files visit (concat (map (files_of T h \<circ> rel_Child) xs)) s"
  using w r items keep m
proof (induction arbitrary: q s rule: walks.induct)
  case walks_end
  then show ?case using queue_len [OF Q, of q] by (simp add: visit_files_loop.simps [of T Q heap_of visit q s])
next
  case (walks_step r rs xs)
  note deq = queue_front [OF Q walks_step.prems(2) [unfolded list.map]]
  have ne: "0 < q_Len Q q" using queue_len [OF Q, of q] walks_step.prems(2) by simp
  let ?p = "rel_Child r" and ?q' = "snd (q_Dequeue Q q)"
  have p: "reached h ?p" using walks_step.prems(1) by simp
  then have pl: "?p < length h" "Inode_Type (h ! ?p) = InodeTypeDirectory" by (simp_all add: reached_def)
  have ch: "child_entries T (heap_of s) ?p = child_entries T h ?p"
    by (rule moved_children [OF walks_step.prems(4) pl])
  have valid: "\<forall>e \<in> set (child_entries T h ?p). de_child (snd e) < length h"
    using child_entries_valid(1) [OF h pl] by blast
  have keep1: "keeps h heap_of visit (files_in h ?p (child_entries T h ?p))"
    using walks_step.prems(3) by (rule keeps_subset) (auto simp: files_of_def)
  note run = visit_entries_run [OF keep1 valid walks_step.prems(4), of Q ?q']
  have dirs: "dirs_in h (child_entries T h ?p) = map rel_Child (subdirectories T h ?p)"
    by (simp add: dirs_in_def subdirectories_def entry_rel_def comp_def)
  show ?case
  proof (cases "run_files visit (files_of T h ?p) s")
    case None
    then show ?thesis
      using run ne by (subst visit_files_loop.simps) (simp add: Let_def deq ch run_files_append files_of_def)
  next
    case (Some se)
    obtain s1 e1 where se: "se = (s1, e1)" by (cases se)
    show ?thesis
    proof (cases "e1 = None")
      case False
      then have "is_panic e1" using run_files_err [of visit _ s s1 e1] Some se by blast
      then show ?thesis
        using run ne False Some se
        by (subst visit_files_loop.simps) (auto simp: Let_def deq ch run_files_append files_of_def)
    next
      case True
      have m1: "moved h (heap_of s1)" and ve: "visit_entries Q heap_of visit ?p (child_entries T h ?p) ?q' s =
          Some (enqueue_all Q (dirs_in h (child_entries T h ?p)) ?q', s1, None)"
        using run True Some se by (simp_all add: files_of_def)
      have it: "items (enqueue_all Q (dirs_in h (child_entries T h ?p)) ?q') = map rel_Child (rs @ subdirectories T h ?p)"
        by (simp add: items_enqueue_all [OF Q] deq dirs)
      have "visit_files_loop T Q heap_of visit (enqueue_all Q (dirs_in h (child_entries T h ?p)) ?q') s1
          = run_files visit (concat (map (files_of T h \<circ> rel_Child) xs)) s1"
        by (rule walks_step.IH [OF _ it _ m1])
          (use walks_step.prems(1) keeps_subset [OF walks_step.prems(3)] in auto)
      then show ?thesis
        using ne True Some se ve by (subst visit_files_loop.simps) (simp add: Let_def deq ch run_files_append)
    qed
  qed
qed

end
