(* ===== verification/Walk.thy ===== *)
theory Walk
  imports Continuation RockRidge Pvd
begin

text \<open>
  Reading an image: \<open>walk.go\<close>.  The \<open>io.ReaderAt\<close> behind a walker is the bytes it serves;
  \<open>section_bytes\<close> is what a \<open>SectionReader\<close> on it can read.
\<close>

section \<open>Following continuation entries\<close>

definition section_bytes :: "byte list \<Rightarrow> nat \<Rightarrow> nat \<Rightarrow> byte list" where
  "section_bytes img off n = take n (drop off img)"

text \<open>
  \<open>allSystemUseEntries\<close>.  The start is computed in \<open>uint32\<close>, as in the source.  A cycle of
  CE entries is a call that never returns: \<open>None\<close>.
\<close>

partial_function (option) system_use_loop ::
  "(rune \<Rightarrow> bool) \<Rightarrow> byte list \<Rightarrow> SystemUseEntry list \<Rightarrow> SystemUseEntry list
    \<Rightarrow> (goerr + SystemUseEntry list) option" where
  "system_use_loop is_print img unconsumed systemUse =
     (case unconsumed of
        [] \<Rightarrow> Some (Inr systemUse)
      | entry # unconsumed' \<Rightarrow>
          (case entry of
             CE v \<Rightarrow>
               (let ceStart = ce_start v * 2048 + ce_off v;
                    ce = section_bytes img (unat ceStart) (unat (ce_len v))
                in case DecodeSystemUseEntries is_print ce of
                     Inl err \<Rightarrow> Some (Inl err)
                   | Inr entries \<Rightarrow> system_use_loop is_print img (unconsumed' @ entries) systemUse)
           | _ \<Rightarrow> system_use_loop is_print img unconsumed' (systemUse @ [entry])))"

definition allSystemUseEntries ::
  "(rune \<Rightarrow> bool) \<Rightarrow> byte list \<Rightarrow> DirectoryRecord \<Rightarrow> (goerr + SystemUseEntry list) option" where
  "allSystemUseEntries is_print img rec = system_use_loop is_print img (SystemUse rec) []"

definition no_CE :: "SystemUseEntry list \<Rightarrow> bool" where
  "no_CE es \<longleftrightarrow> list_all (\<lambda>e. case e of CE _ \<Rightarrow> False | _ \<Rightarrow> True) es"

lemma no_CE_simps [simp]:
  "no_CE []" "no_CE (e # es) \<longleftrightarrow> (case e of CE _ \<Rightarrow> False | _ \<Rightarrow> True) \<and> no_CE es"
  "no_CE (es @ fs) \<longleftrightarrow> no_CE es \<and> no_CE fs"
  by (simp_all add: no_CE_def)

lemma no_CE_stored [simp]: "no_CE (map stored es) = no_CE es"
proof (induction es)
  case (Cons e es)
  then show ?case by (cases e) simp_all
qed simp

lemma system_use_loop_Nil [simp]: "system_use_loop p img [] acc = Some (Inr acc)"
  by (subst system_use_loop.simps) simp

lemma system_use_loop_plain:
  "no_CE es \<Longrightarrow> system_use_loop p img (es @ later) acc = system_use_loop p img later (acc @ es)"
proof (induction es arbitrary: acc)
  case (Cons e es)
  then have "system_use_loop p img ((e # es) @ later) acc = system_use_loop p img (es @ later) (acc @ [e])"
    by (subst system_use_loop.simps) (auto split: SystemUseEntry.splits)
  then show ?case using Cons by simp
qed simp

text \<open>Where the image of a continuation area lies, within reach of 32-bit byte offsets.\<close>

definition area_at :: "byte list \<Rightarrow> u32 \<Rightarrow> continuationSector list \<Rightarrow> bool" where
  "area_at img start T \<longleftrightarrow>
     section_bytes img (unat start * 2048) (length T * 2048) = concat (map sector_image T) \<and>
     (unat start + length T) * 2048 \<le> 2 ^ 32"

lemma take_take_drop: "a + b \<le> n \<Longrightarrow> take b (drop a (take n xs)) = take b (drop a xs)"
  by (simp add: drop_take min_absorb1)

lemma chained_region:
  assumes "area_at img start T" "list_all (sector_ok p) T" "i < length T"
    "sector_entries (T ! i) = pre @ es @ post"
    "ce = \<lparr>ce_start = start + of_nat i, ce_off = of_int (entries_len pre), ce_len = of_int (entries_len es)\<rparr>"
  shows "section_bytes img (unat (ce_start ce * 2048 + ce_off ce)) (unat (ce_len ce)) = entries_bytes es"
proof -
  have ok: "sector_ok p (T ! i)" using assms(2,3) by (simp add: list_all_length)
  have wf: "list_all (wf_entry p) pre" "list_all (wf_entry p) es" using ok assms(4) by (simp_all add: sector_ok_def)
  define a b where ab: "a = length (entries_bytes pre)" "b = length (entries_bytes es)"
  have lens: "entries_len pre = int a" "entries_len es = int b"
    using length_entries_bytes [OF wf(1)] length_entries_bytes [OF wf(2)] ab by simp_all
  have im: "sector_image (T ! i) = entries_bytes pre @ entries_bytes es @ entries_bytes post @ pad (nat (room (T ! i)))"
    by (simp add: sector_image_def assms(4))
  have ab2048: "a + b \<le> 2048" using length_sector_image [OF ok] unfolding im by (simp add: ab)
  have bound: "(unat start + i) * 2048 + a + b \<le> 2 ^ 32"
    using assms(1,3) ab2048 by (auto simp: area_at_def)
  have u1: "unat (start + of_nat i) = unat start + i"
  proof -
    have "start + of_nat i = of_nat (unat start + i)" by simp
    moreover have "unat start + i < 2 ^ LENGTH(32)" using bound by simp
    ultimately show ?thesis by (simp only: unat_of_nat mod_less)
  qed
  have "ce_start ce * 2048 + ce_off ce = of_nat ((unat start + i) * 2048 + a)"
    by (simp add: assms(5) lens algebra_simps)
  have u: "b = 0 \<or> unat (ce_start ce * 2048 + ce_off ce) = (unat start + i) * 2048 + a"
  proof (cases "b = 0")
    case False
    then have "(unat start + i) * 2048 + a < 2 ^ LENGTH(32)" using bound by simp
    then show ?thesis
      using \<open>ce_start ce * 2048 + ce_off ce = of_nat ((unat start + i) * 2048 + a)\<close>
      by (simp only: unat_of_nat mod_less simp_thms)
  qed simp
  have ul: "unat (ce_len ce) = b" using ab2048 by (simp add: assms(5) lens unat_of_nat)
  have blk: "\<forall>x \<in> set (map sector_image T). length x = 2048"
    using assms(2) length_sector_image by (auto simp: list_all_iff)
  have "take b (drop ((unat start + i) * 2048 + a) img) =
      take b (drop (i * 2048 + a) (take (length T * 2048) (drop (unat start * 2048) img)))"
  proof -
    have "i * 2048 + a + b \<le> length T * 2048" using assms(3) ab2048 by linarith
    then show ?thesis by (simp add: take_take_drop algebra_simps)
  qed
  also have "\<dots> = take b (drop (i * 2048 + a) (concat (map sector_image T)))"
    using assms(1) by (simp add: area_at_def section_bytes_def)
  also have "\<dots> = take b (drop a (sector_image (T ! i)))"
    using blocks_nth [OF blk, of i a b] assms(3) ab2048 by simp
  also have "\<dots> = entries_bytes es" by (simp add: im ab)
  finally show ?thesis using u by (auto simp: section_bytes_def ul ab(2))
qed

lemma system_use_loop_CE:
  assumes "section_bytes img (unat (ce_start ce * 2048 + ce_off ce)) (unat (ce_len ce)) = entries_bytes es"
    "list_all (wf_entry p) es"
  shows "system_use_loop p img (CE ce # later) acc = system_use_loop p img (later @ map stored es) acc"
  using DecodeSystemUseEntries_roundtrip [OF assms(2)] assms(1)
  by (subst system_use_loop.simps) (simp add: entries_bytes_def Let_def)

lemma region_wf:
  "list_all (sector_ok p) T \<Longrightarrow> i < length T \<Longrightarrow> sector_entries (T ! i) = pre @ es @ post \<Longrightarrow>
   list_all (wf_entry p) es"
  unfolding list_all_length [of "sector_ok p"] sector_ok_def by (metis list_all_append)

lemma chained_read:
  assumes "chained start T ce es" "area_at img start T" "list_all (sector_ok p) T" "no_CE es"
  shows "system_use_loop p img [CE ce] acc = Some (Inr (acc @ map stored es))"
  using assms
proof (induction arbitrary: acc rule: chained.induct)
  case (chained_last i T pre es post ce start)
  have "list_all (wf_entry p) es" by (rule region_wf [OF chained_last(5,1,2)])
  then show ?case
    using system_use_loop_CE [OF chained_region [OF chained_last(4,5,1,2,3)], where p = p and later = "[]" and acc = acc]
      system_use_loop_plain [of "map stored es" p img "[]" acc] chained_last(6)
    by simp
next
  case (chained_more i T pre es ce' post ce start fs)
  have "list_all (wf_entry p) (es @ [CE ce'])"
    by (rule region_wf [OF chained_more(7,1,2)])
  then have "system_use_loop p img [CE ce] acc = system_use_loop p img (map stored es @ [CE ce']) acc"
    using system_use_loop_CE [OF chained_region [OF chained_more(6,7,1,2,3)], where p = p and later = "[]" and acc = acc] by simp
  also have "\<dots> = system_use_loop p img [CE ce'] (acc @ map stored es)"
    using system_use_loop_plain [of "map stored es" p img "[CE ce']" acc] chained_more(8) by simp
  also have "\<dots> = Some (Inr (acc @ map stored (es @ fs)))"
    using chained_more by simp
  finally show ?case .
qed

definition area_ok :: "(rune \<Rightarrow> bool) \<Rightarrow> ContinuationArea \<Rightarrow> bool" where
  "area_ok p ca \<longleftrightarrow> list_all (sector_ok p) (ca_sectors ca)"

lemma Append_spec:
  assumes "es \<noteq> []" "list_all (wf_entry p) es" "area_ok p ca"
  shows "\<exists>ca' ce. ContinuationArea_Append ca es = Some (ca', Some ce) \<and> area_ok p ca' \<and>
     ca_start ca' = ca_start ca \<and> extends (ca_sectors ca) (ca_sectors ca') \<and>
     chained (ca_start ca) (ca_sectors ca') ce es \<and>
     length (ca_sectors ca') \<le> length (ca_sectors ca) + length es"
proof (cases "ca_sectors ca = []")
  case True
  then obtain T ce where "append_loop (ca_start ca) ([] @ [fresh_sector]) es = Some ([] @ T, ce)"
    "list_all (sector_ok p) T" "chained (ca_start ca) ([] @ T) ce es" "length T \<le> length es"
    using append_loop_fresh [OF assms(1,2), of "ca_start ca" "[]"] by blast
  then show ?thesis using assms(1) True by (simp add: ContinuationArea_Append_def area_ok_def extends_def)
next
  case False
  then show ?thesis
    using append_loop_spec [OF assms(1,2) False, of "ca_start ca"] assms(1,3)
    by (auto simp: ContinuationArea_Append_def area_ok_def)
qed

text \<open>C14:
  System Use entries that overflow a directory record are not lost.  \<open>Append\<close> always returns,
  and when the image holds what \<open>WriteTo\<close> writes for the area, now or after any later calls of
  \<open>Append\<close>, the walker puts the record's own entries and the overflow together again, in
  order, through as many continuation sectors as they take.
\<close>

theorem continuation_roundtrip:
  assumes "es \<noteq> []" "list_all (wf_entry p) es" "no_CE es" "area_ok p ca"
  shows "\<exists>ca' ce. ContinuationArea_Append ca es = Some (ca', Some ce) \<and> area_ok p ca' \<and>
     (\<forall>ca'' img rec own. ca_start ca'' = ca_start ca \<and> area_ok p ca'' \<and>
        extends (ca_sectors ca') (ca_sectors ca'') \<and>
        fst (ContinuationArea_WriteTo ca'') =
          section_bytes img (unat (ca_start ca) * 2048) (nat (ContinuationArea_Len ca'')) \<and>
        (unat (ca_start ca) + length (ca_sectors ca'')) * LogicalBlockSize \<le> 2 ^ 32 \<and>
        SystemUse rec = own @ [CE ce] \<and> no_CE own \<longrightarrow>
        allSystemUseEntries p img rec = Some (Inr (own @ map stored es)))"
proof -
  obtain ca' ce where A: "ContinuationArea_Append ca es = Some (ca', Some ce)" "area_ok p ca'"
    "chained (ca_start ca) (ca_sectors ca') ce es"
    using Append_spec [OF assms(1,2,4)] by blast
  have "allSystemUseEntries p img rec = Some (Inr (own @ map stored es))"
    if h: "ca_start ca'' = ca_start ca" "area_ok p ca''" "extends (ca_sectors ca') (ca_sectors ca'')"
      "fst (ContinuationArea_WriteTo ca'') =
          section_bytes img (unat (ca_start ca) * 2048) (nat (ContinuationArea_Len ca''))"
      "(unat (ca_start ca) + length (ca_sectors ca'')) * LogicalBlockSize \<le> 2 ^ 32"
      "SystemUse rec = own @ [CE ce]" "no_CE own" for ca'' img rec own
  proof -
    let ?T = "ca_sectors ca''"
    have ok: "list_all (sector_ok p) ?T" using h(2) by (simp add: area_ok_def)
    have n: "nat (ContinuationArea_Len ca'') = length ?T * 2048"
      by (simp add: ContinuationArea_Len_def LogicalBlockSize_def nat_mult_distrib)
    have "area_at img (ca_start ca) ?T"
      using h(4,5) write_sectors_image [OF ok, of 0] n
      by (simp add: area_at_def ContinuationArea_WriteTo_def LogicalBlockSize_def)
    then have "system_use_loop p img [CE ce] own = Some (Inr (own @ map stored es))"
      using chained_read [OF chained_extends [OF A(3) h(3)] _ ok assms(3)] by blast
    then show ?thesis
      using system_use_loop_plain [OF h(7), of p img "[CE ce]" "[]"]
      by (simp add: allSystemUseEntries_def h(6))
  qed
  then show ?thesis using A(1,2) by (intro exI [of _ ca'] exI [of _ ce]) blast
qed

theorem continuation_roundtrip_witness:
  "\<exists>ca' ce. ContinuationArea_Append (NewContinuationArea 25) [PX \<lparr>Mode = 33060, Nlink = 1, Uid = 0, Gid = 0, Ino = 2\<rparr>] =
     Some (ca', Some ce)"
  using continuation_roundtrip [of "[PX \<lparr>Mode = 33060, Nlink = 1, Uid = 0, Gid = 0, Ino = 2\<rparr>]" ascii_print
      "NewContinuationArea 25"]
  by (auto simp: area_ok_def NewContinuationArea_def)

section \<open>A cycle of continuation entries\<close>

text \<open>
  An image of one sector whose only continuation entry points at itself.
\<close>

definition cyclic_CE :: ContinuationAreaEntry where
  "cyclic_CE = \<lparr>ce_start = 0, ce_off = 0, ce_len = 28\<rparr>"

definition cyclic_image :: "byte list" where
  "cyclic_image = fst (CE_WriteTo cyclic_CE)"

lemma cyclic_decode: "DecodeSystemUseEntries p cyclic_image = Inr [CE cyclic_CE]"
  using DecodeSystemUseEntries_roundtrip [of p "[CE cyclic_CE]"] by (simp add: cyclic_image_def)

lemma cyclic_section:
  "section_bytes cyclic_image (unat (ce_start cyclic_CE * 2048 + ce_off cyclic_CE)) (unat (ce_len cyclic_CE)) = cyclic_image"
  by (simp add: section_bytes_def cyclic_CE_def cyclic_image_def CE_WriteTo_def)

lemma cyclic_no_return:
  assumes "system_use_loop p img un acc = Some r"
  shows "\<not> (img = cyclic_image \<and> un = [CE cyclic_CE])"
proof (rule system_use_loop.raw_induct [OF _ assms, where P = "\<lambda>p img un acc r. \<not> (img = cyclic_image \<and> un = [CE cyclic_CE])"])
  fix loop p img un acc r
  assume ih: "\<And>p img un acc r. loop p img un acc = Some r \<Longrightarrow> \<not> (img = cyclic_image \<and> un = [CE cyclic_CE])"
    and body: "(case un of [] \<Rightarrow> Some (Inr acc)
      | entry # un' \<Rightarrow>
          (case entry of
             CE v \<Rightarrow>
               (let ceStart = ce_start v * 2048 + ce_off v;
                    ce = section_bytes img (unat ceStart) (unat (ce_len v))
                in case DecodeSystemUseEntries p ce of
                     Inl err \<Rightarrow> Some (Inl err)
                   | Inr entries \<Rightarrow> loop p img (un' @ entries) acc)
           | _ \<Rightarrow> loop p img un' (acc @ [entry]))) = Some (r :: goerr + SystemUseEntry list)"
  show "\<not> (img = cyclic_image \<and> un = [CE cyclic_CE])"
  proof
    assume c: "img = cyclic_image \<and> un = [CE cyclic_CE]"
    then have "loop p cyclic_image [CE cyclic_CE] acc = Some r"
      using body by (simp add: Let_def cyclic_section cyclic_decode)
    then show False using ih by blast
  qed
qed

text \<open>C17:
  The loop that collects continued System Use entries has no bound: on an image whose
  continuation entry points at itself it never returns, so looking up any name in such a
  directory hangs.
\<close>

theorem ce_cycle_never_returns:
  "allSystemUseEntries p cyclic_image (sample_record\<lparr>SystemUse := [CE cyclic_CE]\<rparr>) = None"
  using cyclic_no_return [of p cyclic_image "[CE cyclic_CE]" "[]"]
  by (cases "system_use_loop p cyclic_image [CE cyclic_CE] []") (auto simp: allSystemUseEntries_def)

end
