(* ===== verification/ReadDir.thy ===== *)
theory ReadDir
  imports Walk Safecast
begin

text \<open>
  The iterators of \<open>walk.go\<close> over a directory of an image, and \<open>fileinfo.go\<close>.  A
  \<open>DirectoryRecordIterator\<close> steps through the records of an extent; a \<open>ReadDirIterator\<close>
  joins the records of one entry and makes a \<open>FileInfo\<close> of them.
\<close>

section \<open>DirectoryRecordIterator\<close>

text \<open>\<open>dir\<close> is the section of the image with the directory, and the position in it.\<close>

record DirectoryRecordIterator =
  dri_dir :: "byte list"
  dri_pos :: nat
  dri_rec :: "DirectoryRecord option"
  dri_recLen :: int
  dri_err :: "goerr option"

text \<open>The start of the section is a product in 32 bits, as in the source.\<close>

definition NewDirectoryRecordIterator ::
  "byte list \<Rightarrow> LogicalBlockAddress \<Rightarrow> int \<Rightarrow> int \<Rightarrow> DirectoryRecordIterator" where
  "NewDirectoryRecordIterator img start sz off =
     \<lparr>dri_dir = section_bytes img (unat (start * 2048)) (nat sz), dri_pos = nat off, dri_rec = None,
      dri_recLen = -1,
      dri_err = (if off < 0 then Some (Err ''Seek: invalid offset'') else None)\<rparr>"

definition dri_Err :: "DirectoryRecordIterator \<Rightarrow> goerr option" where
  "dri_Err it = dri_err it"

definition dri_Tell :: "DirectoryRecordIterator \<Rightarrow> int" where
  "dri_Tell it = int (dri_pos it)"

definition dri_fail :: "DirectoryRecordIterator \<Rightarrow> goerr option \<Rightarrow> DirectoryRecordIterator \<times> bool" where
  "dri_fail it err = (it\<lparr>dri_rec := None, dri_recLen := -1, dri_err := err\<rparr>, False)"

text \<open>
  The length of the padding after a zero byte, through the checked conversions; their panic
  is an \<open>Inl\<close>.
\<close>

definition dri_padding :: "int \<Rightarrow> goerr + int" where
  "dri_padding pos =
     (case Int64ToUint32 (of_int pos) of
        Inl e \<Rightarrow> Inl e
      | Inr u \<Rightarrow>
          (case Uint64ToInt64 (sectorsToBytes (bytesToSectors u)) of
             Inl e \<Rightarrow> Inl e
           | Inr whole \<Rightarrow>
               (case Int64ToInt (whole - of_int pos) of Inl e \<Rightarrow> Inl e | Inr n \<Rightarrow> Inr (sint n))))"

text \<open>
  The loop of \<open>Next\<close>.  The section is bytes in memory, so reading it fails only at its end;
  the position after a failed record is not modelled, since no later \<open>Next\<close> reads again.
\<close>

function dri_loop :: "(rune \<Rightarrow> bool) \<Rightarrow> int \<Rightarrow> DirectoryRecordIterator \<Rightarrow> goerr + (DirectoryRecordIterator \<times> bool)" where
  "dri_loop is_print start it =
     (case drop (dri_pos it) (dri_dir it) of
        [] \<Rightarrow> Inr (dri_fail it None)
      | rlen # r \<Rightarrow>
          let pos = dri_pos it + 1
          in if rlen = 0 then
               (case dri_padding (int pos) of
                  Inl e \<Rightarrow> Inl e
                | Inr padding \<Rightarrow>
                    (case unpad (nat padding) r of
                       Inl e \<Rightarrow> Inr (dri_fail (it\<lparr>dri_pos := length (dri_dir it)\<rparr>) (Some e))
                     | Inr _ \<Rightarrow> dri_loop is_print start (it\<lparr>dri_pos := pos + nat padding\<rparr>)))
             else
               (case DecodeDirectoryRecord is_print (take (unat rlen - 1) r) of
                  Inl e \<Rightarrow> Inr (dri_fail it (Some e))
                | Inr (rec, _) \<Rightarrow>
                    let pos' = pos + length (take (unat rlen - 1) r)
                    in Inr (it\<lparr>dri_pos := pos', dri_rec := Some rec, dri_recLen := int pos' - start,
                               dri_err := None\<rparr>, True)))"
  by pat_completeness auto
termination
  by (relation "measure (\<lambda>(p, s, it). length (dri_dir it) - dri_pos it)")
     (auto dest!: arg_cong [of _ _ length])

declare dri_loop.simps [simp del]

definition dri_Next :: "(rune \<Rightarrow> bool) \<Rightarrow> DirectoryRecordIterator \<Rightarrow> goerr + (DirectoryRecordIterator \<times> bool)" where
  "dri_Next is_print it =
     (if dri_err it \<noteq> None then Inr (it, False) else dri_loop is_print (dri_Tell it) it)"

definition dri_RecordAndLen :: "DirectoryRecordIterator \<Rightarrow> DirectoryRecord option \<times> int" where
  "dri_RecordAndLen it = (dri_rec it, dri_recLen it)"

section \<open>FileInfo\<close>

record FileInfo =
  fi_name :: gostring
  fi_size :: int
  fi_mode :: u32
  fi_nlink :: u32
  fi_uid :: u32
  fi_gid :: u32
  fi_ino :: u32
  fi_modTime :: Time
  fi_isDir :: bool
  fi_extent :: LogicalBlockAddress
  fi_target :: gostring

definition ModePerm :: u32 where "ModePerm = 0x1FF"
definition ModeDir :: u32 where "ModeDir = 0x80000000"
definition ModeSymlink :: u32 where "ModeSymlink = 0x08000000"
definition S_IFDIR :: u32 where "S_IFDIR = 0x4000"
definition S_IFLNK :: u32 where "S_IFLNK = 0xA000"
definition S_IFREG :: u32 where "S_IFREG = 0x8000"

text \<open>The part of \<open>ReadDirIterator.Next\<close> that makes a \<open>FileInfo\<close> of a record, its total size
  and its System Use entries; a timestamps entry without a modification time is a nil
  dereference.\<close>

definition make_FileInfo :: "DirectoryRecord \<Rightarrow> int \<Rightarrow> SystemUseEntry list \<Rightarrow> goerr + FileInfo" where
  "make_FileInfo cur sz systemUse =
     (let (dname, hasName) = DecodeName systemUse;
          name = (if hasName then dname
                  else if Identifier cur = [0] then dot
                  else if Identifier cur = [1] then dotdot
                  else Identifier cur);
          isDir = (Flags cur AND FileFlagDir \<noteq> 0);
          (target, isSymlink) = DecodeSymlink systemUse;
          sz' = (if isSymlink then int (length target) else sz);
          (mode, nlink, uid, gid, ino) =
            (case DecodePosixEntry systemUse of
               Some pe \<Rightarrow>
                 (let m = Mode pe AND ModePerm
                  in (if Mode pe AND S_IFDIR = S_IFDIR then m OR ModeDir
                      else if Mode pe AND S_IFLNK = S_IFLNK then m OR ModeSymlink else m,
                      Nlink pe, Uid pe, Gid pe, Ino pe))
             | None \<Rightarrow>
                 (if isDir then ModeDir OR 0x16D else if isSymlink then ModeSymlink OR 0x1FF else 0x124,
                  1, 0, 0, Start cur));
          info = (\<lambda>modTime. \<lparr>fi_name = name, fi_size = sz', fi_mode = mode, fi_nlink = nlink, fi_uid = uid,
                   fi_gid = gid, fi_ino = ino, fi_modTime = modTime, fi_isDir = isDir,
                   fi_extent = Start cur, fi_target = target\<rparr>)
      in (case DecodeTimestamps systemUse of
            None \<Rightarrow> Inr (info epoch)
          | Some ts \<Rightarrow>
              (case tf_Modified ts of
                 None \<Rightarrow> Inl (Panic ''nil dereference'') | Some t \<Rightarrow> Inr (info t))))"

section \<open>ReadDirIterator\<close>

record ReadDirIterator =
  rdi_img :: "byte list"
  rdi_recIt :: DirectoryRecordIterator
  rdi_finfo :: "FileInfo option"
  rdi_finfoLen :: int
  rdi_peeked :: "(DirectoryRecord \<times> int) option"
  rdi_err :: "goerr option"
  rdi_exhausted :: bool

definition NewReadDirIterator ::
  "byte list \<Rightarrow> LogicalBlockAddress \<Rightarrow> int \<Rightarrow> int \<Rightarrow> ReadDirIterator" where
  "NewReadDirIterator img start sz off =
     \<lparr>rdi_img = img, rdi_recIt = NewDirectoryRecordIterator img start sz off, rdi_finfo = None,
      rdi_finfoLen = -1, rdi_peeked = None, rdi_err = None, rdi_exhausted = False\<rparr>"

text \<open>The look-ahead loop: records with the same identifier add up.\<close>

partial_function (option) rdi_aggregate ::
  "(rune \<Rightarrow> bool) \<Rightarrow> ReadDirIterator \<Rightarrow> DirectoryRecord \<Rightarrow> int \<Rightarrow> int
    \<Rightarrow> (goerr + (ReadDirIterator \<times> int \<times> int)) option" where
  "rdi_aggregate is_print it cur currLen sz =
     (case dri_Next is_print (rdi_recIt it) of
        Inl e \<Rightarrow> Some (Inl e)
      | Inr next_res \<Rightarrow>
          (let recIt = fst next_res; (rec, nextLen) = dri_RecordAndLen recIt
           in if snd next_res then
                (case rec of
                   None \<Rightarrow> Some (Inl (Panic ''nil dereference''))
                 | Some nextRec \<Rightarrow>
                     if Identifier nextRec = Identifier cur then
                       rdi_aggregate is_print (it\<lparr>rdi_recIt := recIt\<rparr>) cur (currLen + nextLen)
                         (sz + uint (Length nextRec))
                     else Some (Inr (it\<lparr>rdi_recIt := recIt, rdi_peeked := Some (nextRec, nextLen)\<rparr>,
                                     currLen, sz)))
              else Some (Inr (it\<lparr>rdi_recIt := recIt, rdi_exhausted := True, rdi_err := dri_Err recIt\<rparr>,
                              currLen, sz))))"

definition rdi_build ::
  "(rune \<Rightarrow> bool) \<Rightarrow> ReadDirIterator \<Rightarrow> DirectoryRecord \<Rightarrow> int
    \<Rightarrow> (goerr + (ReadDirIterator \<times> bool)) option" where
  "rdi_build is_print it cur currLen =
     Option.bind (rdi_aggregate is_print it cur currLen (uint (Length cur))) (\<lambda>res.
       case res of
         Inl e \<Rightarrow> Some (Inl e)
       | Inr (it', currLen', sz) \<Rightarrow>
           Option.bind (allSystemUseEntries is_print (rdi_img it') cur) (\<lambda>su.
             case su of
               Inl err \<Rightarrow> Some (Inr (it'\<lparr>rdi_err := Some err\<rparr>, False))
             | Inr systemUse \<Rightarrow>
                 (case make_FileInfo cur sz systemUse of
                    Inl e \<Rightarrow> Some (Inl e)
                  | Inr fi \<Rightarrow> Some (Inr (it'\<lparr>rdi_finfo := Some fi, rdi_finfoLen := currLen'\<rparr>, True)))))"

definition rdi_Next ::
  "(rune \<Rightarrow> bool) \<Rightarrow> ReadDirIterator \<Rightarrow> (goerr + (ReadDirIterator \<times> bool)) option" where
  "rdi_Next is_print it =
     (if rdi_exhausted it \<or> rdi_err it \<noteq> None then Some (Inr (it, False))
      else
        (case rdi_peeked it of
           Some (cur, currLen) \<Rightarrow> rdi_build is_print (it\<lparr>rdi_peeked := None\<rparr>) cur currLen
         | None \<Rightarrow>
             (case dri_Next is_print (rdi_recIt it) of
                Inl e \<Rightarrow> Some (Inl e)
              | Inr (recIt, found) \<Rightarrow>
                  let (rec, currLen) = dri_RecordAndLen recIt
                  in if found then
                       (case rec of
                          None \<Rightarrow> Some (Inl (Panic ''nil dereference''))
                        | Some cur \<Rightarrow> rdi_build is_print (it\<lparr>rdi_recIt := recIt\<rparr>) cur currLen)
                     else Some (Inr (it\<lparr>rdi_recIt := recIt, rdi_exhausted := True,
                                        rdi_err := dri_Err recIt\<rparr>, False)))))"

definition rdi_FileInfoAndLen :: "ReadDirIterator \<Rightarrow> FileInfo option \<times> int" where
  "rdi_FileInfoAndLen it = (rdi_finfo it, rdi_finfoLen it)"

text \<open>\<open>iterDir\<close>: the visitor threads a state and says whether to go on.\<close>

partial_function (option) iter_loop ::
  "(rune \<Rightarrow> bool) \<Rightarrow> (FileInfo \<Rightarrow> 's \<Rightarrow> 's \<times> bool) \<Rightarrow> ReadDirIterator \<Rightarrow> 's
    \<Rightarrow> (goerr + ('s \<times> goerr option)) option" where
  "iter_loop is_print visit it s =
     Option.bind (rdi_Next is_print it) (\<lambda>res.
       case res of
         Inl e \<Rightarrow> Some (Inl e)
       | Inr next_res \<Rightarrow>
           (let it' = fst next_res
            in if snd next_res then
                 (case rdi_finfo it' of
                    None \<Rightarrow> Some (Inl (Panic ''nil dereference''))
                  | Some fi \<Rightarrow>
                      if snd (visit fi s) then iter_loop is_print visit it' (fst (visit fi s))
                      else Some (Inr (fst (visit fi s), rdi_err it')))
               else Some (Inr (s, rdi_err it'))))"

definition iterDir ::
  "(rune \<Rightarrow> bool) \<Rightarrow> byte list \<Rightarrow> LogicalBlockAddress \<Rightarrow> int \<Rightarrow> (FileInfo \<Rightarrow> 's \<Rightarrow> 's \<times> bool) \<Rightarrow> 's
    \<Rightarrow> (goerr + ('s \<times> goerr option)) option" where
  "iterDir is_print img start sz visit s =
     iter_loop is_print visit (NewReadDirIterator img start sz 0) s"

section \<open>The record iterator decodes the directory\<close>

text \<open>
  The records an iterator yields until \<open>Next\<close> is false, and the error it leaves then.
\<close>

inductive dri_yields ::
  "(rune \<Rightarrow> bool) \<Rightarrow> DirectoryRecordIterator \<Rightarrow> DirectoryRecord list \<Rightarrow> goerr option \<Rightarrow> bool" where
  yields_end: "dri_Next p it = Inr (it', False) \<Longrightarrow> dri_yields p it [] (dri_Err it')"
| yields_rec: "dri_Next p it = Inr (it', True) \<Longrightarrow> dri_rec it' = Some rec \<Longrightarrow>
     dri_yields p it' recs err \<Longrightarrow> dri_yields p it (rec # recs) err"

lemma sint_small:
  fixes w :: "64 word"
  assumes "unat w < 2 ^ 63"
  shows "sint w = int (unat w)"
proof -
  have "int (unat w) < int (2 ^ 63)" using assms by (simp only: of_nat_less_iff)
  then have "int (unat w) < 2 ^ (LENGTH(64) - 1)" by simp
  moreover have "- (2 ^ (LENGTH(64) - 1)) \<le> int (unat w)" by (rule order_trans [of _ 0]) simp_all
  ultimately show ?thesis
    unfolding sint_uint uint_nat One_nat_def [symmetric] by (intro signed_take_bit_int_eq_self)
qed

lemma Int64ToUint32_small:
  assumes "n < 4294967296"
  shows "Int64ToUint32 (of_nat n) = Inr (of_nat n)"
proof -
  have u: "unat (of_nat n :: 64 word) = n" using assms by (simp add: unat_of_nat)
  then have "sint (of_nat n :: 64 word) = int n"
    using assms sint_small [of "of_nat n"] by simp
  then have e: "to_unsigned (int n) (Int64ToUint32 (of_nat n))"
    using Int64ToUint32_exact [of "of_nat n"] by simp
  have "uint (of_nat n :: u32) = int n" using assms by (simp add: uint_nat unat_of_nat)
  then show ?thesis
    using e assms by (cases "Int64ToUint32 (of_nat n)") (auto simp: to_unsigned_def word_uint_eq_iff)
qed

lemma Uint64ToInt64_small:
  assumes "unat v < 2 ^ 63"
  shows "Uint64ToInt64 v = Inr v"
proof -
  have "\<not> 9223372036854775807 < v" using assms by (simp add: word_less_nat_alt)
  then show ?thesis by (simp add: Uint64ToInt64_def)
qed

lemma Int64ToInt_id: "Int64ToInt v = Inr v"
  by (simp add: Int64ToInt_def)

text \<open>The iterator's checked arithmetic agrees with the decoder's.\<close>

lemma dri_padding_agrees:
  assumes "n < 4294967296"
  shows "\<exists>k. dri_padding (int n) = Inr k \<and> nat k = dir_padding n"
proof -
  have "unat (sectorsToBytes (bytesToSectors (of_nat n))) < 2 ^ 63"
    using sectors_cover(3) [of "of_nat n"] by (simp add: unat_sectorsToBytes)
  then show ?thesis
    using Int64ToUint32_small [OF assms] Uint64ToInt64_small
    by (simp add: dri_padding_def dir_padding_def Int64ToInt_id)
qed

lemma dri_Next_loop: "dri_err it = None \<Longrightarrow> dri_Next p it = dri_loop p (int (dri_pos it)) it"
  by (simp add: dri_Next_def dri_Tell_def)

text \<open>A padding turn of the loop changes neither what \<open>Next\<close> finds nor what it leaves, only
  the length that is charged to the record.\<close>

lemma dri_loop_yields:
  assumes "decode_records p (dri_pos it) (drop (dri_pos it) (dri_dir it)) = Inr recs"
    "length (dri_dir it) < 4294967295" "dri_err it = None"
  shows "(recs = [] \<and> (\<exists>it'. dri_loop p start it = Inr (it', False) \<and> dri_err it' = None)) \<or>
     (\<exists>rec recs' it'. recs = rec # recs' \<and> dri_loop p start it = Inr (it', True) \<and> dri_rec it' = Some rec \<and>
        dri_dir it' = dri_dir it \<and> dri_err it' = None \<and>
        decode_records p (dri_pos it') (drop (dri_pos it') (dri_dir it')) = Inr recs')"
  using assms
proof (induction p start it rule: dri_loop.induct)
  case (1 p start it)
  show ?case
  proof (cases "drop (dri_pos it) (dri_dir it)")
    case Nil
    then show ?thesis using 1 by (simp add: dri_loop.simps [of p start it] dri_fail_def)
  next
    case (Cons rlen r)
    have lt: "dri_pos it < length (dri_dir it)"
    proof (rule ccontr)
      assume "\<not> ?thesis" then show False using Cons by simp
    qed
    then have pos: "dri_pos it + 1 < 4294967296" "dri_pos it < length (dri_dir it)"
      using "1.prems"(2) by linarith+
    have r: "drop (dri_pos it + 1) (dri_dir it) = r"
      using Cons by (metis Cons_nth_drop_Suc Suc_eq_plus1 list.sel(3) pos(2))
    show ?thesis
    proof (cases "rlen = 0")
      case True
      obtain k where k: "dri_padding (int (dri_pos it + 1)) = Inr k" "nat k = dir_padding (dri_pos it + 1)"
        using dri_padding_agrees [OF pos(1)] by blast
      have up: "unpad (nat k) r = Inr ((), drop (nat k) r)"
        using "1.prems"(1) True by (auto simp: Cons k(2) unpad_def split: if_splits)
      let ?it = "it\<lparr>dri_pos := dri_pos it + 1 + nat k\<rparr>"
      have "decode_records p (dri_pos ?it) (drop (dri_pos ?it) (dri_dir ?it)) = Inr recs"
        using "1.prems"(1) True up r by (auto simp: Cons k(2) drop_drop add.commute split: sum.splits)
      moreover have "dri_loop p start it = dri_loop p start ?it"
        using k(1) up True by (simp add: dri_loop.simps [of p start it] Cons Let_def add.commute)
      ultimately show ?thesis
        using "1.IH" [OF Cons refl True k(1) up] "1.prems"(2,3) by simp
    next
      case False
      let ?k = "unat rlen - 1"
      obtain rec rs recs' where d: "DecodeDirectoryRecord p (take ?k r) = Inr (rec, rs)"
        "decode_records p (dri_pos it + 1 + length (take ?k r)) (drop ?k r) = Inr recs'" "recs = rec # recs'"
        using "1.prems"(1) False by (auto simp: Cons Let_def split: sum.splits)
      let ?pos = "dri_pos it + 1 + length (take ?k r)"
      have "drop ?pos (dri_dir it) = drop ?k r"
        using r by (cases "?k \<le> length r") (auto simp: drop_drop [symmetric] add.commute min_def)
      then show ?thesis
        using d False "1.prems"(3) by (simp add: dri_loop.simps [of p start it] Cons Let_def)
    qed
  qed
qed

lemma dri_yields_decode:
  assumes "decode_records p (dri_pos it) (drop (dri_pos it) (dri_dir it)) = Inr recs"
    "length (dri_dir it) < 4294967295" "dri_err it = None"
  shows "dri_yields p it recs None"
  using assms
proof (induction recs arbitrary: it)
  case Nil
  then obtain it' where "dri_Next p it = Inr (it', False)" "dri_Err it' = None"
    using dri_loop_yields [OF Nil.prems, of "int (dri_pos it)"] by (auto simp: dri_Next_loop dri_Err_def)
  then show ?case using yields_end by metis
next
  case (Cons rec recs)
  then obtain it' where it': "dri_Next p it = Inr (it', True)" "dri_rec it' = Some rec"
    "dri_dir it' = dri_dir it" "dri_err it' = None"
    "decode_records p (dri_pos it') (drop (dri_pos it') (dri_dir it')) = Inr recs"
    using dri_loop_yields [OF Cons.prems, of "int (dri_pos it)"] by (auto simp: dri_Next_loop)
  then show ?case using Cons.IH [of it'] Cons.prems(2) by (intro yields_rec) auto
qed

text \<open>An image that holds one directory.\<close>

lemma sample_image:
  "\<exists>img. DecodeDirectory ascii_print (section_bytes img (unat (0 * 2048 :: u32)) (nat 2048)) =
     Inr \<lparr>Records = [sample_record]\<rparr>"
proof -
  have wf: "list_all (wf_record ascii_print) [sample_record]" using sample_record_wf by simp
  obtain bs where bs: "write_records 0 [sample_record] = emit bs"
    using write_records_emit [OF wf] by blast
  have len: "DirectoryRecord_Len sample_record = 47"
    by (simp add: sample_record_def DirectoryRecord_Len_def Name_Len_def)
  have "emit bs = emit (of_nat 47 # record_body sample_record)"
    unfolding bs [symmetric] write_records_Cons [OF sample_record_wf]
    by (simp add: gap_before_def LogicalBlockSize_def len)
  then have l: "length bs = 47"
    using DirectoryRecord_WriteTo_wf(2) [OF sample_record_wf] by (simp add: len)
  have "stored_record sample_record = sample_record"
    by (simp add: stored_record_def sample_record_def whole_seconds_def epoch_def)
  moreover have "decode_records ascii_print 0 (extent_of bs) = Inr (map stored_record [sample_record])"
    using decode_write_records [OF wf, of 0, OF _ refl] l unfolding bs extent_of_def fst_emit add_0
    by (simp add: MaxPartSize_def)
  ultimately have "DecodeDirectory ascii_print (extent_of bs) = Inr \<lparr>Records = [sample_record]\<rparr>"
    by (simp add: DecodeDirectory_def)
  moreover have "section_bytes (extent_of bs) (unat (0 * 2048 :: u32)) (nat 2048) = extent_of bs"
    using l by (simp add: section_bytes_def extent_of_def)
  ultimately show ?thesis by metis
qed

text \<open>C16:
  Two readers of the same format agree: stepping a \<open>DirectoryRecordIterator\<close> over the section
  of the image with a directory yields exactly the records that \<open>DecodeDirectory\<close> decodes
  from it, and ends without an error.
\<close>

theorem record_iterator_decodes:
  assumes "DecodeDirectory p (section_bytes img (unat (start * 2048)) (nat sz)) = Inr dir"
    "sz < 4294967295"
  shows "dri_yields p (NewDirectoryRecordIterator img start sz 0) (Records dir) None"
proof -
  let ?it = "NewDirectoryRecordIterator img start sz 0"
  have it: "dri_dir ?it = section_bytes img (unat (start * 2048)) (nat sz)" "dri_pos ?it = 0" "dri_err ?it = None"
    by (simp_all add: NewDirectoryRecordIterator_def)
  have "length (dri_dir ?it) < 4294967295"
    using assms(2) by (simp add: it section_bytes_def)
  moreover have "decode_records p (dri_pos ?it) (drop (dri_pos ?it) (dri_dir ?it)) = Inr (Records dir)"
    using assms(1) by (auto simp: it DecodeDirectory_def split: sum.splits)
  ultimately show ?thesis using dri_yields_decode it(3) by blast
qed

theorem record_iterator_decodes_witness:
  "\<exists>img. dri_yields ascii_print (NewDirectoryRecordIterator img 0 2048 0) [sample_record] None"
proof -
  obtain img where "DecodeDirectory ascii_print (section_bytes img (unat (0 * 2048 :: u32)) (nat 2048)) =
      Inr \<lparr>Records = [sample_record]\<rparr>"
    using sample_image by blast
  from record_iterator_decodes [OF this] show ?thesis by auto
qed

section \<open>One FileInfo per entry\<close>

text \<open>The records of a directory, grouped: the first record of each entry and its total size.\<close>

fun entry_groups :: "DirectoryRecord list \<Rightarrow> (DirectoryRecord \<times> int) list" where
  "entry_groups [] = []"
| "entry_groups (r # rs) =
     (case entry_groups rs of
        [] \<Rightarrow> [(r, uint (Length r))]
      | (q, sz) # gs \<Rightarrow>
          if Identifier q = Identifier r then (r, uint (Length r) + sz) # gs
          else (r, uint (Length r)) # (q, sz) # gs)"

text \<open>The groups from the view of the look-ahead loop, with \<open>cur\<close> and its size so far.\<close>

fun groups_from :: "DirectoryRecord \<Rightarrow> int \<Rightarrow> DirectoryRecord list \<Rightarrow> (DirectoryRecord \<times> int) list" where
  "groups_from cur sz [] = [(cur, sz)]"
| "groups_from cur sz (r # rs) =
     (if Identifier r = Identifier cur then groups_from cur (sz + uint (Length r)) rs
      else (cur, sz) # groups_from r (uint (Length r)) rs)"

lemma groups_from_merge:
  "groups_from cur sz rs =
     (case entry_groups rs of
        [] \<Rightarrow> [(cur, sz)]
      | (q, n) # gs \<Rightarrow> if Identifier q = Identifier cur then (cur, sz + n) # gs else (cur, sz) # (q, n) # gs)"
proof (induction cur sz rs rule: groups_from.induct)
  case (2 cur sz r rs)
  then show ?case by (auto split: list.splits)
qed simp

lemma entry_groups_from: "entry_groups (r # rs) = groups_from r (uint (Length r)) rs"
  by (simp add: groups_from_merge)

text \<open>What is still to come from a \<open>ReadDirIterator\<close>.\<close>

definition rdi_pending ::
  "(rune \<Rightarrow> bool) \<Rightarrow> ReadDirIterator \<Rightarrow> DirectoryRecord list \<Rightarrow> goerr option \<Rightarrow> bool" where
  "rdi_pending p it recs err \<longleftrightarrow>
     (if rdi_exhausted it then recs = [] \<and> rdi_err it = err
      else rdi_err it = None \<and>
        (case rdi_peeked it of
           None \<Rightarrow> dri_yields p (rdi_recIt it) recs err
         | Some (q, n) \<Rightarrow> \<exists>qs. recs = q # qs \<and> dri_yields p (rdi_recIt it) qs err))"

inductive_cases dri_yields_NilE: "dri_yields p it [] err"
inductive_cases dri_yields_ConsE: "dri_yields p it (r # rs) err"

lemma rdi_aggregate_spec:
  assumes "dri_yields p (rdi_recIt it) rs err" "rdi_peeked it = None" "rdi_err it = None"
    "\<not> rdi_exhausted it"
  shows "\<exists>it' n sz' rest. rdi_aggregate p it cur l sz = Some (Inr (it', n, sz')) \<and> rdi_img it' = rdi_img it \<and>
     rdi_pending p it' rest err \<and> groups_from cur sz rs = (cur, sz') # entry_groups rest"
  using assms
proof (induction rs arbitrary: it l sz)
  case Nil
  then obtain rit where "dri_Next p (rdi_recIt it) = Inr (rit, False)" "err = dri_Err rit"
    by (auto elim: dri_yields_NilE)
  then have "rdi_aggregate p it cur l sz =
      Some (Inr (it\<lparr>rdi_recIt := rit, rdi_exhausted := True, rdi_err := err\<rparr>, l, sz))"
    by (subst rdi_aggregate.simps) (simp add: dri_RecordAndLen_def)
  then show ?case by (auto simp: rdi_pending_def)
next
  case (Cons r rs)
  then obtain rit where n: "dri_Next p (rdi_recIt it) = Inr (rit, True)" "dri_rec rit = Some r"
    "dri_yields p rit rs err" by (auto elim: dri_yields_ConsE)
  show ?case
  proof (cases "Identifier r = Identifier cur")
    case True
    have "rdi_aggregate p it cur l sz =
        rdi_aggregate p (it\<lparr>rdi_recIt := rit\<rparr>) cur (l + dri_recLen rit) (sz + uint (Length r))"
      using n True by (subst rdi_aggregate.simps) (simp add: dri_RecordAndLen_def)
    then show ?thesis
      using Cons.IH [of "it\<lparr>rdi_recIt := rit\<rparr>" "l + dri_recLen rit" "sz + uint (Length r)"] n Cons.prems True
      by simp
  next
    case False
    have "rdi_aggregate p it cur l sz =
        Some (Inr (it\<lparr>rdi_recIt := rit, rdi_peeked := Some (r, dri_recLen rit)\<rparr>, l, sz))"
      using n False by (subst rdi_aggregate.simps) (simp add: dri_RecordAndLen_def)
    moreover have "rdi_pending p (it\<lparr>rdi_recIt := rit, rdi_peeked := Some (r, dri_recLen rit)\<rparr>) (r # rs) err"
      using n Cons.prems by (simp add: rdi_pending_def)
    moreover have "groups_from cur sz (r # rs) = (cur, sz) # entry_groups (r # rs)"
      using False by (simp add: entry_groups_from del: entry_groups.simps)
    ultimately show ?thesis by fastforce
  qed
qed

definition collect_visit :: "FileInfo \<Rightarrow> FileInfo list \<Rightarrow> FileInfo list \<times> bool" where
  "collect_visit fi s = (s @ [fi], True)"

text \<open>What makes the \<open>FileInfo\<close> of a group.\<close>

definition group_info :: "(rune \<Rightarrow> bool) \<Rightarrow> byte list \<Rightarrow> DirectoryRecord \<times> int \<Rightarrow> FileInfo \<Rightarrow> bool" where
  "group_info p img g fi \<longleftrightarrow>
     (\<exists>su. allSystemUseEntries p img (fst g) = Some (Inr su) \<and> make_FileInfo (fst g) (snd g) su = Inr fi)"

lemma rdi_Next_step:
  assumes "rdi_pending p it (r # rs) err" "entry_groups (r # rs) = g # gs" "group_info p (rdi_img it) g fi"
  shows "\<exists>it' rest. rdi_Next p it = Some (Inr (it', True)) \<and> rdi_finfo it' = Some fi \<and>
     rdi_img it' = rdi_img it \<and> rdi_pending p it' rest err \<and> entry_groups rest = gs"
proof -
  have ne: "\<not> rdi_exhausted it" "rdi_err it = None"
    using assms(1) by (auto simp: rdi_pending_def split: if_splits)
  obtain jt l where jt: "rdi_Next p it = rdi_build p jt r l" "dri_yields p (rdi_recIt jt) rs err"
    "rdi_peeked jt = None" "rdi_err jt = None" "\<not> rdi_exhausted jt" "rdi_img jt = rdi_img it"
  proof (cases "rdi_peeked it")
    case None
    then obtain rit where n: "dri_Next p (rdi_recIt it) = Inr (rit, True)" "dri_rec rit = Some r"
      "dri_yields p rit rs err"
      using assms(1) ne by (auto simp: rdi_pending_def elim: dri_yields_ConsE)
    show thesis
      by (rule that [of "it\<lparr>rdi_recIt := rit\<rparr>" "dri_recLen rit"])
        (use None n ne in \<open>simp_all add: rdi_Next_def dri_RecordAndLen_def\<close>)
  next
    case (Some ql)
    obtain q l where ql: "ql = (q, l)" by fastforce
    then have "q = r" "dri_yields p (rdi_recIt it) rs err" using assms(1) ne Some by (auto simp: rdi_pending_def)
    then show thesis
      using Some ne ql by (intro that [of "it\<lparr>rdi_peeked := None\<rparr>" l]) (simp_all add: rdi_Next_def)
  qed
  obtain it' n sz' rest where agg: "rdi_aggregate p jt r l (uint (Length r)) = Some (Inr (it', n, sz'))"
    "rdi_img it' = rdi_img jt" "rdi_pending p it' rest err"
    "groups_from r (uint (Length r)) rs = (r, sz') # entry_groups rest"
    using rdi_aggregate_spec [OF jt(2-5)] by blast
  have g: "g = (r, sz')" "gs = entry_groups rest"
    using assms(2) agg(4) by (simp_all add: entry_groups_from del: entry_groups.simps)
  obtain su where su: "allSystemUseEntries p (rdi_img it) r = Some (Inr su)" "make_FileInfo r sz' su = Inr fi"
    using assms(3) by (auto simp: group_info_def g)
  have "rdi_Next p it = Some (Inr (it'\<lparr>rdi_finfo := Some fi, rdi_finfoLen := n\<rparr>, True))"
    using agg(1,2) su jt(6) by (simp add: jt(1) rdi_build_def)
  moreover have "rdi_pending p (it'\<lparr>rdi_finfo := Some fi, rdi_finfoLen := n\<rparr>) rest err"
    using agg(3) unfolding rdi_pending_def by (cases "rdi_peeked it'") auto
  ultimately show ?thesis using g agg(2) jt(6) by fastforce
qed

text \<open>A visitor run over a list of entries, until it says to stop.\<close>

fun visit_infos :: "(FileInfo \<Rightarrow> 's \<Rightarrow> 's \<times> bool) \<Rightarrow> FileInfo list \<Rightarrow> 's \<Rightarrow> 's" where
  "visit_infos visit [] s = s"
| "visit_infos visit (fi # fis) s = (if snd (visit fi s) then visit_infos visit fis (fst (visit fi s)) else fst (visit fi s))"

lemma visit_infos_collect: "visit_infos collect_visit fis acc = acc @ fis"
  by (induction fis arbitrary: acc) (simp_all add: collect_visit_def)

lemma iter_loop_visits:
  assumes "rdi_pending p it recs None" "list_all2 (group_info p (rdi_img it)) (entry_groups recs) fis"
  shows "iter_loop p visit it acc = Some (Inr (visit_infos visit fis acc, None))"
  using assms
proof (induction fis arbitrary: it recs acc)
  case Nil
  then have "entry_groups recs = []" by simp
  then have recs: "recs = []" by (cases recs) (auto split: list.splits if_splits)
  have "\<exists>it'. rdi_Next p it = Some (Inr (it', False)) \<and> rdi_err it' = None"
  proof (cases "rdi_exhausted it")
    case True
    then show ?thesis using Nil recs by (auto simp: rdi_pending_def rdi_Next_def)
  next
    case False
    then have "dri_yields p (rdi_recIt it) [] None" "rdi_peeked it = None" "rdi_err it = None"
      using Nil recs by (auto simp: rdi_pending_def split: option.splits)
    then show ?thesis using False
      by (auto simp: rdi_Next_def dri_RecordAndLen_def elim!: dri_yields_NilE)
  qed
  then show ?case by (subst iter_loop.simps) auto
next
  case (Cons fi fis)
  then obtain g gs where gs: "entry_groups recs = g # gs" "group_info p (rdi_img it) g fi"
    "list_all2 (group_info p (rdi_img it)) gs fis"
    by (auto simp: list_all2_Cons2)
  then obtain r rs where recs: "recs = r # rs" by (cases recs) auto
  obtain it' rest where it': "rdi_Next p it = Some (Inr (it', True))" "rdi_finfo it' = Some fi"
    "rdi_img it' = rdi_img it" "rdi_pending p it' rest None" "entry_groups rest = gs"
    using rdi_Next_step Cons.prems(1) gs(1,2) unfolding recs by blast
  have e: "rdi_err it' = None" using it'(4) by (auto simp: rdi_pending_def split: if_splits)
  have "iter_loop p visit it acc =
      (if snd (visit fi acc) then iter_loop p visit it' (fst (visit fi acc)) else Some (Inr (fst (visit fi acc), None)))"
    using it'(1,2) e by (subst iter_loop.simps) simp
  then show ?case using Cons.IH [OF it'(4), of "fst (visit fi acc)"] gs(3) it'(3,5) by simp
qed

text \<open>An extent of the image that decodes to a directory with the given entries.\<close>

definition readable_dir ::
  "(rune \<Rightarrow> bool) \<Rightarrow> byte list \<Rightarrow> LogicalBlockAddress \<Rightarrow> int \<Rightarrow> FileInfo list \<Rightarrow> bool" where
  "readable_dir p img start sz fis \<longleftrightarrow> sz < 4294967295 \<and>
     (\<exists>dir. DecodeDirectory p (section_bytes img (unat (start * 2048)) (nat sz)) = Inr dir \<and>
        list_all2 (group_info p img) (entry_groups (Records dir)) fis)"

lemma iterDir_visits:
  assumes "readable_dir p img start sz fis"
  shows "iterDir p img start sz visit s = Some (Inr (visit_infos visit fis s, None))"
proof -
  let ?it = "NewReadDirIterator img start sz 0"
  obtain dir where dir: "DecodeDirectory p (section_bytes img (unat (start * 2048)) (nat sz)) = Inr dir" "sz < 4294967295"
    "list_all2 (group_info p img) (entry_groups (Records dir)) fis"
    using assms by (auto simp: readable_dir_def)
  have y: "dri_yields p (NewDirectoryRecordIterator img start sz 0) (Records dir) None"
  proof -
    let ?d = "NewDirectoryRecordIterator img start sz 0"
    have "length (dri_dir ?d) < 4294967295"
      using dir(2) by (simp add: NewDirectoryRecordIterator_def section_bytes_def)
    moreover have "decode_records p (dri_pos ?d) (drop (dri_pos ?d) (dri_dir ?d)) = Inr (Records dir)"
      using dir(1) by (auto simp: NewDirectoryRecordIterator_def DecodeDirectory_def split: sum.splits)
    ultimately show ?thesis
      by (intro dri_yields_decode) (simp_all add: NewDirectoryRecordIterator_def)
  qed
  then have "rdi_pending p ?it (Records dir) None"
    by (simp add: rdi_pending_def NewReadDirIterator_def)
  then show ?thesis
    using iter_loop_visits [of p ?it "Records dir" fis] dir(3)
    by (simp add: iterDir_def NewReadDirIterator_def)
qed

text \<open>C15:
  Listing a directory runs the visitor over one \<open>FileInfo\<close> per entry, in the order of the
  records and until the visitor stops: the records of a file of several parts are joined and
  their sizes added up, and nothing is skipped or visited twice.  The fields of each come from
  the entry's System Use entries with the continuation areas followed.
\<close>

theorem iterDir_lists_entries:
  assumes "DecodeDirectory p (section_bytes img (unat (start * 2048)) (nat sz)) = Inr dir" "sz < 4294967295"
    "list_all2 (group_info p img) (entry_groups (Records dir)) fis"
  shows "iterDir p img start sz visit s = Some (Inr (visit_infos visit fis s, None))"
  by (rule iterDir_visits) (use assms in \<open>auto simp: readable_dir_def\<close>)

theorem iterDir_lists_entries_witness:
  "\<exists>img fis. iterDir ascii_print img 0 2048 collect_visit [] = Some (Inr (fis, None)) \<and> map fi_name fis = [dot]"
proof -
  obtain img where d: "DecodeDirectory ascii_print (section_bytes img (unat (0 * 2048 :: u32)) (nat 2048)) =
      Inr \<lparr>Records = [sample_record]\<rparr>"
    using sample_image by blast
  have "allSystemUseEntries ascii_print img sample_record = Some (Inr (SystemUse sample_record))"
    using system_use_loop_plain [of "SystemUse sample_record" ascii_print img "[]" "[]"]
    by (simp add: allSystemUseEntries_def sample_record_def)
  moreover obtain fi where "make_FileInfo sample_record 2048 (SystemUse sample_record) = Inr fi" "fi_name fi = dot"
    by (simp add: make_FileInfo_def sample_record_def DecodeName_def DecodeSymlink_def dot_def Let_def)
  ultimately have "list_all2 (group_info ascii_print img) (entry_groups [sample_record]) [fi]"
    by (simp add: group_info_def) (simp add: sample_record_def)
  then show ?thesis
    using iterDir_lists_entries [OF d, of "[fi]" collect_visit "[]"] \<open>fi_name fi = dot\<close>
    unfolding visit_infos_collect append_Nil by fastforce
qed

end
