(* ===== verification/DirExtent.thy ===== *)
theory DirExtent
  imports LevelOrder ReadDir
begin

text \<open>
  What \<open>toDirectory\<close> of \<open>directoryinode.go\<close> builds for a directory of a well-formed tree: the
  loop over the parts always returns, no panic of it can happen, every record fits and can
  be written, and the overflow is a well-formed continuation area.
\<close>

section \<open>The entries of a node\<close>

lemma segment_chunks_len: "c \<in> set (segment_chunks s) \<Longrightarrow> length c \<le> 248"
proof (induction s rule: segment_chunks.induct)
  case (1 s)
  then show ?case
    unfolding segment_chunks.simps [of s] by (cases "248 < length s") auto
qed

definition component_ok :: "SymlinkComponent \<Rightarrow> bool" where
  "component_ok sc \<longleftrightarrow> length (sc_data sc) \<le> 248 \<and> (special_component sc \<longrightarrow> sc_data sc = [])"

lemma component_ok_normal:
  "length c \<le> 248 \<Longrightarrow> component_ok \<lparr>sc_flags = SymlinkComponentFlagContinue, sc_data = c\<rparr>"
  "length c \<le> 248 \<Longrightarrow>
   component_ok \<lparr>sc_flags = SymlinkComponentFlagContinue XOR SymlinkComponentFlagContinue, sc_data = c\<rparr>"
  by (simp_all add: component_ok_def special_component_def symlink_flags)

lemma NewSymlinkComponent_ok:
  assumes "NewSymlinkComponent p s = Inr cs"
  shows "list_all component_ok cs"
proof -
  consider (special) f where "cs = [\<lparr>sc_flags = f, sc_data = []\<rparr>]"
    | (normal) "cs = (let components = map (\<lambda>chunk. \<lparr>sc_flags = SymlinkComponentFlagContinue, sc_data = chunk\<rparr>) (segment_chunks s);
          k = length components - 1
        in components[k := (components ! k)\<lparr>sc_flags := sc_flags (components ! k) XOR SymlinkComponentFlagContinue\<rparr>])"
    using assms unfolding NewSymlinkComponent_def Let_def by (simp only: sum.inject split: if_splits) blast+
  then show ?thesis
  proof cases
    case special
    then show ?thesis by (simp add: component_ok_def)
  next
    case normal
    let ?f = "\<lambda>chunk. \<lparr>sc_flags = SymlinkComponentFlagContinue, sc_data = chunk\<rparr>"
    let ?k = "length (segment_chunks s) - 1"
    have k: "?k < length (segment_chunks s)" by simp
    have "length (segment_chunks s ! ?k) \<le> 248" using segment_chunks_len k nth_mem by blast
    then have "component_ok ((map ?f (segment_chunks s) ! ?k)
       \<lparr>sc_flags := sc_flags (map ?f (segment_chunks s) ! ?k) XOR SymlinkComponentFlagContinue\<rparr>)"
      using component_ok_normal(2) k by simp
    moreover have "\<forall>c \<in> set (map ?f (segment_chunks s)). component_ok c"
      using segment_chunks_len component_ok_normal(1) by auto
    ultimately show ?thesis
      using set_update_subset_insert [of "map ?f (segment_chunks s)" ?k]
      unfolding normal Let_def list_all_iff length_map by blast
  qed
qed

lemma symlink_components_ok: "symlink_components p ss = Inr cs \<Longrightarrow> list_all component_ok cs"
  by (induction ss arbitrary: cs) (auto dest: NewSymlinkComponent_ok split: sum.splits)

lemma NewSymlink_wf:
  assumes "NewSymlink p t = Inr es"
  shows "list_all (wf_entry p) es"
proof -
  obtain cs where cs: "symlink_components p (split_slash (path_Clean t)) = Inr cs"
    and es: "es = (let sls = map (\<lambda>c. \<lparr>sl_comp = c, sl_cont = True\<rparr>) cs; k = length sls - 1
       in map SL (if length sls > 0 then sls[k := (sls ! k)\<lparr>sl_cont := False\<rparr>] else sls))"
    using assms unfolding NewSymlink_def Let_def by (auto split: sum.splits)
  let ?sls = "map (\<lambda>c. \<lparr>sl_comp = c, sl_cont = True\<rparr>) cs"
  let ?k = "length ?sls - 1"
  have "\<forall>sl \<in> set ?sls. component_ok (sl_comp sl)"
    using symlink_components_ok [OF cs] by (auto simp: list_all_iff)
  moreover have "component_ok (sl_comp ((?sls ! ?k)\<lparr>sl_cont := False\<rparr>))" if "?sls \<noteq> []"
  proof -
    have "?sls ! ?k \<in> set ?sls" using that by (intro nth_mem) simp
    then have "component_ok (sl_comp (?sls ! ?k))" using calculation by blast
    then show ?thesis by simp
  qed
  ultimately have "\<forall>sl \<in> set (if length ?sls > 0 then ?sls[?k := (?sls ! ?k)\<lparr>sl_cont := False\<rparr>] else ?sls). component_ok (sl_comp sl)"
    using set_update_subset_insert [of ?sls ?k "(?sls ! ?k)\<lparr>sl_cont := False\<rparr>"] by (auto split: if_splits)
  then show ?thesis unfolding es Let_def by (auto simp: list_all_iff component_ok_def)
qed

lemma extension_references_wf: "\<exists>ers. extension_references = Inr ers \<and> list_all (wf_entry p) ers \<and> no_CE ers"
  by (simp add: extension_references_def ExtensionsReference_def ExtensionsReferenceLegacy_def
      NewExtensionsReferenceEntry_def ER_Len_def bytes_of_def)

definition node_times :: "'m Inode \<Rightarrow> bool" where
  "node_times i \<longleftrightarrow> entry_time (Inode_Created i) \<and> entry_time (Inode_Modified i)"

lemma no_CE_map_SL [simp]: "no_CE (map SL sls)"
  by (simp add: no_CE_def list_all_iff)

lemma all_NM_no_CE: "filter is_NM es = es \<Longrightarrow> no_CE es"
  unfolding filter_id_conv by (auto simp: no_CE_def list_all_iff is_NM_def split: SystemUseEntry.splits)

lemma NewSymlink_no_CE: "NewSymlink p t = Inr es \<Longrightarrow> no_CE es"
  unfolding NewSymlink_def Let_def by (cases "symlink_components p (split_slash (path_Clean t))") auto

lemma InodeSystemUseEntries_wf:
  assumes "InodeSystemUseEntries p T h ident name i = Inr es" "node_times i" "p RuneError"
  shows "list_all (wf_entry p) es" "no_CE es"
proof -
  obtain ers nms adds where e: "(if Inode_Type i = InodeTypeDirectory then extension_references else Inr []) = Inr ers"
    "NewName p name = Inr nms" "AdditionalSystemUseEntries p i = Inr adds"
    and es: "\<exists>px tf. wf_entry p (PX px) \<and> wf_entry p (TF tf) \<and>
       es = (if Inode_IsRoot i \<and> ident = [0] then [NewSharingProtocolEntry 0] else []) @ ers @ nms @ [PX px, TF tf] @ adds"
    using assms(1,2) unfolding InodeSystemUseEntries_def
    by (auto simp: node_times_def form_time_def times_def Let_def split: sum.splits)
  have ers: "list_all (wf_entry p) ers" "no_CE ers"
  proof -
    obtain xs where xs: "extension_references = Inr xs" "list_all (wf_entry p) xs" "no_CE xs"
      using extension_references_wf [of p] by blast
    have "ers = (if Inode_Type i = InodeTypeDirectory then xs else [])"
      using e(1) unfolding xs(1) by (simp split: if_splits)
    then show "list_all (wf_entry p) ers" "no_CE ers" using xs(2,3) by simp_all
  qed
  have nms: "isValid p name" "nms = name_chunks name" using e(2) by (auto simp: NewName_def split: if_splits)
  have nm: "list_all (wf_entry p) nms" unfolding nms(2) by (rule name_chunks_wf [OF nms(1) assms(3)])
  have nce: "no_CE nms"
    using name_chunks_NM [of name] unfolding nms(2) by (rule all_NM_no_CE)
  have adds: "list_all (wf_entry p) adds" "no_CE adds"
    using e(3) NewSymlink_wf NewSymlink_no_CE by (cases i; auto)+
  show "list_all (wf_entry p) es" "no_CE es"
    using es ers nm nce adds by (auto simp: NewSharingProtocolEntry_def)
qed

section \<open>The records of a node\<close>

lemma entries_len_sum: "int (sum_list (map Entry_Len es)) = entries_len es"
  by (induction es) simp_all

lemma pop_overflow_spec:
  assumes "base = B + entries_len use" "extra = (if ov = [] then 0 else 28)" "B + 28 \<le> 255"
  shows "\<exists>u v. pop_overflow use ov base extra = Inr (u, v) \<and> u @ v = use @ ov \<and>
     (v = [] \<longrightarrow> B + entries_len u \<le> 255) \<and> (v \<noteq> [] \<longrightarrow> B + entries_len u + 28 \<le> 255) \<and>
     (ov = [] \<and> B + entries_len use \<le> 255 \<longrightarrow> v = []) \<and>
     (\<forall>n \<le> length use. B + entries_len (take n use) + 28 \<le> 255 \<longrightarrow> n \<le> length u)"
  using assms
proof (induction use ov base extra rule: pop_overflow.induct)
  case (1 use ov base extra)
  show ?case
  proof (cases "base + extra > int MaxDirectoryRecordLen")
    case True
    then have use: "use \<noteq> []" using "1.prems" by (auto simp: MaxDirectoryRecordLen_def split: if_splits)
    have split: "entries_len use = entries_len (butlast use) + int (Entry_Len (last use))"
      using use by (metis append_butlast_last_id entries_len_simps add.right_neutral)
    have app: "butlast use @ last use # ov = use @ ov"
      using use by (metis append_butlast_last_id append_Cons append_Nil append_assoc)
    obtain u v where uv: "pop_overflow (butlast use) (last use # ov) (base - int (Entry_Len (last use))) ContinuationAreaEntryLength = Inr (u, v)"
      "u @ v = use @ ov" "v = [] \<longrightarrow> B + entries_len u \<le> 255" "v \<noteq> [] \<longrightarrow> B + entries_len u + 28 \<le> 255"
      "\<forall>n \<le> length (butlast use). B + entries_len (take n (butlast use)) + 28 \<le> 255 \<longrightarrow> n \<le> length u"
      using "1.IH" [OF True use] "1.prems" split unfolding app by (auto simp: ContinuationAreaEntryLength_def)
    have big: "B + entries_len use + 28 > 255" "\<not> (ov = [] \<and> B + entries_len use \<le> 255)"
      using True "1.prems" by (auto simp: MaxDirectoryRecordLen_def split: if_splits)
    have "n \<le> length u" if "n \<le> length use" "B + entries_len (take n use) + 28 \<le> 255" for n
    proof -
      have "n \<noteq> length use" using that(2) big by auto
      then have "n \<le> length (butlast use)" using that(1) by simp
      moreover from this have "take n (butlast use) = take n use" using use by (intro take_butlast) (cases use; simp split: if_splits)
      ultimately show ?thesis using uv(5) that(2) by simp
    qed
    then show ?thesis using uv(1-4) big(2) True use by (subst pop_overflow.simps) auto
  next
    case False
    then show ?thesis
      using "1.prems" by (subst pop_overflow.simps) (auto simp: MaxDirectoryRecordLen_def split: if_splits)
  qed
qed

text \<open>
  A slice of \<open>l\<close> entries of the shared array fits its record, and keeps its length when later
  parts store their CE entries: it is the whole array or ends with a CE.
\<close>

definition fits :: "int \<Rightarrow> SystemUseEntry list \<Rightarrow> nat \<Rightarrow> bool" where
  "fits B arr l \<longleftrightarrow> l \<le> length arr \<and> B + entries_len (take l arr) \<le> 255 \<and>
     (l = length arr \<or> (\<exists>k ce. l = Suc k \<and> arr ! k = CE ce))"

lemma fits_store:
  assumes k: "k < length arr" "B + entries_len (take k arr) + 28 \<le> 255" "\<not> B + entries_len arr \<le> 255"
    and m: "\<forall>n \<le> length arr. B + entries_len (take n arr) + 28 \<le> 255 \<longrightarrow> n \<le> k"
  shows "fits B (arr[k := CE ce]) (Suc k)"
    and "fits B arr l \<Longrightarrow> fits B (arr[k := CE ce]) l"
proof -
  have len: "entries_len (take (Suc k) (arr[k := CE ce])) = entries_len (take k arr) + 28"
    using k(1) by (simp add: take_Suc_conv_app_nth)
  then show self: "fits B (arr[k := CE ce]) (Suc k)"
    using k by (simp add: fits_def)
  assume f: "fits B arr l"
  show "fits B (arr[k := CE ce]) l"
  proof (cases "l \<le> k")
    case True
    then show ?thesis using f k(1) by (auto simp: fits_def)
  next
    case False
    have "l \<noteq> length arr" using f k(3) by (auto simp: fits_def)
    then obtain j c where j: "l = Suc j" "arr ! j = CE c" "Suc j \<le> length arr" using f by (auto simp: fits_def)
    then have "B + entries_len (take j arr) + 28 \<le> 255"
      using f by (simp add: fits_def take_Suc_conv_app_nth)
    then have "j \<le> k" using m j(3) by auto
    then have "l = Suc k" using False j(1) by simp
    then show ?thesis using self by simp
  qed
qed

lemma split_parts_spec:
  assumes B: "B = int (34 + length ident - length ident mod 2)" "B + 28 \<le> 255"
    and "list_all (wf_entry p) arr" "area_ok p ca"
  shows "\<exists>lens arr2 ca2. split_parts ident i parts arr ca = Some (Inr (lens, arr2, ca2)) \<and>
     list_all (wf_entry p) arr2 \<and> area_ok p ca2 \<and> ca_start ca2 = ca_start ca \<and>
     extends (ca_sectors ca) (ca_sectors ca2) \<and>
     (\<forall>l \<in> set lens. fits B arr2 l) \<and> (\<forall>l. fits B arr l \<longrightarrow> fits B arr2 l) \<and>
     length arr2 = length arr \<and> length (ca_sectors ca2) \<le> length (ca_sectors ca) + length parts * length arr"
  using assms(3-)
proof (induction parts arbitrary: arr ca)
  case Nil
  then show ?case by simp
next
  case (Cons part parts)
  have base: "int (DirectoryRecord_Len (part_record ident i part (parts \<noteq> []) arr)) = B + entries_len arr"
    unfolding part_record_Len B(1) by (simp add: entries_len_sum)
  obtain use ov where uv: "pop_overflow arr [] (B + entries_len arr) 0 = Inr (use, ov)" "use @ ov = arr"
    "ov = [] \<longrightarrow> B + entries_len use \<le> 255" "ov \<noteq> [] \<longrightarrow> B + entries_len use + 28 \<le> 255"
    "B + entries_len arr \<le> 255 \<longrightarrow> ov = []"
    "\<forall>n \<le> length arr. B + entries_len (take n arr) + 28 \<le> 255 \<longrightarrow> n \<le> length use"
    using pop_overflow_spec [OF refl, of 0 "[]" B arr] B(2) by auto
  have "\<exists>len arr1 ca1. store_overflow use ov arr ca = Some (len, arr1, ca1) \<and> list_all (wf_entry p) arr1 \<and>
      area_ok p ca1 \<and> ca_start ca1 = ca_start ca \<and> extends (ca_sectors ca) (ca_sectors ca1) \<and>
      fits B arr1 len \<and> (\<forall>l. fits B arr l \<longrightarrow> fits B arr1 l) \<and> length arr1 = length arr \<and>
      length (ca_sectors ca1) \<le> length (ca_sectors ca) + length arr"
  proof (cases "ov = []")
    case True
    then show ?thesis using uv Cons.prems by (simp add: store_overflow_def fits_def)
  next
    case False
    have "list_all (wf_entry p) ov" using Cons.prems(1) uv(2) by (metis list_all_append)
    from Append_spec [OF False this Cons.prems(2)]
    obtain ca1 ce where ap: "ContinuationArea_Append ca ov = Some (ca1, Some ce)" "area_ok p ca1"
      "ca_start ca1 = ca_start ca" "extends (ca_sectors ca) (ca_sectors ca1)"
      "length (ca_sectors ca1) \<le> length (ca_sectors ca) + length ov" by blast
    let ?arr1 = "arr[length use := CE ce]"
    have k: "length use < length arr" "take (length use) arr = use" using uv(2) False by auto
    have st: "store_overflow use ov arr ca = Some (Suc (length use), ?arr1, ca1)"
      using False by (simp add: store_overflow_def ap(1))
    have "\<forall>e \<in> set ?arr1. wf_entry p e"
      using Cons.prems(1) set_update_subset_insert [of arr "length use" "CE ce"] by (auto simp: list_all_iff)
    moreover have "fits B ?arr1 (Suc (length use)) \<and> (\<forall>l. fits B arr l \<longrightarrow> fits B ?arr1 l)"
      using fits_store [of "length use" arr B] k uv(4-6) False by auto
    moreover have "length ov \<le> length arr" using uv(2) by auto
    ultimately show ?thesis using st ap(2-5) by (simp add: list_all_iff)
  qed
  then obtain len arr1 ca1 where st: "store_overflow use ov arr ca = Some (len, arr1, ca1)" "list_all (wf_entry p) arr1"
    "area_ok p ca1" "ca_start ca1 = ca_start ca" "extends (ca_sectors ca) (ca_sectors ca1)"
    "fits B arr1 len" "\<forall>l. fits B arr l \<longrightarrow> fits B arr1 l"
    "length arr1 = length arr" "length (ca_sectors ca1) \<le> length (ca_sectors ca) + length arr" by blast
  obtain lens arr2 ca2 where ih: "split_parts ident i parts arr1 ca1 = Some (Inr (lens, arr2, ca2))"
    "list_all (wf_entry p) arr2" "area_ok p ca2" "ca_start ca2 = ca_start ca1"
    "extends (ca_sectors ca1) (ca_sectors ca2)" "\<forall>l \<in> set lens. fits B arr2 l" "\<forall>l. fits B arr1 l \<longrightarrow> fits B arr2 l"
    "length arr2 = length arr1" "length (ca_sectors ca2) \<le> length (ca_sectors ca1) + length parts * length arr1"
    using Cons.IH [OF st(2,3)] by blast
  have "split_parts ident i (part # parts) arr ca = Some (Inr (len # lens, arr2, ca2))"
    unfolding split_parts_Cons base using uv(1) st(1) ih(1) by blast
  then show ?case
    using ih st(4-9) extends_trans by (intro exI [of _ "len # lens"] exI [of _ arr2] exI [of _ ca2]) auto
qed

lemma part_records_slice:
  "rec \<in> set (part_records ident i parts lens arr) \<Longrightarrow>
   \<exists>part later l. l \<in> set lens \<and> rec = part_record ident i part later (take l arr)"
  by (induction ident i parts lens arr rule: part_records.induct) auto

lemma part_records_wf:
  assumes "\<forall>l \<in> set lens. fits B arr l" "list_all (wf_entry p) arr"
    "B = int (34 + length ident - length ident mod 2)" "length ident \<le> 30" "entry_time (Inode_Modified i)"
  shows "list_all (wf_record p) (part_records ident i parts lens arr)"
  unfolding list_all_iff
proof
  fix rec assume "rec \<in> set (part_records ident i parts lens arr)"
  then obtain part later l where r: "l \<in> set lens" "rec = part_record ident i part later (take l arr)"
    using part_records_slice by blast
  then have "B + entries_len (take l arr) \<le> 255" using assms(1) by (auto simp: fits_def)
  then have "int (DirectoryRecord_Len rec) \<le> 255"
    unfolding r(2) part_record_Len assms(3) by (simp add: entries_len_sum)
  moreover have "list_all (wf_entry p) (take l arr)" using assms(2) by (auto simp: list_all_iff dest: in_set_takeD)
  ultimately show "wf_record p rec"
    using assms(4,5) unfolding wf_record_def
    by (simp add: r(2) part_record_def MaxDirectoryRecordIdentifierLen_def MaxDirectoryRecordLen_def)
qed

text \<open>The two panics of \<open>assertLBA\<close>.\<close>

definition lba_panic :: "goerr \<Rightarrow> bool" where
  "lba_panic e \<longleftrightarrow> e = Panic ''not at a sector'' \<or> e = Panic ''expected, actual''"

lemma NewSymlinkComponent_error: "NewSymlinkComponent p s = Inl e \<Longrightarrow> \<exists>m. e = Err m"
  unfolding NewSymlinkComponent_def Let_def by (auto split: if_splits)

lemma NewSymlink_error: "NewSymlink p t = Inl e \<Longrightarrow> \<exists>m. e = Err m"
proof -
  have "symlink_components p ss = Inl e \<Longrightarrow> \<exists>m. e = Err m" for ss
    by (induction ss) (auto dest: NewSymlinkComponent_error split: sum.splits)
  then show "NewSymlink p t = Inl e \<Longrightarrow> \<exists>m. e = Err m"
    unfolding NewSymlink_def Let_def by (auto split: sum.splits)
qed

lemma InodeSystemUseEntries_error:
  assumes "InodeSystemUseEntries p T h ident name i = Inl e"
  shows "\<exists>m. e = Err m"
proof -
  obtain ers where ers: "extension_references = Inr ers" using extension_references_wf by blast
  then obtain xs where "(if Inode_Type i = InodeTypeDirectory then extension_references else Inr []) = Inr xs"
    by (cases "Inode_Type i = InodeTypeDirectory") auto
  then consider (name) "NewName p name = Inl e" | (more) "AdditionalSystemUseEntries p i = Inl e"
    using assms unfolding InodeSystemUseEntries_def Let_def by (auto split: sum.splits)
  then show ?thesis
  proof cases
    case name
    then show ?thesis by (auto simp: NewName_def split: if_splits)
  next
    case more
    then show ?thesis by (cases i) (auto dest: NewSymlink_error)
  qed
qed

lemma Parts_error: "Inode_Parts i = Inl e \<Longrightarrow> e = Panic ''overflow''"
proof -
  have "InodeParts s n = Inl e \<Longrightarrow> e = Panic ''overflow''" for s n
    using InodeParts_spec [of s n] by auto
  then show "Inode_Parts i = Inl e \<Longrightarrow> e = Panic ''overflow''" by (cases i) auto
qed

text \<open>The entries written for a node, over all its parts; its sectors in the continuation area are no more.\<close>

definition entry_count :: "(rune \<Rightarrow> bool) \<Rightarrow> ('m, dirEntry) treemap \<Rightarrow> 'm heap \<Rightarrow> gostring \<times> gostring \<times> 'm Inode \<Rightarrow> nat" where
  "entry_count p T h m = (case m of (ident, name, i) \<Rightarrow>
     (case InodeSystemUseEntries p T h ident name i of Inl e \<Rightarrow> 0
      | Inr es \<Rightarrow> (case Inode_Parts i of Inl e \<Rightarrow> 0 | Inr ps \<Rightarrow> length ps * length es)))"

lemma splitInode_spec:
  assumes "node_times i" "p RuneError" "length ident \<le> 30" "area_ok p ca"
  shows "\<exists>r. splitInode p T h ident name i ca = Some r \<and>
     (\<forall>e. r = Inl e \<longrightarrow> InodeSystemUseEntries p T h ident name i = Inl e \<or> Inode_Parts i = Inl e) \<and>
     (\<forall>recs ca2. r = Inr (recs, ca2) \<longrightarrow> list_all (wf_record p) recs \<and> area_ok p ca2 \<and> ca_start ca2 = ca_start ca \<and>
        extends (ca_sectors ca) (ca_sectors ca2) \<and>
        length (ca_sectors ca2) \<le> length (ca_sectors ca) + entry_count p T h (ident, name, i))"
proof (cases "InodeSystemUseEntries p T h ident name i")
  case (Inl e)
  then show ?thesis by (simp add: splitInode_def)
next
  case (Inr entries)
  note es = InodeSystemUseEntries_wf [OF Inr assms(1,2)]
  show ?thesis
  proof (cases "Inode_Parts i")
    case (Inl e)
    then show ?thesis by (simp add: splitInode_def Inr)
  next
    case (Inr parts)
    define B where "B = int (34 + length ident - length ident mod 2)"
    have "B + 28 \<le> 255" using assms(3) by (simp add: B_def)
    from split_parts_spec [OF B_def this es(1) assms(4), of i parts]
    obtain lens arr ca2 where sp: "split_parts ident i parts entries ca = Some (Inr (lens, arr, ca2))"
      "list_all (wf_entry p) arr" "area_ok p ca2" "ca_start ca2 = ca_start ca"
      "extends (ca_sectors ca) (ca_sectors ca2)" "\<forall>l \<in> set lens. fits B arr l"
      "length (ca_sectors ca2) \<le> length (ca_sectors ca) + length parts * length entries" by blast
    have "list_all (wf_record p) (part_records ident i parts lens arr)"
      using part_records_wf [OF sp(6,2) B_def assms(3), of i parts] assms(1) by (simp add: node_times_def)
    then show ?thesis
      using sp \<open>InodeSystemUseEntries p T h ident name i = Inr entries\<close> Inr by (simp add: splitInode_def entry_count_def)
  qed
qed

lemma split_all_spec:
  assumes "\<forall>(ident, name, i) \<in> set xs. node_times i \<and> length ident \<le> 30" "p RuneError" "area_ok p ca"
  shows "\<exists>r. split_all p T h xs ca = Some r \<and>
     (\<forall>e. r = Inl e \<longrightarrow> (\<exists>(ident, name, i) \<in> set xs. InodeSystemUseEntries p T h ident name i = Inl e \<or> Inode_Parts i = Inl e)) \<and>
     (\<forall>recs ca2. r = Inr (recs, ca2) \<longrightarrow> list_all (wf_record p) recs \<and> area_ok p ca2 \<and> ca_start ca2 = ca_start ca \<and>
        extends (ca_sectors ca) (ca_sectors ca2) \<and>
        length (ca_sectors ca2) \<le> length (ca_sectors ca) + sum_list (map (entry_count p T h) xs))"
  using assms(1,3)
proof (induction xs arbitrary: ca)
  case (Cons x xs)
  obtain ident name i where x: "x = (ident, name, i)" by (cases x)
  have "node_times i" "length ident \<le> 30" using Cons.prems(1) by (simp_all add: x)
  from splitInode_spec [OF this(1) assms(2) this(2) Cons.prems(2), of T h name]
  obtain r where r: "splitInode p T h ident name i ca = Some r"
    "\<forall>e. r = Inl e \<longrightarrow> InodeSystemUseEntries p T h ident name i = Inl e \<or> Inode_Parts i = Inl e"
    "\<forall>recs ca2. r = Inr (recs, ca2) \<longrightarrow> list_all (wf_record p) recs \<and> area_ok p ca2 \<and> ca_start ca2 = ca_start ca \<and>
        extends (ca_sectors ca) (ca_sectors ca2) \<and>
        length (ca_sectors ca2) \<le> length (ca_sectors ca) + entry_count p T h x" unfolding x by blast
  show ?case
  proof (cases r)
    case (Inl e)
    then show ?thesis using r by (auto simp: x)
  next
    case (Inr b)
    obtain recs ca1 where b: "r = Inr (recs, ca1)" using Inr by (cases b) simp
    then have one: "list_all (wf_record p) recs" "area_ok p ca1" "ca_start ca1 = ca_start ca"
      "extends (ca_sectors ca) (ca_sectors ca1)" "length (ca_sectors ca1) \<le> length (ca_sectors ca) + entry_count p T h x"
      using r(3) by auto
    obtain r' where r': "split_all p T h xs ca1 = Some r'"
      "\<forall>e. r' = Inl e \<longrightarrow> (\<exists>(ident, name, i) \<in> set xs. InodeSystemUseEntries p T h ident name i = Inl e \<or> Inode_Parts i = Inl e)"
      "\<forall>recs ca2. r' = Inr (recs, ca2) \<longrightarrow> list_all (wf_record p) recs \<and> area_ok p ca2 \<and> ca_start ca2 = ca_start ca1 \<and>
        extends (ca_sectors ca1) (ca_sectors ca2) \<and>
        length (ca_sectors ca2) \<le> length (ca_sectors ca1) + sum_list (map (entry_count p T h) xs)"
      using Cons.IH [OF _ one(2)] Cons.prems(1) by auto
    have "split_all p T h (x # xs) ca = Some (map_sum id (\<lambda>(recs', ca''). (recs @ recs', ca'')) r')"
      by (simp add: x r(1) b r'(1))
    then show ?thesis
      using r'(2,3) one extends_trans by (cases r') auto
  qed
qed simp

section \<open>The extent of a directory\<close>

lemma PutUvarint_length: "x < 128 ^ n \<Longrightarrow> 0 < n \<Longrightarrow> length (PutUvarint x) \<le> n"
proof (induction n arbitrary: x)
  case (Suc n)
  show ?case
  proof (cases "x < 0x80")
    case False
    then have n: "0 < n" using Suc.prems(1) by (cases n) auto
    have "x div 128 < 128 ^ n" using Suc.prems(1) by (simp add: less_mult_imp_div_less mult.commute)
    then show ?thesis using Suc.IH [OF _ n] False by (subst PutUvarint.simps) simp
  qed (simp add: PutUvarint.simps [of x])
qed simp

lemma entry_ident_length: "k < 2 ^ 32 \<Longrightarrow> length (entry_ident k ty) \<le> 30"
proof -
  assume "k < 2 ^ 32"
  then have l: "length (PutUvarint k) \<le> 5" by (intro PutUvarint_length) auto
  have "PutUvarint k \<noteq> []" by (simp add: PutUvarint.simps [of k])
  from base32_step [OF this] l have "length (base32_Encode (PutUvarint k)) = 8"
    by (simp add: length_encode_quantum del: base32_Encode.simps) simp
  then show ?thesis by (simp add: entry_ident_def bytes_of_def)
qed

definition times_ok :: "'m heap \<Rightarrow> bool" where
  "times_ok h \<longleftrightarrow> (\<forall>i \<in> set h. node_times i)"

lemma moved_times: "moved h h' \<Longrightarrow> times_ok h \<Longrightarrow> times_ok h'"
proof -
  have e: "node_times (erase i) = node_times i" for i :: "'m Inode" by (simp add: node_times_def erase_keeps)
  have "times_ok h = (\<forall>i \<in> set (map erase h). node_times i)" for h :: "'m heap" by (simp add: times_ok_def e)
  then show "moved h h' \<Longrightarrow> times_ok h \<Longrightarrow> times_ok h'" unfolding moved_def by metis
qed

lemma member_ident_length:
  assumes h: "heap_ok T h" "reached h d" and m: "(ident, name, q) \<in> set (member_refs T h d)"
  shows "length ident \<le> 30"
proof -
  have node: "h ! d = DirI (the_dir (h ! d))" using h(2) by (simp add: reached_def the_dir_DirI)
  then have ok: "dir_ok T h d (the_dir (h ! d))" using h by (simp add: heap_ok_def reached_def)
  have "length (fst e) \<le> 30" if e: "e \<in> set (child_entries T h d)" for e
  proof -
    obtain k where k: "k < length (child_entries T h d)" "fst e = entry_ident k (Inode_Type (h ! de_child (snd e)))"
      using dir_okD(3) [OF ok, of e] e unfolding child_entries_def by blast
    have "k < 2 ^ 32"
      using k(1) dir_ok_count [OF ok] h(1) by (simp add: child_entries_def heap_ok_def)
    then show ?thesis unfolding k(2) by (rule entry_ident_length)
  qed
  then show ?thesis using m by (force simp: member_refs_def)
qed

text \<open>Files that one part holds.\<close>

definition small_files :: "'m heap \<Rightarrow> bool" where
  "small_files h \<longleftrightarrow> (\<forall>f. FileI f \<in> set h \<longrightarrow> 0 \<le> Size (f_o f) \<and> Size (f_o f) \<le> int MaxPartSize)"

lemma small_file_parts:
  assumes "0 \<le> sz" "sz \<le> int MaxPartSize"
  shows "\<exists>part. InodeParts s (of_int sz) = Inr [part]"
proof -
  have "0 \<le> sz" "sz \<le> 4294965248" using assms by (simp_all add: MaxPartSize_def)
  then have "\<not> (of_int sz :: u64) > 4294965248"
    by (simp add: word_less_alt uint_word_of_int take_bit_int_eq_self)
  then show ?thesis by (simp add: InodeParts_step)
qed

lemma one_part:
  assumes "small_files h" "small_dirs h" "i \<in> set h"
  shows "\<exists>part. Inode_Parts i = Inr [part]"
proof (cases i)
  case (FileI f)
  then show ?thesis using assms small_file_parts by (auto simp: small_files_def)
next
  case (DirI d)
  then have "unat (d_size d) \<le> MaxPartSize" using assms by (auto simp: small_dirs_def)
  then show ?thesis by (simp add: DirI small_parts)
next
  case (SymI s)
  then show ?thesis by (simp add: InodeParts_step)
qed

text \<open>
  The errors an image of the tree can end with: an entry whose names cannot be recorded, a
  file that overflows the block addresses, a directory that one extent does not hold.
\<close>

definition refuses :: "(rune \<Rightarrow> bool) \<Rightarrow> ('m, dirEntry) treemap \<Rightarrow> 'm heap \<Rightarrow> goerr \<Rightarrow> bool" where
  "refuses p T h x \<longleftrightarrow>
     (\<exists>c ident name i. reached h c \<and> (ident, name, i) \<in> set (directory_members T h c) \<and>
        InodeSystemUseEntries p T h ident name i = Inl x) \<or>
     (x = Panic ''overflow'' \<and> \<not> small_files h) \<or>
     (x = Panic ''Directory.Size'' \<and>
        (\<not> small_files h \<or> (\<exists>c. reached h c \<and> 8000000 \<le> length (directory_members T h c))))"

lemma refuses_not_assertion: "refuses p T h x \<Longrightarrow> \<not> lba_panic x"
  using InodeSystemUseEntries_error unfolding refuses_def lba_panic_def by fastforce

lemma heap_ok_small: "heap_ok T h \<Longrightarrow> small_dirs h"
  by (auto simp: heap_ok_def small_dirs_def dir_ok_def Let_def in_set_conv_nth)

lemma split_all_count:
  assumes "\<forall>(ident, name, i) \<in> set ms. \<exists>part. Inode_Parts i = Inr [part]"
    and "split_all p T h ms ca = Some (Inr (recs, ca2))"
  shows "length recs = length ms"
  using assms
proof (induction ms arbitrary: ca recs)
  case (Cons m ms)
  obtain ident name i where m: "m = (ident, name, i)" by (cases m)
  obtain recs1 ca1 recs2 where s: "splitInode p T h ident name i ca = Some (Inr (recs1, ca1))"
    "split_all p T h ms ca1 = Some (Inr (recs2, ca2))" "recs = recs1 @ recs2"
    using Cons.prems(2) unfolding m split_all_Cons by blast
  obtain part where "Inode_Parts i = Inr [part]" using Cons.prems(1) by (auto simp: m)
  then obtain es lens arr where "split_parts ident i [part] es ca = Some (Inr (lens, arr, ca1))"
    and recs1: "recs1 = part_records ident i [part] lens arr"
    using s(1) unfolding splitInode_Inr by auto
  from split_parts_length [OF this(1)] have "length lens = 1" by simp
  then obtain l where "lens = [l]" by (cases lens) auto
  then have "length recs1 = 1" by (simp add: recs1)
  then show ?case using Cons.IH [OF _ s(2)] Cons.prems(1) s(3) by simp
qed simp

lemma ToDirectory_spec:
  assumes h: "heap_ok T h" "times_ok h" "reached h d" and p: "p RuneError"
  shows "\<exists>r. ToDirectory p T h d = Some r \<and> (\<forall>e. r = Inl e \<longrightarrow> refuses p T h e) \<and>
     (\<forall>dir ca. r = Inr (dir, ca) \<longrightarrow> list_all (wf_record p) (Records dir) \<and> area_ok p ca \<and>
        (small_files h \<longrightarrow> length (Records dir) = length (directory_members T h d)) \<and>
        length (ca_sectors ca) \<le> sum_list (map (entry_count p T h) (directory_members T h d)) \<and>
        ca_start ca = d_start (the_dir (h ! d)) + bytesToSectors (d_size (the_dir (h ! d))))"
proof -
  have node: "h ! d = DirI (the_dir (h ! d))" using h(3) by (simp add: reached_def the_dir_DirI)
  then have ok: "dir_ok T h d (the_dir (h ! d))" using h by (simp add: heap_ok_def reached_def)
  then have "unat (d_size (the_dir (h ! d))) \<le> MaxPartSize" by (simp add: dir_ok_def Let_def)
  then have parts: "Inode_Parts (h ! d) = Inr [\<lparr>part_start = d_start (the_dir (h ! d)), part_size = d_size (the_dir (h ! d))\<rparr>]"
    by (subst node) (simp add: small_parts)
  note ident = member_ident_length [OF h(1,3)]
  have "node_times (h ! q)" if "(ident, name, q) \<in> set (member_refs T h d)" for ident name q
    using member_refs_valid [OF h(1,3) that] h(2) by (simp add: times_ok_def)
  then have ms: "\<forall>(ident, name, i) \<in> set (directory_members T h d). node_times i \<and> length ident \<le> 30"
    using ident unfolding directory_members_refs by auto
  have mem: "i \<in> set h" if "(ident, name, i) \<in> set (directory_members T h d)" for ident name i
    using that member_refs_valid [OF h(1,3)] unfolding directory_members_refs by auto
  let ?ca = "NewContinuationArea (d_start (the_dir (h ! d)) + bytesToSectors (d_size (the_dir (h ! d))))"
  have "area_ok p ?ca" by (simp add: area_ok_def NewContinuationArea_def)
  from split_all_spec [where p = p and h = h and T = T, OF ms p this]
  obtain r where r: "split_all p T h (directory_members T h d) ?ca = Some r"
    "\<forall>e. r = Inl e \<longrightarrow> (\<exists>(ident, name, i) \<in> set (directory_members T h d).
       InodeSystemUseEntries p T h ident name i = Inl e \<or> Inode_Parts i = Inl e)"
    "\<forall>recs ca2. r = Inr (recs, ca2) \<longrightarrow> list_all (wf_record p) recs \<and> area_ok p ca2 \<and> ca_start ca2 = ca_start ?ca \<and>
       length (ca_sectors ca2) \<le> length (ca_sectors ?ca) + sum_list (map (entry_count p T h) (directory_members T h d))" by blast
  have one: "\<exists>part. Inode_Parts i = Inr [part]"
    if "small_files h" "(ident, name, i) \<in> set (directory_members T h d)" for ident name i
    using one_part [OF that(1) heap_ok_small [OF h(1)] mem [OF that(2)]] .
  have "refuses p T h e" if e: "r = Inl e" for e
  proof -
    obtain ident name i where m: "(ident, name, i) \<in> set (directory_members T h d)"
      "InodeSystemUseEntries p T h ident name i = Inl e \<or> Inode_Parts i = Inl e" using r(2) e by blast
    have "Inode_Parts i = Inl e \<Longrightarrow> \<not> small_files h" using one [OF _ m(1)] by auto
    then show ?thesis using m h(3) Parts_error [of i e] unfolding refuses_def by blast
  qed
  moreover have "length recs = length (directory_members T h d)" if "small_files h" "r = Inr (recs, ca2)" for recs ca2
    using split_all_count [of "directory_members T h d" p T h ?ca recs ca2] one [OF that(1)] r(1) that(2) by auto
  ultimately show ?thesis
    using r(1,3) by (cases r) (auto simp: ToDirectory_def toDirectory_def parts Let_def NewContinuationArea_def)
qed

lemma moved_small_files: "moved h h' \<Longrightarrow> small_files h \<Longrightarrow> small_files h'"
proof -
  assume m: "moved h h'" and s: "small_files h"
  have "0 \<le> Size (f_o f) \<and> Size (f_o f) \<le> int MaxPartSize" if f: "FileI f \<in> set h'" for f
  proof -
    obtain k where k: "k < length h'" "h' ! k = FileI f" using f by (metis in_set_conv_nth)
    have kl: "k < length h" using k(1) moved_length [OF m] by simp
    obtain g where g: "h ! k = FileI g" "f\<lparr>f_start := 0\<rparr> = g\<lparr>f_start := 0\<rparr>"
      using moved_nth [OF m kl] k(2) by (cases "h ! k") auto
    have "f_o f = f_o g" using arg_cong [OF g(2), of f_o] by simp
    moreover have "FileI g \<in> set h" using g(1) kl by (metis nth_mem)
    ultimately show ?thesis using s by (simp add: small_files_def)
  qed
  then show "small_files h'" by (simp add: small_files_def)
qed

lemma moved_reached: "moved h h' \<Longrightarrow> reached h c \<Longrightarrow> reached h' c"
  using moved_type moved_dir(2) moved_length unfolding reached_def by metis

lemma moved_refuses:
  assumes h: "heap_ok T h" and m: "moved h h'" and x: "refuses p T h' x"
  shows "refuses p T h x"
proof -
  note m2 = moved_sym [OF m]
  have small: "small_files h \<Longrightarrow> small_files h'" by (rule moved_small_files [OF m])
  have refs: "member_refs T h' c = member_refs T h c" if "reached h' c" for c
    using moved_member_refs [OF m] moved_reached [OF m2 that] by (simp add: reached_def)
  have len: "length (directory_members T h' c) = length (directory_members T h c)" if "reached h' c" for c
    unfolding directory_members_refs refs [OF that] by simp
  have one: "\<exists>i'. (ident, name, i') \<in> set (directory_members T h c) \<and> InodeSystemUseEntries p T h ident name i' = Inl x"
    if c: "reached h' c" and i: "(ident, name, i) \<in> set (directory_members T h' c)" "InodeSystemUseEntries p T h' ident name i = Inl x"
    for c ident name i
  proof -
    obtain q where q: "(ident, name, q) \<in> set (member_refs T h c)" "i = h' ! q"
      using i(1) unfolding directory_members_refs refs [OF c] by auto
    have "q < length h" using member_refs_valid [OF h moved_reached [OF m2 c] q(1)] by simp
    from moved_entries [OF h m this] have "InodeSystemUseEntries p T h ident name (h ! q) = Inl x" using i(2) q(2) by simp
    moreover have "(ident, name, h ! q) \<in> set (directory_members T h c)"
      using q(1) unfolding directory_members_refs by force
    ultimately show ?thesis by blast
  qed
  from x consider (entry) c ident name i where "reached h' c" "(ident, name, i) \<in> set (directory_members T h' c)"
      "InodeSystemUseEntries p T h' ident name i = Inl x"
    | (size) "x = Panic ''overflow''" "\<not> small_files h'"
    | (big) "x = Panic ''Directory.Size''" "\<not> small_files h'"
    | (many) c where "x = Panic ''Directory.Size''" "reached h' c" "8000000 \<le> length (directory_members T h' c)"
    unfolding refuses_def by blast
  then show ?thesis
  proof cases
    case entry
    then show ?thesis using one moved_reached [OF m2] unfolding refuses_def by blast
  next
    case many
    then show ?thesis using len moved_reached [OF m2] unfolding refuses_def by auto
  qed (use small in \<open>auto simp: refuses_def\<close>)
qed

text \<open>A directory is too large only when it has very many records.\<close>

lemma records_end_bound: "list_all (\<lambda>l. l \<le> 255) ls \<Longrightarrow> records_end w ls \<le> 509 * length ls"
proof (induction ls arbitrary: w)
  case (Cons l ls)
  define g where "g = (if l > LogicalBlockSize - w mod LogicalBlockSize then LogicalBlockSize - w mod LogicalBlockSize else 0)"
  have "g \<le> 254" "l \<le> 255" using Cons.prems by (auto simp: g_def)
  moreover have "records_end w (l # ls) = g + l + records_end (w + (g + l)) ls" by (simp add: Let_def g_def)
  moreover have "records_end (w + (g + l)) ls \<le> 509 * length ls" using Cons.IH Cons.prems by simp
  ultimately show ?case by simp
qed simp

lemma Directory_WriteTo_fits:
  assumes "list_all (wf_record p) (Records dir)"
  shows "snd (Directory_WriteTo dir) = None \<longleftrightarrow> records_end 0 (map DirectoryRecord_Len (Records dir)) \<le> MaxPartSize"
proof -
  obtain bs where bs: "write_records 0 (Records dir) = emit bs" using write_records_emit [OF assms] by blast
  then have "length bs = records_end 0 (map DirectoryRecord_Len (Records dir))"
    using length_write_records [of 0 "Records dir"] by simp
  then show ?thesis by (auto simp: Directory_WriteTo_def bs emit_def Let_def)
qed

lemma ToDirectory_too_large:
  assumes h: "heap_ok T h" "times_ok h" "reached h d" and p: "p RuneError"
    and t: "ToDirectory p T h d = Some (Inr (dir, ca))" and w: "snd (Directory_WriteTo dir) \<noteq> None"
  shows "refuses p T h (Panic ''Directory.Size'')"
proof (cases "small_files h")
  case True
  have d: "list_all (wf_record p) (Records dir)" "length (Records dir) = length (directory_members T h d)"
    using ToDirectory_spec [where p = p, OF h p] t True by auto
  have "list_all (\<lambda>l. l \<le> 255) (map DirectoryRecord_Len (Records dir))"
    using d(1) by (auto simp: list_all_iff wf_record_def MaxDirectoryRecordLen_def)
  from records_end_bound [OF this] have "records_end 0 (map DirectoryRecord_Len (Records dir)) \<le> 509 * length (Records dir)" by simp
  moreover have "MaxPartSize < records_end 0 (map DirectoryRecord_Len (Records dir))"
    using Directory_WriteTo_fits [OF d(1)] w by simp
  ultimately have "8000000 \<le> length (directory_members T h d)" using d(2) by (simp add: MaxPartSize_def)
  then show ?thesis using h(3) unfolding refuses_def by blast
qed (simp add: refuses_def)

end
