(* ===== verification/Passes.thy ===== *)
theory Passes
  imports DirExtent
begin

text \<open>
  The two passes of \<open>volume.go\<close>: \<open>assignLogicalBlockAddresses\<close> gives every directory the
  sectors behind those of the directories visited before it, and \<open>WriteMetadataTo\<close> visits
  them in the same order and writes as many.  So \<open>assertLBA\<close> never panics, and each directory
  extent lies where its address says.
\<close>

section \<open>Sizes in sectors\<close>

definition dir_bytes :: "Directory \<Rightarrow> byte list" where
  "dir_bytes dir = pad_out (fst (Directory_WriteTo dir))"

definition area_bytes :: "ContinuationArea \<Rightarrow> byte list" where
  "area_bytes ca = fst (ContinuationArea_WriteTo ca)"

lemma round_up:
  fixes n :: nat
  shows "(n + 2047) div 2048 = (if n mod 2048 = 0 then n div 2048 else n div 2048 + 1)"
proof -
  define q r where "q = n div 2048" and "r = n mod 2048"
  then have n: "n = 2048 * q + r" and r: "r < 2048" by simp_all
  have "(2048 * q + r + 2047) div 2048 = q + (r + 2047) div 2048"
    using div_mult_self4 [of 2048 q "r + 2047"] by (simp add: add.assoc)
  moreover have "(r + 2047) div 2048 = (if r = 0 then 0 else 1)"
    using r by (cases r) (simp_all add: div_eq_dividend_iff div_less)
  ultimately show ?thesis using r by (simp add: n)
qed

lemma length_pad_out:
  "length (pad_out out) = (length out + 2047) div 2048 * 2048"
  "0 < length out \<Longrightarrow> length out < 2 ^ 32 \<Longrightarrow> length (pad_out out) div 2048 = unat (bytesToSectors (of_nat (length out)))"
proof -
  let ?n = "length out"
  have d: "?n = ?n div 2048 * 2048 + ?n mod 2048" "?n mod 2048 < 2048" by simp_all
  have up: "n = q * 2048 + r \<Longrightarrow> r < 2048 \<Longrightarrow> n + (2048 - r) = (q + 1) * 2048" for n q r :: nat by simp
  show l: "length (pad_out out) = (?n + 2047) div 2048 * 2048"
  proof (cases "?n mod 2048 = 0")
    case True
    then show ?thesis using d(1) by (simp add: pad_out_def padOutSector_def LogicalBlockSize_def round_up)
  next
    case False
    then have "0 < ?n mod 2048" by simp
    then show ?thesis
      unfolding pad_out_def length_append padOutSector_def Let_def LogicalBlockSize_def round_up
      by (simp only: False if_False if_True length_pad up [OF d])
  qed
  assume pos: "0 < ?n" "?n < 2 ^ 32"
  then have u: "unat (of_nat ?n :: u32) = ?n" by (simp add: unat_of_nat)
  have "?n < 2048 \<Longrightarrow> ?n mod 2048 \<noteq> 0" using pos(1) by simp
  then show "length (pad_out out) div 2048 = unat (bytesToSectors (of_nat ?n))"
    unfolding l unat_bytesToSectors u round_up by auto
qed

lemma pad_out_aligned: "2048 dvd length (pad_out out)"
  unfolding length_pad_out(1) by simp

lemma pad_out_append:
  assumes "2048 dvd length out"
  shows "pad_out (out @ bs) = out @ pad_out bs"
proof -
  have "(length out + n) mod LogicalBlockSize = n mod LogicalBlockSize" for n
    using assms by (auto simp: LogicalBlockSize_def elim!: dvdE)
  then show ?thesis by (simp add: pad_out_def padOutSector_def)
qed

lemma pad_out_id: "2048 dvd length out \<Longrightarrow> pad_out out = out"
  by (simp add: pad_out_def padOutSector_def LogicalBlockSize_def dvd_eq_mod_eq_0)

lemma Directory_written:
  assumes "snd (Directory_WriteTo dir) = None" "Records dir \<noteq> []"
  shows "Directory_Size dir = Inr (int (length (dir_bytes dir)))"
    "unat (of_int (int (length (dir_bytes dir))) :: u32) = length (dir_bytes dir)"
    "bytesToSectors (of_int (int (length (dir_bytes dir)))) = of_nat (length (dir_bytes dir) div 2048)"
    "length (dir_bytes dir) \<le> MaxPartSize"
proof -
  let ?n = "length (fst (Directory_WriteTo dir))" and ?l = "length (dir_bytes dir)"
  have n: "?n \<le> MaxPartSize" "0 < ?n"
    using length_Directory_WriteTo [OF assms(1)] records_end_pos [OF assms(2)] by simp_all
  then have n32: "?n < 2 ^ 32" by (simp add: MaxPartSize_def)
  have s: "?l div 2048 = unat (bytesToSectors (of_nat ?n))"
    using length_pad_out(2) [of "fst (Directory_WriteTo dir)"] n(2) n32 by (simp add: dir_bytes_def)
  have l: "?l = ?l div 2048 * 2048" unfolding dir_bytes_def length_pad_out(1) by simp
  have "(?n + 2047) div 2048 \<le> (4294965248 + 2047) div 2048"
    using n(1) by (intro div_le_mono) (simp add: MaxPartSize_def)
  then have m: "(?n + 2047) div 2048 * 2048 \<le> MaxPartSize" by (simp add: MaxPartSize_def)
  then show le: "?l \<le> MaxPartSize" by (simp add: dir_bytes_def length_pad_out(1))
  then have l32: "?l < 2 ^ 32" by (simp add: MaxPartSize_def)
  have "unat (sectorsToBytes (bytesToSectors (of_nat ?n))) = ?l"
    using s l by (simp add: unat_sectorsToBytes)
  then have "uint (sectorsToBytes (bytesToSectors (of_nat ?n))) = int ?l" by (simp add: uint_nat del: of_nat_unat)
  then have "sint (sectorsToBytes (bytesToSectors (of_nat ?n))) = int ?l"
    using l32 unfolding sint_uint by (subst signed_take_bit_int_eq_self) auto
  then show "Directory_Size dir = Inr (int ?l)" by (simp add: Directory_Size_def assms(1))
  show u: "unat (of_int (int ?l) :: u32) = ?l" using l32 by (simp add: unat_of_nat)
  have m0: "?l mod 2048 = 0" using pad_out_aligned by (simp add: dir_bytes_def dvd_eq_mod_eq_0)
  have "0 < ?l" using n(2) by (simp add: dir_bytes_def pad_out_def)
  then have "unat (bytesToSectors (of_int (int ?l))) = ?l div 2048"
    unfolding unat_bytesToSectors u using m0 by auto
  then show "bytesToSectors (of_int (int ?l)) = of_nat (?l div 2048)" by (metis of_nat_unat ucast_id)
qed

lemma area_written:
  assumes "area_ok p ca"
  shows "snd (ContinuationArea_WriteTo ca) = None" "length (area_bytes ca) = length (ca_sectors ca) * 2048"
    "ContinuationArea_Len ca = int (length (area_bytes ca))"
proof -
  have ok: "list_all (sector_ok p) (ca_sectors ca)" using assms by (simp add: area_ok_def)
  have w: "ContinuationArea_WriteTo ca = emit (concat (map sector_image (ca_sectors ca)))"
    using write_sectors_image [OF ok, of 0] by (simp add: ContinuationArea_WriteTo_def)
  have "list_all (sector_ok p) ss \<Longrightarrow> length (concat (map sector_image ss)) = length ss * 2048" for ss
    by (induction ss) (auto dest: length_sector_image)
  from this [OF ok] have "length (concat (map sector_image (ca_sectors ca))) = length (ca_sectors ca) * 2048" .
  then show "snd (ContinuationArea_WriteTo ca) = None" "length (area_bytes ca) = length (ca_sectors ca) * 2048"
    by (simp_all add: w area_bytes_def)
  then show "ContinuationArea_Len ca = int (length (area_bytes ca))"
    by (simp add: ContinuationArea_Len_def LogicalBlockSize_def)
qed

section \<open>Assigning\<close>

lemma moved_heap_ok:
  assumes h: "heap_ok T h" and m: "moved h h'" and s: "small_dirs h'"
  shows "heap_ok T h'"
proof -
  have "map Inode_Number h' = map Inode_Number (map erase h')" "map Inode_Number h = map Inode_Number (map erase h)"
    by (simp_all add: erase_keeps)
  then have num: "map Inode_Number h' = map Inode_Number h" using m unfolding moved_def by metis
  have "dir_ok T h' p d'" if p: "p < length h'" "h' ! p = DirI d'" for p d'
  proof -
    have pl: "p < length h" using p moved_length [OF m] by simp
    obtain d where d: "h ! p = DirI d" "d\<lparr>d_start := 0, d_size := 0\<rparr> = d'\<lparr>d_start := 0, d_size := 0\<rparr>"
      using moved_nth [OF m pl] p(2) by (cases "h ! p") auto
    have f: "d_children d' = d_children d" "d_idAlloc d' = d_idAlloc d" "d_names d' = d_names d"
      using arg_cong [OF d(2), of d_children] arg_cong [OF d(2), of d_idAlloc] arg_cong [OF d(2), of d_names] by simp_all
    have "dir_ok T h p d" using h pl d(1) by (simp add: heap_ok_def)
    then have "dir_ok T h' p d"
    proof (rule dir_ok_frame)
      fix c assume "c \<in> (de_child \<circ> snd) ` set (tm_Iterator T (d_children d))"
      then have c: "c < length h" using \<open>dir_ok T h p d\<close> by (auto simp: dir_ok_def Let_def)
      have e: "erase (h ! c) = erase (h' ! c)" by (rule moved_nth [OF m c])
      have "child_of p c i = child_of p c (erase i)" for i :: "'a Inode" by (cases i) auto
      then show "Inode_Type (h' ! c) = Inode_Type (h ! c) \<and> (child_of p c (h ! c) \<longrightarrow> child_of p c (h' ! c))"
        using e erase_facts(1) [OF e] by metis
    qed (simp add: moved_length [OF m])
    moreover have "unat (d_size d') \<le> MaxPartSize"
      using s p nth_mem [OF p(1)] by (auto simp: small_dirs_def)
    ultimately show ?thesis unfolding dir_ok_def f Let_def by blast
  qed
  then show ?thesis using h num moved_length [OF m] unfolding heap_ok_def by simp
qed

text \<open>
  The visitor that assigns: the directory gets the next free sector and its own size, and the
  sectors of its extent and of its continuation area are taken.
\<close>

definition area_words :: "ContinuationArea \<Rightarrow> u32" where
  "area_words ca = (if ContinuationArea_Len ca > 0 then bytesToSectors (of_int (ContinuationArea_Len ca)) else 0)"

definition given :: "(rune \<Rightarrow> bool) \<Rightarrow> ('m, dirEntry) treemap \<Rightarrow> 'm heap \<Rightarrow> ref \<Rightarrow> Directory \<Rightarrow> ContinuationArea \<Rightarrow> bool" where
  "given p T h c dir ca \<longleftrightarrow> (\<exists>h'. moved h h' \<and> small_dirs h' \<and> ToDirectory p T h' c = Some (Inr (dir, ca))) \<and>
     snd (Directory_WriteTo dir) = None \<and> Records dir \<noteq> []"

definition pvd_dates :: "'m Volume \<Rightarrow> Time \<times> Time \<times> Time" where
  "pvd_dates v = (Created (v_pvd v), Modified (v_pvd v), Effective (v_pvd v))"

lemma pvd_dates_simps [simp]:
  "pvd_dates (v\<lparr>v_pvd := (v_pvd v)\<lparr>PathTableSize := x\<rparr>\<rparr>) = pvd_dates v"
  "pvd_dates (v\<lparr>v_pvd := (v_pvd v)\<lparr>LTableStart := x, MTableStart := y\<rparr>\<rparr>) = pvd_dates v"
  by (simp_all add: pvd_dates_def)

lemma pvd_dates_space: "pvd_dates (w\<lparr>v_pvd := (v_pvd v)\<lparr>VolumeSpaceSize := x\<rparr>\<rparr>) = pvd_dates v"
  by (simp add: pvd_dates_def)

definition pvd_tables :: "'m Volume \<Rightarrow> u32 \<times> u32 \<times> u32 \<times> ref \<times> (Time \<times> Time \<times> Time)" where
  "pvd_tables v = (PathTableSize (v_pvd v), LTableStart (v_pvd v), MTableStart (v_pvd v), v_root v, pvd_dates v)"

definition pvd_root :: "'m Volume \<Rightarrow> u32 \<times> u32 \<times> Time" where
  "pvd_root v = (RootStart (v_pvd v), RootLength (v_pvd v), RootModified (v_pvd v))"

definition root_fields :: "'m heap \<Rightarrow> ref \<Rightarrow> u32 \<times> u32 \<times> Time" where
  "root_fields h c = (d_start (the_dir (h ! c)), d_size (the_dir (h ! c)), d_modified (the_dir (h ! c)))"

lemma moved_modified:
  "moved h h' \<Longrightarrow> p < length h \<Longrightarrow> Inode_Type (h ! p) = InodeTypeDirectory \<Longrightarrow>
   d_modified (the_dir (h' ! p)) = d_modified (the_dir (h ! p))"
proof -
  assume m: "moved h h'" "p < length h" "Inode_Type (h ! p) = InodeTypeDirectory"
  have "Inode_Modified (h' ! p) = Inode_Modified (h ! p)" using erase_facts(5) [OF moved_nth [OF m(1,2)]] by simp
  then show ?thesis
    using the_dir_DirI [OF m(3)] the_dir_DirI [of "h' ! p"] moved_type [OF m(1,2)] m(3) by (metis Inode_Modified.simps(2))
qed

lemma small_dirs_update: "small_dirs h \<Longrightarrow> (\<And>d. i = DirI d \<Longrightarrow> unat (d_size d) \<le> MaxPartSize) \<Longrightarrow> small_dirs (h[c := i])"
  unfolding small_dirs_def using set_update_subset_insert by fast

lemma assign_directory_step:
  assumes a: "assign_directory p T r s = Some (s', e)" and h: "heap_ok T h" "times_ok h" "p RuneError"
    and m: "moved h (as_heap s)" "small_dirs (as_heap s)" and c: "reached h (rel_Child r)"
  shows "(\<exists>x. e = Some x \<and> refuses p T h x) \<or>
     (e = None \<and> moved h (as_heap s') \<and> small_dirs (as_heap s') \<and> pvd_tables (as_volume s') = pvd_tables (as_volume s) \<and>
      (\<forall>q. q \<noteq> rel_Child r \<longrightarrow> as_heap s' ! q = as_heap s ! q) \<and>
      (\<exists>dir ca. given p T h (rel_Child r) dir ca \<and>
         d_start (the_dir (as_heap s' ! rel_Child r)) = sa_next (as_sectors s) \<and>
         d_size (the_dir (as_heap s' ! rel_Child r)) = of_nat (length (dir_bytes dir)) \<and>
         pvd_root (as_volume s') = (if d_parent (the_dir (h ! rel_Child r)) = None
           then (sa_next (as_sectors s), of_nat (length (dir_bytes dir)), d_modified (the_dir (h ! rel_Child r))) else pvd_root (as_volume s)) \<and>
         sa_next (as_sectors s') = sa_next (as_sectors s) + of_nat (length (dir_bytes dir) div 2048) + area_words ca))"
proof -
  let ?c = "rel_Child r" and ?H = "as_heap s"
  have cl: "?c < length ?H" and H: "heap_ok T ?H" "times_ok ?H"
    using c moved_length [OF m(1)] moved_heap_ok [OF h(1) m] moved_times [OF m(1) h(2)] by (simp_all add: reached_def)
  have cH: "reached ?H ?c"
    using c moved_type [OF m(1)] moved_dir(2) [OF m(1)] cl moved_length [OF m(1)] by (simp add: reached_def)
  obtain res where res: "ToDirectory p T ?H ?c = Some res" "\<forall>e. res = Inl e \<longrightarrow> refuses p T h e"
    using ToDirectory_spec [where p = p, OF H cH h(3)] moved_refuses [OF h(1) m(1)] by blast
  show ?thesis
  proof (cases res)
    case (Inl x)
    then show ?thesis using a res by (auto simp: assign_directory_def)
  next
    case (Inr y)
    obtain dir ca where y: "res = Inr (dir, ca)" using Inr by (cases y) simp
    show ?thesis
    proof (cases "snd (Directory_WriteTo dir)")
      case (Some x)
      then have "refuses p T h (Panic ''Directory.Size'')"
        using ToDirectory_too_large [where p = p, OF H cH h(3)] res(1) y moved_refuses [OF h(1) m(1)] by blast
      then show ?thesis using a res(1) Some by (auto simp: assign_directory_def y Directory_Size_def)
    next
      case None
      have ne: "Records dir \<noteq> []"
        using ToDirectory_same(3) [OF H(1) moved_refl m(2) m(2) cH] res(1) y by blast
      note w = Directory_written [OF None ne]
      have node: "?H ! ?c = DirI (the_dir (?H ! ?c))" using cH by (simp add: reached_def the_dir_DirI)
      let ?d' = "(the_dir (?H ! ?c))\<lparr>d_start := sa_next (as_sectors s), d_size := of_nat (length (dir_bytes dir))\<rparr>"
      have par: "d_parent (the_dir (h ! ?c)) = d_parent (the_dir (?H ! ?c))" "d_modified (the_dir (?H ! ?c)) = d_modified (the_dir (h ! ?c))"
        using moved_dir(2) [OF m(1)] moved_modified [OF m(1)] c by (simp_all add: reached_def)
      have s': "e = None" "as_heap s' = ?H[?c := DirI ?d']" "pvd_tables (as_volume s') = pvd_tables (as_volume s)"
        "pvd_root (as_volume s') = (if d_parent (the_dir (h ! ?c)) = None
           then (sa_next (as_sectors s), of_nat (length (dir_bytes dir)), d_modified (the_dir (h ! rel_Child r))) else pvd_root (as_volume s))"
        "sa_next (as_sectors s') = sa_next (as_sectors s) + of_nat (length (dir_bytes dir) div 2048) + area_words ca"
        using a unfolding assign_directory_def res(1) y option.case sum.case prod.case w(1) assign_alloc_def Alloc_def Let_def w(3)
        by (auto simp: as_heap_def area_words_def pvd_tables_def pvd_dates_def pvd_root_def par [unfolded as_heap_def])
      have mv: "moved ?H (as_heap s')" unfolding s'(2) by (rule moved_update, subst (2) node) simp
      have sm: "small_dirs (as_heap s')"
        unfolding s'(2) by (rule small_dirs_update [OF m(2)]) (use w(2,4) in auto)
      have g: "given p T h ?c dir ca" using m res(1) y None ne unfolding given_def by blast
      show ?thesis
        using s' moved_trans [OF m(1) mv] sm g cl by auto
    qed
  qed
qed

lemma assign_directory_returns:
  assumes "heap_ok T h" "times_ok h" "p RuneError" "moved h (as_heap s)" "small_dirs (as_heap s)" "reached h (rel_Child r)"
  shows "assign_directory p T r s \<noteq> None"
proof -
  have H: "heap_ok T (as_heap s)" "times_ok (as_heap s)"
    using moved_heap_ok [OF assms(1,4,5)] moved_times [OF assms(4,2)] by simp_all
  have "reached (as_heap s) (rel_Child r)"
    using assms(6) moved_type [OF assms(4)] moved_dir(2) [OF assms(4)] moved_length [OF assms(4)] by (simp add: reached_def)
  from ToDirectory_spec [where p = p, OF H this assms(3)]
  obtain res where "ToDirectory p T (as_heap s) (rel_Child r) = Some res" by blast
  then show ?thesis
    by (simp add: assign_directory_def assign_alloc_def Alloc_def Let_def split: sum.split prod.split)
qed

fun placed :: "(rune \<Rightarrow> bool) \<Rightarrow> ('m, dirEntry) treemap \<Rightarrow> 'm heap \<Rightarrow> 'm heap \<Rightarrow> u32 \<Rightarrow> Relationship list \<Rightarrow> u32 \<Rightarrow> bool" where
  "placed p T h H a [] b = (b = a)"
| "placed p T h H a (r # rs) b =
     (\<exists>dir ca. given p T h (rel_Child r) dir ca \<and> d_start (the_dir (H ! rel_Child r)) = a \<and>
        d_size (the_dir (H ! rel_Child r)) = of_nat (length (dir_bytes dir)) \<and>
        placed p T h H (a + of_nat (length (dir_bytes dir) div 2048) + area_words ca) rs b)"

lemma placed_cong: "(\<And>r. r \<in> set rs \<Longrightarrow> H' ! rel_Child r = H ! rel_Child r) \<Longrightarrow> placed p T h H' a rs b = placed p T h H a rs b"
  by (induction p T h H a rs b rule: placed.induct) auto

lemma assign_pass:
  assumes h: "heap_ok T h" "times_ok h" "p RuneError" and r: "\<forall>r \<in> set xs. reached h (rel_Child r)"
    and d: "distinct (map rel_Child xs)" and m: "moved h (as_heap s)" "small_dirs (as_heap s)"
  shows "\<exists>s' e. run_visits (assign_directory p T) xs s = Some (s', e) \<and>
     ((\<exists>x. e = Some x \<and> refuses p T h x) \<or>
      (e = None \<and> moved h (as_heap s') \<and> small_dirs (as_heap s') \<and> pvd_tables (as_volume s') = pvd_tables (as_volume s) \<and>
       (\<forall>q. q \<notin> rel_Child ` set xs \<longrightarrow> as_heap s' ! q = as_heap s ! q) \<and>
       ((\<forall>r \<in> set xs. d_parent (the_dir (h ! rel_Child r)) \<noteq> None) \<longrightarrow> pvd_root (as_volume s') = pvd_root (as_volume s)) \<and>
       (\<forall>r ys. xs = r # ys \<longrightarrow> d_parent (the_dir (h ! rel_Child r)) = None \<longrightarrow>
          (\<forall>y \<in> set ys. d_parent (the_dir (h ! rel_Child y)) \<noteq> None) \<longrightarrow>
          pvd_root (as_volume s') = root_fields (as_heap s') (rel_Child r)) \<and>
       placed p T h (as_heap s') (sa_next (as_sectors s)) xs (sa_next (as_sectors s'))))"
  using r d m
proof (induction xs arbitrary: s)
  case (Cons r xs)
  have rr: "reached h (rel_Child r)" using Cons.prems(1) by simp
  obtain s1 e1 where v: "assign_directory p T r s = Some (s1, e1)"
    using assign_directory_returns [where p = p, OF h Cons.prems(3,4) rr] by auto
  note st = assign_directory_step [OF v h Cons.prems(3,4) rr]
  show ?case
  proof (cases e1)
    case (Some x)
    then show ?thesis using v st by simp
  next
    case None
    then obtain dir ca where s1: "moved h (as_heap s1)" "small_dirs (as_heap s1)"
      "pvd_tables (as_volume s1) = pvd_tables (as_volume s)"
      "\<forall>q. q \<noteq> rel_Child r \<longrightarrow> as_heap s1 ! q = as_heap s ! q"
      and g: "given p T h (rel_Child r) dir ca" "d_start (the_dir (as_heap s1 ! rel_Child r)) = sa_next (as_sectors s)"
      "d_size (the_dir (as_heap s1 ! rel_Child r)) = of_nat (length (dir_bytes dir))"
      "pvd_root (as_volume s1) = (if d_parent (the_dir (h ! rel_Child r)) = None
         then (sa_next (as_sectors s), of_nat (length (dir_bytes dir)), d_modified (the_dir (h ! rel_Child r))) else pvd_root (as_volume s))"
      "sa_next (as_sectors s1) = sa_next (as_sectors s) + of_nat (length (dir_bytes dir) div 2048) + area_words ca"
      using st by auto
    obtain s' e where ih: "run_visits (assign_directory p T) xs s1 = Some (s', e)"
      "(\<exists>x. e = Some x \<and> refuses p T h x) \<or>
       (e = None \<and> moved h (as_heap s') \<and> small_dirs (as_heap s') \<and> pvd_tables (as_volume s') = pvd_tables (as_volume s1) \<and>
       (\<forall>q. q \<notin> rel_Child ` set xs \<longrightarrow> as_heap s' ! q = as_heap s1 ! q) \<and>
       ((\<forall>r \<in> set xs. d_parent (the_dir (h ! rel_Child r)) \<noteq> None) \<longrightarrow> pvd_root (as_volume s') = pvd_root (as_volume s1)) \<and>
       placed p T h (as_heap s') (sa_next (as_sectors s1)) xs (sa_next (as_sectors s')))"
      using Cons.IH [OF _ _ s1(1,2)] Cons.prems(1,2) by auto
    have run: "run_visits (assign_directory p T) (r # xs) s = Some (s', e)" using v None ih(1) by simp
    from ih(2) show ?thesis
    proof (elim disjE)
      assume "\<exists>x. e = Some x \<and> refuses p T h x"
      then show ?thesis using run by blast
    next
      assume a: "e = None \<and> moved h (as_heap s') \<and> small_dirs (as_heap s') \<and> pvd_tables (as_volume s') = pvd_tables (as_volume s1) \<and>
       (\<forall>q. q \<notin> rel_Child ` set xs \<longrightarrow> as_heap s' ! q = as_heap s1 ! q) \<and>
       ((\<forall>r \<in> set xs. d_parent (the_dir (h ! rel_Child r)) \<noteq> None) \<longrightarrow> pvd_root (as_volume s') = pvd_root (as_volume s1)) \<and>
       placed p T h (as_heap s') (sa_next (as_sectors s1)) xs (sa_next (as_sectors s'))"
      have k: "as_heap s' ! rel_Child r = as_heap s1 ! rel_Child r" using a Cons.prems(2) by simp
      then have "placed p T h (as_heap s') (sa_next (as_sectors s)) (r # xs) (sa_next (as_sectors s'))" using a g by auto
      moreover have "d_modified (the_dir (as_heap s' ! rel_Child r)) = d_modified (the_dir (h ! rel_Child r))"
        using moved_modified [of h "as_heap s'"] a rr by (simp add: reached_def)
      ultimately show ?thesis using run a s1 g(2-4) k by (auto simp: root_fields_def)
    qed
  qed
qed simp

text \<open>Files get addresses; nothing else changes.\<close>

lemma fold_alloc_keeps:
  "as_volume (fold (\<lambda>p s'. fst (assign_alloc (part_size p) s')) ps s) = as_volume s"
  by (induction ps arbitrary: s) (simp_all add: assign_alloc_def Alloc_def Let_def)

lemma assign_file_step:
  assumes "assign_file r s = Some (s', e)" "rel_Child r < length (as_heap s)"
  shows "moved (as_heap s) (as_heap s')" "small_dirs (as_heap s) \<Longrightarrow> small_dirs (as_heap s')"
    "v_pvd (as_volume s') = v_pvd (as_volume s)" "v_root (as_volume s') = v_root (as_volume s)"
    "Inode_Type (as_heap s ! q) = InodeTypeDirectory \<Longrightarrow> as_heap s' ! q = as_heap s ! q"
    "Inode_Type (as_heap s ! rel_Child r) = InodeTypeFile \<Longrightarrow> e = Some x \<Longrightarrow> x = Panic ''overflow'' \<and> \<not> small_files (as_heap s)"
proof -
  have "(as_volume s' = as_volume s \<and> (\<forall>x. Inode_Type (as_heap s ! rel_Child r) = InodeTypeFile \<longrightarrow> e = Some x \<longrightarrow>
       x = Panic ''overflow'' \<and> \<not> small_files (as_heap s))) \<or>
    (e = None \<and> (\<exists>f a. as_heap s ! rel_Child r = FileI f \<and>
       as_volume s' = (as_volume s)\<lparr>v_heap := (as_heap s)[rel_Child r := FileI (f\<lparr>f_start := a\<rparr>)]\<rparr>))"
  proof (cases "as_heap s ! rel_Child r")
    case (FileI f)
    show ?thesis
    proof (cases "f_ino f \<in> as_visited s")
      case True
      then show ?thesis using assms(1) FileI by (simp add: assign_file_def)
    next
      case False
      show ?thesis
      proof (cases "InodeParts (f_start f) (of_int (Size (f_o f)))")
        case (Inl x)
        have "x = Panic ''overflow''" using Inl InodeParts_spec [of "f_start f" "of_int (Size (f_o f))"] by simp
        moreover have "FileI f \<in> set (as_heap s)" using FileI assms(2) by (metis nth_mem)
        then have "\<not> small_files (as_heap s)"
          using small_file_parts [of "Size (f_o f)" "f_start f"] Inl unfolding small_files_def by fastforce
        ultimately show ?thesis using assms(1) FileI False Inl by (auto simp: assign_file_def)
      next
        case (Inr ps)
        obtain s1 start where "assign_alloc (part_size (hd ps)) s = (s1, start)" "as_volume s1 = as_volume s"
          by (simp add: assign_alloc_def Alloc_def Let_def)
        then show ?thesis
          using assms(1) FileI False Inr
          by (auto simp: assign_file_def Let_def fold_alloc_keeps as_heap_def)
      qed
    qed
  qed (use assms(1) in \<open>auto simp: assign_file_def\<close>)
  then consider (same) "as_volume s' = as_volume s" "\<forall>x. Inode_Type (as_heap s ! rel_Child r) = InodeTypeFile \<longrightarrow> e = Some x \<longrightarrow>
       x = Panic ''overflow'' \<and> \<not> small_files (as_heap s)"
    | (node) f a where "e = None" "as_heap s ! rel_Child r = FileI f"
       "as_volume s' = (as_volume s)\<lparr>v_heap := (as_heap s)[rel_Child r := FileI (f\<lparr>f_start := a\<rparr>)]\<rparr>" by blast
  note c = this
  have heap: "as_heap s' = (if as_volume s' = as_volume s then as_heap s else as_heap s')" by (simp add: as_heap_def)
  show "moved (as_heap s) (as_heap s')"
    by (cases rule: c) (simp add: as_heap_def, simp add: as_heap_def moved_update)
  show "small_dirs (as_heap s) \<Longrightarrow> small_dirs (as_heap s')"
    by (cases rule: c) (auto simp: as_heap_def intro!: small_dirs_update)
  show "v_pvd (as_volume s') = v_pvd (as_volume s)" "v_root (as_volume s') = v_root (as_volume s)"
    by (cases rule: c; simp)+
  show "Inode_Type (as_heap s ! q) = InodeTypeDirectory \<Longrightarrow> as_heap s' ! q = as_heap s ! q"
    by (cases rule: c; cases "q = rel_Child r") (auto simp: as_heap_def)
  show "Inode_Type (as_heap s ! rel_Child r) = InodeTypeFile \<Longrightarrow> e = Some x \<Longrightarrow> x = Panic ''overflow'' \<and> \<not> small_files (as_heap s)"
    by (cases rule: c) auto
qed

lemma assign_file_returns: "assign_file r s \<noteq> None"
  by (simp add: assign_file_def assign_alloc_def Alloc_def Let_def split: Inode.split sum.split prod.split)

lemma files_pass:
  assumes "\<forall>r \<in> set xs. rel_Child r < length (as_heap s) \<and> Inode_Type (as_heap s ! rel_Child r) = InodeTypeFile"
  shows "\<exists>s' e. run_files assign_file xs s = Some (s', e) \<and> moved (as_heap s) (as_heap s') \<and>
     (small_dirs (as_heap s) \<longrightarrow> small_dirs (as_heap s')) \<and> v_pvd (as_volume s') = v_pvd (as_volume s) \<and> v_root (as_volume s') = v_root (as_volume s) \<and>
     (\<forall>q. q < length (as_heap s) \<longrightarrow> Inode_Type (as_heap s ! q) = InodeTypeDirectory \<longrightarrow> as_heap s' ! q = as_heap s ! q) \<and>
     (\<forall>x. e = Some x \<longrightarrow> x = Panic ''overflow'' \<and> \<not> small_files (as_heap s))"
  using assms
proof (induction xs arbitrary: s)
  case (Cons r xs)
  obtain s1 e1 where v: "assign_file r s = Some (s1, e1)" using assign_file_returns [of r s] by auto
  have rl: "rel_Child r < length (as_heap s)" "Inode_Type (as_heap s ! rel_Child r) = InodeTypeFile"
    using Cons.prems by simp_all
  note st = assign_file_step(1-5) [OF v rl(1)] assign_file_step(6) [OF v rl]
  show ?case
  proof (cases "is_panic e1")
    case True
    then show ?thesis using v st by auto
  next
    case False
    have "\<forall>r \<in> set xs. rel_Child r < length (as_heap s1) \<and> Inode_Type (as_heap s1 ! rel_Child r) = InodeTypeFile"
      using Cons.prems moved_length [OF st(1)] moved_type [OF st(1)] by simp
    then obtain s' e where ih: "run_files assign_file xs s1 = Some (s', e)" "moved (as_heap s1) (as_heap s')"
      "small_dirs (as_heap s1) \<longrightarrow> small_dirs (as_heap s')" "v_pvd (as_volume s') = v_pvd (as_volume s1)" "v_root (as_volume s') = v_root (as_volume s1)"
      "\<forall>q. q < length (as_heap s1) \<longrightarrow> Inode_Type (as_heap s1 ! q) = InodeTypeDirectory \<longrightarrow> as_heap s' ! q = as_heap s1 ! q"
      "\<forall>x. e = Some x \<longrightarrow> x = Panic ''overflow'' \<and> \<not> small_files (as_heap s1)"
      using Cons.IH by blast
    have "run_files assign_file (r # xs) s = Some (s', e)" using v False ih(1) by simp
    moreover have "as_heap s' ! q = as_heap s ! q"
      if "q < length (as_heap s)" "Inode_Type (as_heap s ! q) = InodeTypeDirectory" for q
      using ih(6) st(5) [OF that(2)] that moved_length [OF st(1)] moved_type [OF st(1) that(1)] by simp
    ultimately show ?thesis
      using ih st(2-4) moved_trans [OF st(1) ih(2)] moved_small_files [OF st(1)] by auto
  qed
qed simp

text \<open>
  The files follow one another: each starts where the sectors of those before it end, an empty
  file taking a sector too.
\<close>

fun files_placed :: "'m heap \<Rightarrow> u32 \<Rightarrow> Relationship list \<Rightarrow> u32 \<Rightarrow> bool" where
  "files_placed H a [] b = (b = a)"
| "files_placed H a (r # rs) b =
     (\<exists>f. H ! rel_Child r = FileI f \<and> f_start f = a \<and>
        files_placed H (a + bytesToSectors (of_int (Size (f_o f)))) rs b)"

lemma run_visits_visited:
  "run_visits (assign_directory p T) xs s = Some (s', e) \<Longrightarrow> as_visited s' = as_visited s"
proof (induction xs arbitrary: s)
  case (Cons r xs)
  obtain s1 e1 where v: "assign_directory p T r s = Some (s1, e1)" using Cons.prems by (auto split: bind_splits)
  then have "as_visited s1 = as_visited s"
    by (auto simp: assign_directory_def assign_alloc_def Alloc_def Let_def split: option.splits sum.splits prod.splits if_splits)
  then show ?case using Cons v by (auto split: if_splits)
qed simp

lemma small_part_size:
  assumes "0 \<le> sz" "sz \<le> int MaxPartSize"
  shows "\<exists>part. InodeParts s (of_int sz) = Inr [part] \<and> part_size part = of_int sz"
proof -
  have b: "0 \<le> sz" "sz \<le> 4294965248" using assms by (simp_all add: MaxPartSize_def)
  then have "\<not> (of_int sz :: u64) > 4294965248"
    by (simp add: word_less_alt uint_word_of_int take_bit_int_eq_self)
  moreover have "ucast (of_int sz :: u64) = (of_int sz :: u32)"
    by (rule bit_word_eqI) (simp add: bit_simps)
  ultimately show ?thesis by (simp add: InodeParts_step)
qed

lemma assign_file_fresh:
  assumes "as_heap s ! rel_Child r = FileI f" "f_ino f \<notin> as_visited s" "0 \<le> Size (f_o f)" "Size (f_o f) \<le> int MaxPartSize"
  shows "\<exists>s'. assign_file r s = Some (s', None) \<and> as_visited s' = insert (f_ino f) (as_visited s) \<and>
     as_heap s' = (as_heap s)[rel_Child r := FileI (f\<lparr>f_start := sa_next (as_sectors s)\<rparr>)] \<and>
     sa_next (as_sectors s') = sa_next (as_sectors s) + bytesToSectors (of_int (Size (f_o f)))"
proof -
  obtain part where "InodeParts (f_start f) (of_int (Size (f_o f))) = Inr [part]" "part_size part = of_int (Size (f_o f))"
    using small_part_size [OF assms(3,4)] by blast
  then show ?thesis
    using assms(1,2) by (simp add: assign_file_def assign_alloc_def Alloc_def Let_def) (simp add: as_heap_def)
qed

lemma files_placed_cong:
  "(\<And>r. r \<in> set rs \<Longrightarrow> H' ! rel_Child r = H ! rel_Child r) \<Longrightarrow> files_placed H' a rs b = files_placed H a rs b"
  by (induction H a rs b rule: files_placed.induct) auto

lemma files_placing:
  assumes "run_files assign_file xs s = Some (s', None)"
    and "\<forall>r \<in> set xs. rel_Child r < length (as_heap s) \<and> Inode_Type (as_heap s ! rel_Child r) = InodeTypeFile"
    and "small_files (as_heap s)" "distinct (map rel_Child xs)" "distinct (map Inode_Number (as_heap s))"
    and "\<forall>r \<in> set xs. Inode_Number (as_heap s ! rel_Child r) \<notin> as_visited s"
  shows "files_placed (as_heap s') (sa_next (as_sectors s)) xs (sa_next (as_sectors s')) \<and>
    (\<forall>q. q \<notin> rel_Child ` set xs \<longrightarrow> as_heap s' ! q = as_heap s ! q)"
  using assms
proof (induction xs arbitrary: s)
  case (Cons r xs)
  let ?c = "rel_Child r"
  have c: "?c < length (as_heap s)" "Inode_Type (as_heap s ! ?c) = InodeTypeFile" using Cons.prems(2) by simp_all
  obtain f where f: "as_heap s ! ?c = FileI f" using c(2) by (cases "as_heap s ! ?c") auto
  have "FileI f \<in> set (as_heap s)" using f c(1) by (metis nth_mem)
  then have sz: "0 \<le> Size (f_o f)" "Size (f_o f) \<le> int MaxPartSize" using Cons.prems(3) by (auto simp: small_files_def)
  have "f_ino f \<notin> as_visited s" using Cons.prems(6) f by (metis Inode_Number.simps(1) list.set_intros(1))
  from assign_file_fresh [OF f this sz] obtain s1 where s1: "assign_file r s = Some (s1, None)"
    "as_visited s1 = insert (f_ino f) (as_visited s)"
    "as_heap s1 = (as_heap s)[?c := FileI (f\<lparr>f_start := sa_next (as_sectors s)\<rparr>)]"
    "sa_next (as_sectors s1) = sa_next (as_sectors s) + bytesToSectors (of_int (Size (f_o f)))" by blast
  have mv: "moved (as_heap s) (as_heap s1)" unfolding s1(3) by (rule moved_update) (simp add: f)
  have other: "as_heap s1 ! q = as_heap s ! q" if "q \<noteq> ?c" for q using that by (simp add: s1(3))
  have num: "map Inode_Number (as_heap s1) = map Inode_Number (as_heap s)"
    unfolding s1(3) using f c(1) by (simp add: map_update list_update_same_conv)
  have nc: "?c \<notin> rel_Child ` set xs" using Cons.prems(4) by auto
  have "Inode_Number (as_heap s1 ! rel_Child x) \<notin> as_visited s1" if x: "x \<in> set xs" for x
  proof -
    have "rel_Child x \<noteq> ?c" using nc x by (metis imageI)
    moreover have "rel_Child x < length (as_heap s)" using Cons.prems(2) x by simp
    ultimately have "Inode_Number (as_heap s ! rel_Child x) \<noteq> Inode_Number (as_heap s ! ?c)"
      using Cons.prems(5) c(1) by (simp add: distinct_conv_nth)
    then show ?thesis using Cons.prems(6) x other [OF \<open>rel_Child x \<noteq> ?c\<close>] f s1(2) by simp
  qed
  moreover have "\<forall>r \<in> set xs. rel_Child r < length (as_heap s1) \<and> Inode_Type (as_heap s1 ! rel_Child r) = InodeTypeFile"
    using Cons.prems(2) moved_length [OF mv] moved_type [OF mv] by simp
  moreover have "run_files assign_file xs s1 = Some (s', None)" using Cons.prems(1) s1(1) by simp
  ultimately have ih: "files_placed (as_heap s') (sa_next (as_sectors s1)) xs (sa_next (as_sectors s')) \<and>
      (\<forall>q. q \<notin> rel_Child ` set xs \<longrightarrow> as_heap s' ! q = as_heap s1 ! q)"
    using Cons.IH moved_small_files [OF mv Cons.prems(3)] Cons.prems(4,5) num by simp
  then have "as_heap s' ! ?c = FileI (f\<lparr>f_start := sa_next (as_sectors s)\<rparr>)" using nc s1(3) c(1) by simp
  then show ?case using ih other s1(4) by auto
qed simp

section \<open>The path table\<close>

text \<open>The walk visits parents first, so the visitor always finds the parent's index.\<close>

lemma path_pass:
  assumes "walks T h q xs" "\<forall>r \<in> set q. rel_Parent r = rel_Child r \<or> ps_indices ps (rel_Parent r) \<noteq> None"
  shows "\<exists>ps'. run_visits (path_visitor h') xs ps = Some (ps', None) \<and>
     map pt_Identifier (ps_table ps') = map pt_Identifier (ps_table ps) @ map rel_Identifier xs"
  using assms
proof (induction arbitrary: ps)
  case (walks_step r rs xs)
  let ?m = "(ps_indices ps)(rel_Child r \<mapsto> ps_idx ps)"
  obtain k where "?m (rel_Parent r) = Some k" using walks_step.prems by (cases "rel_Parent r = rel_Child r") auto
  then obtain ps1 where v: "path_visitor h' r ps = Some (ps1, None)" "ps_indices ps1 = ?m"
    "map pt_Identifier (ps_table ps1) = map pt_Identifier (ps_table ps) @ [rel_Identifier r]"
    unfolding path_visitor_def Let_def by simp
  have "\<forall>x \<in> set (rs @ subdirectories T h (rel_Child r)). rel_Parent x = rel_Child x \<or> ps_indices ps1 (rel_Parent x) \<noteq> None"
    using walks_step.prems unfolding v(2) by (auto simp: subdirectories_def entry_rel_def)
  from walks_step.IH [OF this] show ?case using v(1,3) by auto
qed simp

lemma ToPathTable_run:
  assumes Q: "queue_laws Q items" and h: "heap_ok T h" "moved h h'" and w: "walks T h [root_rel d] xs" and d: "reached h d"
  shows "\<exists>t. ToPathTable T Q h' d = Some (Inr t) \<and> map pt_Identifier (pt_Records t) = map rel_Identifier xs"
proof -
  have r: "\<forall>r \<in> set xs. reached h (rel_Child r)" using walks_reached [OF w h(1)] d by (simp add: root_rel_def)
  have it: "items (q_Enqueue Q (root_rel d) (q_New Q)) = [root_rel d]" using Q by (simp add: queue_laws_def)
  let ?ps = "\<lparr>ps_idx = 0, ps_indices = Map.empty, ps_table = []\<rparr>"
  have "VisitDirectories T Q (\<lambda>s. h') (path_visitor h') d ?ps = run_visits (path_visitor h') xs ?ps"
    unfolding VisitDirectories_def root_rel_def [symmetric]
    using visit_loop_walks [OF Q h(1), of "\<lambda>s. h'" "path_visitor h'" xs "q_Enqueue Q (root_rel d) (q_New Q)" ?ps] h(2) w r it
    by (simp add: keeps_def)
  then show ?thesis
    using path_pass [OF w, of ?ps h'] by (auto simp: ToPathTable_def root_rel_def)
qed

section \<open>Writing\<close>

lemma sectors_exact:
  assumes "2048 dvd n" "0 < n" "n < 2 ^ 32"
  shows "bytesToSectors (of_nat n) = of_nat (n div 2048)"
proof -
  obtain k where k: "n = 2048 * k" using assms(1) by (rule dvdE)
  have u: "unat (of_nat n :: u32) = n" using assms(3) by (simp add: unat_of_nat)
  have "unat (bytesToSectors (of_nat n)) = n div 2048"
    unfolding unat_bytesToSectors u using assms(2) by (simp add: k)
  then show ?thesis by (metis of_nat_unat ucast_id)
qed

text \<open>The extent of the directory at \<open>c\<close> lies in the image where its node says.\<close>

definition located :: "(rune \<Rightarrow> bool) \<Rightarrow> ('m, dirEntry) treemap \<Rightarrow> 'm heap \<Rightarrow> byte list \<Rightarrow> ref \<Rightarrow> bool" where
  "located p T H out c \<longleftrightarrow>
     (\<exists>dir ca pre post. ToDirectory p T H c = Some (Inr (dir, ca)) \<and> snd (Directory_WriteTo dir) = None \<and>
        out = pre @ dir_bytes dir @ area_bytes ca @ post \<and>
        length pre = unat (d_start (the_dir (H ! c))) * 2048 \<and>
        length (dir_bytes dir) = unat (d_size (the_dir (H ! c))))"

lemma located_append: "located p T H out c \<Longrightarrow> located p T H (out @ suf) c"
  unfolding located_def by fastforce

lemma write_directory_step:
  assumes h: "heap_ok T h" "times_ok h" "p RuneError" and m: "moved h H" "small_dirs H"
    and r: "reached h (rel_Child r)" and pl: "placed p T h H (of_nat (length out div 2048)) (r # rs) b"
    and al: "2048 dvd length out"
  shows "\<exists>out' e. write_directory p T H r out = Some (out', e) \<and> (\<exists>suf. out' = out @ suf) \<and>
     ((\<exists>x. e = Some x \<and> refuses p T h x) \<or>
      (e = None \<and> 2048 dvd length out' \<and>
       (length out' < 2 ^ 32 \<longrightarrow> placed p T h H (of_nat (length out' div 2048)) rs b \<and> located p T H out' (rel_Child r))))"
proof -
  let ?c = "rel_Child r"
  obtain dir ca where g: "given p T h ?c dir ca" "d_start (the_dir (H ! ?c)) = of_nat (length out div 2048)"
    "d_size (the_dir (H ! ?c)) = of_nat (length (dir_bytes dir))"
    "placed p T h H (of_nat (length out div 2048) + of_nat (length (dir_bytes dir) div 2048) + area_words ca) rs b"
    using pl by auto
  obtain h' where h': "moved h h'" "small_dirs h'" "ToDirectory p T h' ?c = Some (Inr (dir, ca))"
    and w1: "snd (Directory_WriteTo dir) = None" "Records dir \<noteq> []" using g(1) by (auto simp: given_def)
  have reach: "reached k ?c" if "moved h k" for k
    using r moved_type [OF that] moved_dir(2) [OF that] moved_length [OF that] by (simp add: reached_def)
  have H: "heap_ok T H" "times_ok H" "heap_ok T h'"
    using moved_heap_ok [OF h(1)] m h'(1,2) moved_times [OF m(1) h(2)] by simp_all
  obtain res where res: "ToDirectory p T H ?c = Some res" "\<forall>e. res = Inl e \<longrightarrow> refuses p T H e"
    "\<forall>dir ca. res = Inr (dir, ca) \<longrightarrow> list_all (wf_record p) (Records dir) \<and> area_ok p ca"
    using ToDirectory_spec [where p = p, OF H(1,2) reach [OF m(1)] h(3)] by blast
  have lba: "assertLBA (d_start (the_dir (H ! ?c))) out = None"
    using al g(2) by (simp add: assertLBA_def LogicalBlockSize_def dvd_eq_mod_eq_0)
  show ?thesis
  proof (cases res)
    case (Inl x)
    then show ?thesis using res moved_refuses [OF h(1) m(1)] by (simp add: write_directory_def lba)
  next
    case (Inr y)
    obtain dir2 ca2 where y: "res = Inr (dir2, ca2)" using Inr by (cases y) simp
    then have wf: "list_all (wf_record p) (Records dir2)" "area_ok p ca2" using res(3) by auto
    have same: "same_record_lens (Records dir) (Records dir2)" "same_area ca ca2"
      using ToDirectory_same [OF H(3) moved_trans [OF moved_sym [OF h'(1)] m(1)] h'(2) m(2) reach [OF h'(1)] h'(3)] res(1) y
      by auto
    note aw = area_written [OF wf(2)]
    have "records_end 0 (map DirectoryRecord_Len (Records dir)) \<le> MaxPartSize"
      using length_Directory_WriteTo [OF w1(1)] by simp
    then have None: "snd (Directory_WriteTo dir2) = None"
      using Directory_WriteTo_fits [OF wf(1)] same(1) by (simp add: same_record_lens_def)
    have len: "length (dir_bytes dir2) = length (dir_bytes dir)"
      using length_Directory_WriteTo(1) [OF w1(1)] length_Directory_WriteTo(1) [OF None] same(1)
      unfolding dir_bytes_def length_pad_out(1) same_record_lens_def by simp
    let ?out = "out @ dir_bytes dir2 @ area_bytes ca2"
    have d: "2048 dvd length (dir_bytes dir2)" "2048 dvd length (area_bytes ca2)"
      using pad_out_aligned aw(2) by (simp_all add: dir_bytes_def)
    have o2: "pad_out (out @ fst (Directory_WriteTo dir2)) = out @ dir_bytes dir2"
      using al by (simp add: pad_out_append dir_bytes_def)
    have o3: "pad_out (out @ dir_bytes dir2 @ area_bytes ca2) = ?out" "pad_out (out @ dir_bytes dir2) = out @ dir_bytes dir2"
      using al d by (intro pad_out_id; simp)+
    have run: "write_directory p T H r out = Some (?out, None)"
    proof (cases "0 < ContinuationArea_Len ca2")
      case True
      then show ?thesis
        using res(1) y None aw(1) o2 o3(1) by (simp add: write_directory_def lba Let_def area_bytes_def)
    next
      case False
      then have "area_bytes ca2 = []" using aw(3) by simp
      then show ?thesis
        using False res(1) y None o2 o3(2) by (simp add: write_directory_def lba Let_def)
    qed
    have al': "2048 dvd length ?out" using al d by simp
    have "placed p T h H (of_nat (length ?out div 2048)) rs b \<and> located p T H ?out ?c" if l: "length ?out < 2 ^ 32"
    proof
      have "area_words ca = of_nat (length (area_bytes ca2) div 2048)"
        using same_area_Len [OF same(2)] aw(3) sectors_exact [OF d(2)] l by (auto simp: area_words_def)
      moreover have "length ?out div 2048 = length out div 2048 + length (dir_bytes dir2) div 2048 + length (area_bytes ca2) div 2048"
        using al d by (auto elim!: dvdE)
      ultimately show "placed p T h H (of_nat (length ?out div 2048)) rs b"
        using g(4) len by (simp add: add.assoc)
      have "unat (of_nat (length out div 2048) :: u32) = length out div 2048" using l by (simp add: unat_of_nat)
      then have "unat (d_start (the_dir (H ! ?c))) * 2048 = length out" using al g(2) by simp
      moreover have "unat (d_size (the_dir (H ! ?c))) = length (dir_bytes dir2)"
        unfolding g(3) len [symmetric] using l by (simp add: unat_of_nat)
      ultimately show "located p T H ?out ?c"
        using res(1) y None unfolding located_def by (intro exI [of _ dir2] exI [of _ ca2] exI [of _ out] exI [of _ "[]"]) simp
    qed
    then show ?thesis using run al' by (intro exI [of _ ?out] exI [of _ None]) simp
  qed
qed

lemma write_directory_returns:
  assumes "heap_ok T H" "times_ok H" "p RuneError" "reached H (rel_Child r)"
  shows "\<exists>suf e. write_directory p T H r out = Some (out @ suf, e)"
proof -
  obtain res where "ToDirectory p T H (rel_Child r) = Some res"
    using ToDirectory_spec [where p = p, OF assms(1,2,4,3)] by blast
  then show ?thesis
    by (auto simp: write_directory_def Let_def pad_out_def split: option.split sum.split)
qed

lemma write_returns:
  assumes "heap_ok T H" "times_ok H" "p RuneError" "\<forall>r \<in> set xs. reached H (rel_Child r)"
  shows "\<exists>suf e. run_visits (write_directory p T H) xs out = Some (out @ suf, e)"
  using assms(4)
proof (induction xs arbitrary: out)
  case (Cons r xs)
  obtain suf e where v: "write_directory p T H r out = Some (out @ suf, e)"
    using write_directory_returns [where p = p and r = r and out = out, OF assms(1-3)] Cons.prems by auto
  show ?case
  proof (cases e)
    case None
    then show ?thesis using v Cons.IH [of "out @ suf"] Cons.prems by auto
  qed (use v in auto)
qed simp

lemma write_pass:
  assumes h: "heap_ok T h" "times_ok h" "p RuneError" and m: "moved h H" "small_dirs H"
    and r: "\<forall>r \<in> set xs. reached h (rel_Child r)" and pl: "placed p T h H (of_nat (length out div 2048)) xs b"
    and al: "2048 dvd length out"
    and run: "run_visits (write_directory p T H) xs out = Some (out', e)" and l: "length out' < 2 ^ 32"
  shows "(\<exists>x. e = Some x \<and> refuses p T h x) \<or>
    (e = None \<and> (\<forall>r \<in> set xs. located p T H out' (rel_Child r)) \<and> 2048 dvd length out' \<and> b = of_nat (length out' div 2048))"
  using r pl al run
proof (induction xs arbitrary: out)
  case (Cons r xs)
  have rr: "reached h (rel_Child r)" using Cons.prems(1) by simp
  obtain out1 e1 where st: "write_directory p T H r out = Some (out1, e1)"
    "(\<exists>x. e1 = Some x \<and> refuses p T h x) \<or>
      (e1 = None \<and> 2048 dvd length out1 \<and>
       (length out1 < 2 ^ 32 \<longrightarrow> placed p T h H (of_nat (length out1 div 2048)) xs b \<and> located p T H out1 (rel_Child r)))"
    using write_directory_step [where p = p, OF h m rr Cons.prems(2,3)] by blast
  show ?case
  proof (cases e1)
    case (Some x)
    then show ?thesis using st Cons.prems(4) by auto
  next
    case None
    then have run': "run_visits (write_directory p T H) xs out1 = Some (out', e)" using st(1) Cons.prems(4) by simp
    have reach: "\<forall>r \<in> set xs. reached H (rel_Child r)"
      using Cons.prems(1) moved_type [OF m(1)] moved_dir(2) [OF m(1)] moved_length [OF m(1)] by (simp add: reached_def)
    obtain suf e' where "run_visits (write_directory p T H) xs out1 = Some (out1 @ suf, e')"
      using write_returns [where p = p, OF moved_heap_ok [OF h(1) m] moved_times [OF m(1) h(2)] h(3) reach] by blast
    then have out': "out' = out1 @ suf" using run' by simp
    then have "length out1 < 2 ^ 32" using l by simp
    then have n: "2048 dvd length out1" "placed p T h H (of_nat (length out1 div 2048)) xs b" "located p T H out1 (rel_Child r)"
      using st(2) None by auto
    show ?thesis
      using Cons.IH [OF _ n(2,1) run'] Cons.prems(1) located_append [OF n(3)] unfolding out' by auto
  qed
qed simp

section \<open>The size of an image\<close>

text \<open>What a directory takes does not depend on the addresses, so it is known before they are given.\<close>

definition dir_len :: "(rune \<Rightarrow> bool) \<Rightarrow> ('m, dirEntry) treemap \<Rightarrow> 'm heap \<Rightarrow> ref \<Rightarrow> nat" where
  "dir_len p T h c =
     (case ToDirectory p T h c of Some (Inr (dir, ca)) \<Rightarrow> length (dir_bytes dir) + length (area_bytes ca) | _ \<Rightarrow> 0)"

definition table_len :: "Relationship list \<Rightarrow> nat" where
  "table_len xs = sum_list (map (\<lambda>r. 8 + length (rel_Identifier r) + length (rel_Identifier r) mod 2) xs)"

definition image_len :: "(rune \<Rightarrow> bool) \<Rightarrow> ('m, dirEntry) treemap \<Rightarrow> 'm heap \<Rightarrow> Relationship list \<Rightarrow> nat" where
  "image_len p T h xs =
     (18 + 2 * ((table_len xs + 2047) div 2048)) * 2048 + sum_list (map (dir_len p T h \<circ> rel_Child) xs)"

lemma table_len_eq:
  "map pt_Identifier (pt_Records t) = map rel_Identifier xs \<Longrightarrow> length (fst (PathTable_Encode bo t)) = table_len xs"
proof -
  assume e: "map pt_Identifier (pt_Records t) = map rel_Identifier xs"
  have "table_len xs = sum_list (map (\<lambda>s. 8 + length s + length s mod 2) (map rel_Identifier xs))"
    by (simp add: table_len_def comp_def)
  also have "\<dots> = sum_list (map (\<lambda>rec. 8 + length (pt_Identifier rec) + length (pt_Identifier rec) mod 2) (pt_Records t))"
    unfolding e [symmetric] by (simp add: comp_def)
  finally show ?thesis by (simp add: PathTable_Encode_def length_encode_path_records)
qed

lemma dir_len_moved:
  assumes h: "heap_ok T h" "times_ok h" "p RuneError" and m: "moved h H" "small_dirs H" and c: "reached h c"
    and no: "\<And>x. \<not> refuses p T h x"
  shows "dir_len p T H c = dir_len p T h c"
proof -
  have H: "heap_ok T H" "times_ok H" "reached H c"
    using moved_heap_ok [OF h(1) m] moved_times [OF m(1) h(2)] moved_reached [OF m(1) c] by blast+
  obtain dir ca where a: "ToDirectory p T h c = Some (Inr (dir, ca))" "area_ok p ca" "list_all (wf_record p) (Records dir)"
    using ToDirectory_spec [where p = p, OF h(1,2) c h(3)] no by (metis old.sum.exhaust surj_pair)
  obtain dir' ca' where b: "ToDirectory p T H c = Some (Inr (dir', ca'))" "area_ok p ca'" "list_all (wf_record p) (Records dir')"
    using ToDirectory_spec [where p = p, OF H h(3)] no moved_refuses [OF h(1) m(1)] by (metis old.sum.exhaust surj_pair)
  note same = ToDirectory_same [OF h(1) m(1) heap_ok_small [OF h(1)] m(2) c a(1) b(1)]
  have small: "snd (Directory_WriteTo dir) = None"
    using ToDirectory_too_large [where p = p, OF h(1,2) c h(3) a(1)] no by blast
  then have small': "snd (Directory_WriteTo dir') = None"
    using Directory_WriteTo_fits [OF a(3)] Directory_WriteTo_fits [OF b(3)] same(1) by (simp add: same_record_lens_def)
  have "length (dir_bytes dir') = length (dir_bytes dir)"
    using length_Directory_WriteTo(1) [OF small] length_Directory_WriteTo(1) [OF small'] same(1)
    unfolding dir_bytes_def length_pad_out(1) same_record_lens_def by simp
  moreover have "length (area_bytes ca') = length (area_bytes ca)"
    using same_area_Len [OF same(2)] area_written(3) [OF a(2)] area_written(3) [OF b(2)] by simp
  ultimately show ?thesis by (simp add: dir_len_def a(1) b(1))
qed

lemma write_directory_length:
  assumes H: "heap_ok T H" "times_ok H" "p RuneError" "reached H (rel_Child r)" and al: "2048 dvd length out"
    and w: "write_directory p T H r out = Some (out', e)"
  shows "length out' \<le> length out + dir_len p T H (rel_Child r)" "e = None \<Longrightarrow> 2048 dvd length out'"
proof -
  let ?c = "rel_Child r"
  obtain res where res: "ToDirectory p T H ?c = Some res"
    "\<forall>dir ca. res = Inr (dir, ca) \<longrightarrow> area_ok p ca"
    using ToDirectory_spec [where p = p, OF H(1,2,4,3)] by blast
  have "length out' \<le> length out + dir_len p T H ?c \<and> (e = None \<longrightarrow> 2048 dvd length out')"
  proof (cases "assertLBA (d_start (the_dir (H ! ?c))) out")
    case (Some x)
    then show ?thesis using w by (auto simp: write_directory_def)
  next
    case lba: None
    show ?thesis
    proof (cases res)
      case (Inl x)
      then show ?thesis using w res lba by (auto simp: write_directory_def)
    next
      case (Inr y)
      obtain dir ca where y: "res = Inr (dir, ca)" using Inr by (cases y) simp
      have l: "dir_len p T H ?c = length (dir_bytes dir) + length (area_bytes ca)" by (simp add: dir_len_def res(1) y)
      note aw = area_written [OF res(2) [rule_format, OF y]]
      show ?thesis
      proof (cases "snd (Directory_WriteTo dir)")
        case (Some x)
        have "length (fst (Directory_WriteTo dir)) \<le> length (dir_bytes dir)" by (simp add: dir_bytes_def pad_out_def)
        moreover have "out' = out @ fst (Directory_WriteTo dir)" "e = Some x"
          using w Some res(1) y lba by (simp_all add: write_directory_def Let_def)
        ultimately show ?thesis using l by simp
      next
        case None
        have d: "2048 dvd length (dir_bytes dir)" "2048 dvd length (area_bytes ca)"
          using pad_out_aligned aw(2) by (simp_all add: dir_bytes_def)
        have o2: "pad_out (out @ fst (Directory_WriteTo dir)) = out @ dir_bytes dir"
          using al by (simp add: pad_out_append dir_bytes_def)
        have o3: "pad_out (out @ dir_bytes dir @ area_bytes ca) = out @ dir_bytes dir @ area_bytes ca"
          "pad_out (out @ dir_bytes dir) = out @ dir_bytes dir"
          using al d by (intro pad_out_id; simp)+
        have "out' = out @ dir_bytes dir @ area_bytes ca \<or> out' = out @ dir_bytes dir"
        proof (cases "0 < ContinuationArea_Len ca")
          case True
          then show ?thesis
            using w res(1) y None aw(1) o2 o3(1) by (simp add: write_directory_def lba Let_def area_bytes_def)
        next
          case False
          then show ?thesis
            using w False res(1) y None o2 o3(2) by (simp add: write_directory_def lba Let_def)
        qed
        then show ?thesis using l al d by auto
      qed
    qed
  qed
  then show "length out' \<le> length out + dir_len p T H ?c" "e = None \<Longrightarrow> 2048 dvd length out'" by blast+
qed

lemma write_length:
  assumes H: "heap_ok T H" "times_ok H" "p RuneError" "\<forall>r \<in> set xs. reached H (rel_Child r)" and al: "2048 dvd length out"
    and run: "run_visits (write_directory p T H) xs out = Some (out', e)"
  shows "length out' \<le> length out + sum_list (map (dir_len p T H \<circ> rel_Child) xs)"
  using H(4) al run
proof (induction xs arbitrary: out)
  case (Cons r xs)
  have rr: "reached H (rel_Child r)" using Cons.prems(1) by simp
  obtain out1 e1 where v: "write_directory p T H r out = Some (out1, e1)" using Cons.prems(3) by (auto split: bind_splits)
  note wl = write_directory_length [where p = p, OF H(1-3) rr Cons.prems(2) v]
  show ?case
  proof (cases e1)
    case None
    then show ?thesis using v wl Cons.IH [of out1] Cons.prems by simp
  qed (use v wl Cons.prems(3) in simp)
qed simp

section \<open>Together\<close>

lemma assign_directory_moved:
  assumes "assign_directory p T r s = Some (s', e)" "Inode_Type (as_heap s ! rel_Child r) = InodeTypeDirectory"
  shows "moved (as_heap s) (as_heap s')"
proof -
  have node: "as_heap s ! rel_Child r = DirI (the_dir (as_heap s ! rel_Child r))" using assms(2) by (rule the_dir_DirI)
  show ?thesis
  proof (cases "\<exists>dir ca sz. ToDirectory p T (as_heap s) (rel_Child r) = Some (Inr (dir, ca)) \<and> Directory_Size dir = Inr sz")
    case True
    then obtain dir ca sz where t: "ToDirectory p T (as_heap s) (rel_Child r) = Some (Inr (dir, ca))"
      "Directory_Size dir = Inr sz" by blast
    have "as_heap s' = (as_heap s)[rel_Child r :=
        DirI ((the_dir (as_heap s ! rel_Child r))\<lparr>d_start := sa_next (as_sectors s), d_size := of_int sz\<rparr>)]"
      using assms(1) unfolding assign_directory_def t option.case sum.case prod.case assign_alloc_def Alloc_def Let_def
      by (auto simp: as_heap_def)
    then show ?thesis by (simp only:) (rule moved_update, subst (2) node, simp)
  next
    case False
    then have "s' = s"
      using assms(1) unfolding assign_directory_def
      by (cases "ToDirectory p T (as_heap s) (rel_Child r)") (auto split: sum.splits)
    then show ?thesis by simp
  qed
qed

lemma files_valid:
  assumes "heap_ok T h" "\<forall>r \<in> set xs. reached h (rel_Child r)" "r \<in> set (concat (map (files_of T h \<circ> rel_Child) xs))"
  shows "rel_Child r < length h" "Inode_Type (h ! rel_Child r) = InodeTypeFile"
  using assms child_entries_valid(1) [OF assms(1)]
  by (fastforce simp: files_of_def files_in_def entry_rel_def reached_def)+

lemma walks_head: "walks T h (r # rs) xs \<Longrightarrow> \<exists>ys. xs = r # ys"
  by (auto elim: walks.cases)

text \<open>Only the first directory of a walk can lack a parent.\<close>

lemma walks_parents:
  assumes "walks T h (r # rs) xs" "heap_ok T h" "\<forall>x \<in> set (r # rs). reached h (rel_Child x)"
    "\<forall>x \<in> set rs. d_parent (the_dir (h ! rel_Child x)) \<noteq> None"
  shows "\<forall>x \<in> set (tl xs). d_parent (the_dir (h ! rel_Child x)) \<noteq> None"
proof -
  have all: "walks T h q xs \<Longrightarrow> \<forall>x \<in> set q. reached h (rel_Child x) \<and> d_parent (the_dir (h ! rel_Child x)) \<noteq> None \<Longrightarrow>
      \<forall>x \<in> set xs. d_parent (the_dir (h ! rel_Child x)) \<noteq> None" for q xs
  proof (induction rule: walks.induct)
    case (walks_step r rs xs)
    have "\<forall>x \<in> set (subdirectories T h (rel_Child r)). reached h (rel_Child x) \<and> d_parent (the_dir (h ! rel_Child x)) \<noteq> None"
      using subdirectories_valid [OF assms(2), of "rel_Child r"] walks_step.prems by auto
    then show ?case using walks_step by auto
  qed simp
  from assms(1) show ?thesis
  proof (cases rule: walks.cases)
    case (walks_step xs')
    have "\<forall>x \<in> set (subdirectories T h (rel_Child r)). reached h (rel_Child x) \<and> d_parent (the_dir (h ! rel_Child x)) \<noteq> None"
      using subdirectories_valid [OF assms(2), of "rel_Child r"] assms(3) by auto
    then show ?thesis using all [OF walks_step(3)] assms(3,4) walks_step(1) by auto
  qed
qed

lemma assign_spec:
  assumes Q: "queue_laws Q items" "queue_laws R ritems"
    and h: "heap_ok T (v_heap v)" "times_ok (v_heap v)" "p RuneError"
    and d: "reached (v_heap v) (v_root v)" "d_parent (the_dir (v_heap v ! v_root v)) = None"
    and w: "walks T (v_heap v) [root_rel (v_root v)] xs"
  shows "\<exists>v' e b. assignLogicalBlockAddresses p T Q R v = Some (v', e) \<and>
     ((\<exists>x. e = Some x \<and> refuses p T (v_heap v) x) \<or>
      (e = None \<and> moved (v_heap v) (v_heap v') \<and> small_dirs (v_heap v') \<and>
       pvd_tables v' = (PathTableSize (v_pvd v), 18, 18 + bytesToSectors (PathTableSize (v_pvd v)), v_root v, pvd_dates v) \<and>
       pvd_root v' = root_fields (v_heap v') (v_root v) \<and>
       placed p T (v_heap v) (v_heap v') (18 + bytesToSectors (PathTableSize (v_pvd v)) + bytesToSectors (PathTableSize (v_pvd v))) xs b \<and>
       (small_files (v_heap v) \<and> distinct (map rel_Child (concat (map (files_of T (v_heap v) \<circ> rel_Child) xs))) \<longrightarrow>
          files_placed (v_heap v') b (concat (map (files_of T (v_heap v) \<circ> rel_Child) xs)) (VolumeSpaceSize (v_pvd v')))))"
proof -
  let ?h = "v_heap v" and ?d = "v_root v" and ?k = "bytesToSectors (PathTableSize (v_pvd v))"
  have r: "\<forall>r \<in> set xs. reached ?h (rel_Child r)" using walks_reached [OF w h(1)] d(1) by (simp add: root_rel_def)
  have dist: "distinct (map rel_Child xs)" by (rule walks_distinct [OF w h(1) d])
  define v1 where "v1 = v\<lparr>v_pvd := (v_pvd v)\<lparr>LTableStart := 18, MTableStart := 18 + ?k\<rparr>\<rparr>"
  define s where "s = \<lparr>as_volume = v1, as_sectors = \<lparr>sa_next = 18 + ?k + ?k\<rparr>, as_visited = {}\<rparr>"
  have b: "bytesToSectors (16 * 2048) = 16" "bytesToSectors 2048 = 1" by (simp_all add: bytesToSectors_def)
  have n18: "0 + 16 + 1 + 1 = (18 :: u32)" by simp
  have call: "assignLogicalBlockAddresses p T Q R v =
      Option.bind (VisitDirectories T Q as_heap (assign_directory p T) ?d s)
           (\<lambda>(s, err).
             case err of
               Some e \<Rightarrow> Some (as_volume s, Some e)
             | None \<Rightarrow>
                 Option.bind (VisitFiles T R as_heap assign_file ?d s)
                   (\<lambda>(s', err'). Some
                     (let v' = as_volume s'
                      in if err' \<noteq> None then (v', err')
                         else (v'\<lparr>v_pvd := (v_pvd v')\<lparr>VolumeSpaceSize := Allocated (as_sectors s')\<rparr>\<rparr>, None))))"
    unfolding assignLogicalBlockAddresses_def Alloc_def NewSectorAllocator_def s_def v1_def Let_def prod.case b
      SectorAllocator.select_convs SectorAllocator.update_convs n18 ..
  have s: "as_heap s = ?h" "moved ?h (as_heap s)" "small_dirs (as_heap s)"
    using heap_ok_small [OF h(1)] by (simp_all add: s_def v1_def as_heap_def)
  have "keeps ?h as_heap (assign_directory p T) xs"
    unfolding keeps_def
  proof (intro ballI allI impI)
    fix r s s' e assume "r \<in> set xs" "moved ?h (as_heap s)" "assign_directory p T r s = Some (s', e)"
    then show "moved ?h (as_heap s')"
      using assign_directory_moved moved_trans moved_type r unfolding reached_def by metis
  qed
  moreover have "items (q_Enqueue Q (root_rel ?d) (q_New Q)) = [root_rel ?d]" using Q(1) by (simp add: queue_laws_def)
  ultimately have vd: "VisitDirectories T Q as_heap (assign_directory p T) ?d s = run_visits (assign_directory p T) xs s"
    unfolding VisitDirectories_def root_rel_def [symmetric]
    using visit_loop_walks [OF Q(1) h(1), of as_heap "assign_directory p T" xs "q_Enqueue Q (root_rel ?d) (q_New Q)" s] w r s(2)
    by simp
  obtain ys where ys: "xs = root_rel ?d # ys" using walks_head [OF w] by blast
  have others: "\<forall>y \<in> set ys. d_parent (the_dir (?h ! rel_Child y)) \<noteq> None"
    using walks_parents [OF w h(1)] d(1) unfolding ys by (simp add: root_rel_def)
  obtain s1 e where run: "run_visits (assign_directory p T) xs s = Some (s1, e)"
    "(\<exists>x. e = Some x \<and> refuses p T ?h x) \<or>
      (e = None \<and> moved ?h (as_heap s1) \<and> small_dirs (as_heap s1) \<and> pvd_tables (as_volume s1) = pvd_tables (as_volume s) \<and>
       pvd_root (as_volume s1) = root_fields (as_heap s1) (?d) \<and>
       placed p T ?h (as_heap s1) (sa_next (as_sectors s)) xs (sa_next (as_sectors s1)))"
    using assign_pass [where p = p, OF h r dist s(2,3)] ys others d(2) by (auto simp: root_rel_def)
  from run(2) show ?thesis
  proof (elim disjE)
    assume "\<exists>x. e = Some x \<and> refuses p T ?h x"
    then show ?thesis using run(1) unfolding call vd by auto
  next
    assume a: "e = None \<and> moved ?h (as_heap s1) \<and> small_dirs (as_heap s1) \<and> pvd_tables (as_volume s1) = pvd_tables (as_volume s) \<and>
       pvd_root (as_volume s1) = root_fields (as_heap s1) (?d) \<and>
       placed p T ?h (as_heap s1) (sa_next (as_sectors s)) xs (sa_next (as_sectors s1))"
    let ?fs = "concat (map (files_of T ?h \<circ> rel_Child) xs)"
    have m1: "moved ?h (as_heap s1)" "small_dirs (as_heap s1)" using a by blast+
    have len1: "length (as_heap s1) = length ?h" using moved_length [OF m1(1)] by simp
    have fv: "\<forall>r \<in> set ?fs. rel_Child r < length (as_heap s1) \<and> Inode_Type (as_heap s1 ! rel_Child r) = InodeTypeFile"
      using files_valid [OF h(1) r] moved_type [OF m1(1)] unfolding len1 by simp
    have "keeps ?h as_heap assign_file ?fs"
      unfolding keeps_def
    proof (intro ballI allI impI)
      fix f t t' e' assume f: "f \<in> set ?fs" "moved ?h (as_heap t)" "assign_file f t = Some (t', e')"
      have "rel_Child f < length (as_heap t)" using files_valid [OF h(1) r f(1)] moved_length [OF f(2)] by simp
      then show "moved ?h (as_heap t')" using assign_file_step(1) [OF f(3)] moved_trans [OF f(2)] by blast
    qed
    moreover have "ritems (q_Enqueue R ?d (q_New R)) = map rel_Child [root_rel ?d]"
      using Q(2) by (simp add: queue_laws_def root_rel_def)
    ultimately have vf: "VisitFiles T R as_heap assign_file ?d s1 = run_files assign_file ?fs s1"
      unfolding VisitFiles_def using visit_files_walks [where heap_of = as_heap and s = s1 and visit = assign_file and
          q = "q_Enqueue R ?d (q_New R)", OF Q(2) h(1) w r] m1(1) by blast
    obtain s2 e2 where f: "run_files assign_file ?fs s1 = Some (s2, e2)" "moved (as_heap s1) (as_heap s2)"
      "small_dirs (as_heap s2)" "v_pvd (as_volume s2) = v_pvd (as_volume s1)" "v_root (as_volume s2) = v_root (as_volume s1)"
      "\<forall>q. q < length (as_heap s1) \<longrightarrow> Inode_Type (as_heap s1 ! q) = InodeTypeDirectory \<longrightarrow> as_heap s2 ! q = as_heap s1 ! q"
      "\<forall>x. e2 = Some x \<longrightarrow> refuses p T ?h x"
      using files_pass [OF fv] m1(2) moved_small_files [OF m1(1)] unfolding refuses_def by blast
    have m2: "moved ?h (as_heap s2)" by (rule moved_trans [OF m1(1) f(2)])
    have same: "as_heap s2 ! rel_Child r = as_heap s1 ! rel_Child r" if "r \<in> set xs" for r
      using f(6) r that len1 moved_type [OF m1(1)] unfolding reached_def by simp
    have pl: "placed p T ?h (as_heap s2) (18 + ?k + ?k) xs (sa_next (as_sectors s1))"
      using a placed_cong [OF same, of xs p T ?h] by (simp add: s_def)
    let ?v' = "(as_volume s2)\<lparr>v_pvd := (v_pvd (as_volume s2))\<lparr>VolumeSpaceSize := Allocated (as_sectors s2)\<rparr>\<rparr>"
    have tables: "pvd_tables ?v' = (PathTableSize (v_pvd v), 18, 18 + ?k, ?d, pvd_dates v)"
      using a f(4,5) by (simp add: pvd_tables_def s_def v1_def pvd_dates_space)
    show ?thesis
    proof (cases e2)
      case (Some x)
      then show ?thesis using run(1) a f(1,7) unfolding call vd by (simp add: vf)
    next
      case None
      have "assignLogicalBlockAddresses p T Q R v = Some (?v', None)"
        using run(1) a f(1) None unfolding call vd by (simp add: vf Let_def)
      moreover have "pvd_root ?v' = root_fields (as_heap s2) (?d)"
        using a f(4) same [of "root_rel ?d"] by (simp add: pvd_root_def root_fields_def ys root_rel_def)
      moreover have "v_heap ?v' = as_heap s2" by (simp add: as_heap_def)
      moreover have "files_placed (as_heap s2) (sa_next (as_sectors s1)) ?fs (VolumeSpaceSize (v_pvd ?v'))"
        if "small_files ?h" "distinct (map rel_Child ?fs)"
      proof -
        have "distinct (map Inode_Number (as_heap s1))" using moved_heap_ok [OF h(1) m1] by (simp add: heap_ok_def)
        moreover have "as_visited s1 = {}" using run_visits_visited [OF run(1)] by (simp add: s_def)
        ultimately show ?thesis
          using files_placing [OF f(1) [unfolded None] fv moved_small_files [OF m1(1) that(1)] that(2)] by (simp add: Allocated_def)
      qed
      ultimately show ?thesis using m2 f(3) tables pl by (intro exI [of _ ?v'] exI [of _ None] exI [of _ "sa_next (as_sectors s1)"]) simp
    qed
  qed
qed

lemma assertLBA_ok: "length out = m * 2048 \<Longrightarrow> assertLBA (of_nat m) out = None"
  by (simp add: assertLBA_def LogicalBlockSize_def)

lemma metadata_spec:
  assumes Q: "queue_laws Q items" "queue_laws R ritems"
    and h: "heap_ok T (v_heap v)" "times_ok (v_heap v)" "p RuneError"
    and d: "reached (v_heap v) (v_root v)" "d_parent (the_dir (v_heap v ! v_root v)) = None"
    and w: "walks T (v_heap v) [root_rel (v_root v)] xs"
  shows "\<exists>v' out e. WriteMetadataTo p up T Q R v = Some (v', out, e) \<and>
     ((\<forall>x. \<not> refuses p T (v_heap v) x) \<longrightarrow> length out \<le> image_len p T (v_heap v) xs) \<and>
     (length out < 2 ^ 32 \<longrightarrow> (\<exists>x. e = Some x \<and> refuses p T (v_heap v) x) \<or>
       (e = None \<and> moved (v_heap v) (v_heap v') \<and> small_dirs (v_heap v') \<and> v_root v' = v_root v \<and>
        pvd_root v' = root_fields (v_heap v') (v_root v) \<and> pvd_dates v' = pvd_dates v \<and>
        (\<exists>rest. out = pad (16 * LogicalBlockSize) @ fst (PrimaryVolumeDescriptor_WriteTo up (v_pvd v')) @ rest) \<and>
        (\<forall>r \<in> set xs. located p T (v_heap v') out (rel_Child r)) \<and> 2048 dvd length out \<and>
        (small_files (v_heap v) \<and> distinct (map rel_Child (concat (map (files_of T (v_heap v) \<circ> rel_Child) xs))) \<longrightarrow>
           files_placed (v_heap v') (of_nat (length out div 2048)) (concat (map (files_of T (v_heap v) \<circ> rel_Child) xs)) (VolumeSpaceSize (v_pvd v')))))"
proof -
  let ?h = "v_heap v" and ?d = "v_root v"
  let ?fs = "concat (map (files_of T ?h \<circ> rel_Child) xs)"
  obtain t1 where pt1: "ToPathTable T Q ?h ?d = Some (Inr t1)" "map pt_Identifier (pt_Records t1) = map rel_Identifier xs"
    using ToPathTable_run [OF Q(1) h(1) moved_refl w d(1)] by blast
  show ?thesis
  proof -
    define n where "n = length (fst (PathTable_Encode LittleEndian t1))"
    let ?v0 = "v\<lparr>v_pvd := (v_pvd v)\<lparr>PathTableSize := of_int (PathTableEncodedLen t1)\<rparr>\<rparr>"
    have size: "PathTableSize (v_pvd ?v0) = of_nat n" by (simp add: PathTableEncodedLen_def n_def)
    obtain v1 e1 b1 where as: "assignLogicalBlockAddresses p T Q R ?v0 = Some (v1, e1)"
      "(\<exists>x. e1 = Some x \<and> refuses p T ?h x) \<or>
       (e1 = None \<and> moved ?h (v_heap v1) \<and> small_dirs (v_heap v1) \<and>
        pvd_tables v1 = (of_nat n, 18, 18 + bytesToSectors (of_nat n), ?d, pvd_dates v) \<and>
        pvd_root v1 = root_fields (v_heap v1) (?d) \<and>
        placed p T ?h (v_heap v1) (18 + bytesToSectors (of_nat n) + bytesToSectors (of_nat n)) xs b1 \<and>
        (small_files ?h \<and> distinct (map rel_Child ?fs) \<longrightarrow> files_placed (v_heap v1) b1 ?fs (VolumeSpaceSize (v_pvd v1))))"
      using assign_spec [where v = ?v0 and p = p and T = T and xs = xs, OF Q] h d w unfolding size by auto
    from as(2) show ?thesis
    proof (elim disjE)
      assume "\<exists>x. e1 = Some x \<and> refuses p T ?h x"
      then show ?thesis using pt1(1) as(1) by (auto simp: WriteMetadataTo_def)
    next
      assume a: "e1 = None \<and> moved ?h (v_heap v1) \<and> small_dirs (v_heap v1) \<and>
        pvd_tables v1 = (of_nat n, 18, 18 + bytesToSectors (of_nat n), ?d, pvd_dates v) \<and>
        pvd_root v1 = root_fields (v_heap v1) (?d) \<and>
        placed p T ?h (v_heap v1) (18 + bytesToSectors (of_nat n) + bytesToSectors (of_nat n)) xs b1 \<and>
        (small_files ?h \<and> distinct (map rel_Child ?fs) \<longrightarrow> files_placed (v_heap v1) b1 ?fs (VolumeSpaceSize (v_pvd v1)))"
      then have mv: "moved ?h (v_heap v1)" and root: "v_root v1 = ?d"
        and L: "LTableStart (v_pvd v1) = 18" and M: "MTableStart (v_pvd v1) = 18 + bytesToSectors (of_nat n)"
        by (simp_all add: pvd_tables_def)
      obtain t2 where pt2: "ToPathTable T Q (v_heap v1) ?d = Some (Inr t2)" "map pt_Identifier (pt_Records t2) = map rel_Identifier xs"
        using ToPathTable_run [OF Q(1) h(1) mv w d(1)] by blast
      show ?thesis
      proof -
        let ?pvd = "fst (PrimaryVolumeDescriptor_WriteTo up (v_pvd v1))"
        let ?out3 = "pad (16 * LogicalBlockSize) @ ?pvd @ fst Terminator_WriteTo"
        let ?out4 = "pad_out (?out3 @ fst (PathTable_Encode LittleEndian t2))"
        let ?out5 = "pad_out (?out4 @ fst (PathTable_Encode BigEndian t2))"
        have pv: "snd (PrimaryVolumeDescriptor_WriteTo up (v_pvd v1)) = None" "length ?pvd = 2048"
          by (simp_all add: PVD_WriteTo_emit length_pvd_parts root_record_WriteTo)
        have l3: "length ?out3 = 36864" using pv(2) length_Terminator(1) by (simp add: LogicalBlockSize_def)
        have lpt: "length (fst (PathTable_Encode bo t2)) = n" for bo
          using PathTableEncodedLen_eq [of t1 t2 bo] pt1(2) pt2(2) by (simp add: PathTableEncodedLen_def n_def)
        have o4: "?out4 = ?out3 @ pad_out (fst (PathTable_Encode LittleEndian t2))"
          using l3 by (intro pad_out_append) simp
        have o5: "?out5 = ?out4 @ pad_out (fst (PathTable_Encode BigEndian t2))"
          using pad_out_aligned by (intro pad_out_append)
        define k where "k = (n + 2047) div 2048"
        have lp: "length (pad_out (fst (PathTable_Encode bo t2))) = k * 2048" for bo
          unfolding length_pad_out(1) lpt k_def ..
        have l4: "length ?out4 = 36864 + k * 2048" unfolding o4 length_append lp using l3 by simp
        have l5: "length ?out5 = 36864 + k * 2048 + k * 2048" unfolding o5 length_append [of ?out4] lp l4 ..
        have aL: "assertLBA (LTableStart (v_pvd v1)) ?out3 = None"
          unfolding L assertLBA_def l3 by (simp add: LogicalBlockSize_def)
        have H: "heap_ok T (v_heap v1)" "times_ok (v_heap v1)"
          using moved_heap_ok [OF h(1) mv] moved_times [OF mv h(2)] a by blast+
        have r: "\<forall>r \<in> set xs. reached ?h (rel_Child r)" using walks_reached [OF w h(1)] d(1) by (simp add: root_rel_def)
        then have r1: "\<forall>r \<in> set xs. reached (v_heap v1) (rel_Child r)"
          using moved_type [OF mv] moved_dir(2) [OF mv] moved_length [OF mv] by (simp add: reached_def)
        have "keeps ?h (\<lambda>out. v_heap v1) (write_directory p T (v_heap v1)) xs" using mv by (simp add: keeps_def)
        moreover have "items (q_Enqueue Q (root_rel ?d) (q_New Q)) = [root_rel ?d]" using Q(1) by (simp add: queue_laws_def)
        ultimately have vd: "VisitDirectories T Q (\<lambda>out. v_heap v1) (write_directory p T (v_heap v1)) ?d ?out5 =
            run_visits (write_directory p T (v_heap v1)) xs ?out5"
          unfolding VisitDirectories_def root_rel_def [symmetric]
          using visit_loop_walks [where heap_of = "\<lambda>out. v_heap v1" and s = ?out5 and q = "q_Enqueue Q (root_rel ?d) (q_New Q)",
              OF Q(1) h(1)] w r mv by simp
        have call: "WriteMetadataTo p up T Q R v =
          (if assertLBA (MTableStart (v_pvd v1)) ?out4 \<noteq> None
           then Some (v1, ?out4, assertLBA (MTableStart (v_pvd v1)) ?out4)
           else map_option (\<lambda>(out6, err'). (v1, out6, err')) (run_visits (write_directory p T (v_heap v1)) xs ?out5))"
        proof -
          have e1: "e1 = None" using a by blast
          show ?thesis
            unfolding WriteMetadataTo_def pt1(1) as(1) e1 root pt2(1) bind.bind_lunit sum.case prod.case option.case
              Let_def append_assoc pv(1) length_Terminator(2) aL by (simp add: vd [unfolded append_assoc] case_prod_unfold)
        qed
        obtain suf e where run: "run_visits (write_directory p T (v_heap v1)) xs ?out5 = Some (?out5 @ suf, e)"
          using write_returns [where p = p, OF H h(3) r1] by blast
        have bound: "length (?out5 @ suf) \<le> image_len p T ?h xs" if no: "\<forall>x. \<not> refuses p T ?h x"
        proof -
          have "2048 dvd length ?out5" unfolding l5 by simp
          from write_length [where p = p, OF H h(3) r1 this run]
          have "length (?out5 @ suf) \<le> length ?out5 + sum_list (map (dir_len p T (v_heap v1) \<circ> rel_Child) xs)" .
          moreover have "map (dir_len p T (v_heap v1) \<circ> rel_Child) xs = map (dir_len p T ?h \<circ> rel_Child) xs"
            using dir_len_moved [where p = p, OF h mv _ _ no [rule_format]] a r by simp
          ultimately show ?thesis unfolding image_len_def l5 k_def n_def table_len_eq [OF pt1(2)] by simp
        qed
        have bound4: "length ?out4 \<le> image_len p T ?h xs"
          unfolding image_len_def l4 k_def n_def table_len_eq [OF pt1(2)] by simp
        show ?thesis
        proof (cases "n < 2 ^ 32")
          case False
          have "(2 ^ 32 :: nat) div 2048 \<le> n div 2048" using False by (intro div_le_mono) simp
          then have big: "2 ^ 32 \<le> k * 2048" unfolding k_def round_up by simp
          show ?thesis
            unfolding call run using big l4 l5 bound bound4 by (cases "assertLBA (MTableStart (v_pvd v1)) ?out4") simp_all
        next
          case True
          obtain ys where ys: "xs = root_rel ?d # ys" using walks_head [OF w] by blast
          have "pt_Records t1 \<noteq> []" using pt1(2) by (auto simp: ys)
          then have "0 < n" by (cases "pt_Records t1") (auto simp: n_def PathTable_Encode_def length_encode_path_records)
          then have "unat (bytesToSectors (of_nat n)) = k"
            using length_pad_out(2) [of "fst (PathTable_Encode LittleEndian t2)"] True lpt lp by simp
          then have b: "bytesToSectors (of_nat n) = of_nat k" by (metis of_nat_unat ucast_id)
          have d5: "length ?out5 div 2048 = 18 + k + k" "2048 dvd length ?out5" unfolding l5 by simp_all
          have "assertLBA (MTableStart (v_pvd v1)) ?out4 = None"
            unfolding M b using assertLBA_ok [of ?out4 "18 + k"] l4 by simp
          then have call': "WriteMetadataTo p up T Q R v = Some (v1, ?out5 @ suf, e)"
            unfolding call run by simp
          have "placed p T ?h (v_heap v1) (of_nat (length ?out5 div 2048)) xs b1"
            using a unfolding d5(1) b by (simp add: algebra_simps)
          then have "(\<exists>x. e = Some x \<and> refuses p T ?h x) \<or> (e = None \<and> (\<forall>r \<in> set xs. located p T (v_heap v1) (?out5 @ suf) (rel_Child r)) \<and>
               2048 dvd length (?out5 @ suf) \<and> b1 = of_nat (length (?out5 @ suf) div 2048))"
            if "length (?out5 @ suf) < 2 ^ 32"
            using write_pass [where p = p, OF h mv _ r _ d5(2) run that] a by blast
          moreover have "small_files ?h \<and> distinct (map rel_Child ?fs) \<longrightarrow> files_placed (v_heap v1) b1 ?fs (VolumeSpaceSize (v_pvd v1))"
            using a by blast
          ultimately have "(\<exists>x. e = Some x \<and> refuses p T ?h x) \<or> (e = None \<and> (\<forall>r \<in> set xs. located p T (v_heap v1) (?out5 @ suf) (rel_Child r)) \<and>
               2048 dvd length (?out5 @ suf) \<and> (small_files ?h \<and> distinct (map rel_Child ?fs) \<longrightarrow>
                 files_placed (v_heap v1) (of_nat (length (?out5 @ suf) div 2048)) ?fs (VolumeSpaceSize (v_pvd v1))))"
            if "length (?out5 @ suf) < 2 ^ 32" using that by metis
          moreover have "\<exists>rest. ?out5 @ suf = pad (16 * LogicalBlockSize) @ ?pvd @ rest" unfolding o5 unfolding o4 by simp
          moreover have "moved ?h (v_heap v1)" "small_dirs (v_heap v1)" "pvd_root v1 = root_fields (v_heap v1) ?d" "pvd_dates v1 = pvd_dates v"
            using a by (simp_all add: pvd_tables_def)
          ultimately show ?thesis unfolding call' using root bound
            by (intro exI [of _ v1] exI [of _ "?out5 @ suf"] exI [of _ e]) blast
        qed
      qed
    qed
  qed
qed

end
