(* ===== verification/Listing.thy ===== *)
theory Listing
  imports Passes
begin

text \<open>
  Reading back what \<open>WriteMetadataTo\<close> wrote: in the image of a volume, \<open>iterDir\<close> of \<open>walk.go\<close>
  lists every directory of the tree, with the names, kinds, inode numbers, sizes and extents
  of its entries.
\<close>

section \<open>From the entries of a node to its \<open>FileInfo\<close>\<close>

text \<open>What a reader sees of a node with one part.\<close>

definition describes :: "('m, dirEntry) treemap \<Rightarrow> 'm heap \<Rightarrow> gostring \<times> gostring \<times> 'm Inode \<Rightarrow> FileInfo \<Rightarrow> bool" where
  "describes T h m fi \<longleftrightarrow> (case m of (ident, name, i) \<Rightarrow>
     fi_name fi = name \<and> fi_isDir fi = (Inode_Type i = InodeTypeDirectory) \<and> fi_ino fi = Inode_Number i \<and>
     fi_nlink fi = Inode_Nlink T h i \<and> fi_modTime fi = whole_seconds (Inode_Modified i) \<and>
     (\<exists>part. Inode_Parts i = Inr [part] \<and> fi_extent fi = part_start part \<and>
        (case i of SymI s \<Rightarrow> (if last (split_slash (path_Clean (s_target s))) \<notin> {[], dot, dotdot}
                              then fi_target fi = path_Clean (s_target s) else fi_target fi = [])
         | _ \<Rightarrow> fi_target fi = [] \<and> fi_size fi = uint (part_size part))))"

lemma DecodePosixEntry_skip:
  "list_all (\<lambda>e. \<forall>px. e \<noteq> PX px) es \<Longrightarrow> DecodePosixEntry (es @ fs) = DecodePosixEntry fs"
  by (induction es rule: DecodePosixEntry.induct) auto

lemma DecodeTimestamps_skip:
  "list_all (\<lambda>e. \<forall>tf. e \<noteq> TF tf) es \<Longrightarrow> DecodeTimestamps (es @ fs) = DecodeTimestamps fs"
  by (induction es rule: DecodeTimestamps.induct) auto

lemma symlink_skip:
  "list_all (\<lambda>e. \<forall>sl. e \<noteq> SL sl) es \<Longrightarrow> symlink_loop parts partial (es @ fs) = symlink_loop parts partial fs"
proof (induction es)
  case (Cons e es)
  then show ?case by (cases e) auto
qed simp

lemma NewSymlink_SL: "NewSymlink p t = Inr es \<Longrightarrow> \<exists>sls. es = map SL sls"
  unfolding NewSymlink_def Let_def by (cases "symlink_components p (split_slash (path_Clean t))") auto

text \<open>The entries of a node, by what their readers look for.\<close>

lemma entries_shape:
  assumes "InodeSystemUseEntries p T h ident name i = Inr es"
  shows "\<exists>pre adds. es = pre @ name_chunks name @
     [PX \<lparr>Mode = Inode_mode i, Nlink = Inode_Nlink T h i, Uid = 0, Gid = 0, Ino = Inode_Number i\<rparr>,
      TF \<lparr>tf_Created = Some (Inode_Created i), tf_Modified = Some (Inode_Modified i), tf_Access = None,
          tf_Attributes = None, tf_Backup = None, tf_Expiration = None, tf_Effective = None, LongForm = False\<rparr>] @ adds \<and>
     list_all (\<lambda>e. (\<exists>sp. e = SP sp) \<or> (\<exists>er. e = ER er)) pre \<and> AdditionalSystemUseEntries p i = Inr adds"
proof -
  have ers: "\<exists>xs. extension_references = Inr xs \<and> list_all (\<lambda>e. (\<exists>sp. e = SP sp) \<or> (\<exists>er. e = ER er)) xs"
    by (simp add: extension_references_def ExtensionsReference_def ExtensionsReferenceLegacy_def
      NewExtensionsReferenceEntry_def bytes_of_def)
  then obtain xs where xs: "extension_references = Inr xs" "list_all (\<lambda>e. (\<exists>sp. e = SP sp) \<or> (\<exists>er. e = ER er)) xs" by blast
  define sp where "sp = (if Inode_IsRoot i \<and> ident = [0] then [NewSharingProtocolEntry 0] else [])"
  define ers' where "ers' = (if Inode_Type i = InodeTypeDirectory then xs else [])"
  have e: "(if Inode_Type i = InodeTypeDirectory then extension_references else Inr []) = Inr ers'"
    by (simp add: ers'_def xs)
  obtain adds where "isValid p name" "AdditionalSystemUseEntries p i = Inr adds"
    "es = (sp @ ers') @ name_chunks name @
     [PX \<lparr>Mode = Inode_mode i, Nlink = Inode_Nlink T h i, Uid = 0, Gid = 0, Ino = Inode_Number i\<rparr>,
      TF \<lparr>tf_Created = Some (Inode_Created i), tf_Modified = Some (Inode_Modified i), tf_Access = None,
          tf_Attributes = None, tf_Backup = None, tf_Expiration = None, tf_Effective = None, LongForm = False\<rparr>] @ adds"
    using assms unfolding InodeSystemUseEntries_def e sum.case NewName_def sp_def [symmetric] Let_def
    by (cases "AdditionalSystemUseEntries p i") (auto split: if_splits)
  moreover have "list_all (\<lambda>e. (\<exists>sp. e = SP sp) \<or> (\<exists>er. e = ER er)) (sp @ ers')"
    by (simp add: sp_def ers'_def NewSharingProtocolEntry_def xs(2))
  ultimately show ?thesis by blast
qed

lemma stored_kinds:
  "list_all (\<lambda>e. (\<exists>sp. e = SP sp) \<or> (\<exists>er. e = ER er)) es \<Longrightarrow> map stored es = es"
  by (induction es) auto

lemma name_chunks_stored: "map stored (name_chunks s) = name_chunks s"
  by (induction s rule: chunk_induct) (simp_all add: name_chunks_short name_chunks_long)

lemma name_chunks_NMs: "list_all (\<lambda>e. \<exists>nm. e = NM nm) (name_chunks s)"
  by (induction s rule: chunk_induct) (simp_all add: name_chunks_short name_chunks_long)

lemma adds_SL: "AdditionalSystemUseEntries p i = Inr adds \<Longrightarrow> \<exists>sls. adds = map SL sls"
  by (cases i) (auto dest: NewSymlink_SL)

lemma decoders_of_node:
  assumes "InodeSystemUseEntries p T h ident name i = Inr es" "name \<noteq> []"
  shows "DecodeName (map stored es) = (name, True)"
    "DecodePosixEntry (map stored es) =
       Some \<lparr>Mode = Inode_mode i, Nlink = Inode_Nlink T h i, Uid = 0, Gid = 0, Ino = Inode_Number i\<rparr>"
    "\<exists>ts. DecodeTimestamps (map stored es) = Some ts \<and> tf_Modified ts = Some (whole_seconds (Inode_Modified i))"
    "AdditionalSystemUseEntries p i = Inr adds \<Longrightarrow> DecodeSymlink (map stored es) = DecodeSymlink adds"
proof -
  let ?px = "\<lparr>Mode = Inode_mode i, Nlink = Inode_Nlink T h i, Uid = 0, Gid = 0, Ino = Inode_Number i\<rparr>"
  obtain pre adds' tf where s: "es = pre @ name_chunks name @ [PX ?px, TF tf] @ adds'"
    "list_all (\<lambda>e. (\<exists>sp. e = SP sp) \<or> (\<exists>er. e = ER er)) pre" "AdditionalSystemUseEntries p i = Inr adds'"
    "tf_Modified tf = Some (Inode_Modified i)"
    using entries_shape [OF assms(1)] by auto
  obtain sls where sls: "adds' = map SL sls" using adds_SL [OF s(3)] by blast
  have m: "map stored es = pre @ name_chunks name @ PX ?px # stored (TF tf) # adds'"
    by (simp add: s(1) sls name_chunks_stored stored_kinds [OF s(2)])
  have pre: "list_all (\<lambda>e. \<forall>px. e \<noteq> PX px) (pre @ name_chunks name)" "list_all (\<lambda>e. \<forall>tf. e \<noteq> TF tf) (pre @ name_chunks name @ [PX ?px])"
    "list_all (\<lambda>e. \<forall>sl. e \<noteq> SL sl) (pre @ name_chunks name @ [PX ?px, stored (TF tf)])"
    using s(2) name_chunks_NMs [of name] by (auto simp: list_all_iff)
  show "DecodePosixEntry (map stored es) = Some ?px"
    unfolding m append_assoc [symmetric] using DecodePosixEntry_skip [OF pre(1)] by simp
  show "\<exists>ts. DecodeTimestamps (map stored es) = Some ts \<and> tf_Modified ts = Some (whole_seconds (Inode_Modified i))"
    unfolding m using DecodeTimestamps_skip [OF pre(2)] s(4) by (simp add: store_time_def)
  show "AdditionalSystemUseEntries p i = Inr adds \<Longrightarrow> DecodeSymlink (map stored es) = DecodeSymlink adds"
    unfolding m DecodeSymlink_def using symlink_skip [OF pre(3), of "[]" "[]" adds'] s(3) by simp
  have "filter is_NM pre = []" using s(2) by (auto simp: list_all_iff is_NM_def filter_empty_conv)
  then have "filter is_NM (map stored es) = name_chunks name"
    unfolding m by (simp add: name_chunks_NM sls is_NM_def comp_def)
  then show "DecodeName (map stored es) = (name, True)"
    using name_loop_chunks [OF assms(2), of "[]" "[]"] name_loop_filter [of "[]" "map stored es"]
    by (simp add: DecodeName_def)
qed

section \<open>Records of nodes with one part\<close>

text \<open>
  A record carries the entries of its node: all of them, or the first ones and a CE that the
  continuation area answers with the rest.
\<close>

definition carries :: "ContinuationArea \<Rightarrow> SystemUseEntry list \<Rightarrow> SystemUseEntry list \<Rightarrow> bool" where
  "carries ca su es \<longleftrightarrow> su = es \<or>
     (\<exists>use ov ce. es = use @ ov \<and> su = use @ [CE ce] \<and> chained (ca_start ca) (ca_sectors ca) ce ov)"

lemma carries_extends:
  "carries ca su es \<Longrightarrow> ca_start ca' = ca_start ca \<Longrightarrow> extends (ca_sectors ca) (ca_sectors ca') \<Longrightarrow> carries ca' su es"
  unfolding carries_def using chained_extends by metis

lemma carries_read:
  assumes "carries ca (SystemUse rec) es" "no_CE es" "area_ok p ca" "area_at img (ca_start ca) (ca_sectors ca)"
  shows "allSystemUseEntries p img (stored_record rec) = Some (Inr (map stored es))"
  using assms(1) unfolding carries_def
proof (elim disjE exE conjE)
  assume "SystemUse rec = es"
  then show ?thesis
    using system_use_loop_plain [of "map stored es" p img "[]" "[]"] assms(2)
    by (simp add: allSystemUseEntries_def stored_record_def)
next
  fix use ov ce
  assume c: "es = use @ ov" "SystemUse rec = use @ [CE ce]" "chained (ca_start ca) (ca_sectors ca) ce ov"
  have n: "no_CE (map stored use)" "no_CE ov" using assms(2) c(1) by simp_all
  have ok: "list_all (sector_ok p) (ca_sectors ca)" using assms(3) by (simp add: area_ok_def)
  show ?thesis
    using system_use_loop_plain [OF n(1), of p img "[CE ce]" "[]"] chained_read [OF c(3) assms(4) ok n(2), of "map stored use"]
    by (simp add: allSystemUseEntries_def stored_record_def c(1,2))
qed

definition record_of :: "(rune \<Rightarrow> bool) \<Rightarrow> ('m, dirEntry) treemap \<Rightarrow> 'm heap \<Rightarrow> ContinuationArea \<Rightarrow>
    gostring \<times> gostring \<times> 'm Inode \<Rightarrow> DirectoryRecord \<Rightarrow> bool" where
  "record_of p T h ca m rec \<longleftrightarrow> (case m of (ident, name, i) \<Rightarrow>
     \<exists>es part su. InodeSystemUseEntries p T h ident name i = Inr es \<and> no_CE es \<and> Inode_Parts i = Inr [part] \<and>
       rec = part_record ident i part False su \<and> carries ca su es)"

lemma record_of_extends:
  "record_of p T h ca m rec \<Longrightarrow> ca_start ca' = ca_start ca \<Longrightarrow> extends (ca_sectors ca) (ca_sectors ca') \<Longrightarrow>
   record_of p T h ca' m rec"
  unfolding record_of_def using carries_extends by (auto split: prod.splits) blast

lemma splitInode_single:
  assumes "node_times i" "p RuneError" "length ident \<le> 30" "area_ok p ca" "Inode_Parts i = Inr [part]"
    and s: "splitInode p T h ident name i ca = Some (Inr (recs, ca2))"
  shows "\<exists>rec. recs = [rec] \<and> record_of p T h ca2 (ident, name, i) rec"
proof -
  obtain es lens arr where es: "InodeSystemUseEntries p T h ident name i = Inr es"
    and sp: "split_parts ident i [part] es ca = Some (Inr (lens, arr, ca2))" and recs: "recs = part_records ident i [part] lens arr"
    using s assms(5) unfolding splitInode_Inr by auto
  note wf = InodeSystemUseEntries_wf [OF es assms(1,2)]
  define B where "B = int (34 + length ident - length ident mod 2)"
  have B: "B + 28 \<le> 255" using assms(3) by (simp add: B_def)
  have base: "int (DirectoryRecord_Len (part_record ident i part False es)) = B + entries_len es"
    unfolding part_record_Len B_def by (simp add: entries_len_sum)
  obtain use ov len where st: "pop_overflow es [] (B + entries_len es) 0 = Inr (use, ov)"
    "store_overflow use ov es ca = Some (len, arr, ca2)" "lens = [len]"
    using sp unfolding split_parts_Cons by (auto simp: base)
  have uv: "use @ ov = es" using pop_overflow_spec [OF refl, of 0 "[]" B es] B st(1) by auto
  have rec: "recs = [part_record ident i part False (take len arr)]" by (simp add: recs st(3))
  have "carries ca2 (take len arr) es"
  proof (cases "ov = []")
    case True
    then show ?thesis using st(2) uv by (simp add: store_overflow_def carries_def)
  next
    case False
    have "list_all (wf_entry p) ov" using wf(1) uv by (metis list_all_append)
    from Append_spec [OF False this assms(4)]
    obtain ca1 ce where ap: "ContinuationArea_Append ca ov = Some (ca1, Some ce)" "ca_start ca1 = ca_start ca"
      "chained (ca_start ca) (ca_sectors ca1) ce ov" by blast
    then have r: "ca2 = ca1" "len = Suc (length use)" "arr = es[length use := CE ce]"
      using st(2) False by (auto simp: store_overflow_def)
    have "length use < length es" "take (length use) es = use" using uv False by auto
    then have "take len arr = use @ [CE ce]" unfolding r by (simp add: take_Suc_conv_app_nth)
    then show ?thesis using ap uv r(1) unfolding carries_def by auto
  qed
  then show ?thesis using rec es wf(2) assms(5) unfolding record_of_def by auto
qed

lemma split_all_single:
  assumes "\<forall>(ident, name, i) \<in> set ms. node_times i \<and> length ident \<le> 30 \<and> (\<exists>part. Inode_Parts i = Inr [part])"
    and "p RuneError" "area_ok p ca" "split_all p T h ms ca = Some (Inr (recs, ca2))"
  shows "list_all2 (record_of p T h ca2) ms recs"
  using assms(1,3,4)
proof (induction ms arbitrary: ca recs)
  case (Cons m ms)
  obtain ident name i where m: "m = (ident, name, i)" by (cases m)
  obtain recs1 ca1 recs2 where s: "splitInode p T h ident name i ca = Some (Inr (recs1, ca1))"
    "split_all p T h ms ca1 = Some (Inr (recs2, ca2))" "recs = recs1 @ recs2"
    using Cons.prems(3) unfolding m split_all_Cons by blast
  obtain part where i: "node_times i" "length ident \<le> 30" "Inode_Parts i = Inr [part]" using Cons.prems(1) by (auto simp: m)
  obtain rec where rec: "recs1 = [rec]" "record_of p T h ca1 m rec"
    using splitInode_single [OF i(1) assms(2) i(2) Cons.prems(2) i(3) s(1)] by (auto simp: m)
  have a1: "area_ok p ca1" using splitInode_spec [OF i(1) assms(2) i(2) Cons.prems(2), of T h name] s(1) by auto
  have rest: "\<forall>(ident, name, i) \<in> set ms. node_times i \<and> length ident \<le> 30" using Cons.prems(1) by auto
  have "ca_start ca2 = ca_start ca1" "extends (ca_sectors ca1) (ca_sectors ca2)"
    using split_all_spec [where p = p and xs = ms and T = T and h = h, OF rest assms(2) a1] s(2) by auto
  then have "record_of p T h ca2 m rec" by (rule record_of_extends [OF rec(2)])
  moreover have "list_all2 (record_of p T h ca2) ms recs2" using Cons.IH [OF _ a1 s(2)] Cons.prems(1) by simp
  ultimately show ?case by (simp add: s(3) rec(1))
qed simp

text \<open>The \<open>FileInfo\<close> of such a record.\<close>

lemma FileFlagDir_record:
  "(Flags (part_record ident i part False su) AND FileFlagDir \<noteq> 0) = (Inode_Type i = InodeTypeDirectory)"
  by (simp add: part_record_def FileFlagDir_def)

lemma record_of_info:
  assumes "record_of p T h ca (ident, name, i) rec" "name \<noteq> []" "area_ok p ca" "area_at img (ca_start ca) (ca_sectors ca)"
  shows "\<exists>fi. group_info p img (stored_record rec, uint (Length rec)) fi \<and> describes T h (ident, name, i) fi"
proof -
  obtain es part su where r: "InodeSystemUseEntries p T h ident name i = Inr es" "no_CE es" "Inode_Parts i = Inr [part]"
    "rec = part_record ident i part False su" "carries ca su es"
    using assms(1) by (auto simp: record_of_def)
  have su: "SystemUse rec = su" by (simp add: r(4) part_record_def)
  have read: "allSystemUseEntries p img (stored_record rec) = Some (Inr (map stored es))"
    by (rule carries_read [OF _ r(2) assms(3,4)]) (simp add: su r(5))
  obtain adds where adds: "AdditionalSystemUseEntries p i = Inr adds"
    using entries_shape [OF r(1)] by blast
  note dec = decoders_of_node [OF r(1) assms(2)]
  obtain ts where ts: "DecodeTimestamps (map stored es) = Some ts" "tf_Modified ts = Some (whole_seconds (Inode_Modified i))"
    using dec(3) by blast
  have sym: "DecodeSymlink (map stored es) =
     (case i of SymI s \<Rightarrow> (if last (split_slash (path_Clean (s_target s))) \<notin> {[], dot, dotdot}
        then (path_Clean (s_target s), True) else ([], False)) | _ \<Rightarrow> ([], False))"
    unfolding dec(4) [OF adds]
  proof (cases i)
    case (SymI s)
    then have "NewSymlink p (s_target s) = Inr adds" using adds by simp
    from DecodeSymlink_NewSymlink [OF this]
    show "DecodeSymlink adds = (case i of SymI s \<Rightarrow> (if last (split_slash (path_Clean (s_target s))) \<notin> {[], dot, dotdot}
        then (path_Clean (s_target s), True) else ([], False)) | _ \<Rightarrow> ([], False))"
      by (simp add: SymI normal_segment_def)
  qed (use adds in \<open>auto simp: DecodeSymlink_def\<close>)
  have fields: "Start (stored_record rec) = part_start part" "Flags (stored_record rec) = Flags rec"
    "Length rec = part_size part"
    by (simp_all add: stored_record_def r(4) part_record_def)
  have dir: "(Flags rec AND FileFlagDir \<noteq> 0) = (Inode_Type i = InodeTypeDirectory)"
    unfolding r(4) by (rule FileFlagDir_record)
  obtain fi where fi: "make_FileInfo (stored_record rec) (uint (Length rec)) (map stored es) = Inr fi"
    "fi_name fi = name" "fi_isDir fi = (Inode_Type i = InodeTypeDirectory)" "fi_ino fi = Inode_Number i"
    "fi_nlink fi = Inode_Nlink T h i" "fi_modTime fi = whole_seconds (Inode_Modified i)" "fi_extent fi = part_start part"
    "fi_target fi = fst (DecodeSymlink (map stored es))"
    "\<not> snd (DecodeSymlink (map stored es)) \<Longrightarrow> fi_size fi = uint (part_size part)"
    unfolding make_FileInfo_def dec(1,2) ts(1) fields dir
    by (auto simp: Let_def ts(2) case_prod_unfold)
  have "group_info p img (stored_record rec, uint (Length rec)) fi" using read fi(1) by (simp add: group_info_def)
  moreover have "describes T h (ident, name, i) fi"
    using fi(2-9) r(3) sym by (cases i) (auto simp: describes_def)
  ultimately show ?thesis by blast
qed

section \<open>Directories in the image\<close>

lemma entry_groups_distinct:
  "distinct (map Identifier recs) \<Longrightarrow> entry_groups recs = map (\<lambda>r. (r, uint (Length r))) recs"
  by (induction recs) (auto split: list.split)

lemma entry_ident_long: "8 \<le> length (entry_ident k ty)"
proof -
  have "PutUvarint k \<noteq> []" by (simp add: PutUvarint.simps [of k])
  from base32_step [OF this] show ?thesis
    by (simp add: entry_ident_def length_encode_quantum del: base32_Encode.simps)
qed

lemma members_distinct:
  assumes h: "heap_ok T h" "reached h c"
  shows "distinct (map fst (directory_members T h c))" "(ident, name, i) \<in> set (directory_members T h c) \<Longrightarrow> name \<noteq> []"
proof -
  have node: "h ! c = DirI (the_dir (h ! c))" using h(2) by (simp add: reached_def the_dir_DirI)
  then have ok: "dir_ok T h c (the_dir (h ! c))" using h by (simp add: heap_ok_def reached_def)
  let ?es = "child_entries T h c"
  have long: "8 \<le> length (fst e)" if e: "e \<in> set ?es" for e
  proof -
    obtain k where "fst e = entry_ident k (Inode_Type (h ! de_child (snd e)))"
      using dir_okD(3) [OF ok, of e] e unfolding child_entries_def by blast
    then show ?thesis using entry_ident_long by simp
  qed
  have m: "map fst (directory_members T h c) = [0] # [1] # map fst ?es"
    by (simp add: directory_members_def comp_def case_prod_unfold)
  have "distinct (map fst ?es)" using ok by (simp add: dir_ok_def child_entries_def Let_def)
  moreover have "[0] \<notin> fst ` set ?es" "[1] \<notin> fst ` set ?es" using long by force+
  ultimately show "distinct (map fst (directory_members T h c))" unfolding m by auto
  have named: "\<forall>e \<in> set ?es. de_name (snd e) \<noteq> []"
    using dir_okD(4) [OF ok] unfolding child_entries_def by blast
  have "\<forall>m \<in> set (directory_members T h c). fst (snd m) \<noteq> []"
    unfolding directory_members_def using named by (force simp: dot_def dotdot_def)
  then show "(ident, name, i) \<in> set (directory_members T h c) \<Longrightarrow> name \<noteq> []" by fastforce
qed

lemma ToDirectory_single:
  assumes h: "heap_ok T h" "times_ok h" "reached h c" "small_files h" and p: "p RuneError"
    and t: "ToDirectory p T h c = Some (Inr (dir, ca))"
  shows "list_all2 (record_of p T h ca) (directory_members T h c) (Records dir)"
proof -
  have node: "h ! c = DirI (the_dir (h ! c))" using h(3) by (simp add: reached_def the_dir_DirI)
  let ?d = "the_dir (h ! c)"
  have ok: "dir_ok T h c ?d" using h node by (simp add: heap_ok_def reached_def)
  then have "unat (d_size ?d) \<le> MaxPartSize" by (simp add: dir_ok_def Let_def)
  then have parts: "Inode_Parts (h ! c) = Inr [\<lparr>part_start = d_start ?d, part_size = d_size ?d\<rparr>]"
    by (subst node) (simp add: small_parts)
  let ?ca = "NewContinuationArea (d_start ?d + bytesToSectors (d_size ?d))"
  have s: "split_all p T h (directory_members T h c) ?ca = Some (Inr (Records dir, ca))"
    using t by (auto simp: ToDirectory_def toDirectory_def parts) (case_tac z; auto)
  have "node_times i \<and> length ident \<le> 30 \<and> (\<exists>part. Inode_Parts i = Inr [part])"
    if m: "(ident, name, i) \<in> set (directory_members T h c)" for ident name i
  proof -
    obtain q where q: "(ident, name, q) \<in> set (member_refs T h c)" "i = h ! q"
      using m unfolding directory_members_refs by auto
    have "i \<in> set h" using member_refs_valid [OF h(1,3) q(1)] q(2) by simp
    then show ?thesis
      using member_ident_length [OF h(1,3) q(1)] one_part [OF h(4) heap_ok_small [OF h(1)]] h(2) by (simp add: times_ok_def)
  qed
  then show ?thesis
    using split_all_single [OF _ p _ s] by (auto simp: area_ok_def NewContinuationArea_def)
qed

lemma infos_of_records:
  assumes "list_all2 (record_of p T h ca) ms recs" "\<forall>m \<in> set ms. fst (snd m) \<noteq> []"
    "area_ok p ca" "area_at img (ca_start ca) (ca_sectors ca)"
  shows "\<exists>fis. list_all2 (group_info p img) (map (\<lambda>r. (stored_record r, uint (Length r))) recs) fis \<and>
     list_all2 (describes T h) ms fis"
  using assms(1,2)
proof (induction rule: list_all2_induct)
  case (Cons m ms rec recs)
  obtain ident name i where m: "m = (ident, name, i)" by (cases m)
  obtain fi where "group_info p img (stored_record rec, uint (Length rec)) fi" "describes T h m fi"
    using record_of_info [of p T h ca ident name i rec img] Cons.hyps(1) Cons.prems assms(3,4) by (auto simp: m)
  moreover obtain fis where "list_all2 (group_info p img) (map (\<lambda>r. (stored_record r, uint (Length r))) recs) fis"
    "list_all2 (describes T h) ms fis" using Cons.IH Cons.prems by auto
  ultimately show ?case by (intro exI [of _ "fi # fis"]) simp
qed simp

lemma located_listed:
  assumes h: "heap_ok T H" "times_ok H" "reached H c" "small_files H" and p: "p RuneError"
    and loc: "located p T H out c" and len: "length out < 2 ^ 32"
  shows "\<exists>fis. readable_dir p (out @ files) (d_start (the_dir (H ! c))) (uint (d_size (the_dir (H ! c)))) fis \<and>
       list_all2 (describes T H) (directory_members T H c) fis"
proof -
  let ?d = "the_dir (H ! c)" and ?img = "out @ files"
  obtain dir ca pre post where l: "ToDirectory p T H c = Some (Inr (dir, ca))" "snd (Directory_WriteTo dir) = None"
    "out = pre @ dir_bytes dir @ area_bytes ca @ post" "length pre = unat (d_start ?d) * 2048"
    "length (dir_bytes dir) = unat (d_size ?d)"
    using loc by (auto simp: located_def)
  have wf: "list_all (wf_record p) (Records dir)" "area_ok p ca" "ca_start ca = d_start ?d + bytesToSectors (d_size ?d)"
    using ToDirectory_spec [where p = p, OF h(1-3) p] l(1) by auto
  note aw = area_written [OF wf(2)]
  have ok: "list_all (sector_ok p) (ca_sectors ca)" using wf(2) by (simp add: area_ok_def)
  have recs: "list_all2 (record_of p T H ca) (directory_members T H c) (Records dir)"
    by (rule ToDirectory_single [OF h p l(1)])
  then have "Records dir \<noteq> []" by (auto simp: directory_members_def)
  note w = Directory_written [OF l(2) this]
  have b: "bytesToSectors (d_size ?d) = of_nat (unat (d_size ?d) div 2048)"
  proof -
    have "d_size ?d = of_nat (length (dir_bytes dir))" by (simp add: l(5))
    then show ?thesis using w(3) l(5) by simp
  qed
  have d2048: "unat (d_size ?d) div 2048 * 2048 = unat (d_size ?d)"
    using pad_out_aligned [of "fst (Directory_WriteTo dir)"] l(5) by (simp add: dir_bytes_def)
  have st: "unat (ca_start ca) = unat (d_start ?d) + unat (d_size ?d) div 2048 \<and>
      (unat (ca_start ca) + length (ca_sectors ca)) * 2048 \<le> 2 ^ 32"
  proof -
    have tot: "(unat (d_start ?d) + unat (d_size ?d) div 2048 + length (ca_sectors ca)) * 2048 \<le> length out"
      using l(3-5) aw(2) d2048 by (simp add: algebra_simps)
    then have "unat (d_start ?d) + unat (d_size ?d) div 2048 < 2 ^ 32" using len by simp
    then have "unat (d_start ?d + of_nat (unat (d_size ?d) div 2048)) = unat (d_start ?d) + unat (d_size ?d) div 2048"
      by (simp add: unat_word_ariths unat_of_nat)
    then show ?thesis using tot len unfolding wf(3) b by simp
  qed
  have area: "area_at ?img (ca_start ca) (ca_sectors ca)"
  proof -
    have "unat (ca_start ca) * 2048 = length pre + length (dir_bytes dir)"
      using st l(4,5) d2048 by (simp add: algebra_simps)
    then have "section_bytes ?img (unat (ca_start ca) * 2048) (length (ca_sectors ca) * 2048) = area_bytes ca"
      using aw(2) by (simp add: section_bytes_def l(3))
    moreover have "area_bytes ca = concat (map sector_image (ca_sectors ca))"
      using write_sectors_image [OF ok, of 0] by (simp add: area_bytes_def ContinuationArea_WriteTo_def)
    ultimately show ?thesis using st by (simp add: area_at_def)
  qed
  have ext: "dir_bytes dir = extent_of (fst (Directory_WriteTo dir))"
    by (simp add: dir_bytes_def pad_out_def padOutSector_def extent_of_def LogicalBlockSize_def)
  have dec: "DecodeDirectory p (section_bytes ?img (unat (d_start ?d * 2048)) (nat (uint (d_size ?d)))) =
      Inr \<lparr>Records = map stored_record (Records dir)\<rparr>"
  proof -
    have "unat (d_start ?d) * 2048 < 2 ^ 32" using len l(3,4) by simp
    then have "unat (d_start ?d * 2048) = length pre" using l(4) by (simp add: unat_word_ariths)
    then have "section_bytes ?img (unat (d_start ?d * 2048)) (nat (uint (d_size ?d))) = dir_bytes dir"
      using l(3,5) by (simp add: section_bytes_def unat_eq_nat_uint [symmetric])
    moreover have "Directory_WriteTo \<lparr>Records = Records dir\<rparr> = (fst (Directory_WriteTo dir), None)"
      using l(2) by (metis Directory.surjective old.unit.exhaust prod.collapse)
    ultimately show ?thesis using Directory_readback [OF wf(1)] ext by simp
  qed
  have ids: "map Identifier (map stored_record (Records dir)) = map fst (directory_members T H c)"
    using recs by (induction rule: list_all2_induct) (auto simp: record_of_def stored_record_def part_record_def)
  have groups: "entry_groups (map stored_record (Records dir)) = map (\<lambda>r. (stored_record r, uint (Length r))) (Records dir)"
    using members_distinct(1) [OF h(1,3)] ids by (subst entry_groups_distinct) (simp_all add: comp_def stored_record_def)
  have "\<forall>m \<in> set (directory_members T H c). fst (snd m) \<noteq> []"
    using members_distinct(2) [OF h(1,3)] by auto
  from infos_of_records [OF recs this wf(2) area]
  have "\<exists>fis. list_all2 (group_info p ?img) (map (\<lambda>r. (stored_record r, uint (Length r))) (Records dir)) fis \<and>
      list_all2 (describes T H) (directory_members T H c) fis" .
  then obtain fis where fis: "list_all2 (group_info p ?img) (map (\<lambda>r. (stored_record r, uint (Length r))) (Records dir)) fis"
    "list_all2 (describes T H) (directory_members T H c) fis" by blast
  have "uint (d_size ?d) < 4294967295"
  proof -
    have "unat (d_size ?d) \<le> 4294965248" using w(4) l(5) by (simp add: MaxPartSize_def)
    then have "int (unat (d_size ?d)) \<le> 4294965248" by linarith
    then show ?thesis by (simp only: uint_nat)
  qed
  then show ?thesis
    using dec fis unfolding groups [symmetric] readable_dir_def by auto
qed

section \<open>Paths\<close>

lemma walks_closed:
  assumes "walks T h q xs"
  shows "set q \<subseteq> set xs" "r \<in> set xs \<Longrightarrow> set (subdirectories T h (rel_Child r)) \<subseteq> set xs"
  using assms by (induction rule: walks.induct) auto

lemma walks_covers:
  assumes T: "treemap_laws T" "heap_ok T h" and w: "walks T h q xs"
    and p: "p \<in> rel_Child ` set xs" "reached h p"
    and c: "lookup_path T h p ns = Some c" "Inode_Type (h ! c) = InodeTypeDirectory"
  shows "c \<in> rel_Child ` set xs"
  using p c(1)
proof (induction ns arbitrary: p)
  case (Cons n ns)
  obtain d where d: "h ! p = DirI d" and ok: "dir_ok T h p d"
    using Cons.prems(2) T(2) the_dir_DirI unfolding reached_def heap_ok_def by blast
  obtain b where b: "DirectoryInode_GetChild T h p n = Some b" "lookup_path T h b ns = Some c"
    using Cons.prems(3) by (auto split: if_splits bind_splits)
  have bd: "Inode_Type (h ! b) = InodeTypeDirectory"
    using b(2) c(2) by (cases ns) (auto split: if_splits)
  obtain ident where "(ident, \<lparr>de_name = n, de_child = b\<rparr>) \<in> set (child_entries T h p)"
    using GetChild_eq [OF T(1) ok d] b(1) d by (auto simp: child_entries_def)
  then have sub: "entry_rel p (ident, \<lparr>de_name = n, de_child = b\<rparr>) \<in> set (subdirectories T h p)"
    using bd by (force simp: subdirectories_def)
  from subdirectories_valid(1) [OF T(2) Cons.prems(2) sub] have "reached h b" by (simp add: entry_rel_def)
  have "set (subdirectories T h p) \<subseteq> set xs" using walks_closed(2) [OF w] Cons.prems(1) by blast
  then have "b \<in> rel_Child ` set xs" using sub by (force simp: entry_rel_def)
  then show ?case using Cons.IH [OF _ _ b(2)] \<open>reached h b\<close> by blast
qed simp

section \<open>The image of a volume\<close>

text \<open>
  The image, in bytes, that the tree of a volume takes: its system area, descriptors, path
  tables, directories and continuation areas.
\<close>

definition metadata_len :: "(rune \<Rightarrow> bool) \<Rightarrow> ('m, dirEntry) treemap \<Rightarrow> 'm Volume \<Rightarrow> nat \<Rightarrow> bool" where
  "metadata_len p T v n \<longleftrightarrow>
     (\<exists>xs. walks T (v_heap v) [root_rel (v_root v)] xs \<and> n = image_len p T (v_heap v) xs)"

text \<open>
  An image that describes a volume: the descriptor in sector 16, and every directory of the
  tree at the extent its node was given.
\<close>

definition image_of :: "(rune \<Rightarrow> bool) \<Rightarrow> (rune \<Rightarrow> rune) \<Rightarrow> ('m, dirEntry) treemap \<Rightarrow> 'm Volume \<Rightarrow> byte list \<Rightarrow> bool" where
  "image_of p up T v out \<longleftrightarrow>
     pvd_root v = root_fields (v_heap v) (v_root v) \<and>
     (\<exists>rest. out = pad (16 * LogicalBlockSize) @ fst (PrimaryVolumeDescriptor_WriteTo up (v_pvd v)) @ rest) \<and>
     (\<forall>ns c. lookup_path T (v_heap v) (v_root v) ns = Some c \<longrightarrow> Inode_Type (v_heap v ! c) = InodeTypeDirectory \<longrightarrow>
        located p T (v_heap v) out c)"

lemma lookup_path_moved:
  assumes T: "treemap_laws T" "heap_ok T h" and m: "moved h h'" and p: "p < length h"
  shows "lookup_path T h' p ns = lookup_path T h p ns"
  using p
proof (induction ns arbitrary: p)
  case (Cons n ns)
  show ?case
  proof (cases "Inode_Type (h ! p) = InodeTypeDirectory")
    case True
    have d: "h ! p = DirI (the_dir (h ! p))" by (rule the_dir_DirI [OF True])
    have "DirectoryInode_GetChild T h' p n = DirectoryInode_GetChild T h p n"
    proof -
      obtain d where d: "h ! p = DirI d" using d by blast
      obtain d' where d': "h' ! p = DirI d'" "d\<lparr>d_start := 0, d_size := 0\<rparr> = d'\<lparr>d_start := 0, d_size := 0\<rparr>"
        using moved_nth [OF m Cons.prems] d by (cases "h' ! p") auto
      have f: "d_children d' = d_children d" "d_names d' = d_names d"
        using arg_cong [OF d'(2), of d_children] arg_cong [OF d'(2), of d_names] by simp_all
      show ?thesis by (simp add: DirectoryInode_GetChild_def d d'(1) f cong: option.case_cong)
    qed
    moreover have "b < length h" if "DirectoryInode_GetChild T h p n = Some b" for b
      by (rule GetChild_child(1) [OF T Cons.prems d that])
    ultimately show ?thesis
      using Cons.IH True moved_type [OF m Cons.prems] by (auto intro!: Option.bind_cong)
  qed (use moved_type [OF m Cons.prems] in simp)
qed simp

text \<open>
  The files in the order of \<open>VisitFiles\<close>, and what the image of the metadata says of them: the
  first starts where it ends, the others follow.
\<close>

definition visited_files :: "('m, dirEntry) treemap \<Rightarrow> 'm heap \<Rightarrow> ref \<Rightarrow> Relationship list \<Rightarrow> bool" where
  "visited_files T h d fs \<longleftrightarrow> (\<exists>xs. walks T h [root_rel d] xs \<and> fs = concat (map (files_of T h \<circ> rel_Child) xs))"

lemma walks_unique: "walks T h q xs \<Longrightarrow> walks T h q ys \<Longrightarrow> xs = ys"
proof (induction arbitrary: ys rule: walks.induct)
  case walks_end
  then show ?case by (auto elim: walks.cases)
next
  case (walks_step r rs xs)
  from walks_step.prems show ?case
    by (cases rule: walks.cases) (use walks_step.IH in auto)
qed

definition files_follow :: "('m, dirEntry) treemap \<Rightarrow> 'm Volume \<Rightarrow> 'm Volume \<Rightarrow> byte list \<Rightarrow> bool" where
  "files_follow T v v' out \<longleftrightarrow> 2048 dvd length out \<and>
     (\<forall>fs. visited_files T (v_heap v) (v_root v) fs \<and> small_files (v_heap v) \<and> distinct (map rel_Child fs) \<longrightarrow>
        files_placed (v_heap v') (of_nat (length out div 2048)) fs (VolumeSpaceSize (v_pvd v')))"

lemma metadata_image:
  assumes T: "treemap_laws T" and v: "volume_ok T v" "times_ok (v_heap v)" and p: "p RuneError"
    and Q: "queue_laws Q items" "queue_laws R ritems" and n: "metadata_len p T v n"
  shows "\<exists>v' out e. WriteMetadataTo p up T Q R v = Some (v', out, e) \<and>
     ((\<forall>x. \<not> refuses p T (v_heap v) x) \<longrightarrow> length out \<le> n) \<and>
     (length out < 2 ^ 32 \<longrightarrow> (\<exists>x. e = Some x \<and> refuses p T (v_heap v) x) \<or>
        (e = None \<and> moved (v_heap v) (v_heap v') \<and> small_dirs (v_heap v') \<and> v_root v' = v_root v \<and>
         pvd_dates v' = pvd_dates v \<and> image_of p up T v' out \<and> files_follow T v v' out))"
proof -
  let ?h = "v_heap v" and ?d = "v_root v"
  have h: "heap_ok T ?h" and root: "reached ?h ?d" "d_parent (the_dir (?h ! ?d)) = None"
    using v(1) by (auto simp: volume_ok_def reached_def)
  obtain xs where w: "walks T ?h [root_rel ?d] xs" and nn: "n = image_len p T ?h xs"
    using n unfolding metadata_len_def by blast
  obtain v' out e where m: "WriteMetadataTo p up T Q R v = Some (v', out, e)"
    "(\<forall>x. \<not> refuses p T ?h x) \<longrightarrow> length out \<le> n"
    "length out < 2 ^ 32 \<longrightarrow> (\<exists>x. e = Some x \<and> refuses p T ?h x) \<or>
       (e = None \<and> moved ?h (v_heap v') \<and> small_dirs (v_heap v') \<and> v_root v' = ?d \<and>
        pvd_root v' = root_fields (v_heap v') ?d \<and> pvd_dates v' = pvd_dates v \<and>
        (\<exists>rest. out = pad (16 * LogicalBlockSize) @ fst (PrimaryVolumeDescriptor_WriteTo up (v_pvd v')) @ rest) \<and>
        (\<forall>r \<in> set xs. located p T (v_heap v') out (rel_Child r)) \<and> files_follow T v v' out)"
  proof -
    have fs: "visited_files T ?h ?d fs \<Longrightarrow> fs = concat (map (files_of T ?h \<circ> rel_Child) xs)" for fs
      using walks_unique [OF w] by (auto simp: visited_files_def)
    let ?fs = "concat (map (files_of T ?h \<circ> rel_Child) xs)"
    obtain v' out e where m: "WriteMetadataTo p up T Q R v = Some (v', out, e)"
      "(\<forall>x. \<not> refuses p T ?h x) \<longrightarrow> length out \<le> image_len p T ?h xs"
      "length out < 2 ^ 32 \<longrightarrow> (\<exists>x. e = Some x \<and> refuses p T ?h x) \<or>
       (e = None \<and> moved ?h (v_heap v') \<and> small_dirs (v_heap v') \<and> v_root v' = ?d \<and>
        pvd_root v' = root_fields (v_heap v') ?d \<and> pvd_dates v' = pvd_dates v \<and>
        (\<exists>rest. out = pad (16 * LogicalBlockSize) @ fst (PrimaryVolumeDescriptor_WriteTo up (v_pvd v')) @ rest) \<and>
        (\<forall>r \<in> set xs. located p T (v_heap v') out (rel_Child r)) \<and> 2048 dvd length out \<and>
        (small_files ?h \<and> distinct (map rel_Child ?fs) \<longrightarrow>
           files_placed (v_heap v') (of_nat (length out div 2048)) ?fs (VolumeSpaceSize (v_pvd v'))))"
      using metadata_spec [where p = p and up = up, OF Q h v(2) p root w] by blast
    have ff: "files_follow T v v' out"
      if "2048 dvd length out" "small_files ?h \<and> distinct (map rel_Child ?fs) \<longrightarrow>
           files_placed (v_heap v') (of_nat (length out div 2048)) ?fs (VolumeSpaceSize (v_pvd v'))"
      using that fs unfolding files_follow_def by blast
    show ?thesis
    proof (rule that [OF m(1)])
      show "(\<forall>x. \<not> refuses p T ?h x) \<longrightarrow> length out \<le> n" using m(2) nn by simp
      show "length out < 2 ^ 32 \<longrightarrow> (\<exists>x. e = Some x \<and> refuses p T ?h x) \<or>
       (e = None \<and> moved ?h (v_heap v') \<and> small_dirs (v_heap v') \<and> v_root v' = ?d \<and>
        pvd_root v' = root_fields (v_heap v') ?d \<and> pvd_dates v' = pvd_dates v \<and>
        (\<exists>rest. out = pad (16 * LogicalBlockSize) @ fst (PrimaryVolumeDescriptor_WriteTo up (v_pvd v')) @ rest) \<and>
        (\<forall>r \<in> set xs. located p T (v_heap v') out (rel_Child r)) \<and> files_follow T v v' out)"
        using m(3) ff by blast
    qed
  qed
  have covers: "c \<in> rel_Child ` set xs"
    if c: "moved ?h H" "lookup_path T H ?d ns = Some c" "Inode_Type (H ! c) = InodeTypeDirectory" for H ns c
  proof -
    have dl: "?d < length ?h" using root(1) by (simp add: reached_def)
    have l: "lookup_path T ?h ?d ns = Some c" using c(2) lookup_path_moved [OF T h c(1) dl] by simp
    have "c < length ?h" by (rule lookup_path_valid [OF T h dl l])
    then have "Inode_Type (?h ! c) = InodeTypeDirectory" using c(3) moved_type [OF c(1)] by simp
    moreover have "?d \<in> rel_Child ` set xs" using walks_closed(1) [OF w] by (force simp: root_rel_def)
    ultimately show ?thesis using walks_covers [OF T h w _ root(1) l] by blast
  qed
  show ?thesis
    using m covers by (intro exI [of _ v'] exI [of _ out] exI [of _ e]) (fastforce simp: image_of_def)
qed

lemma metadata_len_exists: "volume_ok T v \<Longrightarrow> \<exists>n. metadata_len p T v n"
proof -
  assume v: "volume_ok T v"
  then have "\<forall>r \<in> set [root_rel (v_root v)]. reached (v_heap v) (rel_Child r)"
    by (auto simp: volume_ok_def reached_def root_rel_def)
  from walks_exists [OF _ this] show ?thesis
    using v unfolding metadata_len_def volume_ok_def by blast
qed

lemma image_listed:
  assumes T: "treemap_laws T" and v: "heap_ok T (v_heap v)" "times_ok (v_heap v)" "v_root v < length (v_heap v)" and p: "p RuneError"
    and i: "image_of p up T v out" "length out < 2 ^ 32" and s: "small_files (v_heap v)"
    and c: "lookup_path T (v_heap v) (v_root v) ns = Some c" "reached (v_heap v) c"
  shows "\<exists>fis. readable_dir p (out @ files) (d_start (the_dir (v_heap v ! c))) (uint (d_size (the_dir (v_heap v ! c)))) fis \<and>
     list_all2 (describes T (v_heap v)) (directory_members T (v_heap v) c) fis"
proof -
  have "located p T (v_heap v) out c" using i(1) c unfolding image_of_def reached_def by blast
  from located_listed [where p = p, OF v(1,2) c(2) s p this i(2)] show ?thesis by blast
qed

end
