(* ===== verification/Image.thy ===== *)
theory Image
  imports Listing
begin

text \<open>
  The image of a volume, from the tree to the reader: which volumes \<open>WriteMetadataTo\<close> writes,
  which it refuses and why, and what \<open>iterDir\<close> reads back from every directory of the image.
\<close>

section \<open>Volumes that can be recorded\<close>

text \<open>
  The names and link targets are valid, a file fits one part, a directory fits one extent.
\<close>

definition recordable :: "(rune \<Rightarrow> bool) \<Rightarrow> ('m, dirEntry) treemap \<Rightarrow> 'm heap \<Rightarrow> bool" where
  "recordable p T h \<longleftrightarrow> small_files h \<and>
     (\<forall>c. reached h c \<longrightarrow> length (directory_members T h c) < 8000000 \<and>
        (\<forall>(ident, name, i) \<in> set (directory_members T h c).
           isValid p name \<and> (\<exists>adds. AdditionalSystemUseEntries p i = Inr adds)))"

lemma extension_references_count: "\<exists>ers. extension_references = Inr ers \<and> length ers \<le> 2"
  by (simp add: extension_references_def ExtensionsReference_def ExtensionsReferenceLegacy_def
      NewExtensionsReferenceEntry_def ER_Len_def bytes_of_def)

lemma InodeSystemUseEntries_ok:
  assumes "isValid p name" "AdditionalSystemUseEntries p i = Inr adds"
  shows "\<exists>es. InodeSystemUseEntries p T h ident name i = Inr es \<and>
     length es \<le> 5 + length (name_chunks name) + length adds"
proof -
  obtain xs where xs: "extension_references = Inr xs" "length xs \<le> 2" using extension_references_count by blast
  define ers where "ers = (if Inode_Type i = InodeTypeDirectory then xs else [])"
  have e: "(if Inode_Type i = InodeTypeDirectory then extension_references else Inr []) = Inr ers"
    by (simp add: ers_def xs(1))
  have "length ers \<le> 2" using xs(2) by (simp add: ers_def)
  then show ?thesis
    using assms unfolding InodeSystemUseEntries_def e sum.case NewName_def Let_def by simp
qed

lemma recordable_not_refused: "recordable p T h \<Longrightarrow> \<not> refuses p T h x"
proof
  assume r: "recordable p T h" and x: "refuses p T h x"
  have s: "small_files h" using r by (simp add: recordable_def)
  from x s consider (entry) c ident name i where "reached h c" "(ident, name, i) \<in> set (directory_members T h c)"
      "InodeSystemUseEntries p T h ident name i = Inl x"
    | (many) c where "reached h c" "8000000 \<le> length (directory_members T h c)"
    unfolding refuses_def by blast
  then show False
  proof cases
    case entry
    then obtain adds where "isValid p name" "AdditionalSystemUseEntries p i = Inr adds"
      using r unfolding recordable_def by blast
    from InodeSystemUseEntries_ok [OF this, of T h ident] show False using entry(3) by auto
  next
    case many
    then show False using r unfolding recordable_def by (meson not_less)
  qed
qed

text \<open>A bound on what a directory takes.\<close>

lemma dir_len_le:
  assumes h: "heap_ok T h" "times_ok h" "reached h c" and p: "p RuneError" and r: "recordable p T h"
  shows "dir_len p T h c \<le> 509 * length (directory_members T h c) + 2047 +
     2048 * sum_list (map (entry_count p T h) (directory_members T h c))"
proof -
  have s: "small_files h" using r by (simp add: recordable_def)
  obtain dir ca where d: "ToDirectory p T h c = Some (Inr (dir, ca))" "list_all (wf_record p) (Records dir)" "area_ok p ca"
    "length (Records dir) = length (directory_members T h c)"
    "length (ca_sectors ca) \<le> sum_list (map (entry_count p T h) (directory_members T h c))"
    using ToDirectory_spec [where p = p, OF h p] recordable_not_refused [OF r] s by (metis old.sum.exhaust surj_pair)
  have w: "snd (Directory_WriteTo dir) = None"
    using ToDirectory_too_large [where p = p, OF h p d(1)] recordable_not_refused [OF r] by blast
  have "list_all (\<lambda>l. l \<le> 255) (map DirectoryRecord_Len (Records dir))"
    using d(2) by (auto simp: list_all_iff wf_record_def MaxDirectoryRecordLen_def)
  from records_end_bound [OF this] have "length (fst (Directory_WriteTo dir)) \<le> 509 * length (Records dir)"
    unfolding length_Directory_WriteTo(1) [OF w] by simp
  then have "length (dir_bytes dir) \<le> 509 * length (Records dir) + 2047"
    unfolding dir_bytes_def length_pad_out(1) by simp
  moreover have "length (area_bytes ca) = 2048 * length (ca_sectors ca)" using area_written(2) [OF d(3)] by simp
  ultimately show ?thesis using d(4,5) by (simp add: dir_len_def d(1))
qed

section \<open>A small volume\<close>

text \<open>One file, \<open>a/b/c\<close>.\<close>

definition sample_volume :: "(gostring \<times> dirEntry) list Volume" where
  "sample_volume = fst (AddFile list_treemap sample_new [0x61, 0x2F, 0x62, 0x2F, 0x63] sample_object)"

definition first_ident :: gostring where "first_ident = base32_Encode (PutUvarint 0)"

definition sample_node :: "InodeNumber \<Rightarrow> ref option \<Rightarrow> gostring \<Rightarrow> gostring \<Rightarrow> ref \<Rightarrow> (gostring \<times> dirEntry) list Inode" where
  "sample_node ino parent ident name child =
     DirI \<lparr>d_ino = ino, d_perm = 0x16D, d_created = epoch, d_modified = epoch, d_parent = parent, d_start = 0,
       d_idAlloc = \<lparr>ia_count = 1\<rparr>, d_names = [name \<mapsto> ident], d_children = [(ident, \<lparr>de_name = name, de_child = child\<rparr>)],
       d_size = 0, d_nameValidator = (\<lambda>name. None)\<rparr>"

definition sample_root :: "(gostring \<times> dirEntry) list Inode" where
  "sample_root = sample_node 1 None first_ident [0x61] 2"

definition sample_file :: "(gostring \<times> dirEntry) list Inode" where
  "sample_file = FileI \<lparr>f_ino = 2, f_perm = 0x124, f_created = epoch, f_modified = epoch, f_nlink = 1, f_start = 0,
     f_o = sample_object\<rparr>"

definition sample_a :: "(gostring \<times> dirEntry) list Inode" where
  "sample_a = sample_node 3 (Some 0) first_ident [0x62] 3"

definition sample_b :: "(gostring \<times> dirEntry) list Inode" where
  "sample_b = sample_node 4 (Some 2) (first_ident @ bytes_of '';1'') [0x63] 1"

lemmas sample_defs = sample_root_def sample_file_def sample_a_def sample_b_def sample_node_def

definition sample_tree :: "(gostring \<times> dirEntry) list heap" where
  "sample_tree = [sample_root, sample_file, sample_a, sample_b]"

lemma sample_heap: "v_heap sample_volume = sample_tree" "v_root sample_volume = 0"
  by (simp_all add: sample_volume_def sample_tree_def sample_defs first_ident_def volume_eval flip: numeral_2_eq_2)

lemma sample_ok: "volume_ok list_treemap sample_volume"
  unfolding sample_volume_def by (rule built_ok [OF list_treemap_laws add_file [OF sample_built(1)]])

lemma sample_times: "times_ok (v_heap sample_volume)"
  by (simp add: sample_heap sample_tree_def times_ok_def node_times_def sample_defs entry_time_def epoch_def valid_time_def daysIn_def)

lemma sample_types [simp]:
  "Inode_Type sample_root = InodeTypeDirectory" "Inode_Type sample_file = InodeTypeFile"
  "Inode_Type sample_a = InodeTypeDirectory" "Inode_Type sample_b = InodeTypeDirectory"
  "the_dir sample_root = the_dir (sample_node 1 None first_ident [0x61] 2)"
  "the_dir sample_a = the_dir (sample_node 3 (Some 0) first_ident [0x62] 3)"
  "the_dir sample_b = the_dir (sample_node 4 (Some 2) (first_ident @ bytes_of '';1'') [0x63] 1)"
  "d_children (the_dir (sample_node ino parent ident name child)) = [(ident, \<lparr>de_name = name, de_child = child\<rparr>)]"
  "d_parent (the_dir (sample_node ino parent ident name child)) = parent"
  by (simp_all add: sample_defs)

lemma sample_nth [simp]:
  "sample_tree ! 0 = sample_root" "sample_tree ! Suc 0 = sample_file" "sample_tree ! 2 = sample_a" "sample_tree ! 3 = sample_b"
  "length sample_tree = 4"
  by (simp_all add: sample_tree_def)

lemma sample_members:
  "directory_members list_treemap sample_tree 0 =
     [([0], dot, sample_root), ([1], dotdot, sample_root), (first_ident, [0x61], sample_a)]"
  "directory_members list_treemap sample_tree 2 =
     [([0], dot, sample_a), ([1], dotdot, sample_root), (first_ident, [0x62], sample_b)]"
  "directory_members list_treemap sample_tree 3 =
     [([0], dot, sample_b), ([1], dotdot, sample_a), (first_ident @ bytes_of '';1'', [0x63], sample_file)]"
  unfolding directory_members_def child_entries_def list_treemap_def by simp_all

lemma sample_child [simp]:
  "DirectoryInode_GetChild list_treemap sample_tree 0 [0x61] = Some 2"
  "DirectoryInode_GetChild list_treemap sample_tree 2 [0x62] = Some 3"
  "DirectoryInode_GetChild list_treemap sample_tree 3 [0x63] = Some 1"
  unfolding DirectoryInode_GetChild_def list_treemap_def by simp_all (simp_all add: sample_node_def)

lemma sample_reached: "reached sample_tree c \<longleftrightarrow> c \<in> {0, 2, 3}"
proof -
  have r: "reached sample_tree 0" "reached sample_tree 2" "reached sample_tree 3" "\<not> reached sample_tree (Suc 0)"
    unfolding reached_def by simp_all
  have "c = 0 \<or> c = Suc 0 \<or> c = 2 \<or> c = 3" if "c < 4" using that by presburger
  moreover have "reached sample_tree c \<Longrightarrow> c < 4" unfolding reached_def by simp
  ultimately show ?thesis using r by fastforce
qed

lemma sample_names:
  "isValid (\<lambda>r. True) dot" "isValid (\<lambda>r. True) dotdot" "isValid (\<lambda>r. True) [0x61]" "isValid (\<lambda>r. True) [0x62]"
  "isValid (\<lambda>r. True) [0x63]"
  by (simp_all add: isValid_def range_string_def DecodeRune_def dot_def dotdot_def)

lemma sample_member:
  assumes "(ident, name, i) \<in> set (directory_members list_treemap sample_tree c)" "reached sample_tree c"
  shows "i \<in> {sample_root, sample_file, sample_a, sample_b}" "name \<in> {dot, dotdot, [0x61], [0x62], [0x63]}"
    "length (directory_members list_treemap sample_tree c) = 3"
  using assms sample_reached [of c] by (auto simp: sample_members)

lemma sample_adds: "i \<in> {sample_root, sample_file, sample_a, sample_b} \<Longrightarrow> AdditionalSystemUseEntries p i = Inr []"
  by (auto simp: sample_defs)

lemma sample_recordable: "recordable (\<lambda>r. True) list_treemap (v_heap sample_volume)"
proof -
  have "small_files sample_tree"
    by (simp add: small_files_def sample_tree_def sample_defs sample_object_def MaxPartSize_def)
  moreover have "length (directory_members list_treemap sample_tree c) = 3" if "reached sample_tree c" for c
    using that sample_reached [of c] by (auto simp: sample_members)
  moreover have "isValid (\<lambda>r. True) name \<and> (\<exists>adds. AdditionalSystemUseEntries (\<lambda>r. True) i = Inr adds)"
    if "(ident, name, i) \<in> set (directory_members list_treemap sample_tree c)" "reached sample_tree c" for ident name i c
    using sample_member(2) [OF that] sample_adds [OF sample_member(1) [OF that]] sample_names by auto
  ultimately show ?thesis unfolding recordable_def sample_heap by auto
qed

lemma sample_entry_count:
  assumes "m \<in> set (directory_members list_treemap (v_heap sample_volume) c)" "reached (v_heap sample_volume) c"
  shows "entry_count (\<lambda>r. True) list_treemap (v_heap sample_volume) m \<le> 6"
proof -
  obtain ident name i where m: "m = (ident, name, i)" by (cases m)
  note mem = sample_member [OF assms [unfolded sample_heap m]]
  have "isValid (\<lambda>r. True) name" "AdditionalSystemUseEntries (\<lambda>r. True) i = Inr []" "length (name_chunks name) = 1"
    using mem(2) sample_names sample_adds [OF mem(1)] by (auto simp: name_chunks_short dot_def dotdot_def)
  from InodeSystemUseEntries_ok [OF this(1,2), of list_treemap "v_heap sample_volume" ident] this(3)
  obtain es where es: "InodeSystemUseEntries (\<lambda>r. True) list_treemap (v_heap sample_volume) ident name i = Inr es" "length es \<le> 6"
    by auto
  have "small_files (v_heap sample_volume)" using sample_recordable by (simp add: recordable_def)
  moreover have "small_dirs (v_heap sample_volume)" using sample_ok heap_ok_small by (auto simp: volume_ok_def)
  moreover have "i \<in> set (v_heap sample_volume)" using mem(1) by (auto simp: sample_heap sample_tree_def)
  ultimately obtain part where "Inode_Parts i = Inr [part]" using one_part by blast
  then show ?thesis using es by (simp add: entry_count_def m)
qed

lemma sample_dir_len: "reached (v_heap sample_volume) c \<Longrightarrow> dir_len (\<lambda>r. True) list_treemap (v_heap sample_volume) c \<le> 100000"
proof -
  assume c: "reached (v_heap sample_volume) c"
  let ?ms = "directory_members list_treemap (v_heap sample_volume) c"
  let ?es = "sum_list (map (entry_count (\<lambda>r. True) list_treemap (v_heap sample_volume)) ?ms)"
  have l: "length ?ms = 3" using c sample_reached [of c] unfolding sample_heap by (auto simp: sample_members)
  have "?es \<le> sum_list (map (\<lambda>m. 6) ?ms)" by (rule sum_list_mono) (rule sample_entry_count [OF _ c])
  then have e: "?es \<le> 18" using l by (simp add: sum_list_triv)
  have h: "heap_ok list_treemap (v_heap sample_volume)" using sample_ok by (simp add: volume_ok_def)
  from dir_len_le [where p = "\<lambda>r. True", OF h sample_times c _ sample_recordable] e l show ?thesis by simp
qed

definition sample_rels :: "Relationship list" where
  "sample_rels = [root_rel 0, entry_rel 0 (first_ident, \<lparr>de_name = [0x61], de_child = 2\<rparr>),
     entry_rel 2 (first_ident, \<lparr>de_name = [0x62], de_child = 3\<rparr>)]"

lemma sample_walks: "walks list_treemap sample_tree [root_rel 0] sample_rels"
proof -
  define ra where "ra = entry_rel 0 (first_ident, \<lparr>de_name = [0x61], de_child = 2\<rparr>)"
  define rb where "rb = entry_rel 2 (first_ident, \<lparr>de_name = [0x62], de_child = 3\<rparr>)"
  have subs: "subdirectories list_treemap sample_tree 0 = [ra]" "subdirectories list_treemap sample_tree 2 = [rb]"
    "subdirectories list_treemap sample_tree 3 = []"
    by (simp_all add: subdirectories_def child_entries_def list_treemap_def ra_def rb_def)
  have ch: "rel_Child ra = 2" "rel_Child rb = 3" by (simp_all add: ra_def rb_def entry_rel_def)
  have "walks list_treemap sample_tree [rb] [rb]"
    using walks_step [of sample_tree rb list_treemap "[]" "[]"] walks_end [of list_treemap sample_tree] by (simp add: ch subs)
  then have "walks list_treemap sample_tree [ra] [ra, rb]"
    using walks_step [of sample_tree ra list_treemap "[]" "[rb]"] by (simp add: ch subs)
  then show ?thesis
    using walks_step [of sample_tree "root_rel 0" list_treemap "[]" "[ra, rb]"]
    by (simp add: root_rel_def subs sample_rels_def ra_def rb_def)
qed

lemma sample_metadata_len: "\<exists>n < 2 ^ 32. metadata_len (\<lambda>r. True) list_treemap sample_volume n"
proof -
  have d: "dir_len (\<lambda>r. True) list_treemap sample_tree c \<le> 100000" if "c \<in> {0, 2, 3}" for c
    using sample_dir_len [of c] that sample_reached [of c] by (simp add: sample_heap)
  have "length first_ident \<le> 30"
    using entry_ident_length [of 0 InodeTypeDirectory] by (simp add: entry_ident_def first_ident_def del: base32_Encode.simps)
  then have "table_len sample_rels \<le> 100"
    by (simp add: table_len_def sample_rels_def root_rel_def entry_rel_def mod2_eq_if)
  then have "(table_len sample_rels + 2047) div 2048 \<le> (100 + 2047) div 2048" by (intro div_le_mono) simp
  then have "image_len (\<lambda>r. True) list_treemap sample_tree sample_rels < 2 ^ 32"
    using d [of 0] d [of 2] d [of 3] by (simp add: image_len_def sample_rels_def root_rel_def entry_rel_def)
  then show ?thesis using sample_walks unfolding metadata_len_def sample_heap by blast
qed

section \<open>What is written and what is read\<close>

lemma metadata_writes:
  assumes "treemap_laws T" "volume_ok T v" "times_ok (v_heap v)" "p RuneError" "queue_laws Q items" "queue_laws R ritems"
    and r: "recordable p T (v_heap v)" and n: "metadata_len p T v n" "n < 2 ^ 32"
  shows "\<exists>v' out. WriteMetadataTo p up T Q R v = Some (v', out, None) \<and> length out < 2 ^ 32 \<and>
     moved (v_heap v) (v_heap v') \<and> small_dirs (v_heap v') \<and> v_root v' = v_root v \<and>
     pvd_dates v' = pvd_dates v \<and> image_of p up T v' out \<and> files_follow T v v' out"
proof -
  have no: "\<forall>x. \<not> refuses p T (v_heap v) x" using recordable_not_refused [OF r] by blast
  from metadata_image [where p = p and up = up and Q = Q and R = R, OF assms(1-6) n(1)] no
  obtain v' out e where m: "WriteMetadataTo p up T Q R v = Some (v', out, e)" "length out \<le> n"
    "length out < 2 ^ 32 \<longrightarrow> (\<exists>x. e = Some x \<and> refuses p T (v_heap v) x) \<or>
        (e = None \<and> moved (v_heap v) (v_heap v') \<and> small_dirs (v_heap v') \<and> v_root v' = v_root v \<and>
         pvd_dates v' = pvd_dates v \<and> image_of p up T v' out \<and> files_follow T v v' out)"
    by blast
  have "length out < 2 ^ 32" using m(2) n(2) by linarith
  then show ?thesis using m no by blast
qed

lemma lookup_path_reached:
  assumes T: "treemap_laws T" "heap_ok T h" and p: "reached h p"
    and c: "lookup_path T h p ns = Some c" "Inode_Type (h ! c) = InodeTypeDirectory"
  shows "reached h c"
proof -
  obtain xs where w: "walks T h [root_rel p] xs" using walks_exists [OF T(2), of "[root_rel p]"] p by (auto simp: root_rel_def)
  have "p \<in> rel_Child ` set xs" using walks_closed(1) [OF w] by (force simp: root_rel_def)
  from walks_covers [OF T w this p c] obtain r where "r \<in> set xs" "c = rel_Child r" by blast
  then show ?thesis using walks_reached [OF w T(2)] p by (simp add: root_rel_def)
qed

text \<open>A node of the tree is a node of the written volume, and its directory is in the image.\<close>

lemma written_directory:
  assumes T: "treemap_laws T" and v: "volume_ok T v" "times_ok (v_heap v)" and p: "p RuneError" and s: "small_files (v_heap v)"
    and w: "moved (v_heap v) (v_heap v')" "small_dirs (v_heap v')" "v_root v' = v_root v" "image_of p up T v' out" "length out < 2 ^ 32"
    and c: "lookup_path T (v_heap v) (v_root v) ns = Some c" "Inode_Type (v_heap v ! c) = InodeTypeDirectory"
  shows "\<exists>fis. readable_dir p (out @ files) (d_start (the_dir (v_heap v' ! c))) (uint (d_size (the_dir (v_heap v' ! c)))) fis \<and>
     list_all2 (describes T (v_heap v')) (directory_members T (v_heap v') c) fis"
proof -
  have h: "heap_ok T (v_heap v)" "v_root v < length (v_heap v)" using v(1) by (simp_all add: volume_ok_def)
  have h': "heap_ok T (v_heap v')" "times_ok (v_heap v')" "v_root v' < length (v_heap v')"
    using moved_heap_ok [OF h(1) w(1,2)] moved_times [OF w(1) v(2)] moved_length [OF w(1)] h(2) w(3) by simp_all
  have "reached (v_heap v) (v_root v)" using v(1) by (auto simp: volume_ok_def reached_def)
  from lookup_path_reached [OF T h(1) this c] have "reached (v_heap v) c" .
  then have r: "reached (v_heap v') c" by (rule moved_reached [OF w(1)])
  have l: "lookup_path T (v_heap v') (v_root v') ns = Some c"
    using lookup_path_moved [OF T h(1) w(1) h(2)] c(1) w(3) by simp
  from image_listed [OF T h' p w(4,5) moved_small_files [OF w(1) s] l r] show ?thesis .
qed

text \<open>Volumes that can be written: what the theorems below ask of them.\<close>

definition writable :: "(rune \<Rightarrow> bool) \<Rightarrow> ('m, dirEntry) treemap \<Rightarrow> 'm Volume \<Rightarrow> bool" where
  "writable p T v \<longleftrightarrow> volume_ok T v \<and> times_ok (v_heap v) \<and> recordable p T (v_heap v) \<and>
     (\<exists>n < 2 ^ 32. metadata_len p T v n)"

lemma sample_writable: "writable (\<lambda>r. True) list_treemap sample_volume"
  using sample_ok sample_times sample_recordable sample_metadata_len unfolding writable_def by blast

lemma writable_writes:
  assumes "treemap_laws T" "writable p T v" "p RuneError" "queue_laws Q items" "queue_laws R ritems"
  shows "\<exists>v' out. WriteMetadataTo p up T Q R v = Some (v', out, None) \<and> length out < 2 ^ 32 \<and>
     moved (v_heap v) (v_heap v') \<and> small_dirs (v_heap v') \<and> v_root v' = v_root v \<and>
     pvd_dates v' = pvd_dates v \<and> image_of p up T v' out \<and> files_follow T v v' out"
proof -
  obtain n where n: "metadata_len p T v n" "n < 2 ^ 32" and v: "volume_ok T v" "times_ok (v_heap v)" "recordable p T (v_heap v)"
    using assms(2) unfolding writable_def by blast
  from metadata_writes [where p = p and up = up and Q = Q and R = R, OF assms(1) v(1,2) assms(3-5) v(3) n] show ?thesis .
qed

text \<open>C4:
  Writing a volume ends without an error when its names and link targets are valid, its files
  fit one extent and its metadata is smaller than 4 GiB.  The nodes of the tree keep everything
  but their addresses, and the image is the volume's: the descriptor stands in sector 16 and
  names the root's extent, and the extent of every directory that a path leads to, with its
  continuation area behind it, stands where its node says.  In particular no assertion on the
  position of the writer fails.
\<close>

theorem WriteMetadataTo_succeeds:
  assumes "treemap_laws T" "writable p T v" "p RuneError" "queue_laws Q items" "queue_laws R ritems"
  shows "\<exists>v' out. WriteMetadataTo p up T Q R v = Some (v', out, None) \<and>
     moved (v_heap v) (v_heap v') \<and> v_root v' = v_root v \<and> image_of p up T v' out"
  using writable_writes [where p = p and up = up and Q = Q and R = R, OF assms] by blast

theorem WriteMetadataTo_succeeds_witness:
  "\<exists>v' out. WriteMetadataTo (\<lambda>r. True) (\<lambda>r. r) list_treemap list_queue list_queue sample_volume = Some (v', out, None) \<and>
     image_of (\<lambda>r. True) (\<lambda>r. r) list_treemap v' out"
  using WriteMetadataTo_succeeds [where p = "\<lambda>r. True" and up = "\<lambda>r. r" and Q = list_queue and R = list_queue,
      OF list_treemap_laws sample_writable _ list_queue_laws list_queue_laws] by blast

text \<open>C5:
  Writing the metadata of any well-formed volume returns.  Unless the image reaches 4 GiB it is
  either the volume's image or is refused for one of three reasons: an entry with an invalid
  name or link target, a file whose parts overflow the block addresses, or a directory with
  more entries than one extent can hold.
\<close>

theorem WriteMetadataTo_errors:
  assumes "treemap_laws T" "volume_ok T v" "times_ok (v_heap v)" "p RuneError" "queue_laws Q items" "queue_laws R ritems"
  shows "\<exists>v' out e. WriteMetadataTo p up T Q R v = Some (v', out, e) \<and>
     (2 ^ 32 \<le> length out \<or> (\<exists>x. e = Some x \<and> refuses p T (v_heap v) x) \<or> (e = None \<and> image_of p up T v' out))"
proof -
  obtain n where "metadata_len p T v n" using metadata_len_exists [OF assms(2)] by blast
  from metadata_image [where p = p and up = up and Q = Q and R = R, OF assms this] show ?thesis
    using not_less by blast
qed

theorem WriteMetadataTo_errors_witness:
  "\<exists>v' out e. WriteMetadataTo (\<lambda>r. True) (\<lambda>r. r) list_treemap list_queue list_queue sample_volume = Some (v', out, e) \<and>
     (2 ^ 32 \<le> length out \<or> (\<exists>x. e = Some x \<and> refuses (\<lambda>r. True) list_treemap (v_heap sample_volume) x) \<or>
      (e = None \<and> image_of (\<lambda>r. True) (\<lambda>r. r) list_treemap v' out))"
  by (rule WriteMetadataTo_errors [OF list_treemap_laws sample_ok sample_times _ list_queue_laws list_queue_laws]) simp

text \<open>C3:
  What is written is what is read.  In the image of a volume, followed by any files, listing the
  extent of any directory visits exactly the directory itself, its parent and its children, in
  the order of the tree map, and each entry has the name, the kind, the inode number, the link
  count, the modification time, the size, the extent and the link target of its node.
\<close>

theorem written_volume_lists:
  assumes "treemap_laws T" "writable p T v" "p RuneError" "queue_laws Q items" "queue_laws R ritems"
    "lookup_path T (v_heap v) (v_root v) ns = Some c" "Inode_Type (v_heap v ! c) = InodeTypeDirectory"
  shows "\<exists>v' out fis. WriteMetadataTo p up T Q R v = Some (v', out, None) \<and> moved (v_heap v) (v_heap v') \<and>
     iterDir p (out @ files) (d_start (the_dir (v_heap v' ! c))) (uint (d_size (the_dir (v_heap v' ! c)))) collect_visit [] =
       Some (Inr (fis, None)) \<and>
     list_all2 (describes T (v_heap v')) (directory_members T (v_heap v') c) fis"
proof -
  obtain v' out where w: "WriteMetadataTo p up T Q R v = Some (v', out, None)" "length out < 2 ^ 32"
    "moved (v_heap v) (v_heap v')" "small_dirs (v_heap v')" "v_root v' = v_root v" "image_of p up T v' out"
    using writable_writes [where p = p and up = up and Q = Q and R = R, OF assms(1-5)] by blast
  have v: "volume_ok T v" "times_ok (v_heap v)" "small_files (v_heap v)"
    using assms(2) by (simp_all add: writable_def recordable_def)
  obtain fis where f: "readable_dir p (out @ files) (d_start (the_dir (v_heap v' ! c))) (uint (d_size (the_dir (v_heap v' ! c)))) fis"
    "list_all2 (describes T (v_heap v')) (directory_members T (v_heap v') c) fis"
    using written_directory [where p = p, OF assms(1) v(1,2) assms(3) v(3) w(3-6,2) assms(6,7)] by blast
  from iterDir_visits [OF f(1), of collect_visit "[]"] show ?thesis
    unfolding visit_infos_collect append_Nil using w(1,3) f(2) by blast
qed

theorem written_volume_lists_witness:
  "\<exists>v' out fis. WriteMetadataTo (\<lambda>r. True) (\<lambda>r. r) list_treemap list_queue list_queue sample_volume = Some (v', out, None) \<and>
     iterDir (\<lambda>r. True) out (d_start (the_dir (v_heap v' ! 2))) (uint (d_size (the_dir (v_heap v' ! 2)))) collect_visit [] =
       Some (Inr (fis, None)) \<and>
     map fi_name fis = [dot, dotdot, [0x62]]"
proof -
  have l: "lookup_path list_treemap (v_heap sample_volume) (v_root sample_volume) [[0x61]] = Some 2"
    by (simp add: sample_heap)
  have d: "Inode_Type (v_heap sample_volume ! 2) = InodeTypeDirectory" by (simp add: sample_heap)
  obtain v' out fis where w: "WriteMetadataTo (\<lambda>r. True) (\<lambda>r. r) list_treemap list_queue list_queue sample_volume = Some (v', out, None)"
    "moved (v_heap sample_volume) (v_heap v')"
    "iterDir (\<lambda>r. True) out (d_start (the_dir (v_heap v' ! 2))) (uint (d_size (the_dir (v_heap v' ! 2)))) collect_visit [] = Some (Inr (fis, None))"
    "list_all2 (describes list_treemap (v_heap v')) (directory_members list_treemap (v_heap v') 2) fis"
    using written_volume_lists [where p = "\<lambda>r. True" and up = "\<lambda>r. r" and Q = list_queue and R = list_queue and files = "[]",
      OF list_treemap_laws sample_writable _ list_queue_laws list_queue_laws l d] by auto
  have "map fi_name fis = map (fst \<circ> snd) (directory_members list_treemap (v_heap v') 2)"
    using w(4) by (induction rule: list_all2_induct) (auto simp: describes_def)
  also have "\<dots> = map (fst \<circ> snd) (directory_members list_treemap (v_heap sample_volume) 2)"
    using moved_member_refs [OF w(2), of 2 list_treemap] sample_reached [of 2]
    unfolding directory_members_refs sample_heap by (simp add: comp_def case_prod_unfold)
  finally show ?thesis using w(1,3) unfolding sample_heap sample_members by auto
qed

end
