(* ===== verification/Walker.thy ===== *)
theory Walker
  imports Image
begin

text \<open>
  Looking up paths in an image: the \<open>Walker\<close> of \<open>walk.go\<close>, over a cache of the entries it
  has seen.
\<close>

section \<open>The cache\<close>

text \<open>
  The operations of the ARC cache of \<open>golang-lru\<close> that the walker calls.  An entry may be
  evicted at any time; what is found under a key is what was last added under it.
\<close>

record 'c lru =
  lru_Add :: "gostring \<Rightarrow> FileInfo \<Rightarrow> 'c \<Rightarrow> 'c"
  lru_Get :: "gostring \<Rightarrow> 'c \<Rightarrow> FileInfo option \<times> 'c"

definition lru_laws :: "'c lru \<Rightarrow> ('c \<Rightarrow> gostring \<rightharpoonup> FileInfo) \<Rightarrow> bool" where
  "lru_laws L contents \<longleftrightarrow>
     (\<forall>k fi c. contents (lru_Add L k fi c) \<subseteq>\<^sub>m (contents c)(k \<mapsto> fi)) \<and>
     (\<forall>k c. contents (snd (lru_Get L k c)) \<subseteq>\<^sub>m contents c) \<and>
     (\<forall>k c. fst (lru_Get L k c) = None \<or> fst (lru_Get L k c) = contents c k)"

text \<open>A cache that never evicts, which the witnesses use.\<close>

definition map_lru :: "(gostring \<rightharpoonup> FileInfo) lru" where
  "map_lru = \<lparr>lru_Add = (\<lambda>k fi c. c(k \<mapsto> fi)), lru_Get = (\<lambda>k c. (c k, c))\<rparr>"

lemma map_lru_laws: "lru_laws map_lru (\<lambda>c. c)"
  by (simp add: lru_laws_def map_lru_def)

section \<open>Lookup\<close>

definition pathParts :: "gostring \<Rightarrow> gostring list" where
  "pathParts path =
     (let cleaned = path_Clean (slash # path)
      in if length cleaned > 1 then split_slash (tl cleaned) else [])"

definition lstatCacheKey :: "gostring list \<Rightarrow> gostring" where
  "lstatCacheKey parts = path_Clean (slash # join_slash parts)"

definition lstatCacheAdd :: "'c lru \<Rightarrow> gostring list \<Rightarrow> FileInfo \<Rightarrow> 'c \<Rightarrow> 'c" where
  "lstatCacheAdd L parts fi c = lru_Add L (lstatCacheKey parts) fi c"

fun lstatCacheSearch_loop ::
  "'c lru \<Rightarrow> gostring list \<Rightarrow> nat \<Rightarrow> 'c \<Rightarrow> FileInfo option \<times> gostring list \<times> 'c" where
  "lstatCacheSearch_loop L parts i c =
     (let (hit, c') = lru_Get L (lstatCacheKey (take i parts)) c
      in case hit of
           Some fi \<Rightarrow> (Some fi, drop i parts, c')
         | None \<Rightarrow> (case i of 0 \<Rightarrow> (None, parts, c') | Suc j \<Rightarrow> lstatCacheSearch_loop L parts j c'))"

declare lstatCacheSearch_loop.simps [simp del]

definition lstatCacheSearch :: "'c lru \<Rightarrow> gostring list \<Rightarrow> 'c \<Rightarrow> FileInfo option \<times> gostring list \<times> 'c" where
  "lstatCacheSearch L parts c = lstatCacheSearch_loop L parts (length parts) c"

text \<open>The visitor that \<open>lstat\<close> passes to \<open>iterDir\<close>; its state is the cache and \<open>partInfo\<close>.\<close>

definition lstat_visit ::
  "'c lru \<Rightarrow> gostring list \<Rightarrow> gostring \<Rightarrow> FileInfo \<Rightarrow> 'c \<times> FileInfo option \<Rightarrow> ('c \<times> FileInfo option) \<times> bool" where
  "lstat_visit L path part fi s =
     (let c = (if fi_isDir fi then lstatCacheAdd L (path @ [fi_name fi]) fi (fst s) else fst s)
      in if fi_name fi = part then ((c, Some fi), False) else ((c, snd s), True))"

fun lstat_loop ::
  "(rune \<Rightarrow> bool) \<Rightarrow> 'c lru \<Rightarrow> byte list \<Rightarrow> LogicalBlockAddress \<Rightarrow> int \<Rightarrow> gostring list \<Rightarrow> gostring list \<Rightarrow> 'c
    \<Rightarrow> ('c \<times> (goerr + FileInfo)) option" where
  "lstat_loop is_print L img start sz path [] c = Some (c, Inl (Panic ''never''))"
| "lstat_loop is_print L img start sz path (part # parts) c =
     Option.bind (iterDir is_print img start sz (lstat_visit L path part) (c, None)) (\<lambda>res.
       case res of
         Inl e \<Rightarrow> Some (c, Inl e)
       | Inr ((c', partInfo), err) \<Rightarrow>
           (case err of
              Some e \<Rightarrow> Some (c', Inl e)
            | None \<Rightarrow>
                (case partInfo of
                   None \<Rightarrow> Some (c', Inl (Err ''ENOENT''))
                 | Some fi \<Rightarrow>
                     if parts = [] then Some (c', Inr fi)
                     else if \<not> fi_isDir fi then Some (c', Inl (Err ''ENOTDIR''))
                     else lstat_loop is_print L img (fi_extent fi) (fi_size fi) (path @ [part]) parts c')))"

definition lstat ::
  "(rune \<Rightarrow> bool) \<Rightarrow> (rune \<Rightarrow> rune) \<Rightarrow> 'c lru \<Rightarrow> byte list \<Rightarrow> gostring list \<Rightarrow> 'c
    \<Rightarrow> ('c \<times> (goerr + FileInfo)) option" where
  "lstat is_print up L img parts c =
     (let (cached, rest, c1) = lstatCacheSearch L (dot # parts) c
      in case cached of
           None \<Rightarrow>
             (case DecodePrimaryVolumeDescriptor is_print up (section_bytes img (16 * LogicalBlockSize) LogicalBlockSize) of
                Inl e \<Rightarrow> Some (c1, Inl e)
              | Inr (pvd, _) \<Rightarrow> lstat_loop is_print L img (RootStart pvd) (uint (RootLength pvd)) [] rest c1)
         | Some fi \<Rightarrow>
             if length rest > 0 then lstat_loop is_print L img (fi_extent fi) (fi_size fi) [] rest c1
             else Some (c1, Inr fi))"

definition Lstat ::
  "(rune \<Rightarrow> bool) \<Rightarrow> (rune \<Rightarrow> rune) \<Rightarrow> 'c lru \<Rightarrow> byte list \<Rightarrow> gostring \<Rightarrow> 'c
    \<Rightarrow> ('c \<times> (goerr + FileInfo)) option" where
  "Lstat is_print up L img path c = lstat is_print up L img (pathParts path) c"

section \<open>Following links\<close>

text \<open>\<open>filepath.Join\<close> of two elements and \<open>filepath.Dir\<close>.\<close>

definition path_Join :: "gostring \<Rightarrow> gostring \<Rightarrow> gostring" where
  "path_Join a b =
     (if a \<noteq> [] then path_Clean (a @ slash # b) else if b \<noteq> [] then path_Clean b else [])"

definition path_Dir :: "gostring \<Rightarrow> gostring" where
  "path_Dir p = path_Clean (rev (dropWhile (\<lambda>c. c \<noteq> slash) (rev p)))"

definition SymlinkRecursionLimit :: nat where "SymlinkRecursionLimit = 40"

definition follow_link :: "gostring list \<Rightarrow> FileInfo \<Rightarrow> gostring list" where
  "follow_link parts fi =
     (let path = slash # join_slash parts;
          path' = (if \<not> fi_isDir fi then path_Dir path else path)
      in pathParts (path_Clean (path_Join path' (fi_target fi))))"

fun stat_loop ::
  "nat \<Rightarrow> (rune \<Rightarrow> bool) \<Rightarrow> (rune \<Rightarrow> rune) \<Rightarrow> 'c lru \<Rightarrow> byte list \<Rightarrow> gostring list \<Rightarrow> 'c
    \<Rightarrow> ('c \<times> (goerr + FileInfo)) option" where
  "stat_loop 0 is_print up L img parts c = Some (c, Inl (Err ''ELOOP''))"
| "stat_loop (Suc n) is_print up L img parts c =
     Option.bind (lstat is_print up L img parts c) (\<lambda>(c', res).
       case res of
         Inl e \<Rightarrow> Some (c', Inl e)
       | Inr fi \<Rightarrow>
           if fi_mode fi AND ModeSymlink \<noteq> 0 then stat_loop n is_print up L img (follow_link parts fi) c'
           else Some (c', Inr fi))"

definition stat_parts ::
  "(rune \<Rightarrow> bool) \<Rightarrow> (rune \<Rightarrow> rune) \<Rightarrow> 'c lru \<Rightarrow> byte list \<Rightarrow> gostring list \<Rightarrow> 'c
    \<Rightarrow> ('c \<times> (goerr + FileInfo)) option" where
  "stat_parts is_print up L img parts c = stat_loop SymlinkRecursionLimit is_print up L img parts c"

definition Stat ::
  "(rune \<Rightarrow> bool) \<Rightarrow> (rune \<Rightarrow> rune) \<Rightarrow> 'c lru \<Rightarrow> byte list \<Rightarrow> gostring \<Rightarrow> 'c
    \<Rightarrow> ('c \<times> (goerr + FileInfo)) option" where
  "Stat is_print up L img path c = stat_parts is_print up L img (pathParts path) c"

section \<open>Directories\<close>

definition ReadDir_visit ::
  "'c lru \<Rightarrow> gostring \<Rightarrow> FileInfo \<Rightarrow> 'c \<times> FileInfo list \<Rightarrow> ('c \<times> FileInfo list) \<times> bool" where
  "ReadDir_visit L dirname fi s =
     ((lru_Add L (path_Join (path_Clean (slash # dirname)) (fi_name fi)) fi (fst s), snd s @ [fi]), True)"

definition Walker_ReadDir ::
  "(rune \<Rightarrow> bool) \<Rightarrow> (rune \<Rightarrow> rune) \<Rightarrow> 'c lru \<Rightarrow> byte list \<Rightarrow> gostring \<Rightarrow> 'c
    \<Rightarrow> ('c \<times> (goerr + FileInfo list)) option" where
  "Walker_ReadDir is_print up L img dirname c =
     Option.bind (Lstat is_print up L img dirname c) (\<lambda>(c1, res).
       case res of
         Inl e \<Rightarrow> Some (c1, Inl e)
       | Inr fi \<Rightarrow>
           if \<not> fi_isDir fi then Some (c1, Inl (Err ''ENOTDIR''))
           else Option.bind (iterDir is_print img (fi_extent fi) (fi_size fi) (ReadDir_visit L dirname) (c1, [])) (\<lambda>res.
             case res of
               Inl e \<Rightarrow> Some (c1, Inl e)
             | Inr ((c2, entries), err) \<Rightarrow>
                 (case err of Some e \<Rightarrow> Some (c2, Inl e) | None \<Rightarrow> Some (c2, Inr entries))))"

section \<open>Open files\<close>

text \<open>
  A \<open>File\<close> holds an \<open>io.SectionReader\<close> on the image, or nil once it is closed.  The section is
  its offset and size, with the position of \<open>Read\<close>.
\<close>

record section_reader =
  sr_base :: nat
  sr_size :: int
  sr_pos :: int

record File =
  file_name :: gostring
  file_fi :: FileInfo
  file_r :: "section_reader option"

definition section_ReadAt :: "byte list \<Rightarrow> section_reader \<Rightarrow> int \<Rightarrow> int \<Rightarrow> byte list \<times> goerr option" where
  "section_ReadAt img r n off =
     (if off < 0 \<or> off \<ge> sr_size r then ([], Some EOF)
      else
        let avail = sr_size r - off;
            bs = section_bytes img (sr_base r + nat off) (nat (min n avail))
        in (bs, if n > avail \<or> int (length bs) < min n avail then Some EOF else None))"

definition Walker_Open ::
  "(rune \<Rightarrow> bool) \<Rightarrow> (rune \<Rightarrow> rune) \<Rightarrow> 'c lru \<Rightarrow> byte list \<Rightarrow> gostring \<Rightarrow> 'c \<Rightarrow> ('c \<times> (goerr + File)) option" where
  "Walker_Open is_print up L img name c =
     map_option (\<lambda>(c', res). case res of
         Inl e \<Rightarrow> (c', Inl (case e of Panic m \<Rightarrow> Panic m | _ \<Rightarrow> Err ''open''))
       | Inr fi \<Rightarrow> (c', Inr \<lparr>file_name = name, file_fi = fi,
                            file_r = Some \<lparr>sr_base = unat (fi_extent fi) * LogicalBlockSize, sr_size = fi_size fi, sr_pos = 0\<rparr>\<rparr>))
       (stat_parts is_print up L img (pathParts name) c)"

definition File_ReadAt :: "byte list \<Rightarrow> File \<Rightarrow> int \<Rightarrow> int \<Rightarrow> byte list \<times> goerr option" where
  "File_ReadAt img f n off =
     (case file_r f of
        None \<Rightarrow> ([], Some (Err ''os.ErrClosed''))
      | Some r \<Rightarrow>
          if fi_isDir (file_fi f) then ([], Some (Err ''read EISDIR''))
          else section_ReadAt img r n off)"

text \<open>\<open>Read\<close> on the section moves its position.\<close>

definition File_Read :: "byte list \<Rightarrow> File \<Rightarrow> int \<Rightarrow> File \<times> byte list \<times> goerr option" where
  "File_Read img f n =
     (case file_r f of
        None \<Rightarrow> (f, [], Some (Err ''os.ErrClosed''))
      | Some r \<Rightarrow>
          if fi_isDir (file_fi f) then (f, [], Some (Err ''read EISDIR''))
          else if sr_pos r \<ge> sr_size r then (f, [], Some EOF)
          else
            let (bs, err) = section_ReadAt img r (min n (sr_size r - sr_pos r)) (sr_pos r)
            in (f\<lparr>file_r := Some (r\<lparr>sr_pos := sr_pos r + int (length bs)\<rparr>)\<rparr>, bs, err))"

definition File_ReadDir :: "(rune \<Rightarrow> bool) \<Rightarrow> byte list \<Rightarrow> File \<Rightarrow> (goerr + FileInfo list) option" where
  "File_ReadDir is_print img f =
     (case file_r f of
        None \<Rightarrow> Some (Inl (Err ''os.ErrClosed''))
      | Some r \<Rightarrow>
          if \<not> fi_isDir (file_fi f) then Some (Inl (Err ''readdir ENOTDIR''))
          else
            map_option (\<lambda>res. case res of
                Inl e \<Rightarrow> Inl e
              | Inr (entries, err) \<Rightarrow> (case err of Some e \<Rightarrow> Inl e | None \<Rightarrow> Inr entries))
              (iterDir is_print (section_bytes img (sr_base r) (nat (sr_size r))) 0 (sr_size r) collect_visit []))"

definition section_Seek :: "section_reader \<Rightarrow> int \<Rightarrow> int \<Rightarrow> goerr + section_reader \<times> int" where
  "section_Seek r offset whence =
     (if whence \<notin> {0, 1, 2} then Inl (Err ''Seek: invalid whence'')
      else
        let target = (if whence = 0 then offset else if whence = 1 then sr_pos r + offset else sr_size r + offset)
        in if target < 0 then Inl (Err ''Seek: invalid offset'') else Inr (r\<lparr>sr_pos := target\<rparr>, target))"

definition File_Seek :: "File \<Rightarrow> int \<Rightarrow> int \<Rightarrow> File \<times> (goerr + int)" where
  "File_Seek f offset whence =
     (case file_r f of
        None \<Rightarrow> (f, Inl (Err ''os.ErrClosed''))
      | Some r \<Rightarrow>
          if fi_isDir (file_fi f) then (f, Inl (Err ''seek EISDIR''))
          else (case section_Seek r offset whence of
                  Inl e \<Rightarrow> (f, Inl e) | Inr (r', pos) \<Rightarrow> (f\<lparr>file_r := Some r'\<rparr>, Inr pos)))"

definition File_Size :: "File \<Rightarrow> int" where
  "File_Size f = fi_size (file_fi f)"

definition File_Close :: "File \<Rightarrow> File" where
  "File_Close f = f\<lparr>file_r := None\<rparr>"

section \<open>Walk\<close>

text \<open>
  The paths of \<open>Walk\<close> are slices: a view of the first \<open>sl_len\<close> elements of an array.  \<open>append\<close>
  writes in place while the array has room, and so into the array of every other slice of it;
  else it moves to a new array, whose capacity \<open>grow\<close> the runtime chooses.
\<close>

record slice =
  sl_arr :: nat
  sl_len :: nat

definition slice_elems :: "gostring list list \<Rightarrow> slice \<Rightarrow> gostring list" where
  "slice_elems arrays s = take (sl_len s) (arrays ! sl_arr s)"

definition slice_append :: "(nat \<Rightarrow> nat) \<Rightarrow> gostring list list \<Rightarrow> slice \<Rightarrow> gostring \<Rightarrow> gostring list list \<times> slice" where
  "slice_append grow arrays s x =
     (if sl_len s < length (arrays ! sl_arr s)
      then (arrays[sl_arr s := (arrays ! sl_arr s)[sl_len s := x]], s\<lparr>sl_len := sl_len s + 1\<rparr>)
      else (arrays @ [slice_elems arrays s @ [x] @ replicate (grow (sl_len s) - sl_len s - 1) []],
            \<lparr>sl_arr = length arrays, sl_len = sl_len s + 1\<rparr>))"

record walkItem =
  wi_parts :: slice
  wi_fi :: FileInfo

type_synonym 's walkFn = "gostring \<Rightarrow> FileInfo option \<Rightarrow> goerr option \<Rightarrow> 's \<Rightarrow> 's \<times> goerr option"

record ('q, 's) walk_state =
  ws_arrays :: "gostring list list"
  ws_queue :: 'q
  ws_err :: "goerr option"
  ws_user :: 's

definition Walk_visit ::
  "(nat \<Rightarrow> nat) \<Rightarrow> ('q, walkItem) queue \<Rightarrow> 's walkFn \<Rightarrow> walkItem \<Rightarrow> FileInfo \<Rightarrow> ('q, 's) walk_state
    \<Rightarrow> ('q, 's) walk_state \<times> bool" where
  "Walk_visit grow Q walkFn item fi s =
     (let path = slash # join_slash (slice_elems (ws_arrays s) (wi_parts item));
          (user, err) = walkFn path (Some fi) None (ws_user s);
          s1 = s\<lparr>ws_user := user, ws_err := err\<rparr>
      in if err \<noteq> None then (s1, False)
         else if fi_isDir fi \<and> fi_name fi \<noteq> dot \<and> fi_name fi \<noteq> dotdot then
           (let (arrays, parts) = slice_append grow (ws_arrays s1) (wi_parts item) (fi_name fi)
            in (s1\<lparr>ws_arrays := arrays, ws_queue := q_Enqueue Q \<lparr>wi_parts = parts, wi_fi = fi\<rparr> (ws_queue s1)\<rparr>, True))
         else (s1, True))"

partial_function (option) Walk_loop ::
  "(rune \<Rightarrow> bool) \<Rightarrow> (nat \<Rightarrow> nat) \<Rightarrow> ('q, walkItem) queue \<Rightarrow> 's walkFn \<Rightarrow> byte list \<Rightarrow> ('q, 's) walk_state
    \<Rightarrow> (goerr + ('q, 's) walk_state) option" where
  "Walk_loop is_print grow Q walkFn img s =
     (if 0 < q_Len Q (ws_queue s) then
        let item = fst (q_Dequeue Q (ws_queue s)); s1 = s\<lparr>ws_queue := snd (q_Dequeue Q (ws_queue s))\<rparr>
        in Option.bind (iterDir is_print img (fi_extent (wi_fi item)) (fi_size (wi_fi item)) (Walk_visit grow Q walkFn item) s1)
             (\<lambda>res. case res of
                Inl e \<Rightarrow> Some (Inl e)
              | Inr r \<Rightarrow>
                  (if snd r \<noteq> None then Some (Inr ((fst r)\<lparr>ws_err := snd r\<rparr>))
                   else Walk_loop is_print grow Q walkFn img ((fst r)\<lparr>ws_err := None\<rparr>)))
      else Some (Inr s))"

text \<open>
  \<open>Walk\<close>.  The assignment of the result of \<open>iterDir\<close> to \<open>err\<close> overwrites the error that
  \<open>walkFn\<close> returned in the visitor.  The arrays start with that of \<open>rootParts\<close>, which
  \<open>strings.Split\<close> makes without spare room.
\<close>

definition Walk ::
  "(rune \<Rightarrow> bool) \<Rightarrow> (rune \<Rightarrow> rune) \<Rightarrow> (nat \<Rightarrow> nat) \<Rightarrow> 'c lru \<Rightarrow> ('q, walkItem) queue \<Rightarrow> 's walkFn \<Rightarrow> byte list \<Rightarrow>
   gostring \<Rightarrow> 'c \<Rightarrow> 's \<Rightarrow> ('c \<times> (goerr + ('s \<times> goerr option))) option" where
  "Walk is_print up grow L Q walkFn img root c user =
     Option.bind (lstat is_print up L img (pathParts root) c) (\<lambda>(c', res).
       case res of Inl (Panic m) \<Rightarrow> Some (c', Inl (Panic m)) | _ \<Rightarrow>
       let rootFi = (case res of Inl e \<Rightarrow> None | Inr fi \<Rightarrow> Some fi);
           rootErr = (case res of Inl e \<Rightarrow> Some e | Inr fi \<Rightarrow> None);
           (user', err) = walkFn root rootFi rootErr user
       in if err \<noteq> None then Some (c', Inr (user', err))
          else
            let q = (case rootFi of
                Some fi \<Rightarrow> if fi_isDir fi
                           then q_Enqueue Q \<lparr>wi_parts = \<lparr>sl_arr = 0, sl_len = length (pathParts root)\<rparr>, wi_fi = fi\<rparr> (q_New Q)
                           else q_New Q
              | None \<Rightarrow> q_New Q)
            in map_option (\<lambda>res'. (c', map_sum id (\<lambda>s. (ws_user s, ws_err s)) res'))
                 (Walk_loop is_print grow Q walkFn img
                    \<lparr>ws_arrays = [pathParts root], ws_queue = q, ws_err = None, ws_user = user'\<rparr>))"

section \<open>Lookup in a written image\<close>

text \<open>The path as the tree has it, with the errors of a lookup.\<close>

fun walk_path :: "('m, dirEntry) treemap \<Rightarrow> 'm heap \<Rightarrow> ref \<Rightarrow> gostring list \<Rightarrow> goerr + ref" where
  "walk_path T h d [] = Inr d"
| "walk_path T h d (n # ns) =
     (if Inode_Type (h ! d) \<noteq> InodeTypeDirectory then Inl (Err ''ENOTDIR'')
      else (case DirectoryInode_GetChild T h d n of
              None \<Rightarrow> Inl (Err ''ENOENT'') | Some q \<Rightarrow> walk_path T h q ns))"

lemma walk_path_lookup: "walk_path T h d ns = Inr q \<longleftrightarrow> lookup_path T h d ns = Some q"
  by (induction ns arbitrary: d) (auto split: option.splits bind_splits)

text \<open>A directory whose extent reads as its node says.\<close>

definition listed :: "(rune \<Rightarrow> bool) \<Rightarrow> ('m, dirEntry) treemap \<Rightarrow> 'm heap \<Rightarrow> byte list \<Rightarrow> ref \<Rightarrow> bool" where
  "listed p T h img c \<longleftrightarrow>
     (\<exists>fis. readable_dir p img (d_start (the_dir (h ! c))) (uint (d_size (the_dir (h ! c)))) fis \<and>
        list_all2 (describes T h) (directory_members T h c) fis)"

lemma search_misses:
  assumes L: "lru_laws L contents" and n: "\<forall>i \<le> n. contents c (lstatCacheKey (take i parts)) = None"
  shows "\<exists>c'. lstatCacheSearch_loop L parts n c = (None, parts, c')"
  using n
proof (induction n arbitrary: c)
  case 0
  have "fst (lru_Get L (lstatCacheKey (take 0 parts)) c) = None" using L 0 by (metis le_refl lru_laws_def)
  then show ?case by (simp add: lstatCacheSearch_loop.simps [of L parts 0] case_prod_unfold)
next
  case (Suc n)
  let ?g = "lru_Get L (lstatCacheKey (take (Suc n) parts)) c"
  have g: "fst ?g = None" using L Suc.prems by (metis le_refl lru_laws_def)
  have "contents (snd ?g) \<subseteq>\<^sub>m contents c" using L by (simp add: lru_laws_def)
  then have "\<forall>i \<le> n. contents (snd ?g) (lstatCacheKey (take i parts)) = None"
    using Suc.prems by (auto simp: map_le_def dom_def)
  from Suc.IH [OF this] show ?case
    using g by (simp add: lstatCacheSearch_loop.simps [of L parts "Suc n"] case_prod_unfold)
qed

lemma visit_infos_lstat:
  "snd (visit_infos (lstat_visit L path part) fis (c, None)) = find (\<lambda>fi. fi_name fi = part) fis"
  by (induction fis arbitrary: c) (auto simp: lstat_visit_def Let_def)

lemma lstat_loop_run:
  assumes "readable_dir p img start sz fis"
  shows "lstat_loop p L img start sz path (part # parts) c =
     (let c' = fst (visit_infos (lstat_visit L path part) fis (c, None))
      in case find (\<lambda>fi. fi_name fi = part) fis of
        None \<Rightarrow> Some (c', Inl (Err ''ENOENT''))
      | Some fi \<Rightarrow>
          if parts = [] then Some (c', Inr fi)
          else if \<not> fi_isDir fi then Some (c', Inl (Err ''ENOTDIR''))
          else lstat_loop p L img (fi_extent fi) (fi_size fi) (path @ [part]) parts c')"
proof -
  obtain c' found where r: "visit_infos (lstat_visit L path part) fis (c, None) = (c', found)" by (metis surj_pair)
  have "iterDir p img start sz (lstat_visit L path part) (c, None) = Some (Inr ((c', found), None))"
    unfolding iterDir_visits [OF assms] r ..
  moreover have "find (\<lambda>fi. fi_name fi = part) fis = found" using visit_infos_lstat [of L path part fis c] r by simp
  ultimately show ?thesis by (simp add: r split: option.split)
qed

lemma lstat_loop_step:
  assumes "readable_dir p img start sz fis"
  shows "\<exists>c'. lstat_loop p L img start sz path (part # parts) c =
     (case find (\<lambda>fi. fi_name fi = part) fis of
        None \<Rightarrow> Some (c', Inl (Err ''ENOENT''))
      | Some fi \<Rightarrow>
          if parts = [] then Some (c', Inr fi)
          else if \<not> fi_isDir fi then Some (c', Inl (Err ''ENOTDIR''))
          else lstat_loop p L img (fi_extent fi) (fi_size fi) (path @ [part]) parts c')"
  unfolding lstat_loop_run [OF assms] Let_def by blast

lemma list_all2_find:
  assumes "list_all2 R xs ys" "\<And>x y. R x y \<Longrightarrow> P x = Q y"
  shows "rel_option R (find P xs) (find Q ys)"
  using assms(1) by (induction rule: list_all2_induct) (auto simp: assms(2))

lemma find_child:
  assumes T: "treemap_laws T" "heap_ok T h" and d: "reached h d" and n: "n \<noteq> dot" "n \<noteq> dotdot"
    and l: "list_all2 (describes T h) (directory_members T h d) fis"
  shows "case DirectoryInode_GetChild T h d n of
      None \<Rightarrow> find (\<lambda>fi. fi_name fi = n) fis = None
    | Some q \<Rightarrow> \<exists>fi ident. find (\<lambda>fi. fi_name fi = n) fis = Some fi \<and> describes T h (ident, n, h ! q) fi"
proof -
  have node: "h ! d = DirI (the_dir (h ! d))" using d by (simp add: reached_def the_dir_DirI)
  then have ok: "dir_ok T h d (the_dir (h ! d))" using d T(2) by (simp add: heap_ok_def reached_def)
  let ?P = "\<lambda>m. fst (snd m) = n" and ?ms = "directory_members T h d"
  have rel: "rel_option (describes T h) (find ?P ?ms) (find (\<lambda>fi. fi_name fi = n) fis)"
    using l by (rule list_all2_find) (auto simp: describes_def)
  have ch: "DirectoryInode_GetChild T h d n = Some q \<longleftrightarrow>
      (\<exists>ident. (ident, \<lparr>de_name = n, de_child = q\<rparr>) \<in> set (child_entries T h d))" for q
    using GetChild_eq [OF T(1) ok node] by (simp add: child_entries_def)
  show ?thesis
  proof (cases "find ?P ?ms")
    case None
    then have "\<forall>m \<in> set ?ms. fst (snd m) \<noteq> n" by (auto simp: find_None_iff)
    then have "(ident, \<lparr>de_name = n, de_child = q\<rparr>) \<notin> set (child_entries T h d)" for ident q
      by (force simp: directory_members_def)
    then have "DirectoryInode_GetChild T h d n = None" using ch by (metis not_Some_eq)
    then show ?thesis using rel None by simp
  next
    case (Some m)
    then have m: "m \<in> set ?ms" "fst (snd m) = n" by (auto simp: find_Some_iff)
    then obtain ident e where e: "(ident, e) \<in> set (child_entries T h d)" "m = (ident, de_name e, h ! de_child e)" "de_name e = n"
      using n by (auto simp: directory_members_def)
    then have "e = \<lparr>de_name = n, de_child = de_child e\<rparr>" by simp
    then have "DirectoryInode_GetChild T h d n = Some (de_child e)" using ch e(1) by metis
    moreover obtain fi where "find (\<lambda>fi. fi_name fi = n) fis = Some fi" "describes T h m fi"
      using rel Some by (auto simp: option_rel_Some1)
    ultimately show ?thesis using e(2,3) by auto
  qed
qed

lemma describes_dir:
  assumes "describes T h (ident, name, h ! q) fi" "heap_ok T h" "q < length h" "Inode_Type (h ! q) = InodeTypeDirectory"
  shows "fi_extent fi = d_start (the_dir (h ! q))" "fi_size fi = uint (d_size (the_dir (h ! q)))"
proof -
  have node: "h ! q = DirI (the_dir (h ! q))" using assms(4) by (simp add: the_dir_DirI)
  then have "dir_ok T h q (the_dir (h ! q))" using assms(2,3) by (simp add: heap_ok_def)
  then have "unat (d_size (the_dir (h ! q))) \<le> MaxPartSize" by (simp add: dir_ok_def Let_def)
  then have "Inode_Parts (DirI (the_dir (h ! q))) = Inr [\<lparr>part_start = d_start (the_dir (h ! q)), part_size = d_size (the_dir (h ! q))\<rparr>]"
    by (simp add: small_parts)
  moreover have "describes T h (ident, name, DirI (the_dir (h ! q))) fi" using assms(1) node by simp
  ultimately show "fi_extent fi = d_start (the_dir (h ! q))" "fi_size fi = uint (d_size (the_dir (h ! q)))"
    by (auto simp: describes_def)
qed

lemma lstat_loop_resolves:
  assumes T: "treemap_laws T" "heap_ok T h" and d: "reached h d" and ns: "ns \<noteq> []" "\<forall>n \<in> set ns. n \<noteq> dot \<and> n \<noteq> dotdot"
    and l: "\<forall>ms c. lookup_path T h d ms = Some c \<longrightarrow> Inode_Type (h ! c) = InodeTypeDirectory \<longrightarrow> listed p T h img c"
  shows "\<exists>c' r. lstat_loop p L img (d_start (the_dir (h ! d))) (uint (d_size (the_dir (h ! d)))) path ns c = Some (c', r) \<and>
     (case walk_path T h d ns of
        Inl e \<Rightarrow> r = Inl e
      | Inr q \<Rightarrow> \<exists>fi ident. r = Inr fi \<and> describes T h (ident, last ns, h ! q) fi)"
  using d ns l
proof (induction ns arbitrary: d path c)
  case (Cons n ns)
  have dir: "Inode_Type (h ! d) = InodeTypeDirectory" using Cons.prems(1) by (simp add: reached_def)
  have "listed p T h img d" using Cons.prems(4) dir lookup_path.simps(1) by blast
  then obtain fis where fis: "readable_dir p img (d_start (the_dir (h ! d))) (uint (d_size (the_dir (h ! d)))) fis"
    "list_all2 (describes T h) (directory_members T h d) fis" by (auto simp: listed_def)
  obtain c1 where st: "lstat_loop p L img (d_start (the_dir (h ! d))) (uint (d_size (the_dir (h ! d)))) path (n # ns) c =
     (case find (\<lambda>fi. fi_name fi = n) fis of
        None \<Rightarrow> Some (c1, Inl (Err ''ENOENT''))
      | Some fi \<Rightarrow>
          if ns = [] then Some (c1, Inr fi)
          else if \<not> fi_isDir fi then Some (c1, Inl (Err ''ENOTDIR''))
          else lstat_loop p L img (fi_extent fi) (fi_size fi) (path @ [n]) ns c1)"
    using lstat_loop_step [OF fis(1), of L path n ns c] by blast
  have nd: "n \<noteq> dot" "n \<noteq> dotdot" using Cons.prems(3) by auto
  note ch = find_child [OF T Cons.prems(1) nd fis(2)]
  show ?case
  proof (cases "DirectoryInode_GetChild T h d n")
    case None
    then show ?thesis using st ch dir by simp
  next
    case (Some q)
    obtain fi ident where fi: "find (\<lambda>fi. fi_name fi = n) fis = Some fi" "describes T h (ident, n, h ! q) fi"
      using ch Some by auto
    have isdir: "fi_isDir fi = (Inode_Type (h ! q) = InodeTypeDirectory)" using fi(2) by (simp add: describes_def)
    show ?thesis
    proof (cases "ns = []")
      case True
      then show ?thesis using st fi Some dir by auto
    next
      case False
      show ?thesis
      proof (cases "Inode_Type (h ! q) = InodeTypeDirectory")
        case nodir: False
        obtain m ms where "ns = m # ms" using False by (cases ns) auto
        then show ?thesis using st fi(1) Some dir nodir isdir by simp
      next
        case True
        have lq: "lookup_path T h d [n] = Some q" using Some dir by simp
        have q: "reached h q" by (rule lookup_path_reached [OF T Cons.prems(1) lq True])
        have "\<forall>ms c. lookup_path T h q ms = Some c \<longrightarrow> Inode_Type (h ! c) = InodeTypeDirectory \<longrightarrow> listed p T h img c"
        proof (intro allI impI)
          fix ms c assume "lookup_path T h q ms = Some c" "Inode_Type (h ! c) = InodeTypeDirectory"
          moreover from this have "lookup_path T h d (n # ms) = Some c" using Some dir by simp
          ultimately show "listed p T h img c" using Cons.prems(4) by blast
        qed
        from Cons.IH [OF q False _ this, of "path @ [n]" c1] Cons.prems(3)
        obtain c' r where ih: "lstat_loop p L img (d_start (the_dir (h ! q))) (uint (d_size (the_dir (h ! q)))) (path @ [n]) ns c1 = Some (c', r)"
          "case walk_path T h q ns of Inl e \<Rightarrow> r = Inl e | Inr q \<Rightarrow> \<exists>fi ident. r = Inr fi \<and> describes T h (ident, last ns, h ! q) fi"
          by auto
        have "q < length h" using q by (simp add: reached_def)
        note ext = describes_dir [OF fi(2) T(2) this True]
        have last: "last (n # ns) = last ns" using False by simp
        show ?thesis unfolding last using st fi(1) ih False True isdir ext Some dir by simp
      qed
    qed
  qed
qed simp

text \<open>The descriptor, read from its sector.\<close>

definition dates_ok :: "'m Volume \<Rightarrow> bool" where
  "dates_ok v \<longleftrightarrow> dec_time (Created (v_pvd v)) \<and> dec_time (Modified (v_pvd v)) \<and> dec_time (Effective (v_pvd v))"

lemma image_pvd:
  assumes i: "image_of p up T v out" and t: "entry_time (RootModified (v_pvd v))" "dates_ok v"
  shows "DecodePrimaryVolumeDescriptor q up (section_bytes (out @ files) (16 * LogicalBlockSize) LogicalBlockSize) =
     Inr (stored_pvd up (v_pvd v), [])"
proof -
  let ?pvd = "fst (PrimaryVolumeDescriptor_WriteTo up (v_pvd v))"
  obtain rest where out: "out = pad (16 * LogicalBlockSize) @ ?pvd @ rest" using i by (auto simp: image_of_def)
  have d: "dec_time (Created (v_pvd v))" "dec_time (Modified (v_pvd v))" "dec_time (Effective (v_pvd v))"
    using t(2) by (simp_all add: dates_ok_def)
  note r = pvd_readback [OF t(1) d, of up q "[]"]
  have "section_bytes (out @ files) (16 * LogicalBlockSize) LogicalBlockSize = ?pvd"
    using r unfolding section_bytes_def out by simp
  then show ?thesis using r by simp
qed

lemma find_dot:
  assumes "list_all2 (describes T h) (directory_members T h d) fis"
  shows "\<exists>fi. find (\<lambda>fi. fi_name fi = dot) fis = Some fi \<and> describes T h ([0], dot, h ! d) fi"
proof -
  obtain fi rest where "fis = fi # rest" "describes T h ([0], dot, h ! d) fi"
    using assms by (auto simp: directory_members_def list_all2_Cons1)
  then show ?thesis by (auto simp: describes_def)
qed

lemma lstat_image:
  assumes T: "treemap_laws T" "heap_ok T (v_heap v)" and root: "reached (v_heap v) (v_root v)"
    and i: "image_of p up T v out" and t: "times_ok (v_heap v)" "dates_ok v"
    and l: "\<forall>ms c. lookup_path T (v_heap v) (v_root v) ms = Some c \<longrightarrow> Inode_Type (v_heap v ! c) = InodeTypeDirectory \<longrightarrow>
      listed p T (v_heap v) (out @ files) c"
    and ns: "\<forall>n \<in> set ns. n \<noteq> dot \<and> n \<noteq> dotdot"
    and L: "lru_laws L contents" "\<forall>k \<le> Suc (length ns). contents c (lstatCacheKey (take k (dot # ns))) = None"
  shows "\<exists>c' r. lstat p up L (out @ files) ns c = Some (c', r) \<and>
     (case walk_path T (v_heap v) (v_root v) ns of
        Inl e \<Rightarrow> r = Inl e
      | Inr q \<Rightarrow> \<exists>fi ident. r = Inr fi \<and> describes T (v_heap v) (ident, last (dot # ns), v_heap v ! q) fi)"
proof -
  let ?h = "v_heap v" and ?d = "v_root v" and ?img = "out @ files"
  have ty: "Inode_Type (?h ! ?d) = InodeTypeDirectory" and dl: "?d < length ?h" using root by (simp_all add: reached_def)
  have node: "?h ! ?d = DirI (the_dir (?h ! ?d))" using ty by (simp add: the_dir_DirI)
  have "?h ! ?d \<in> set ?h" using dl by simp
  then have "entry_time (d_modified (the_dir (?h ! ?d)))"
    using t(1) node unfolding times_ok_def node_times_def by (metis Inode_Modified.simps(2))
  moreover have f: "RootStart (v_pvd v) = d_start (the_dir (?h ! ?d))" "RootLength (v_pvd v) = d_size (the_dir (?h ! ?d))"
    "RootModified (v_pvd v) = d_modified (the_dir (?h ! ?d))"
    using i by (simp_all add: image_of_def pvd_root_def root_fields_def)
  ultimately have pvd: "DecodePrimaryVolumeDescriptor p up (section_bytes ?img (16 * LogicalBlockSize) LogicalBlockSize) =
      Inr (stored_pvd up (v_pvd v), [])" using image_pvd [OF i _ t(2)] by simp
  obtain c1 where se: "lstatCacheSearch L (dot # ns) c = (None, dot # ns, c1)"
    using search_misses [OF L(1), of "Suc (length ns)" c "dot # ns"] L(2) by (auto simp: lstatCacheSearch_def)
  have st: "RootStart (stored_pvd up (v_pvd v)) = d_start (the_dir (?h ! ?d))"
    "RootLength (stored_pvd up (v_pvd v)) = d_size (the_dir (?h ! ?d))" using f by (simp_all add: stored_pvd_def)
  have call: "lstat p up L ?img ns c =
      lstat_loop p L ?img (d_start (the_dir (?h ! ?d))) (uint (d_size (the_dir (?h ! ?d)))) [] (dot # ns) c1"
    by (simp add: lstat_def se pvd st del: lstat_loop.simps)
  have "listed p T ?h ?img ?d" using l ty lookup_path.simps(1) by blast
  then obtain fis where fis: "readable_dir p ?img (d_start (the_dir (?h ! ?d))) (uint (d_size (the_dir (?h ! ?d)))) fis"
    "list_all2 (describes T ?h) (directory_members T ?h ?d) fis" by (auto simp: listed_def)
  obtain fi where fi: "find (\<lambda>fi. fi_name fi = dot) fis = Some fi" "describes T ?h ([0], dot, ?h ! ?d) fi"
    using find_dot [OF fis(2)] by blast
  obtain c2 where step: "lstat_loop p L ?img (d_start (the_dir (?h ! ?d))) (uint (d_size (the_dir (?h ! ?d)))) [] (dot # ns) c1 =
     (if ns = [] then Some (c2, Inr fi)
      else if \<not> fi_isDir fi then Some (c2, Inl (Err ''ENOTDIR''))
      else lstat_loop p L ?img (fi_extent fi) (fi_size fi) [dot] ns c2)"
    using lstat_loop_step [OF fis(1), of L "[]" dot ns c1] unfolding fi(1) option.case append_Nil by blast
  show ?thesis
  proof (cases "ns = []")
    case True
    then show ?thesis using call step fi(2) by auto
  next
    case False
    have isdir: "fi_isDir fi" using fi(2) ty by (simp add: describes_def)
    note ext = describes_dir [OF fi(2) T(2) dl ty]
    from lstat_loop_resolves [OF T root False ns l, of L "[dot]" c2]
    obtain c' r where "lstat_loop p L ?img (d_start (the_dir (?h ! ?d))) (uint (d_size (the_dir (?h ! ?d)))) [dot] ns c2 = Some (c', r)"
      "case walk_path T ?h ?d ns of Inl e \<Rightarrow> r = Inl e
       | Inr q \<Rightarrow> \<exists>fi ident. r = Inr fi \<and> describes T ?h (ident, last ns, ?h ! q) fi" by blast
    moreover have last: "last (dot # ns) = last ns" using False by simp
    ultimately show ?thesis unfolding last using call step False isdir ext by simp
  qed
qed

lemma walk_path_moved:
  assumes T: "treemap_laws T" "heap_ok T h" and m: "moved h h'" and p: "p < length h"
  shows "walk_path T h' p ns = walk_path T h p ns"
  using p
proof (induction ns arbitrary: p)
  case (Cons n ns)
  have ty: "Inode_Type (h' ! p) = Inode_Type (h ! p)" by (rule moved_type [OF m Cons.prems])
  show ?case
  proof (cases "Inode_Type (h ! p) = InodeTypeDirectory")
    case True
    have g: "DirectoryInode_GetChild T h' p n = DirectoryInode_GetChild T h p n"
      using lookup_path_moved [OF T m Cons.prems, of "[n]"] True ty by (simp split: bind_splits)
    have "b < length h" if "DirectoryInode_GetChild T h p n = Some b" for b
      by (rule GetChild_child(1) [OF T Cons.prems the_dir_DirI [OF True] that])
    then show ?thesis using Cons.IH g ty by (simp split: option.split)
  qed (simp add: ty)
qed simp

lemma lstat_written:
  assumes "treemap_laws T" "writable p T v" "p RuneError" "queue_laws Q items" "queue_laws R ritems" "dates_ok v"
    and ns: "\<forall>n \<in> set ns. n \<noteq> dot \<and> n \<noteq> dotdot"
    and L: "lru_laws L contents" "\<forall>k \<le> Suc (length ns). contents c (lstatCacheKey (take k (dot # ns))) = None"
  shows "\<exists>v' out c' r. WriteMetadataTo p up T Q R v = Some (v', out, None) \<and> moved (v_heap v) (v_heap v') \<and>
     lstat p up L (out @ files) ns c = Some (c', r) \<and>
     (case walk_path T (v_heap v) (v_root v) ns of
        Inl e \<Rightarrow> r = Inl e
      | Inr q \<Rightarrow> \<exists>fi ident. r = Inr fi \<and> describes T (v_heap v') (ident, last (dot # ns), v_heap v' ! q) fi)"
proof -
  obtain v' out where w: "WriteMetadataTo p up T Q R v = Some (v', out, None)" "length out < 2 ^ 32"
    "moved (v_heap v) (v_heap v')" "small_dirs (v_heap v')" "v_root v' = v_root v" "pvd_dates v' = pvd_dates v" "image_of p up T v' out"
    using writable_writes [where p = p and up = up and Q = Q and R = R, OF assms(1-5)] by blast
  have v: "volume_ok T v" "times_ok (v_heap v)" "small_files (v_heap v)"
    using assms(2) by (simp_all add: writable_def recordable_def)
  have h: "heap_ok T (v_heap v)" "v_root v < length (v_heap v)" "reached (v_heap v) (v_root v)"
    using v(1) by (auto simp: volume_ok_def reached_def)
  have h': "heap_ok T (v_heap v')" "times_ok (v_heap v')" "reached (v_heap v') (v_root v')" "dates_ok v'"
    using moved_heap_ok [OF h(1) w(3,4)] moved_times [OF w(3) v(2)] moved_reached [OF w(3) h(3)] assms(6) w(5,6)
    by (simp_all add: dates_ok_def pvd_dates_def)
  have l: "\<forall>ms c. lookup_path T (v_heap v') (v_root v') ms = Some c \<longrightarrow> Inode_Type (v_heap v' ! c) = InodeTypeDirectory \<longrightarrow>
      listed p T (v_heap v') (out @ files) c"
  proof (intro allI impI)
    fix ms c assume c: "lookup_path T (v_heap v') (v_root v') ms = Some c" "Inode_Type (v_heap v' ! c) = InodeTypeDirectory"
    have c0: "lookup_path T (v_heap v) (v_root v) ms = Some c"
      using c(1) lookup_path_moved [OF assms(1) h(1) w(3) h(2)] w(5) by simp
    have "c < length (v_heap v)" by (rule lookup_path_valid [OF assms(1) h(1,2) c0])
    then have "Inode_Type (v_heap v ! c) = InodeTypeDirectory" using c(2) moved_type [OF w(3)] by simp
    from written_directory [where p = p, OF assms(1) v(1,2) assms(3) v(3) w(3-5,7,2) c0 this, of files]
    show "listed p T (v_heap v') (out @ files) c" unfolding listed_def by blast
  qed
  from lstat_image [where p = p and up = up and L = L and c = c, OF assms(1) h'(1,3) w(7) h'(2,4) l ns L]
  show ?thesis using w(1,3,5) walk_path_moved [OF assms(1) h(1) w(3) h(2)] by auto
qed

text \<open>C2:
  Path lookup in a written image is path lookup in the tree.  When no prefix of the path is in
  the walker's cache, \<open>lstat\<close> ends, with \<open>ENOENT\<close> or \<open>ENOTDIR\<close> exactly when a name of the path
  is missing or stands below a file, and else with the \<open>FileInfo\<close> of the node that the path
  leads to.  This holds for any cache that returns nothing but what was added to it.
\<close>

theorem lstat_resolves_paths:
  assumes "treemap_laws T" "writable p T v" "p RuneError" "queue_laws Q items" "queue_laws R ritems" "dates_ok v"
    "\<forall>n \<in> set ns. n \<noteq> dot \<and> n \<noteq> dotdot" "lru_laws L contents"
    "\<forall>k \<le> Suc (length ns). contents c (lstatCacheKey (take k (dot # ns))) = None"
  shows "\<exists>v' out c' r. WriteMetadataTo p up T Q R v = Some (v', out, None) \<and> moved (v_heap v) (v_heap v') \<and>
     lstat p up L (out @ files) ns c = Some (c', r) \<and>
     (case walk_path T (v_heap v) (v_root v) ns of
        Inl e \<Rightarrow> r = Inl e
      | Inr q \<Rightarrow> \<exists>fi ident. r = Inr fi \<and> describes T (v_heap v') (ident, last (dot # ns), v_heap v' ! q) fi)"
  by (rule lstat_written [OF assms])

lemma sample_dates: "dates_ok sample_volume"
  by (simp add: dates_ok_def sample_volume_def volume_eval sample_new_def new_volume_def zero_pvd_def epoch_def dec_time_def
      valid_time_def daysIn_def)

theorem lstat_resolves_paths_witness:
  "\<exists>v' out c' fi. WriteMetadataTo (\<lambda>r. True) (\<lambda>r. r) list_treemap list_queue list_queue sample_volume = Some (v', out, None) \<and>
     lstat (\<lambda>r. True) (\<lambda>r. r) map_lru out [[0x61], [0x62], [0x63]] Map.empty = Some (c', Inr fi) \<and>
     fi_name fi = [0x63] \<and> fi_ino fi = 2 \<and> fi_size fi = 3"
proof -
  let ?ns = "[[0x61], [0x62], [0x63]] :: gostring list"
  have n: "\<forall>n \<in> set ?ns. n \<noteq> dot \<and> n \<noteq> dotdot" by (simp add: dot_def dotdot_def)
  have wp: "walk_path list_treemap (v_heap sample_volume) (v_root sample_volume) ?ns = Inr 1"
    by (simp add: sample_heap)
  obtain v' out c' r fi ident where w: "WriteMetadataTo (\<lambda>r. True) (\<lambda>r. r) list_treemap list_queue list_queue sample_volume = Some (v', out, None)"
    "moved (v_heap sample_volume) (v_heap v')" "lstat (\<lambda>r. True) (\<lambda>r. r) map_lru out ?ns Map.empty = Some (c', r)"
    "r = Inr fi" "describes list_treemap (v_heap v') (ident, last (dot # ?ns), v_heap v' ! 1) fi"
    using lstat_resolves_paths [where p = "\<lambda>r. True" and up = "\<lambda>r. r" and Q = list_queue and R = list_queue and files = "[]" and c = Map.empty,
      OF list_treemap_laws sample_writable _ list_queue_laws list_queue_laws sample_dates n map_lru_laws] unfolding wp by auto
  obtain f where f: "v_heap v' ! 1 = FileI f" "erase sample_file = erase (FileI f)"
    using moved_nth [OF w(2), of 1] by (cases "v_heap v' ! 1") (auto simp: sample_heap sample_file_def)
  obtain g where g: "sample_file = FileI g" "f_ino g = 2" "f_o g = sample_object"
    by (simp add: sample_file_def)
  have e: "g\<lparr>f_start := 0\<rparr> = f\<lparr>f_start := 0\<rparr>" using f(2) unfolding g(1) by simp
  have fo: "f_ino f = 2" "f_o f = sample_object"
    using arg_cong [OF e, of f_ino] arg_cong [OF e, of f_o] g(2,3) by simp_all
  have "\<exists>part. Inode_Parts (FileI f) = Inr [part] \<and> uint (part_size part) = 3"
    by (simp add: fo sample_object_def InodeParts_step)
  then show ?thesis using w f(1) fo by (auto simp: describes_def)
qed

section \<open>The cache is not a cache of the tree\<close>

text \<open>
  After a hit on a prefix \<open>lstat\<close> starts the path of its keys again from nothing, so what it
  sees in the directory is added under keys of the root: a directory's own \<open>..\<close> becomes the
  entry of \<open>/\<close>.
\<close>

lemma keys [simp]:
  "lstatCacheKey [] = [slash]" "lstatCacheKey [dot] = [slash]" "lstatCacheKey [dotdot] = [slash]"
  "lstatCacheKey [dot, dot] = [slash]" "lstatCacheKey [dot, dotdot] = [slash]"
  "lstatCacheKey [dot, [0x61]] = [slash, 0x61]" "lstatCacheKey [dot, [0x61], dot] = [slash, 0x61]"
  "lstatCacheKey [dot, [0x61], dotdot] = [slash]" "lstatCacheKey [dot, [0x61], [0x62]] = [slash, 0x61, slash, 0x62]"
  "lstatCacheKey [dot, [0x61], [0x62], dot] = [slash, 0x61, slash, 0x62]"
  "lstatCacheKey [dot, [0x61], [0x62], dotdot] = [slash, 0x61]"
  "lstatCacheKey [dot, [0x61], [0x62], [0x63]] = [slash, 0x61, slash, 0x62, slash, 0x63]"
  by (simp_all add: lstatCacheKey_def path_Clean_def slash_def dot_def dotdot_def)

lemma walker_image:
  "\<exists>v' out. WriteMetadataTo (\<lambda>r. True) (\<lambda>r. r) list_treemap list_queue list_queue sample_volume = Some (v', out, None) \<and>
     moved sample_tree (v_heap v') \<and> heap_ok list_treemap (v_heap v') \<and> v_root v' = 0 \<and>
     (\<exists>pvd rest. DecodePrimaryVolumeDescriptor (\<lambda>r. True) (\<lambda>r. r) (section_bytes out (16 * LogicalBlockSize) LogicalBlockSize) = Inr (pvd, rest) \<and>
        RootStart pvd = d_start (the_dir (v_heap v' ! 0)) \<and> RootLength pvd = d_size (the_dir (v_heap v' ! 0))) \<and>
     (\<forall>c \<in> {0, 2, 3}. listed (\<lambda>r. True) list_treemap (v_heap v') out c)"
proof -
  obtain v' out where w: "WriteMetadataTo (\<lambda>r. True) (\<lambda>r. r) list_treemap list_queue list_queue sample_volume = Some (v', out, None)"
    "length out < 2 ^ 32" "moved (v_heap sample_volume) (v_heap v')" "small_dirs (v_heap v')" "v_root v' = v_root sample_volume"
    "pvd_dates v' = pvd_dates sample_volume" "image_of (\<lambda>r. True) (\<lambda>r. r) list_treemap v' out"
    using writable_writes [where p = "\<lambda>r. True" and up = "\<lambda>r. r" and Q = list_queue and R = list_queue,
      OF list_treemap_laws sample_writable _ list_queue_laws list_queue_laws] by auto
  note wd = written_directory [where p = "\<lambda>r. True" and files = "[]", OF list_treemap_laws sample_ok sample_times _ _ w(3-5,7,2), unfolded append_Nil2]
  have small: "small_files (v_heap sample_volume)" using sample_recordable by (simp add: recordable_def)
  have paths: "lookup_path list_treemap (v_heap sample_volume) (v_root sample_volume) [] = Some 0"
    "lookup_path list_treemap (v_heap sample_volume) (v_root sample_volume) [[0x61]] = Some 2"
    "lookup_path list_treemap (v_heap sample_volume) (v_root sample_volume) [[0x61], [0x62]] = Some 3"
    by (simp_all add: sample_heap)
  have l: "\<forall>c \<in> {0, 2, 3}. listed (\<lambda>r. True) list_treemap (v_heap v') out c"
    using wd [OF _ small paths(1)] wd [OF _ small paths(2)] wd [OF _ small paths(3)] by (simp add: listed_def sample_heap)
  have h: "heap_ok list_treemap (v_heap v')"
    using moved_heap_ok [OF _ w(3,4)] sample_ok by (simp add: volume_ok_def)
  have "times_ok (v_heap v')" by (rule moved_times [OF w(3) sample_times])
  moreover have "v_heap v' ! 0 \<in> set (v_heap v')" "v_heap v' ! 0 = DirI (the_dir (v_heap v' ! 0))"
    using moved_length [OF w(3)] moved_type [OF w(3), of 0] by (simp_all add: sample_heap the_dir_DirI)
  ultimately have "entry_time (d_modified (the_dir (v_heap v' ! 0)))"
    unfolding times_ok_def node_times_def by (metis Inode_Modified.simps(2))
  moreover have f: "RootStart (v_pvd v') = d_start (the_dir (v_heap v' ! 0))" "RootLength (v_pvd v') = d_size (the_dir (v_heap v' ! 0))"
    "RootModified (v_pvd v') = d_modified (the_dir (v_heap v' ! 0))"
    using w(5,7) by (simp_all add: image_of_def pvd_root_def root_fields_def sample_heap)
  moreover have "dates_ok v'" using w(6) sample_dates by (simp add: dates_ok_def pvd_dates_def)
  ultimately have "DecodePrimaryVolumeDescriptor (\<lambda>r. True) (\<lambda>r. r) (section_bytes (out @ []) (16 * LogicalBlockSize) LogicalBlockSize) =
      Inr (stored_pvd (\<lambda>r. r) (v_pvd v'), [])" by (intro image_pvd [OF w(7)]) simp_all
  then show ?thesis
    using w(1,3,5) h l f unfolding sample_heap append_Nil2
    by (intro exI [of _ v'] exI [of _ out] conjI exI [of _ "stored_pvd (\<lambda>r. r) (v_pvd v')"] exI [of _ "[]"]) (simp_all add: stored_pvd_def)
qed

text \<open>The entries of the three directories of the image, as \<open>iterDir\<close> gives them.\<close>

lemma walker_entries:
  "\<exists>v' out pvd rest r1 r2 r3 a1 a2 a3 b1 b2 b3.
     WriteMetadataTo (\<lambda>r. True) (\<lambda>r. r) list_treemap list_queue list_queue sample_volume = Some (v', out, None) \<and>
     Inode_Number (v_heap v' ! v_root v') = 1 \<and>
     DecodePrimaryVolumeDescriptor (\<lambda>r. True) (\<lambda>r. r) (section_bytes out (16 * LogicalBlockSize) LogicalBlockSize) = Inr (pvd, rest) \<and>
     readable_dir (\<lambda>r. True) out (RootStart pvd) (uint (RootLength pvd)) [r1, r2, r3] \<and>
     readable_dir (\<lambda>r. True) out (fi_extent r1) (fi_size r1) [r1, r2, r3] \<and>
     readable_dir (\<lambda>r. True) out (fi_extent r3) (fi_size r3) [a1, a2, a3] \<and>
     readable_dir (\<lambda>r. True) out (fi_extent a3) (fi_size a3) [b1, b2, b3] \<and>
     readable_dir (\<lambda>r. True) out (fi_extent b1) (fi_size b1) [b1, b2, b3] \<and>
     map fi_name [r1, r2, r3, a1, a2, a3, b1, b2, b3] = [dot, dotdot, [0x61], dot, dotdot, [0x62], dot, dotdot, [0x63]] \<and>
     map fi_isDir [r1, r2, r3, a1, a2, a3, b1, b2, b3] = replicate 8 True @ [False] \<and> fi_ino b2 = 3"
proof -
  obtain v' out pvd rest where w: "WriteMetadataTo (\<lambda>r. True) (\<lambda>r. r) list_treemap list_queue list_queue sample_volume = Some (v', out, None)"
    "moved sample_tree (v_heap v')" "heap_ok list_treemap (v_heap v')"
    "DecodePrimaryVolumeDescriptor (\<lambda>r. True) (\<lambda>r. r) (section_bytes out (16 * LogicalBlockSize) LogicalBlockSize) = Inr (pvd, rest)"
    "RootStart pvd = d_start (the_dir (v_heap v' ! 0))" "RootLength pvd = d_size (the_dir (v_heap v' ! 0))"
    "listed (\<lambda>r. True) list_treemap (v_heap v') out 0" "listed (\<lambda>r. True) list_treemap (v_heap v') out 2"
    "listed (\<lambda>r. True) list_treemap (v_heap v') out 3" "v_root v' = 0"
    using walker_image by auto
  let ?h = "v_heap v'" and ?start = "\<lambda>c. d_start (the_dir (v_heap v' ! c))" and ?size = "\<lambda>c. uint (d_size (the_dir (v_heap v' ! c)))"
  have len: "length ?h = 4" using moved_length [OF w(2)] by simp
  have ty: "Inode_Type (?h ! 0) = InodeTypeDirectory" "Inode_Type (?h ! Suc 0) = InodeTypeFile"
    "Inode_Type (?h ! 2) = InodeTypeDirectory" "Inode_Type (?h ! 3) = InodeTypeDirectory"
    using moved_type [OF w(2)] by simp_all
  have members: "directory_members list_treemap ?h c =
      map (\<lambda>(ident, name, q). (ident, name, ?h ! q)) (member_refs list_treemap sample_tree c)" if "c \<in> {0, 2, 3}" for c
    unfolding directory_members_refs using moved_member_refs [OF w(2)] sample_reached that by simp
  have refs: "member_refs list_treemap sample_tree 0 = [([0], dot, 0), ([1], dotdot, 0), (first_ident, [0x61], 2)]"
    "member_refs list_treemap sample_tree 2 = [([0], dot, 2), ([1], dotdot, 0), (first_ident, [0x62], 3)]"
    "member_refs list_treemap sample_tree 3 = [([0], dot, 3), ([1], dotdot, 2), (first_ident @ bytes_of '';1'', [0x63], Suc 0)]"
    unfolding member_refs_def child_entries_def list_treemap_def by simp_all
  obtain r1 r2 r3 where r: "readable_dir (\<lambda>r. True) out (?start 0) (?size 0) [r1, r2, r3]"
    "describes list_treemap ?h ([0], dot, ?h ! 0) r1" "describes list_treemap ?h ([1], dotdot, ?h ! 0) r2"
    "describes list_treemap ?h (first_ident, [0x61], ?h ! 2) r3"
    using w(7) unfolding listed_def members [of 0, simplified] refs by (auto simp: list_all2_Cons1)
  obtain a1 a2 a3 where a: "readable_dir (\<lambda>r. True) out (?start 2) (?size 2) [a1, a2, a3]"
    "describes list_treemap ?h ([0], dot, ?h ! 2) a1" "describes list_treemap ?h ([1], dotdot, ?h ! 0) a2"
    "describes list_treemap ?h (first_ident, [0x62], ?h ! 3) a3"
    using w(8) unfolding listed_def members [of 2, simplified] refs by (auto simp: list_all2_Cons1)
  obtain b1 b2 b3 where b: "readable_dir (\<lambda>r. True) out (?start 3) (?size 3) [b1, b2, b3]"
    "describes list_treemap ?h ([0], dot, ?h ! 3) b1" "describes list_treemap ?h ([1], dotdot, ?h ! 2) b2"
    "describes list_treemap ?h (first_ident @ bytes_of '';1'', [0x63], ?h ! Suc 0) b3"
    using w(9) unfolding listed_def members [of 3, simplified] refs by (auto simp: list_all2_Cons1)
  have names: "fi_name r1 = dot" "fi_name r2 = dotdot" "fi_name r3 = [0x61]" "fi_name a1 = dot" "fi_name a2 = dotdot"
    "fi_name a3 = [0x62]" "fi_name b1 = dot" "fi_name b2 = dotdot" "fi_name b3 = [0x63]"
    using r(2-4) a(2-4) b(2-4) by (simp_all add: describes_def)
  have dirs: "fi_isDir r1" "fi_isDir r2" "fi_isDir r3" "fi_isDir a1" "fi_isDir a2" "fi_isDir a3" "fi_isDir b1" "fi_isDir b2" "\<not> fi_isDir b3"
    using r(2-4) a(2-4) b(2-4) ty by (simp_all add: describes_def)
  have ext: "fi_extent r1 = ?start 0" "fi_size r1 = ?size 0" "fi_extent r3 = ?start 2" "fi_size r3 = ?size 2"
    "fi_extent a3 = ?start 3" "fi_size a3 = ?size 3" "fi_extent b1 = ?start 3" "fi_size b1 = ?size 3"
    using describes_dir [OF r(2) w(3)] describes_dir [OF r(4) w(3)] describes_dir [OF a(4) w(3)] describes_dir [OF b(2) w(3)] ty len
    by simp_all
  have "Inode_Number (?h ! c) = Inode_Number (sample_tree ! c)" if "c < 4" for c
    using erase_facts(2) [OF moved_nth [OF w(2)]] that by simp
  then have "Inode_Number (?h ! 0) = 1" "Inode_Number (?h ! 2) = 3" by (simp_all add: sample_defs)
  then have "fi_ino b2 = 3" "Inode_Number (?h ! v_root v') = 1" using b(3) w(10) by (simp_all add: describes_def)
  moreover have "map fi_isDir [r1, r2, r3, a1, a2, a3, b1, b2, b3] = replicate 8 True @ [False]"
    using dirs by (simp add: numeral_eq_Suc)
  moreover have "readable_dir (\<lambda>r. True) out (RootStart pvd) (uint (RootLength pvd)) [r1, r2, r3]"
    unfolding w(5,6) by (rule r(1))
  moreover have "map fi_name [r1, r2, r3, a1, a2, a3, b1, b2, b3] = [dot, dotdot, [0x61], dot, dotdot, [0x62], dot, dotdot, [0x63]]"
    by (simp only: names list.map)
  moreover note w(1,4) r(1) [folded ext] a(1) [folded ext] b(1) [folded ext(5,6)] b(1) [folded ext(7,8)]
  ultimately show ?thesis
    by (intro exI conjI)
qed

lemmas walk_names = dot_def dotdot_def slash_def

text \<open>C38:
  The walker's cache does not keep to the tree.  On the image of a volume with the one file
  \<open>a/b/c\<close>, whose root has the inode 1, looking up \<open>a/b/c\<close> twice and then the root gives the
  entry of \<open>a\<close>, the inode 3, as the root: the second lookup starts in the cached directory
  \<open>a/b\<close> with an empty path, and adds the directory's \<open>..\<close> as \<open>/\<close>.  The cache here returns
  what was added last; nothing is evicted.
\<close>

theorem lstat_cache_poisoned:
  "\<exists>v' out c1 c2 c3 f1 f2 fi.
     WriteMetadataTo (\<lambda>r. True) (\<lambda>r. r) list_treemap list_queue list_queue sample_volume = Some (v', out, None) \<and>
     Inode_Number (v_heap v' ! v_root v') = 1 \<and>
     lstat (\<lambda>r. True) (\<lambda>r. r) map_lru out [[0x61], [0x62], [0x63]] Map.empty = Some (c1, Inr f1) \<and>
     lstat (\<lambda>r. True) (\<lambda>r. r) map_lru out [[0x61], [0x62], [0x63]] c1 = Some (c2, Inr f2) \<and>
     lstat (\<lambda>r. True) (\<lambda>r. r) map_lru out [] c2 = Some (c3, Inr fi) \<and> fi_ino fi = 3"
proof -
  obtain v' out pvd rest r1 r2 r3 a1 a2 a3 b1 b2 b3 where
    w: "WriteMetadataTo (\<lambda>r. True) (\<lambda>r. r) list_treemap list_queue list_queue sample_volume = Some (v', out, None)"
    "Inode_Number (v_heap v' ! v_root v') = 1" "fi_ino b2 = 3"
    "DecodePrimaryVolumeDescriptor (\<lambda>r. True) (\<lambda>r. r) (section_bytes out (16 * LogicalBlockSize) LogicalBlockSize) = Inr (pvd, rest)"
    and dirs: "readable_dir (\<lambda>r. True) out (RootStart pvd) (uint (RootLength pvd)) [r1, r2, r3]"
    "readable_dir (\<lambda>r. True) out (fi_extent r1) (fi_size r1) [r1, r2, r3]"
    "readable_dir (\<lambda>r. True) out (fi_extent r3) (fi_size r3) [a1, a2, a3]"
    "readable_dir (\<lambda>r. True) out (fi_extent a3) (fi_size a3) [b1, b2, b3]"
    "readable_dir (\<lambda>r. True) out (fi_extent b1) (fi_size b1) [b1, b2, b3]"
    and names: "map fi_name [r1, r2, r3, a1, a2, a3, b1, b2, b3] = [dot, dotdot, [0x61], dot, dotdot, [0x62], dot, dotdot, [0x63]]"
    "map fi_isDir [r1, r2, r3, a1, a2, a3, b1, b2, b3] = replicate 8 True @ [False]"
    using walker_entries by (elim exE conjE) (rule that; assumption)
  let ?names = "[[0x61], [0x62], [0x63]] :: gostring list"
  have ne: "dot \<noteq> [0x61]" "dot \<noteq> [0x62]" "dot \<noteq> [0x63]" "dotdot \<noteq> [0x61]" "dotdot \<noteq> [0x62]" "dotdot \<noteq> [0x63]" "dot \<noteq> dotdot"
    "slash \<noteq> 0x61" by (simp_all add: walk_names)
  note run = lstat_loop_run [OF dirs(1)] lstat_loop_run [OF dirs(2)] lstat_loop_run [OF dirs(3)] lstat_loop_run [OF dirs(4)] lstat_loop_run [OF dirs(5)]
  have n: "fi_name r1 = dot" "fi_name r2 = dotdot" "fi_name r3 = [0x61]" "fi_name a1 = dot" "fi_name a2 = dotdot"
    "fi_name a3 = [0x62]" "fi_name b1 = dot" "fi_name b2 = dotdot" "fi_name b3 = [0x63]"
    "fi_isDir r1" "fi_isDir r2" "fi_isDir r3" "fi_isDir a1" "fi_isDir a2" "fi_isDir a3" "fi_isDir b1" "fi_isDir b2" "\<not> fi_isDir b3"
    using names by (simp_all add: numeral_eq_Suc)
  note eval = n ne lstat_visit_def lstatCacheAdd_def map_lru_def lstatCacheSearch_def lstatCacheSearch_loop.simps Let_def
  let ?c1 = "[[slash] \<mapsto> a2, [slash, 0x61, slash, 0x62] \<mapsto> b1, [slash, 0x61] \<mapsto> b2]"
  have s1: "lstatCacheSearch map_lru (dot # ?names) Map.empty = (None, dot # ?names, Map.empty)"
    by (simp add: eval)
  have l1: "lstat (\<lambda>r. True) (\<lambda>r. r) map_lru out ?names Map.empty = Some (?c1, Inr b3)"
    unfolding lstat_def s1 Let_def prod.case option.case w(4) sum.case
    by (simp add: run eval del: lstat_loop.simps)
  let ?c2 = "[[slash] \<mapsto> b2, [slash, 0x61, slash, 0x62] \<mapsto> b1, [slash, 0x61] \<mapsto> b2]"
  have s2: "lstatCacheSearch map_lru (dot # ?names) ?c1 = (Some b1, [[0x63]], ?c1)" by (simp add: eval)
  have l2: "lstat (\<lambda>r. True) (\<lambda>r. r) map_lru out ?names ?c1 = Some (?c2, Inr b3)"
    unfolding lstat_def s2 Let_def prod.case option.case
    by (simp add: run eval fun_upd_twist del: lstat_loop.simps)
  have l3: "lstat (\<lambda>r. True) (\<lambda>r. r) map_lru out [] ?c2 = Some (?c2, Inr b2)"
    by (simp add: lstat_def eval)
  show ?thesis using w(1-3) l1 l2 l3 by metis
qed

section \<open>What Walk does with errors and paths\<close>

text \<open>The visits of entries that the visitor all accepts.\<close>

fun accepted_infos :: "(FileInfo \<Rightarrow> 's \<Rightarrow> 's \<times> bool) \<Rightarrow> FileInfo list \<Rightarrow> 's \<Rightarrow> 's option" where
  "accepted_infos visit [] s = Some s"
| "accepted_infos visit (fi # fis) s = (if snd (visit fi s) then accepted_infos visit fis (fst (visit fi s)) else None)"

lemma visit_infos_refused:
  assumes "accepted_infos visit fis1 s = Some s1" "visit fi s1 = (s2, False)"
  shows "visit_infos visit (fis1 @ fi # fis2) s = s2"
  using assms by (induction fis1 arbitrary: s) (auto split: if_splits)

text \<open>One round of the loop: the first item's directory is listed, whatever \<open>walkFn\<close> says of its entries.\<close>

lemma Walk_loop_round:
  assumes Q: "queue_laws Q items" "items (ws_queue s) = item # rest"
    and r: "readable_dir p img (fi_extent (wi_fi item)) (fi_size (wi_fi item)) fis"
  shows "Walk_loop p grow Q walkFn img s = Walk_loop p grow Q walkFn img
    ((visit_infos (Walk_visit grow Q walkFn item) fis (s\<lparr>ws_queue := snd (q_Dequeue Q (ws_queue s))\<rparr>))\<lparr>ws_err := None\<rparr>)"
proof -
  have "fst (q_Dequeue Q (ws_queue s)) = item" "0 < q_Len Q (ws_queue s)"
    using Q unfolding queue_laws_def by auto
  then show ?thesis by (subst Walk_loop.simps) (simp add: iterDir_visits [OF r])
qed

text \<open>The entries that are queued: the directories, without the two that every directory has.\<close>

definition walked :: "FileInfo \<Rightarrow> bool" where
  "walked fi \<longleftrightarrow> fi_isDir fi \<and> fi_name fi \<noteq> dot \<and> fi_name fi \<noteq> dotdot"

lemma accepted_queue:
  assumes Q: "queue_laws Q items" and "accepted_infos (Walk_visit grow Q walkFn item) fis s = Some s1"
  shows "\<exists>ds. items (ws_queue s1) = items (ws_queue s) @ ds \<and> map wi_fi ds = filter walked fis"
  using assms(2)
proof (induction fis arbitrary: s)
  case (Cons fi fis)
  obtain s2 where v: "Walk_visit grow Q walkFn item fi s = (s2, True)" "accepted_infos (Walk_visit grow Q walkFn item) fis s2 = Some s1"
    using Cons.prems by (cases "Walk_visit grow Q walkFn item fi s") (auto split: if_splits)
  have "\<exists>ds. items (ws_queue s2) = items (ws_queue s) @ ds \<and> map wi_fi ds = filter walked [fi]"
    using v(1) Q by (auto simp: Walk_visit_def walked_def queue_laws_def Let_def split: prod.splits if_splits)
  with Cons.IH [OF v(2)] show ?case by (auto split: if_splits)
qed simp

text \<open>C39:
  An error of \<open>walkFn\<close> on an entry is lost and \<open>Walk\<close> goes on: the assignment of \<open>iterDir\<close>'s own
  result overwrites it.  Take any round of the loop of \<open>Walk\<close> and any entry of the directory that
  is listed in it: when \<open>walkFn\<close> accepts the entries before it and refuses it, the entries after it
  are not visited, and the loop continues, without an error, with everything that is still queued:
  the items that were waiting, then the directories among the entries that were accepted.
\<close>

theorem Walk_loses_errors:
  assumes "queue_laws Q items" "items (ws_queue s) = item # rest"
    "readable_dir p img (fi_extent (wi_fi item)) (fi_size (wi_fi item)) (fis1 @ fi # fis2)"
    "accepted_infos (Walk_visit grow Q walkFn item) fis1 (s\<lparr>ws_queue := snd (q_Dequeue Q (ws_queue s))\<rparr>) = Some s1"
    "walkFn (slash # join_slash (slice_elems (ws_arrays s1) (wi_parts item))) (Some fi) None (ws_user s1) = (user, Some e)"
  shows "Walk_loop p grow Q walkFn img s = Walk_loop p grow Q walkFn img (s1\<lparr>ws_user := user, ws_err := None\<rparr>) \<and>
    (\<exists>ds. items (ws_queue s1) = rest @ ds \<and> map wi_fi ds = filter walked fis1)"
proof
  have v: "Walk_visit grow Q walkFn item fi s1 = (s1\<lparr>ws_user := user, ws_err := Some e\<rparr>, False)"
    using assms(5) by (simp add: Walk_visit_def)
  show "Walk_loop p grow Q walkFn img s = Walk_loop p grow Q walkFn img (s1\<lparr>ws_user := user, ws_err := None\<rparr>)"
    using Walk_loop_round [OF assms(1-3), of grow walkFn] visit_infos_refused [OF assms(4) v, of fis2] by simp
  have "items (snd (q_Dequeue Q (ws_queue s))) = rest"
    using assms(1,2) unfolding queue_laws_def by blast
  then show "\<exists>ds. items (ws_queue s1) = rest @ ds \<and> map wi_fi ds = filter walked fis1"
    using accepted_queue [OF assms(1,4)] by simp
qed

definition refuse_entries :: "nat walkFn" where
  "refuse_entries path fi err n = (n + 1, if n = 2 then Some (Err ''refused'') else None)"

text \<open>
  On the image with the directories \<open>a\<close> and \<open>a/b\<close>, when the root and \<open>a\<close> are queued and the second
  entry of the root is refused: the three entries of \<open>a\<close> and the three of \<open>a/b\<close> are visited still.
\<close>

theorem Walk_loses_errors_witness:
  "\<exists>v' out s s'. WriteMetadataTo (\<lambda>r. True) (\<lambda>r. r) list_treemap list_queue list_queue sample_volume = Some (v', out, None) \<and>
     map (fi_name \<circ> wi_fi) (ws_queue s) = [dot, [0x61]] \<and> ws_user s = 1 \<and>
     Walk_loop (\<lambda>r. True) Suc list_queue refuse_entries out s = Some (Inr s') \<and> ws_user s' = 9 \<and> ws_err s' = None"
proof -
  obtain v' out r1 r2 r3 a1 a2 a3 b1 b2 b3 where
    w: "WriteMetadataTo (\<lambda>r. True) (\<lambda>r. r) list_treemap list_queue list_queue sample_volume = Some (v', out, None)"
    and dirs: "readable_dir (\<lambda>r. True) out (fi_extent r1) (fi_size r1) [r1, r2, r3]"
    "readable_dir (\<lambda>r. True) out (fi_extent r3) (fi_size r3) [a1, a2, a3]"
    "readable_dir (\<lambda>r. True) out (fi_extent a3) (fi_size a3) [b1, b2, b3]"
    and names: "map fi_name [r1, r2, r3, a1, a2, a3, b1, b2, b3] = [dot, dotdot, [0x61], dot, dotdot, [0x62], dot, dotdot, [0x63]]"
    "map fi_isDir [r1, r2, r3, a1, a2, a3, b1, b2, b3] = replicate 8 True @ [False]"
    using walker_entries by (elim exE conjE) (rule that; assumption)
  have n: "fi_name r1 = dot" "fi_name r3 = [0x61]" "fi_name a1 = dot" "fi_name a2 = dotdot"
    "fi_name a3 = [0x62]" "fi_isDir a3" "\<not> fi_isDir b3" "fi_name b1 = dot" "fi_name b2 = dotdot"
    using names by (simp_all add: numeral_eq_Suc)
  have ne: "[0x62] \<noteq> dot" "[0x62] \<noteq> dotdot" by (simp_all add: walk_names)
  let ?root = "\<lparr>wi_parts = \<lparr>sl_arr = 0, sl_len = 0\<rparr>, wi_fi = r1\<rparr>" and ?a = "\<lparr>wi_parts = \<lparr>sl_arr = 1, sl_len = 1\<rparr>, wi_fi = r3\<rparr>"
  let ?b = "\<lparr>wi_parts = \<lparr>sl_arr = 2, sl_len = 2\<rparr>, wi_fi = a3\<rparr>"
  let ?s = "\<lparr>ws_arrays = [[], [[0x61]]], ws_queue = [?root, ?a], ws_err = None, ws_user = 1 :: nat\<rparr>"
  let ?s1 = "\<lparr>ws_arrays = [[], [[0x61]]], ws_queue = [?a], ws_err = None, ws_user = 3 :: nat\<rparr>"
  let ?s2 = "\<lparr>ws_arrays = [[], [[0x61]], [[0x61], [0x62]]], ws_queue = [?b], ws_err = None, ws_user = 6 :: nat\<rparr>"
  let ?s3 = "?s2\<lparr>ws_queue := [], ws_user := 9\<rparr>"
  note eval = Walk_visit_def refuse_entries_def list_queue_def slice_append_def slice_elems_def n ne Let_def numeral_2_eq_2
  have "Walk_loop (\<lambda>r. True) Suc list_queue refuse_entries out ?s = Walk_loop (\<lambda>r. True) Suc list_queue refuse_entries out ?s1"
    using Walk_loses_errors [OF list_queue_laws, of ?s ?root "[?a]" "\<lambda>r. True" out "[r1]" r2 "[r3]" Suc refuse_entries "?s1\<lparr>ws_user := 2\<rparr>" 3 "Err ''refused''"]
      dirs(1) by (simp add: eval)
  also have "\<dots> = Walk_loop (\<lambda>r. True) Suc list_queue refuse_entries out ?s2"
    using Walk_loop_round [OF list_queue_laws, of ?s1 ?a "[]" "\<lambda>r. True" out "[a1, a2, a3]" Suc refuse_entries] dirs(2) by (simp add: eval)
  also have "\<dots> = Walk_loop (\<lambda>r. True) Suc list_queue refuse_entries out ?s3"
    using Walk_loop_round [OF list_queue_laws, of ?s2 ?b "[]" "\<lambda>r. True" out "[b1, b2, b3]" Suc refuse_entries] dirs(3) by (simp add: eval)
  also have "\<dots> = Some (Inr ?s3)"
    by (subst Walk_loop.simps) (simp add: list_queue_def)
  finally have l: "Walk_loop (\<lambda>r. True) Suc list_queue refuse_entries out ?s = Some (Inr ?s3)" .
  show ?thesis
    using w l by (intro exI [of _ v'] exI [of _ out] exI [of _ ?s] exI [of _ ?s3]) (simp add: n)
qed

text \<open>
  The paths that \<open>Walk\<close> queues for two sibling directories can share one array.  Appending to a
  slice of an array with room leaves the slice as it was, but a second append of another name
  changes what the first one returned: both queued paths then end in the second name, for any
  parent whose array has spare room (such as one of three elements grown by doubling).
\<close>

theorem Walk_paths_alias:
  assumes "sl_arr s < length arrays" "sl_len s < length (arrays ! sl_arr s)"
    "slice_append grow arrays s x = (arrays1, s1)" "slice_append grow arrays1 s y = (arrays2, s2)"
  shows "slice_elems arrays1 s1 = slice_elems arrays s @ [x] \<and> slice_elems arrays2 s2 = slice_elems arrays s @ [y] \<and>
     slice_elems arrays2 s1 = slice_elems arrays s @ [y]"
proof -
  let ?a = "arrays ! sl_arr s"
  have t: "take (Suc (sl_len s)) (?a[sl_len s := z]) = take (sl_len s) ?a @ [z]" for z
    using assms(2) by (simp add: take_Suc_conv_app_nth)
  have 1: "arrays1 = arrays[sl_arr s := ?a[sl_len s := x]]" "s1 = s\<lparr>sl_len := sl_len s + 1\<rparr>"
    using assms(2,3) by (auto simp: slice_append_def)
  then have "arrays1 ! sl_arr s = ?a[sl_len s := x]" using assms(1) by simp
  then have 2: "arrays2 = arrays[sl_arr s := ?a[sl_len s := y]]" "s2 = s\<lparr>sl_len := sl_len s + 1\<rparr>"
    using assms(2,4) by (auto simp: slice_append_def 1(1))
  show ?thesis using assms(1) by (simp add: slice_elems_def 1 2 t)
qed

text \<open>Three appends from nothing, with capacities 1, 2 and 4, as the runtime doubles them.\<close>

theorem Walk_paths_alias_witness:
  "\<exists>arrays s arrays1 s1 arrays2 s2.
     slice_append (\<lambda>n. if n = 0 then 1 else 2 * n) [[]] \<lparr>sl_arr = 0, sl_len = 0\<rparr> [0x61] =
       ([[], [[0x61]]], \<lparr>sl_arr = 1, sl_len = 1\<rparr>) \<and>
     slice_append (\<lambda>n. if n = 0 then 1 else 2 * n) arrays s [0x64] = (arrays1, s1) \<and>
     slice_append (\<lambda>n. if n = 0 then 1 else 2 * n) arrays1 s [0x65] = (arrays2, s2) \<and>
     slice_elems arrays1 s1 = [[0x61], [0x62], [0x63], [0x64]] \<and> slice_elems arrays2 s1 = [[0x61], [0x62], [0x63], [0x65]]"
proof -
  let ?grow = "\<lambda>n. if n = 0 then 1 else 2 * n :: nat"
  let ?arrays = "[[], [[0x61]], [[0x61], [0x62]], [[0x61], [0x62], [0x63], []]] :: gostring list list" and ?s = "\<lparr>sl_arr = 3, sl_len = 3\<rparr>"
  obtain arrays1 s1 where a1: "slice_append ?grow ?arrays ?s [0x64] = (arrays1, s1)" by fastforce
  obtain arrays2 s2 where a2: "slice_append ?grow arrays1 ?s [0x65] = (arrays2, s2)" by fastforce
  have "slice_append ?grow [[]] \<lparr>sl_arr = 0, sl_len = 0\<rparr> [0x61] = ([[], [[0x61]]], \<lparr>sl_arr = 1, sl_len = 1\<rparr>)"
    by (simp add: slice_append_def slice_elems_def)
  moreover have "slice_elems ?arrays ?s = [[0x61], [0x62], [0x63]]" by (simp add: slice_elems_def)
  ultimately show ?thesis
    using Walk_paths_alias [OF _ _ a1 a2] a1 a2 by (intro exI [of _ ?arrays] exI [of _ ?s] exI [of _ arrays1] exI [of _ s1] exI [of _ arrays2] exI [of _ s2] conjI) simp_all
qed

section \<open>Absolute links\<close>

lemma split_slash_append: "split_slash (a @ slash # b) = split_slash a @ split_slash b"
  by (induction a) (auto split: list.split)

lemma path_Clean_slashes: "a \<noteq> [] \<Longrightarrow> path_Clean (a @ slash # slash # t) = path_Clean (a @ slash # t)"
  by (simp add: path_Clean_def split_slash_append foldl_append)

text \<open>C40:
  An absolute link target is followed from the directory of the link, as if it had no slash in
  front: \<open>filepath.Join\<close> puts the directory before any target.
\<close>

theorem absolute_links_are_relative:
  assumes "fi_target fi = slash # t" "fi_target fi' = t" "fi_isDir fi' = fi_isDir fi"
  shows "follow_link parts fi = follow_link parts fi'"
proof -
  have "path_Clean x \<noteq> []" for x by (simp add: path_Clean_def dot_def Let_def)
  then have "path_Dir x \<noteq> []" for x by (simp add: path_Dir_def)
  then show ?thesis using assms by (simp add: follow_link_def path_Join_def path_Clean_slashes Let_def)
qed

theorem absolute_links_are_relative_witness:
  "\<exists>fi. fi_target fi = [slash, 0x78] \<and> follow_link [[0x61], [0x6C]] fi = [[0x61], [0x78]]"
proof -
  define fi where "fi t = \<lparr>fi_name = [0x6C], fi_size = 2, fi_mode = ModeSymlink, fi_nlink = 1, fi_uid = 0, fi_gid = 0,
    fi_ino = 2, fi_modTime = epoch, fi_isDir = False, fi_extent = 0, fi_target = t\<rparr>" for t
  have "follow_link [[0x61], [0x6C]] (fi [0x78]) = [[0x61], [0x78]]"
    by (simp add: fi_def follow_link_def path_Dir_def path_Join_def path_Clean_def pathParts_def slash_def dot_def dotdot_def)
  then show ?thesis
    using absolute_links_are_relative [of "fi [slash, 0x78]" "[0x78]" "fi [0x78]" "[[0x61], [0x6C]]"]
    by (intro exI [of _ "fi [slash, 0x78]"]) (simp add: fi_def)
qed

end
