(* ===== verification/Interval.thy ===== *)
theory Interval
  imports Prelude
begin

text \<open>\<open>pkg/interval\<close>: half-open intervals of offsets and their intersection.\<close>

record Interval =
  iStart :: int
  iEnd :: int

definition minI64 :: "int \<Rightarrow> int \<Rightarrow> int" where
  "minI64 a b = (if a < b then a else b)"

definition maxI64 :: "int \<Rightarrow> int \<Rightarrow> int" where
  "maxI64 a b = (if a > b then a else b)"

definition Intersection :: "Interval \<Rightarrow> Interval \<Rightarrow> Interval option" where
  "Intersection a b =
     (let start = maxI64 (iStart a) (iStart b);
          end' = minI64 (iEnd a) (iEnd b)
      in if start < end' then Some \<lparr>iStart = start, iEnd = end'\<rparr> else None)"

lemma minI64_min [simp]: "minI64 a b = min a b" and maxI64_max [simp]: "maxI64 a b = max a b"
  by (auto simp: minI64_def maxI64_def)

definition offsets :: "Interval \<Rightarrow> int set" where
  "offsets i = {iStart i ..< iEnd i}"

lemma Intersection_Some:
  "Intersection a b = Some z \<longleftrightarrow>
     iStart z = max (iStart a) (iStart b) \<and> iEnd z = min (iEnd a) (iEnd b) \<and> iStart z < iEnd z"
  by (cases z) (auto simp: Intersection_def Let_def)

lemma Intersection_None:
  "Intersection a b = None \<longleftrightarrow> min (iEnd a) (iEnd b) \<le> max (iStart a) (iStart b)"
  by (auto simp: Intersection_def Let_def)

text \<open>The operation is set intersection, with \<open>None\<close> for the empty set.\<close>

lemma Intersection_offsets:
  "(case Intersection a b of None \<Rightarrow> {} | Some z \<Rightarrow> offsets z) = offsets a \<inter> offsets b"
  by (auto simp: Intersection_def Let_def offsets_def)

end
