(* ===== verification/Concat.thy ===== *)
theory Concat
  imports Objects Interval "HOL-Library.Multiset"
begin

text \<open>
  \<open>pkg/storage/concat.go\<close>: several objects presented as one.  The parts sit in a B-tree
  (\<open>github.com/google/btree\<close>) keyed by offset, and a read is cut into one work item per
  part, each writing its own region of the caller's buffer, in sequence or each in a
  goroutine of its own.
\<close>

section \<open>The B-tree, a parameter\<close>

text \<open>
  The operations of the B-tree that the file calls, on an unknown type \<open>'t\<close> of trees.
  \<open>bt_Ascend\<close> and \<open>bt_DescendLessOrEqual\<close> give the items in the order in which the
  iterator is called on them.
\<close>

type_synonym part = "int \<times> AnonymousObject"

record 't btree =
  bt_New :: 't
  bt_ReplaceOrInsert :: "part \<Rightarrow> 't \<Rightarrow> 't"
  bt_Ascend :: "'t \<Rightarrow> part list"
  bt_DescendLessOrEqual :: "int \<Rightarrow> 't \<Rightarrow> part list"

text \<open>
  Its documented behaviour: a new tree is empty; inserting an item removes the item that
  is equal to it (here: has the same offset) and keeps the order; the descending iterator
  visits the items up to the pivot from the greatest to the least.
\<close>

definition btree_laws :: "'t btree \<Rightarrow> bool" where
  "btree_laws B \<longleftrightarrow>
     bt_Ascend B (bt_New B) = [] \<and>
     (\<forall>k v t. bt_Ascend B (bt_ReplaceOrInsert B (k, v) t) =
        filter (\<lambda>q. fst q < k) (bt_Ascend B t) @ [(k, v)] @ filter (\<lambda>q. k < fst q) (bt_Ascend B t)) \<and>
     (\<forall>k t. bt_DescendLessOrEqual B k t = rev (filter (\<lambda>q. fst q \<le> k) (bt_Ascend B t)))"

text \<open>The laws hold of sorted lists, which the witnesses use.\<close>

definition list_btree :: "part list btree" where
  "list_btree = \<lparr>bt_New = [],
     bt_ReplaceOrInsert = (\<lambda>q t. filter (\<lambda>r. fst r < fst q) t @ [q] @ filter (\<lambda>r. fst q < fst r) t),
     bt_Ascend = (\<lambda>t. t),
     bt_DescendLessOrEqual = (\<lambda>k t. rev (filter (\<lambda>q. fst q \<le> k) t))\<rparr>"

lemma list_btree_laws: "btree_laws list_btree"
  by (auto simp: btree_laws_def list_btree_def)

section \<open>The code\<close>

record 't concatenated =
  parts :: 't
  csize :: int
  concurrent :: bool
  cpos :: int

record workItem =
  wobj :: AnonymousObject
  wlo :: nat   \<comment> \<open>\<open>dst\<close> is the slice \<open>p[wlo:whi]\<close> of the caller's buffer\<close>
  whi :: nat
  woff :: int

fun insert_parts :: "'t btree \<Rightarrow> AnonymousObject list \<Rightarrow> int \<Rightarrow> 't \<Rightarrow> 't \<times> int" where
  "insert_parts B [] off t = (t, off)"
| "insert_parts B (obj # objs) off t =
     insert_parts B objs (off + Size obj) (bt_ReplaceOrInsert B (off, obj) t)"

text \<open>The iterator's callback, on the parts in descending order: it stops at the first part
  that does not meet the read.\<close>

fun workItems :: "Interval \<Rightarrow> int \<Rightarrow> part list \<Rightarrow> workItem list" where
  "workItems x off [] = []"
| "workItems x off ((poff, obj) # ps) =
     (case Intersection x \<lparr>iStart = poff, iEnd = poff + Size obj\<rparr> of
        None \<Rightarrow> []
      | Some z \<Rightarrow>
          \<lparr>wobj = obj, wlo = nat (iStart z - off), whi = nat (iEnd z - off), woff = iStart z - poff\<rparr>
          # workItems x off ps)"

definition dst :: "byte list \<Rightarrow> workItem \<Rightarrow> byte list" where
  "dst p w = take (whi w - wlo w) (drop (wlo w) p)"

definition put_dst :: "byte list \<Rightarrow> workItem \<Rightarrow> byte list \<Rightarrow> byte list" where
  "put_dst p w d = take (wlo w) p @ d @ drop (whi w) p"

text \<open>
  The reads, in the order in which they are carried out: \<open>is\<close> lists the indices of the
  work items.  The sequential version runs them as they are found; the goroutines of the
  concurrent one finish in any order before \<open>wg.Wait\<close> returns.
\<close>

fun run_work :: "workItem list \<Rightarrow> nat list \<Rightarrow> byte list \<Rightarrow> (nat \<Rightarrow> int \<times> goerr option)
    \<Rightarrow> byte list \<times> (nat \<Rightarrow> int \<times> goerr option)" where
  "run_work ws [] p res = (p, res)"
| "run_work ws (i # is) p res =
     (case ReadAt (wobj (ws ! i)) (dst p (ws ! i)) (woff (ws ! i)) of (d, nn, err) \<Rightarrow>
        run_work ws is (put_dst p (ws ! i) d) (res(i := (nn, err))))"

text \<open>The loop over the results, from the last work item (the lowest offset) to the first.\<close>

fun collect :: "workItem list \<Rightarrow> (nat \<Rightarrow> int \<times> goerr option) \<Rightarrow> nat list \<Rightarrow> int \<Rightarrow> int \<times> goerr option" where
  "collect ws res [] n = (n, None)"
| "collect ws res (i # is) n =
     (case res i of (nn, err) \<Rightarrow>
        if err \<noteq> None \<and> err \<noteq> Some EOF then (n + nn, err)
        else if nn < int (whi (ws ! i) - wlo (ws ! i)) then (n + nn, Some UnexpectedEOF)
        else collect ws res is (n + nn))"

definition concatenated_ReadAt ::
  "'t btree \<Rightarrow> (nat \<Rightarrow> nat list) \<Rightarrow> 't concatenated \<Rightarrow> byte list \<Rightarrow> int \<Rightarrow> byte list \<times> int \<times> goerr option" where
  "concatenated_ReadAt B sched c p off =
     (if p = [] then (p, 0, None)
      else if off \<ge> csize c then (p, 0, Some EOF)
      else
        let start = off;
            end' = (if csize c < off + int (length p) then csize c else off + int (length p));
            wantN = end' - start;
            x = \<lparr>iStart = start, iEnd = end'\<rparr>;
            ws = workItems x off (bt_DescendLessOrEqual B (off + int (length p) - 1) (parts c));
            order = (if concurrent c then sched (length ws) else [0..<length ws]);
            (p', res) = run_work ws order p (\<lambda>_. (0, None));
            (n, err) = collect ws res (rev [0..<length ws]) 0
        in (p', n, if err \<noteq> None then err else if n \<noteq> wantN then Some UnexpectedEOF else None))"

definition concat_objects :: "'t btree \<Rightarrow> (nat \<Rightarrow> nat list) \<Rightarrow> bool \<Rightarrow> AnonymousObject list \<Rightarrow> AnonymousObject" where
  "concat_objects B sched conc objects =
     (if length objects = 1 then hd objects
      else
        let (ps, off) = insert_parts B objects 0 (bt_New B);
            c = \<lparr>parts = ps, csize = off, concurrent = conc, cpos = 0\<rparr>
        in \<lparr>Size = csize c, ReadAt = concatenated_ReadAt B sched c\<rparr>)"

definition ConcurrentConcat :: "'t btree \<Rightarrow> (nat \<Rightarrow> nat list) \<Rightarrow> AnonymousObject list \<Rightarrow> AnonymousObject" where
  "ConcurrentConcat B sched objects = concat_objects B sched True objects"

definition Concat :: "'t btree \<Rightarrow> (nat \<Rightarrow> nat list) \<Rightarrow> AnonymousObject list \<Rightarrow> AnonymousObject" where
  "Concat B sched objects = concat_objects B sched False objects"

text \<open>\<open>Read\<close> continues at the position and moves it by what it read.\<close>

definition concatenated_Read ::
  "'t btree \<Rightarrow> (nat \<Rightarrow> nat list) \<Rightarrow> 't concatenated \<Rightarrow> byte list \<Rightarrow> 't concatenated \<times> byte list \<times> int \<times> goerr option" where
  "concatenated_Read B sched c p =
     (case concatenated_ReadAt B sched c p (cpos c) of (p', n, err) \<Rightarrow>
        (c\<lparr>cpos := cpos c + n\<rparr>, p', n, err))"

definition concatenated_Seek :: "'t concatenated \<Rightarrow> int \<Rightarrow> int \<Rightarrow> 't concatenated \<times> (goerr + int)" where
  "concatenated_Seek c offset whence =
     (if whence = SeekEnd \<and> csize c < 0 then (c, Inl (Err ''unknown length''))
      else
        let p1 = (if whence = SeekCurrent then cpos c + offset
                  else if whence = SeekStart then offset
                  else if whence = SeekEnd then csize c + offset else cpos c);
            p2 = (if p1 < 0 then 0 else if csize c \<ge> 0 \<and> p1 > csize c then csize c else p1)
        in (c\<lparr>cpos := p2\<rparr>, Inr p2))"

interpretation concatenated: seekable concatenated_Seek cpos csize "\<lambda>_. True"
  by unfold_locales
    (auto simp: concatenated_Seek_def seek_target_def whence_defs Let_def split: if_splits)

section \<open>Layout of the parts\<close>

fun laid :: "int \<Rightarrow> part list \<Rightarrow> byte list list \<Rightarrow> bool" where
  "laid off [] [] = True"
| "laid off ((o', obj) # ps) (c # cs) =
     (o' = off \<and> read_object obj c \<and> laid (off + int (length c)) ps cs)"
| "laid off _ _ = False"

lemma laid_append:
  "length ps = length cs \<Longrightarrow>
   laid off (ps @ qs) (cs @ ds) \<longleftrightarrow> laid off ps cs \<and> laid (off + int (length (concat cs))) qs ds"
proof (induction ps cs arbitrary: off rule: list_induct2)
  case Nil then show ?case by simp
next
  case (Cons q ps c cs)
  then show ?case by (cases q) (auto simp: add.assoc)
qed

lemma laid_length: "laid off ps cs \<Longrightarrow> length ps = length cs"
  by (induction off ps cs rule: laid.induct) auto

lemma laid_bounds:
  "laid off ps cs \<Longrightarrow> q \<in> set ps \<Longrightarrow>
   off \<le> fst q \<and> 0 \<le> Size (snd q) \<and> fst q + Size (snd q) \<le> off + int (length (concat cs))"
proof (induction off ps cs rule: laid.induct)
  case (2 off o' obj ps c cs)
  have "Size obj = int (length c)"
    using 2 read_object.size_content by auto
  then show ?case using 2 by fastforce
qed auto

lemma laid_nonempty:
  "laid off ps cs \<Longrightarrow> [] \<notin> set cs \<Longrightarrow> q \<in> set ps \<Longrightarrow> 0 < Size (snd q)"
proof (induction off ps cs rule: laid.induct)
  case (2 off o' obj ps c cs)
  have "Size obj = int (length c)"
    using 2 read_object.size_content by auto
  then show ?case using 2 by auto
qed auto

text \<open>Only a part at the very end can be empty.\<close>

lemma tiles_positive:
  assumes "laid off ps cs" "[] \<notin> set (butlast cs)"
  shows "\<forall>q\<in>set ps. fst q < off + int (length (concat cs)) \<longrightarrow> 0 < Size (snd q)"
  using assms
proof (induction off ps cs rule: laid.induct)
  case (2 off o' obj ps c cs)
  then have "Size obj = int (length c)"
    using read_object.size_content by auto
  then show ?case using 2 by (cases cs; cases ps) (auto simp: add.assoc)
qed auto

text \<open>Inserting a part at the end: it follows the others, or takes the place of an empty one.\<close>

definition tiles :: "part list \<Rightarrow> byte list list \<Rightarrow> bool" where
  "tiles ps cs \<longleftrightarrow> laid 0 ps cs \<and> [] \<notin> set (butlast cs)"

lemma insert_part:
  assumes B: "btree_laws B" and t: "tiles (bt_Ascend B t) cs" and obj: "read_object obj c"
    and off: "off = int (length (concat cs))"
  shows "\<exists>cs'. tiles (bt_Ascend B (bt_ReplaceOrInsert B (off, obj) t)) cs' \<and>
     concat cs' = concat cs @ c \<and> cs' \<noteq> [] \<and> last cs' = c"
proof -
  let ?its = "bt_Ascend B t"
  have ins: "bt_Ascend B (bt_ReplaceOrInsert B (off, obj) t) =
      filter (\<lambda>q. fst q < off) ?its @ [(off, obj)] @ filter (\<lambda>q. off < fst q) ?its"
    using B by (simp add: btree_laws_def)
  have l: "laid 0 ?its cs" using t by (simp add: tiles_def)
  have le: "fst q \<le> off" if "q \<in> set ?its" for q
    using laid_bounds [OF l that] by (simp add: off)
  then have none: "filter (\<lambda>q. off < fst q) ?its = []"
    by (force simp: filter_empty_conv)
  have lt: "fst q < off" if "laid 0 ps ds" "[] \<notin> set ds" "concat ds = concat cs" "q \<in> set ps" for ps ds q
    using laid_bounds [OF that(1,4)] laid_nonempty [OF that(1,2,4)] that(3) by (simp add: off)
  show ?thesis
  proof (cases "cs \<noteq> [] \<and> last cs = []")
    case True
    then obtain ds where cs: "cs = ds @ [[]]" by (metis append_butlast_last_id)
    with laid_length [OF l] obtain ps q where ps: "?its = ps @ [q]" "length ps = length ds"
      by (metis length_append_singleton length_Suc_conv_rev)
    from l have lp: "laid 0 ps ds" "fst q = off"
      unfolding ps(1) cs laid_append [OF ps(2)] by (cases q; simp add: off cs)+
    have "filter (\<lambda>q. fst q < off) ps = ps"
      using lt [OF lp(1)] t by (auto simp: filter_id_conv cs tiles_def)
    then have "bt_Ascend B (bt_ReplaceOrInsert B (off, obj) t) = ps @ [(off, obj)]"
      unfolding ins none using ps lp(2) by simp
    moreover have "tiles (ps @ [(off, obj)]) (ds @ [c])"
      using lp obj ps(2) t by (simp add: tiles_def laid_append off cs)
    ultimately show ?thesis by (intro exI [of _ "ds @ [c]"]) (simp add: cs)
  next
    case False
    then have ne: "[] \<notin> set cs"
      using t by (cases cs rule: rev_cases) (auto simp: tiles_def)
    have "filter (\<lambda>q. fst q < off) ?its = ?its"
      using lt [OF l ne] by (simp add: filter_id_conv)
    then have "bt_Ascend B (bt_ReplaceOrInsert B (off, obj) t) = ?its @ [(off, obj)]"
      unfolding ins none by simp
    moreover have "tiles (?its @ [(off, obj)]) (cs @ [c])"
      using l obj ne laid_length [OF l] by (simp add: tiles_def laid_append off)
    ultimately show ?thesis by (intro exI [of _ "cs @ [c]"]) simp
  qed
qed

lemma insert_parts_tiles:
  assumes "btree_laws B" "list_all2 read_object objs ds" "tiles (bt_Ascend B t) cs"
    "off = int (length (concat cs))"
  shows "\<exists>cs'. tiles (bt_Ascend B (fst (insert_parts B objs off t))) cs' \<and>
      concat cs' = concat cs @ concat ds \<and> snd (insert_parts B objs off t) = int (length (concat cs')) \<and>
      (ds \<noteq> [] \<longrightarrow> cs' \<noteq> [] \<and> last cs' = last ds) \<and> (ds = [] \<longrightarrow> cs' = cs)"
  using assms(2-4)
proof (induction objs ds arbitrary: t cs off rule: list_all2_induct)
  case Nil
  then show ?case by auto
next
  case (Cons obj objs d ds)
  from insert_part [OF assms(1) Cons.prems(1) Cons.hyps(1) Cons.prems(2)]
  obtain cs1 where c1: "tiles (bt_Ascend B (bt_ReplaceOrInsert B (off, obj) t)) cs1"
    "concat cs1 = concat cs @ d" "cs1 \<noteq> []" "last cs1 = d" by blast
  have off: "off + Size obj = int (length (concat cs1))"
    using Cons.prems(2) c1(2) read_object.size_content [OF Cons.hyps(1)] by simp
  from Cons.IH [OF c1(1) off] show ?case
    using c1 by auto
qed

section \<open>Which parts a read meets\<close>

definition meets :: "Interval \<Rightarrow> part \<Rightarrow> bool" where
  "meets x q \<longleftrightarrow> Intersection x \<lparr>iStart = fst q, iEnd = fst q + Size (snd q)\<rparr> \<noteq> None"

definition item :: "Interval \<Rightarrow> int \<Rightarrow> part \<Rightarrow> workItem" where
  "item x off q = (let z = the (Intersection x \<lparr>iStart = fst q, iEnd = fst q + Size (snd q)\<rparr>) in
     \<lparr>wobj = snd q, wlo = nat (iStart z - off), whi = nat (iEnd z - off), woff = iStart z - fst q\<rparr>)"

lemma meets_iff:
  "meets x q \<longleftrightarrow> max (iStart x) (fst q) < min (iEnd x) (fst q + Size (snd q))"
  by (auto simp: meets_def Intersection_def Let_def)

lemma item_meets:
  "meets x q \<Longrightarrow> item x off q =
     \<lparr>wobj = snd q, wlo = nat (max (iStart x) (fst q) - off),
      whi = nat (min (iEnd x) (fst q + Size (snd q)) - off), woff = max (iStart x) (fst q) - fst q\<rparr>"
  by (auto simp: item_def meets_def Intersection_def Let_def split: if_splits)

lemma workItems_all:
  "\<forall>q\<in>set qs. meets x q \<Longrightarrow>
   workItems x off (qs @ rs) = map (item x off) qs @ workItems x off rs"
  by (induction qs) (auto simp: meets_def item_def Let_def split: option.splits)

lemma workItems_stop:
  "\<exists>q\<in>set qs. \<not> meets x q \<Longrightarrow> workItems x off (qs @ rs) = workItems x off qs"
proof (induction qs)
  case (Cons q qs)
  then show ?case
    by (cases q) (auto simp: meets_def split: option.splits)
qed simp

lemma workItems_rev:
  assumes "laid b its cs" "\<forall>q\<in>set its. fst q < iEnd x \<longrightarrow> 0 < Size (snd q)"
    and "\<forall>q\<in>set its. fst q \<le> piv \<longleftrightarrow> fst q < iEnd x" "iStart x < iEnd x"
  shows "workItems x off (rev (filter (\<lambda>q. fst q \<le> piv) its)) =
     rev (map (item x off) (filter (meets x) its))"
  using assms(1-3)
proof (induction b its cs rule: laid.induct)
  case (2 b o' obj ps c cs)
  let ?q = "(o', obj)"
  have sz: "Size obj = int (length c)"
    using 2 read_object.size_content by auto
  have later: "o' + Size obj \<le> fst r \<and> (fst r < iEnd x \<longrightarrow> 0 < Size (snd r))" if "r \<in> set ps" for r
    using 2(2,3) laid_bounds [of _ ps cs r] that sz by auto
  have IH: "workItems x off (rev (filter (\<lambda>q. fst q \<le> piv) ps)) =
      rev (map (item x off) (filter (meets x) ps))"
    using 2 by auto
  show ?case
  proof (cases "o' < iEnd x")
    case False
    then have "\<not> meets x r" if "r \<in> set ps" for r
      using later [OF that] sz by (auto simp: meets_iff)
    with False 2(4) IH show ?thesis
      by (auto simp: meets_iff filter_empty_conv)
  next
    case True
    then have piv: "o' \<le> piv" and pos: "0 < Size obj" using 2(3,4) by auto
    show ?thesis
    proof (cases "meets x ?q")
      case m: True
      have all: "\<forall>q\<in>set (rev (filter (\<lambda>q. fst q \<le> piv) ps)). meets x q"
      proof
        fix r assume "r \<in> set (rev (filter (\<lambda>q. fst q \<le> piv) ps))"
        then have "r \<in> set ps" "fst r < iEnd x" using 2(4) by auto
        then show "meets x r"
          using later [of r] m assms(4) pos by (auto simp: meets_iff)
      qed
      have "workItems x off [?q] = [item x off ?q]"
        using m workItems_all [of "[?q]" x off "[]"] by simp
      then have "workItems x off (rev (filter (\<lambda>q. fst q \<le> piv) ps) @ [?q]) =
          workItems x off (rev (filter (\<lambda>q. fst q \<le> piv) ps)) @ [item x off ?q]"
        using workItems_all [OF all, of off "[?q]"] workItems_all [OF all, of off "[]"] by simp
      then show ?thesis using piv m IH by simp
    next
      case nm: False
      then have none: "workItems x off [?q] = []"
        by (auto simp: meets_def split: option.splits)
      have "workItems x off (rev (filter (\<lambda>q. fst q \<le> piv) ps) @ [?q]) =
          workItems x off (rev (filter (\<lambda>q. fst q \<le> piv) ps))"
      proof (cases "\<forall>q\<in>set (rev (filter (\<lambda>q. fst q \<le> piv) ps)). meets x q")
        case True
        then show ?thesis
          using none workItems_all [OF True, of off "[?q]"] workItems_all [OF True, of off "[]"] by simp
      qed (use workItems_stop in blast)
      then show ?thesis using piv nm IH by simp
    qed
  qed
qed auto


section \<open>Carrying out the reads\<close>

text \<open>A work item whose region gets the content's bytes, whatever was in the buffer.\<close>

definition good :: "byte list \<Rightarrow> int \<Rightarrow> nat \<Rightarrow> workItem \<Rightarrow> bool" where
  "good content off len w \<longleftrightarrow> wlo w < whi w \<and> whi w \<le> len \<and> nat off + whi w \<le> length content \<and>
     (\<forall>d. length d = whi w - wlo w \<longrightarrow> (\<exists>e. ReadAt (wobj w) d (woff w) =
        (take (whi w - wlo w) (drop (nat off + wlo w) content), int (whi w - wlo w), e) \<and>
        (e = None \<or> e = Some EOF)))"

lemma run_work_good:
  assumes "\<forall>i\<in>set is. good content off (length p) (ws ! i)" "run_work ws is p res = (p', res')"
  shows "length p' = length p \<and>
    (\<forall>j < length p. p' ! j = (if \<exists>i\<in>set is. wlo (ws ! i) \<le> j \<and> j < whi (ws ! i)
        then content ! (nat off + j) else p ! j)) \<and>
    (\<forall>i. i \<in> set is \<longrightarrow> fst (res' i) = int (whi (ws ! i) - wlo (ws ! i)) \<and>
        (snd (res' i) = None \<or> snd (res' i) = Some EOF)) \<and>
    (\<forall>i. i \<notin> set is \<longrightarrow> res' i = res i)"
  using assms
proof (induction "is" arbitrary: p res)
  case Nil
  then show ?case by simp
next
  case (Cons i "is")
  let ?w = "ws ! i"
  have g: "good content off (length p) ?w" using Cons.prems(1) by simp
  then have "length (dst p ?w) = whi ?w - wlo ?w"
    by (auto simp: dst_def good_def min_def)
  with g obtain e where rd: "ReadAt (wobj ?w) (dst p ?w) (woff ?w) =
      (take (whi ?w - wlo ?w) (drop (nat off + wlo ?w) content), int (whi ?w - wlo ?w), e)"
    and e: "e = None \<or> e = Some EOF"
    unfolding good_def by blast
  let ?d = "take (whi ?w - wlo ?w) (drop (nat off + wlo ?w) content)"
  let ?p = "put_dst p ?w ?d"
  have len: "length ?p = length p"
    using g by (auto simp: put_dst_def good_def)
  have nth: "?p ! j = (if wlo ?w \<le> j \<and> j < whi ?w then content ! (nat off + j) else p ! j)"
    if "j < length p" for j
    using g that by (auto simp: put_dst_def good_def nth_append)
  have rest: "run_work ws is ?p (res(i := (int (whi ?w - wlo ?w), e))) = (p', res')"
    using Cons.prems(2) rd by simp
  have "\<forall>i\<in>set is. good content off (length ?p) (ws ! i)"
    using Cons.prems(1) len by simp
  from Cons.IH [OF this rest] show ?case
    using nth e unfolding len by (cases "i \<in> set is") auto
qed

lemma collect_full:
  assumes "\<forall>i\<in>set is. fst (res i) = int (whi (ws ! i) - wlo (ws ! i)) \<and>
      (snd (res i) = None \<or> snd (res i) = Some EOF)"
  shows "collect ws res is n = (n + (\<Sum>i\<leftarrow>is. int (whi (ws ! i) - wlo (ws ! i))), None)"
  using assms by (induction "is" arbitrary: n) (auto split: prod.splits)

section \<open>The parts tile the object\<close>

lemma overlap_sum:
  assumes "laid b its cs"
  shows "(\<Sum>q\<leftarrow>its. max 0 (min e (fst q + Size (snd q)) - max a (fst q))) =
     max 0 (min e (b + int (length (concat cs))) - max a b)"
  using assms
proof (induction b its cs rule: laid.induct)
  case (2 b o' obj ps c cs)
  then have "Size obj = int (length c)" "o' = b"
    using read_object.size_content by auto
  with 2 show ?case by (auto simp: max_def min_def)
qed auto

lemma laid_covers:
  assumes "laid b its cs" "b \<le> k" "k < b + int (length (concat cs))"
  shows "\<exists>q\<in>set its. fst q \<le> k \<and> k < fst q + Size (snd q)"
  using assms
proof (induction b its cs rule: laid.induct)
  case (2 b o' obj ps c cs)
  then have "Size obj = int (length c)" "o' = b"
    using read_object.size_content by auto
  with 2 show ?case by (cases "k < b + int (length c)") auto
qed auto

lemma laid_content:
  assumes "laid b its cs" "q \<in> set its"
  shows "\<exists>c. read_object (snd q) c \<and>
     (\<forall>m n. m + n \<le> length c \<longrightarrow>
        take n (drop m c) = take n (drop (nat (fst q - b) + m) (concat cs)))"
  using assms
proof (induction b its cs rule: laid.induct)
  case (2 b o' obj ps c cs)
  then have o': "o' = b" and l: "laid (b + int (length c)) ps cs" and c: "read_object obj c" by auto
  show ?case
  proof (cases "q = (o', obj)")
    case True
    with c o' show ?thesis by (intro exI [of _ c]) auto
  next
    case False
    with 2 have q: "q \<in> set ps" by auto
    from 2(1) [OF l q] obtain d where d: "read_object (snd q) d"
      "\<forall>m n. m + n \<le> length d \<longrightarrow>
        take n (drop m d) = take n (drop (nat (fst q - (b + int (length c))) + m) (concat cs))" by blast
    have "nat (fst q - b) = length c + nat (fst q - (b + int (length c)))"
      using laid_bounds [OF l q] by linarith
    with d show ?thesis by (intro exI [of _ d]) (simp add: add.commute add.left_commute)
  qed
qed auto


lemma item_good:
  assumes l: "laid 0 its cs" and q: "q \<in> set its" and m: "meets x q"
    and off: "0 \<le> off" "iStart x = off" "iEnd x \<le> off + int len" "iEnd x \<le> int (length (concat cs))"
  shows "good (concat cs) off len (item x off q) \<and>
    int (whi (item x off q) - wlo (item x off q)) = max 0 (min (iEnd x) (fst q + Size (snd q)) - max off (fst q))"
proof -
  let ?w = "item x off q"
  define a where "a = max off (fst q)"
  define b where "b = min (iEnd x) (fst q + Size (snd q))"
  have ab: "a < b" using m off(2) by (simp add: meets_iff a_def b_def)
  have lo: "off \<le> a" "fst q \<le> a" and hi: "b \<le> iEnd x" "b - fst q \<le> Size (snd q)"
    by (auto simp: a_def b_def)
  have w: "wobj ?w = snd q" "wlo ?w = nat (a - off)" "whi ?w = nat (b - off)" "woff ?w = a - fst q"
    using m off(2) by (simp_all add: item_meets a_def b_def)
  have n: "whi ?w - wlo ?w = nat (b - a)" unfolding w using lo ab by linarith
  obtain c where c: "read_object (snd q) c" and
    cc: "\<And>m n. m + n \<le> length c \<Longrightarrow> take n (drop m c) = take n (drop (nat (fst q) + m) (concat cs))"
    using laid_content [OF l q] by auto
  have sz: "Size (snd q) = int (length c)" using c read_object.size_content by auto
  have q0: "0 \<le> fst q" using laid_bounds [OF l q] by simp
  have "\<exists>e. ReadAt (wobj ?w) d (woff ?w) =
        (take (whi ?w - wlo ?w) (drop (nat off + wlo ?w) (concat cs)), int (whi ?w - wlo ?w), e) \<and>
        (e = None \<or> e = Some EOF)" if d: "length d = whi ?w - wlo ?w" for d
  proof -
    have "d \<noteq> []" using d n ab by auto
    moreover have k: "0 \<le> a - fst q" "a - fst q + int (length d) \<le> int (length c)"
      using d n ab sz lo hi by auto
    ultimately have "ReadAt (snd q) d (a - fst q) =
        (take (length d) (drop (nat (a - fst q)) c), int (length d), None)"
      using read_object.read_exact [OF c] by blast
    moreover have "take (length d) (drop (nat (a - fst q)) c) =
        take (length d) (drop (nat off + wlo ?w) (concat cs))"
    proof -
      have "nat (fst q) + nat (a - fst q) = nat off + wlo ?w"
        using off(1) q0 lo unfolding w by linarith
      moreover have "nat (a - fst q) + length d \<le> length c"
        using k by linarith
      ultimately show ?thesis using cc by metis
    qed
    ultimately show ?thesis using d w by auto
  qed
  then show ?thesis
    using ab lo hi off n w unfolding good_def by (auto simp flip: a_def b_def)
qed

lemma sum_rev_upt: "(\<Sum>i\<leftarrow>rev [0..<length ws]. f (ws ! i)) = (\<Sum>w\<leftarrow>ws. (f w :: int))"
proof -
  have "(\<Sum>i\<leftarrow>rev [0..<length ws]. f (ws ! i)) = (\<Sum>i\<leftarrow>[0..<length ws]. f (ws ! i))"
    by (simp flip: rev_map)
  also have "\<dots> = (\<Sum>w\<leftarrow>map ((!) ws) [0..<length ws]. f w)"
    by (simp add: comp_def)
  finally show ?thesis by (simp add: map_nth)
qed

lemma sum_filter_zero: "(\<And>q. q \<in> set xs \<Longrightarrow> \<not> P q \<Longrightarrow> f q = 0) \<Longrightarrow>
    (\<Sum>q\<leftarrow>filter P xs. f q) = (\<Sum>q\<leftarrow>xs. (f q :: int))"
  by (induction xs) auto

text \<open>
  The read of a tiled object: exactly the bytes of the concatenation, and the count and
  the nil error that go with them, whatever the order of the reads.
\<close>

lemma concatenated_ReadAt_tiled:
  assumes B: "btree_laws B" and l: "laid 0 (bt_Ascend B (parts c)) cs" and ne: "[] \<notin> set (butlast cs)"
    and sz: "csize c = int (length (concat cs))"
    and sched: "\<And>n. set (sched n) = {..<n}"
    and off: "0 \<le> off" "off < csize c" and p: "p \<noteq> []"
    and fits: "[] \<notin> set cs \<or> off + int (length p) \<le> csize c"
  shows "\<exists>p'. concatenated_ReadAt B sched c p off =
      (p', min (int (length p)) (csize c - off), None) \<and>
      reads_from (concat cs) off p (p', min (int (length p)) (csize c - off), None)"
proof -
  define e where "e = (if csize c < off + int (length p) then csize c else off + int (length p))"
  define x where "x = \<lparr>iStart = off, iEnd = e\<rparr>"
  define its where "its = bt_Ascend B (parts c)"
  define ws where "ws = workItems x off (bt_DescendLessOrEqual B (off + int (length p) - 1) (parts c))"
  define ord where "ord = (if concurrent c then sched (length ws) else [0..<length ws])"
  have lenp: "0 < int (length p)" using p by simp
  have oe: "off < e" "e \<le> off + int (length p)" "e \<le> csize c"
    using off lenp by (auto simp: e_def)
  have xs: "iStart x = off" "iEnd x = e" by (simp_all add: x_def)
  have l': "laid 0 its cs" using l by (simp add: its_def)
  have piv: "\<forall>q\<in>set its. fst q \<le> off + int (length p) - 1 \<longleftrightarrow> fst q < iEnd x"
  proof
    fix q assume q: "q \<in> set its"
    have "[] \<notin> set cs \<Longrightarrow> fst q < csize c"
      using laid_bounds [OF l' q] laid_nonempty [OF l' _ q] sz by simp
    then show "fst q \<le> off + int (length p) - 1 \<longleftrightarrow> fst q < iEnd x"
      using fits by (auto simp: xs e_def)
  qed
  have pos: "\<forall>q\<in>set its. fst q < iEnd x \<longrightarrow> 0 < Size (snd q)"
    using tiles_positive [OF l' ne] oe sz by (auto simp: xs)
  have "ws = workItems x off (rev (filter (\<lambda>q. fst q \<le> off + int (length p) - 1) its))"
    using B by (simp add: ws_def its_def btree_laws_def)
  also have "\<dots> = rev (map (item x off) (filter (meets x) its))"
    using workItems_rev [OF l' pos piv] oe by (simp add: xs)
  finally have ws: "ws = rev (map (item x off) (filter (meets x) its))" .
  have it: "good (concat cs) off (length p) (item x off q) \<and>
     int (whi (item x off q) - wlo (item x off q)) = max 0 (min e (fst q + Size (snd q)) - max off (fst q))"
    if "q \<in> set its" "meets x q" for q
    using item_good [OF l' that off(1)] oe sz by (auto simp: xs)
  have g: "good (concat cs) off (length p) (ws ! i)" if "i < length ws" for i
  proof -
    have "ws ! i \<in> set ws" using that by (rule nth_mem)
    then show ?thesis unfolding ws using it by auto
  qed
  have ord: "set ord = {..<length ws}" by (auto simp: ord_def sched)
  obtain p' res where run: "run_work ws ord p (\<lambda>_. (0, None)) = (p', res)"
    by (cases "run_work ws ord p (\<lambda>_. (0, None))")
  have R: "length p' = length p"
    "\<And>j. j < length p \<Longrightarrow> p' ! j = (if \<exists>i<length ws. wlo (ws ! i) \<le> j \<and> j < whi (ws ! i)
        then concat cs ! (nat off + j) else p ! j)"
    "\<And>i. i < length ws \<Longrightarrow> fst (res i) = int (whi (ws ! i) - wlo (ws ! i)) \<and>
        (snd (res i) = None \<or> snd (res i) = Some EOF)"
    using run_work_good [OF _ run, of "concat cs" off] g ord by auto
  have "(\<Sum>i\<leftarrow>rev [0..<length ws]. int (whi (ws ! i) - wlo (ws ! i))) = (\<Sum>w\<leftarrow>ws. int (whi w - wlo w))"
    by (rule sum_rev_upt)
  also have "\<dots> = (\<Sum>q\<leftarrow>filter (meets x) its. int (whi (item x off q) - wlo (item x off q)))"
    by (simp add: ws comp_def flip: rev_map)
  also have "\<dots> = (\<Sum>q\<leftarrow>filter (meets x) its. max 0 (min e (fst q + Size (snd q)) - max off (fst q)))"
    using it by (intro arg_cong [of _ _ sum_list] map_cong) auto
  also have "\<dots> = (\<Sum>q\<leftarrow>its. max 0 (min e (fst q + Size (snd q)) - max off (fst q)))"
    by (rule sum_filter_zero) (auto simp: meets_iff xs)
  also have "\<dots> = e - off"
    using overlap_sum [OF l', of e off] oe sz off by simp
  finally have col: "collect ws res (rev [0..<length ws]) 0 = (e - off, None)"
    using collect_full [of "rev [0..<length ws]" res ws 0] R(3) by auto
  have k: "e - off = min (int (length p)) (csize c - off)"
    by (auto simp: e_def)
  have "take (nat (e - off)) p' = take (nat (e - off)) (drop (nat off) (concat cs))"
  proof (rule nth_equalityI)
    show "length (take (nat (e - off)) p') = length (take (nat (e - off)) (drop (nat off) (concat cs)))"
      using R(1) oe sz off by auto
    fix j assume "j < length (take (nat (e - off)) p')"
    then have j: "j < length p" "off + int j < e" using R(1) by auto
    obtain q where q: "q \<in> set its" "fst q \<le> off + int j" "off + int j < fst q + Size (snd q)"
      using laid_covers [OF l', of "off + int j"] off j oe sz by auto
    then have m: "meets x q" using oe j by (auto simp: meets_iff xs)
    then have "item x off q \<in> set ws" using q by (auto simp: ws)
    then obtain i where i: "i < length ws" "ws ! i = item x off q" by (auto simp: in_set_conv_nth)
    have "wlo (ws ! i) \<le> j \<and> j < whi (ws ! i)"
      unfolding i(2) using m q j by (auto simp: item_meets xs)
    with R(2) [OF j(1)] i(1) have "p' ! j = concat cs ! (nat off + j)" by auto
    then show "take (nat (e - off)) p' ! j = take (nat (e - off)) (drop (nat off) (concat cs)) ! j"
      using j oe sz off by simp
  qed
  then have "reads_from (concat cs) off p (p', min (int (length p)) (csize c - off), None)"
    using R(1) sz k by (simp add: reads_from_def)
  moreover have "concatenated_ReadAt B sched c p off = (p', e - off, None)"
    using p off run col unfolding concatenated_ReadAt_def ord_def
    by (cases "concurrent c") (simp_all add: Let_def not_le flip: e_def x_def ws_def)
  ultimately show ?thesis using k by auto
qed


text \<open>
  With an empty part at the end, a read that goes past the end begins with that part: it meets no
  read, and the iteration is over.
\<close>

lemma concatenated_ReadAt_empty_last:
  assumes B: "btree_laws B" and l: "laid 0 (bt_Ascend B (parts c)) cs" and last: "cs \<noteq> []" "last cs = []"
    and sz: "csize c = int (length (concat cs))" and sched: "set (sched 0) = {}"
    and off: "off < csize c" "csize c < off + int (length p)"
  shows "concatenated_ReadAt B sched c p off = (p, 0, Some UnexpectedEOF)"
proof -
  define its where "its = bt_Ascend B (parts c)"
  obtain ds where cs: "cs = ds @ [[]]" using last by (cases cs rule: rev_cases) auto
  have "length its = length ds + 1" using laid_length [OF l] by (simp add: its_def cs)
  then obtain qs q where its: "its = qs @ [q]" "length qs = length ds" by (cases its rule: rev_cases) auto
  obtain o' obj where q: "q = (o', obj)" by (cases q)
  have "laid 0 (qs @ [q]) (ds @ [[]])" using l unfolding its_def [symmetric] its(1) cs .
  then have "o' = csize c" "read_object obj []" by (simp_all add: laid_append [OF its(2)] q sz cs)
  then have e: "o' = csize c" "Size obj = 0" using read_object.size_content by fastforce+
  have "bt_DescendLessOrEqual B (off + int (length p) - 1) (parts c) =
      rev (filter (\<lambda>q. fst q \<le> off + int (length p) - 1) its)"
    using B by (simp add: its_def btree_laws_def)
  then have "workItems \<lparr>iStart = off, iEnd = csize c\<rparr> off (bt_DescendLessOrEqual B (off + int (length p) - 1) (parts c)) = []"
    using off by (simp add: its(1) q e Intersection_def)
  then show ?thesis using off sched by (auto simp: concatenated_ReadAt_def Let_def)
qed


section \<open>The concatenation is an object\<close>

lemma concat_objects_tiled:
  assumes B: "btree_laws B" and objs: "list_all2 read_object objs cs" and multi: "length objs \<noteq> 1"
  shows "\<exists>c ds. concat_objects B sched conc objs = \<lparr>Size = csize c, ReadAt = concatenated_ReadAt B sched c\<rparr> \<and>
    laid 0 (bt_Ascend B (parts c)) ds \<and> [] \<notin> set (butlast ds) \<and> concat ds = concat cs \<and>
    csize c = int (length (concat cs)) \<and> (concat cs \<noteq> [] \<longrightarrow> ds \<noteq> [] \<and> last ds = last cs)"
proof -
  obtain t off where ins: "insert_parts B objs 0 (bt_New B) = (t, off)"
    by (cases "insert_parts B objs 0 (bt_New B)")
  define c where "c = \<lparr>parts = t, csize = off, concurrent = conc, cpos = 0\<rparr>"
  have "tiles (bt_Ascend B (bt_New B)) []"
    using B by (simp add: btree_laws_def tiles_def)
  from insert_parts_tiles [OF B objs this] obtain ds where
    ds: "tiles (bt_Ascend B t) ds" "concat ds = concat cs" "off = int (length (concat ds))"
      "cs \<noteq> [] \<longrightarrow> ds \<noteq> [] \<and> last ds = last cs"
    by (auto simp: ins)
  moreover have "concat_objects B sched conc objs = \<lparr>Size = csize c, ReadAt = concatenated_ReadAt B sched c\<rparr>"
    using multi by (simp add: concat_objects_def ins c_def)
  ultimately show ?thesis by (intro exI [of _ c] exI [of _ ds]) (auto simp: c_def tiles_def)
qed

text \<open>What a read at an offset that is not negative gives, in every case.\<close>

lemma concat_reads:
  assumes B: "btree_laws B" and objs: "list_all2 read_object objs cs"
    and sched: "\<And>n. set (sched n) = {..<n}" and p: "0 \<le> off" "p \<noteq> []"
  shows "Size (concat_objects B sched conc objs) = int (length (concat cs)) \<and>
    (if int (length (concat cs)) \<le> off then ReadAt (concat_objects B sched conc objs) p off = (p, 0, Some EOF)
     else if last cs \<noteq> [] \<or> off + int (length p) \<le> int (length (concat cs))
     then reads_from (concat cs) off p (ReadAt (concat_objects B sched conc objs) p off)
     else ReadAt (concat_objects B sched conc objs) p off = (p, 0, Some UnexpectedEOF))"
proof (cases "length objs = 1")
  case True
  with objs obtain obj c where o: "objs = [obj]" "cs = [c]" "read_object obj c"
    by (auto simp: length_Suc_conv list_all2_Cons1)
  then show ?thesis
    using read_object.size_content [OF o(3)] read_object.read_past [OF o(3) _ p(2), of off]
      read_object.read_inside [OF o(3) p(1) _ p(2)] p by (auto simp: concat_objects_def)
next
  case False
  obtain c ds where c: "concat_objects B sched conc objs = \<lparr>Size = csize c, ReadAt = concatenated_ReadAt B sched c\<rparr>"
    and l: "laid 0 (bt_Ascend B (parts c)) ds" "[] \<notin> set (butlast ds)" "concat ds = concat cs"
    and sz: "csize c = int (length (concat ds))" and last: "concat cs \<noteq> [] \<longrightarrow> ds \<noteq> [] \<and> last ds = last cs"
    using concat_objects_tiled [OF B objs False, of sched conc] by auto
  have inside: "reads_from (concat cs) off p (concatenated_ReadAt B sched c p off)"
    if off: "off < csize c" and fits: "last cs \<noteq> [] \<or> off + int (length p) \<le> csize c"
  proof -
    have "concat cs \<noteq> []" using off p(1) sz l(3) by (auto simp del: concat_eq_Nil_conv)
    then have "[] \<notin> set ds" if "last cs \<noteq> []"
      using that l(2) last by (cases ds rule: rev_cases) auto
    with fits have "[] \<notin> set ds \<or> off + int (length p) \<le> csize c" by blast
    from concatenated_ReadAt_tiled [OF B l(1,2) sz sched p(1) off p(2) this] show ?thesis unfolding l(3) by metis
  qed
  have "concatenated_ReadAt B sched c p off = (p, 0, Some UnexpectedEOF)"
    if "off < csize c" "last cs = []" "csize c < off + int (length p)"
  proof -
    have "concat cs \<noteq> []" using that(1) p(1) sz l(3) by (auto simp del: concat_eq_Nil_conv)
    with last that(2) have "ds \<noteq> []" "last ds = []" by auto
    moreover have "set (sched 0) = {}" using sched [of 0] by simp
    ultimately show ?thesis using concatenated_ReadAt_empty_last [OF B l(1) _ _ sz _ that(1,3)] by blast
  qed
  moreover have "concatenated_ReadAt B sched c p off = (p, 0, Some EOF)" if "csize c \<le> off"
    using that p(2) by (simp add: concatenated_ReadAt_def)
  ultimately show ?thesis using inside sz l(3) by (auto simp: c not_le)
qed

text \<open>
  A read that the parts can fill is exact even when the last part is empty: it never gets to
  the end of the object.
\<close>

lemma concat_reads_inside:
  assumes "btree_laws B" and "list_all2 read_object objs cs"
    and "\<And>n. set (sched n) = {..<n}"
    and p: "0 \<le> off" "off + int (length p) \<le> int (length (concat cs))" "p \<noteq> []"
  shows "reads_from (concat cs) off p (ReadAt (concat_objects B sched conc objs) p off)"
proof -
  have "0 < int (length p)" using p(3) by simp
  then have "\<not> int (length (concat cs)) \<le> off" using p(2) by linarith
  then show ?thesis using concat_reads [OF assms(1-3) p(1,3), of conc] p(2) by simp
qed

lemma concat_objects_object:
  assumes "btree_laws B" and "list_all2 read_object objs cs" and "cs = [] \<or> last cs \<noteq> []"
    and "\<And>n. mset (sched n) = mset [0..<n]"
  shows "read_object (concat_objects B sched conc objs) (concat cs)"
proof
  have sched: "set (sched n) = {..<n}" for n
    using mset_eq_setD [OF assms(4)] by (simp add: lessThan_atLeast0)
  note reads = concat_reads [OF assms(1,2) sched, where conc = conc]
  show "Size (concat_objects B sched conc objs) = int (length (concat cs))"
    using reads [of 0 "[0]"] by simp
  fix off :: int and p :: "byte list"
  show "ReadAt (concat_objects B sched conc objs) p off = (p, 0, Some EOF)"
    if "int (length (concat cs)) \<le> off" "p \<noteq> []"
    using reads [of off p] that by (simp add: order.trans [OF of_nat_0_le_iff that(1)])
  show "reads_from (concat cs) off p (ReadAt (concat_objects B sched conc objs) p off)"
    if "0 \<le> off" "off < int (length (concat cs))" "p \<noteq> []"
    using reads [of off p] that assms(3) by auto
qed

text \<open>
  C18: The concatenation of objects, each holding its own bytes, in the sequential version and in
  the concurrent one for every order in which the goroutines complete.  Its size is that of the
  concatenation of the bytes.  A read of at least one byte, at an offset that is not negative: at or
  after the end it reports end of file; before the end, when the last part is not empty, it fills the
  buffer with exactly the bytes of the concatenation at that offset, up to its end, and so it does with
  an empty last part when it stays inside the object.  Empty parts before the last do not matter.
  A read that starts before the end and goes past it, with an empty last part, gives nothing and
  reports an unexpected end of file, although there are bytes to be read.
\<close>

theorem concat_reads_concatenation:
  assumes "btree_laws B" and "list_all2 read_object objs cs" and "\<And>n. mset (sched n) = mset [0..<n]"
    and "x \<in> {Concat B sched objs, ConcurrentConcat B sched objs}" and "0 \<le> off" "p \<noteq> []"
  shows "Size x = int (length (concat cs)) \<and>
    (if int (length (concat cs)) \<le> off then ReadAt x p off = (p, 0, Some EOF)
     else if last cs \<noteq> [] \<or> off + int (length p) \<le> int (length (concat cs))
     then reads_from (concat cs) off p (ReadAt x p off)
     else ReadAt x p off = (p, 0, Some UnexpectedEOF))"
proof -
  have sched: "set (sched n) = {..<n}" for n
    using mset_eq_setD [OF assms(3)] by (simp add: lessThan_atLeast0)
  obtain conc where x: "x = concat_objects B sched conc objs"
    using assms(4) by (auto simp: Concat_def ConcurrentConcat_def)
  show ?thesis unfolding x by (rule concat_reads [OF assms(1,2) sched assms(5,6)])
qed

text \<open>Five bytes read across three parts, and the same read when an empty part follows.\<close>

theorem concat_reads_concatenation_witness:
  "reads_from [1, 2, 3, 4, 5] 1 (replicate 9 0)
     (ReadAt (ConcurrentConcat list_btree (\<lambda>n. rev [0..<n])
        [bytes_object [1, 2, 3], bytes_object [], bytes_object [4, 5]]) (replicate 9 0) 1) \<and>
   ReadAt (Concat list_btree (\<lambda>n. rev [0..<n])
      [bytes_object [1, 2, 3], bytes_object [4, 5], bytes_object []]) (replicate 9 0) 1 =
     (replicate 9 0, 0, Some UnexpectedEOF)"
proof -
  let ?sched = "\<lambda>n. rev [0..<n]" and ?p = "replicate 9 0 :: byte list"
  let ?objs = "[bytes_object [1, 2, 3], bytes_object [], bytes_object [4, 5]]"
  let ?objs' = "[bytes_object [1, 2, 3], bytes_object [4, 5], bytes_object []]"
  have s: "\<And>n. mset (?sched n) = mset [0..<n]" by simp
  have objs: "list_all2 read_object ?objs [[1, 2, 3], [], [4, 5]]" "list_all2 read_object ?objs' [[1, 2, 3], [4, 5], []]"
    by (simp_all add: bytes.read_object_axioms)
  have x: "ConcurrentConcat list_btree ?sched ?objs \<in> {Concat list_btree ?sched ?objs, ConcurrentConcat list_btree ?sched ?objs}"
    "Concat list_btree ?sched ?objs' \<in> {Concat list_btree ?sched ?objs', ConcurrentConcat list_btree ?sched ?objs'}"
    by simp_all
  have p: "?p \<noteq> []" "(0 :: int) \<le> 1" by simp_all
  show ?thesis
    using concat_reads_concatenation [OF list_btree_laws objs(1) s x(1) p(2,1)]
      concat_reads_concatenation [OF list_btree_laws objs(2) s x(2) p(2,1)] by simp
qed

end
