(* ===== verification/ReadAhead.thy ===== *)
theory ReadAhead
  imports Prelude
begin

text \<open>
  \<open>pkg/caching/readahead.go\<close>: the controller that watches the reads of one object and fetches
  the blocks that a sequential reader will ask for next.  Each fetch is a goroutine that holds a
  token of a semaphore shared by all objects, so the controller's loop runs interleaved with the
  ends of earlier fetches: a step relation.
\<close>

section \<open>The controller\<close>

record ReadAheadController =
  ra_window :: int
  ra_bsize :: int   \<comment> \<open>\<open>slicer.Bsize()\<close>\<close>
  ra_numBlocks :: int
  ra_pos :: int
  ra_runCount :: int
  ra_runLength :: int
  ra_nextBlock :: int

definition NewReadAheadController :: "int \<Rightarrow> int \<Rightarrow> int \<Rightarrow> ReadAheadController" where
  "NewReadAheadController window bsize objSize =
     \<lparr>ra_window = window, ra_bsize = bsize, ra_numBlocks = (objSize + bsize - 1) div bsize,
      ra_pos = 0, ra_runCount = 0, ra_runLength = 0, ra_nextBlock = 1\<rparr>"

text \<open>
  The part of \<open>Update\<close> before its loop, for a read of \<open>n\<close> bytes at \<open>off\<close>: the run goes on, or a
  new one starts.  The loop's variables \<open>damper\<close> and \<open>limit\<close> follow.
\<close>

definition Update_run :: "int \<Rightarrow> int \<Rightarrow> ReadAheadController \<Rightarrow> ReadAheadController" where
  "Update_run off n rac =
     (let currBlock = off div ra_bsize rac;
          rac1 = (if ra_pos rac \<noteq> off
                  then rac\<lparr>ra_runCount := 1, ra_runLength := n, ra_nextBlock := currBlock + 1\<rparr>
                  else rac\<lparr>ra_runCount := ra_runCount rac + 1, ra_runLength := ra_runLength rac + n,
                           ra_nextBlock := (if ra_nextBlock rac \<le> currBlock then currBlock + 1 else ra_nextBlock rac)\<rparr>)
      in rac1\<lparr>ra_pos := off + n\<rparr>)"

definition Update_damper :: "ReadAheadController \<Rightarrow> int" where
  "Update_damper rac = (ra_runLength rac + ra_bsize rac - 1) div ra_bsize rac"

definition Update_limit :: "int \<Rightarrow> ReadAheadController \<Rightarrow> int" where
  "Update_limit off rac = off div ra_bsize rac + ra_window rac"

section \<open>Interleaving\<close>

text \<open>
  \<open>rs_loop\<close> is the pending loop of an \<open>Update\<close> that holds the controller's lock, with its
  \<open>damper\<close> and \<open>limit\<close>; \<open>rs_free\<close> the semaphore's free tokens, \<open>rs_running\<close> the blocks being
  fetched, \<open>rs_others\<close> the tokens that the controllers of other objects hold.
\<close>

record ra_state =
  rs_rac :: ReadAheadController
  rs_loop :: "(int \<times> int) option"
  rs_free :: nat
  rs_running :: "int list"
  rs_others :: nat

text \<open>The loop's condition but for the token, which is acquired last.\<close>

definition wants_block :: "int \<Rightarrow> int \<Rightarrow> ReadAheadController \<Rightarrow> bool" where
  "wants_block damper limit rac \<longleftrightarrow>
     ra_nextBlock rac \<le> limit \<and> damper > 0 \<and> ra_nextBlock rac < ra_numBlocks rac"

text \<open>
  \<open>Update\<close> when the semaphore gives \<open>tokens\<close> of the tokens that its loop asks for: the controller,
  and the blocks for which it has started \<open>readBlock\<close>.
\<close>

fun Update_loop :: "int \<Rightarrow> int \<Rightarrow> nat \<Rightarrow> ReadAheadController \<Rightarrow> ReadAheadController \<times> int list" where
  "Update_loop damper limit 0 rac = (rac, [])"
| "Update_loop damper limit (Suc tokens) rac =
     (if wants_block damper limit rac
      then (case Update_loop (damper - 1) limit tokens (rac\<lparr>ra_nextBlock := ra_nextBlock rac + 1\<rparr>) of
              (rac', blocks) \<Rightarrow> (rac', ra_nextBlock rac # blocks))
      else (rac, []))"

definition Update :: "int \<Rightarrow> int \<Rightarrow> nat \<Rightarrow> ReadAheadController \<Rightarrow> ReadAheadController \<times> int list" where
  "Update off n tokens rac =
     (let rac1 = Update_run off n rac in Update_loop (Update_damper rac1) (Update_limit off rac1) tokens rac1)"

text \<open>Interleaved with the rest of the program, the same loop is a sequence of steps.\<close>

inductive ra_step :: "ra_state \<Rightarrow> ra_state \<Rightarrow> bool" where
  update: "rs_loop s = None \<Longrightarrow> rac = Update_run off n (rs_rac s) \<Longrightarrow>
     ra_step s (s\<lparr>rs_rac := rac, rs_loop := Some (Update_damper rac, Update_limit off rac)\<rparr>)"
    if "0 \<le> off" and "0 \<le> n"
| launch: "rs_loop s = Some (damper, limit) \<Longrightarrow> rac = rs_rac s \<Longrightarrow> wants_block damper limit rac \<Longrightarrow>
     rs_free s = Suc k \<Longrightarrow>
     ra_step s (s\<lparr>rs_rac := rac\<lparr>ra_nextBlock := ra_nextBlock rac + 1\<rparr>, rs_loop := Some (damper - 1, limit),
                  rs_free := k, rs_running := ra_nextBlock rac # rs_running s\<rparr>)"
| leave: "rs_loop s = Some (damper, limit) \<Longrightarrow> \<not> wants_block damper limit (rs_rac s) \<or> rs_free s = 0 \<Longrightarrow>
     ra_step s (s\<lparr>rs_loop := None\<rparr>)"
| finish: "block \<in> set (rs_running s) \<Longrightarrow>
     ra_step s (s\<lparr>rs_free := Suc (rs_free s), rs_running := remove1 block (rs_running s)\<rparr>)"
| borrow: "rs_free s = Suc k \<Longrightarrow> ra_step s (s\<lparr>rs_free := k, rs_others := Suc (rs_others s)\<rparr>)"
| give_back: "rs_others s = Suc k \<Longrightarrow> ra_step s (s\<lparr>rs_free := Suc (rs_free s), rs_others := k\<rparr>)"

definition ra_init :: "int \<Rightarrow> int \<Rightarrow> int \<Rightarrow> nat \<Rightarrow> ra_state" where
  "ra_init window bsize objSize tokens =
     \<lparr>rs_rac = NewReadAheadController window bsize objSize, rs_loop = None, rs_free = tokens, rs_running = [], rs_others = 0\<rparr>"

section \<open>The invariant\<close>

definition ra_inv :: "int \<Rightarrow> int \<Rightarrow> int \<Rightarrow> nat \<Rightarrow> ra_state \<Rightarrow> bool" where
  "ra_inv window bsize objSize tokens s \<longleftrightarrow>
     ra_window (rs_rac s) = window \<and> ra_bsize (rs_rac s) = bsize \<and>
     ra_numBlocks (rs_rac s) = (objSize + bsize - 1) div bsize \<and>
     rs_free s + length (rs_running s) + rs_others s = tokens \<and> 0 < ra_nextBlock (rs_rac s) \<and>
     (\<forall>b \<in> set (rs_running s). 0 < b \<and> b < ra_numBlocks (rs_rac s)) \<and>
     (\<forall>damper limit. rs_loop s = Some (damper, limit) \<longrightarrow> limit - window < ra_nextBlock (rs_rac s))"

lemma ra_inv_init: "ra_inv window bsize objSize tokens (ra_init window bsize objSize tokens)"
  by (simp add: ra_inv_def ra_init_def NewReadAheadController_def)

lemma Update_run_simps [simp]:
  "ra_window (Update_run off n rac) = ra_window rac" "ra_bsize (Update_run off n rac) = ra_bsize rac"
  "ra_numBlocks (Update_run off n rac) = ra_numBlocks rac" "ra_pos (Update_run off n rac) = off + n"
  "off div ra_bsize rac < ra_nextBlock (Update_run off n rac)"
  by (simp_all add: Update_run_def Let_def)

lemma ra_inv_step:
  assumes "ra_inv window bsize objSize tokens s" "ra_step s s'" "0 < bsize"
  shows "ra_inv window bsize objSize tokens s'"
  using assms(2)
proof (cases rule: ra_step.cases)
  case (update off n rac)
  have "0 \<le> off div bsize" using update assms(3) by (simp add: pos_imp_zdiv_nonneg_iff)
  moreover have "off div bsize < ra_nextBlock rac"
    using Update_run_simps(5) [of off "rs_rac s" n] update assms(1) unfolding ra_inv_def by metis
  ultimately have "0 < ra_nextBlock rac" by linarith
  with update assms(1) \<open>off div bsize < ra_nextBlock rac\<close> show ?thesis
    by (auto simp: ra_inv_def Update_limit_def)
next
  case (launch damper limit rac k)
  then show ?thesis using assms(1) by (auto simp: ra_inv_def wants_block_def)
next
  case (leave damper limit)
  then show ?thesis using assms(1) by (auto simp: ra_inv_def)
next
  case (finish block)
  then have "length (remove1 block (rs_running s)) + 1 = length (rs_running s)"
    using length_pos_if_in_set [of block "rs_running s"] by (simp add: length_remove1)
  moreover have "set (remove1 block (rs_running s)) \<subseteq> set (rs_running s)" by (rule set_remove1_subset)
  ultimately show ?thesis using finish assms(1) by (auto simp: ra_inv_def)
next
  case (borrow k)
  then show ?thesis using assms(1) by (auto simp: ra_inv_def)
next
  case (give_back k)
  then show ?thesis using assms(1) by (auto simp: ra_inv_def)
qed

text \<open>A block is launched by the loop only, and inside its window.\<close>

lemma ra_launched:
  assumes "ra_inv window bsize objSize tokens s" "ra_step s s'" "rs_running s' = b # rs_running s"
  shows "\<exists>damper limit. rs_loop s = Some (damper, limit) \<and> limit - window < b \<and> b \<le> limit"
  using assms(2)
proof (cases rule: ra_step.cases)
  case (launch damper limit rac k)
  then show ?thesis using assms(1,3) by (auto simp: ra_inv_def wants_block_def)
next
  case (finish block)
  have "length (remove1 block (rs_running s)) \<le> length (rs_running s)" by (simp add: length_remove1)
  moreover have "rs_running s' = remove1 block (rs_running s)" using finish by simp
  ultimately have "Suc (length (rs_running s)) \<le> length (rs_running s)" using assms(3) by (metis length_Cons)
  then show ?thesis by simp
qed (use assms(3) in auto)

lemma ra_reachable:
  assumes "ra_step\<^sup>*\<^sup>* (ra_init window bsize objSize tokens) s" "0 < bsize"
  shows "ra_inv window bsize objSize tokens s"
  using assms(1)
proof (induction rule: rtranclp_induct)
  case base
  show ?case by (rule ra_inv_init)
next
  case (step s s')
  then show ?case using ra_inv_step assms(2) by blast
qed

text \<open>An \<open>Update\<close> that nothing interrupts is a run of the steps.\<close>

lemma Update_loop_steps:
  assumes "rs_loop s = Some (damper, limit)" "Update_loop damper limit (rs_free s) (rs_rac s) = (rac, blocks)"
  shows "\<exists>k. ra_step\<^sup>*\<^sup>* s (s\<lparr>rs_rac := rac, rs_loop := None, rs_free := k, rs_running := rev blocks @ rs_running s\<rparr>)"
  using assms
proof (induction "rs_free s" arbitrary: s damper blocks)
  case 0
  have "ra_step s (s\<lparr>rs_loop := None\<rparr>)" using 0 by (intro ra_step.leave [OF 0(2)]) simp
  moreover have "rac = rs_rac s" "blocks = []" using 0 by simp_all
  moreover have "s\<lparr>rs_rac := rs_rac s, rs_loop := None, rs_free := rs_free s, rs_running := rs_running s\<rparr> = s\<lparr>rs_loop := None\<rparr>" by simp
  ultimately show ?case by (intro exI [of _ "rs_free s"]) (simp add: r_into_rtranclp)
next
  case (Suc k)
  show ?case
  proof (cases "wants_block damper limit (rs_rac s)")
    case False
    then have "ra_step s (s\<lparr>rs_loop := None\<rparr>)" by (intro ra_step.leave [OF Suc.prems(1)]) simp
    moreover have "rac = rs_rac s" "blocks = []" using False Suc.prems(2) by (simp_all flip: Suc.hyps(2))
    moreover have "s\<lparr>rs_rac := rs_rac s, rs_loop := None, rs_free := rs_free s, rs_running := rs_running s\<rparr> = s\<lparr>rs_loop := None\<rparr>" by simp
    ultimately show ?thesis by (intro exI [of _ "rs_free s"]) (simp add: r_into_rtranclp)
  next
    case True
    let ?rac = "rs_rac s"
    let ?s = "s\<lparr>rs_rac := ?rac\<lparr>ra_nextBlock := ra_nextBlock ?rac + 1\<rparr>, rs_loop := Some (damper - 1, limit),
      rs_free := k, rs_running := ra_nextBlock ?rac # rs_running s\<rparr>"
    have step: "ra_step s ?s" using ra_step.launch [OF Suc.prems(1) refl True Suc.hyps(2) [symmetric]] by simp
    obtain bs where bs: "Update_loop (damper - 1) limit k (?rac\<lparr>ra_nextBlock := ra_nextBlock ?rac + 1\<rparr>) = (rac, bs)"
      "blocks = ra_nextBlock ?rac # bs"
      using Suc.prems(2) True by (auto simp flip: Suc.hyps(2) split: prod.splits)
    from Suc.hyps(1) [of ?s "damper - 1" bs] bs(1) obtain j where
      "ra_step\<^sup>*\<^sup>* ?s (?s\<lparr>rs_rac := rac, rs_loop := None, rs_free := j, rs_running := rev bs @ rs_running ?s\<rparr>)" by auto
    with step show ?thesis using bs(2) by (intro exI [of _ j]) (auto intro: converse_rtranclp_into_rtranclp)
  qed
qed

lemma Update_steps:
  assumes "rs_loop s = None" "Update off n (rs_free s) (rs_rac s) = (rac, blocks)" "0 \<le> off" "0 \<le> n"
  shows "\<exists>k. ra_step\<^sup>*\<^sup>* s (s\<lparr>rs_rac := rac, rs_loop := None, rs_free := k, rs_running := rev blocks @ rs_running s\<rparr>)"
proof -
  let ?r = "Update_run off n (rs_rac s)"
  let ?s = "s\<lparr>rs_rac := ?r, rs_loop := Some (Update_damper ?r, Update_limit off ?r)\<rparr>"
  have "ra_step s ?s" by (rule ra_step.update [OF assms(3,4,1) refl])
  moreover obtain k where "ra_step\<^sup>*\<^sup>* ?s (?s\<lparr>rs_rac := rac, rs_loop := None, rs_free := k, rs_running := rev blocks @ rs_running ?s\<rparr>)"
    using Update_loop_steps [of ?s "Update_damper ?r" "Update_limit off ?r" rac blocks] assms(2) by (auto simp: Update_def Let_def)
  ultimately show ?thesis by (intro exI [of _ k]) (auto intro: converse_rtranclp_into_rtranclp)
qed

text \<open>C11:
  Whatever the reads, and however the fetches end between the steps of the controller: the
  fetches under way hold tokens of the semaphore, those that are neither free nor held for other
  objects, and each fetches a block of the object that is not the first.  A fetch is launched only while an update
  is in its loop, for a block beyond the one last read and inside the window.
\<close>

theorem read_ahead_invariant:
  assumes "ra_step\<^sup>*\<^sup>* (ra_init window bsize objSize tokens) s" "0 < bsize"
  shows "rs_free s + length (rs_running s) + rs_others s = tokens \<and>
     (\<forall>b \<in> set (rs_running s). 0 < b \<and> b < (objSize + bsize - 1) div bsize) \<and>
     (\<forall>s' b. ra_step s s' \<and> rs_running s' = b # rs_running s \<longrightarrow>
        (\<exists>damper limit. rs_loop s = Some (damper, limit) \<and> limit - window < b \<and> b \<le> limit))"
  using ra_reachable [OF assms] ra_launched [OF ra_reachable [OF assms]] by (auto simp: ra_inv_def)

theorem read_ahead_invariant_witness:
  "\<exists>s. ra_step\<^sup>*\<^sup>* (ra_init 2 4 16 1) s \<and> rs_running s = [1] \<and> rs_free s + length (rs_running s) + rs_others s = 1"
proof -
  define s0 where "s0 = ra_init 2 4 16 1"
  define r1 where "r1 = Update_run 0 4 (rs_rac s0)"
  define s1 where "s1 = s0\<lparr>rs_rac := r1, rs_loop := Some (Update_damper r1, Update_limit 0 r1)\<rparr>"
  define s2 where "s2 = s1\<lparr>rs_rac := r1\<lparr>ra_nextBlock := ra_nextBlock r1 + 1\<rparr>, rs_loop := Some (Update_damper r1 - 1, Update_limit 0 r1),
    rs_free := 0, rs_running := ra_nextBlock r1 # rs_running s1\<rparr>"
  note eval = s0_def r1_def s1_def s2_def ra_init_def NewReadAheadController_def Update_run_def Update_damper_def Update_limit_def
    wants_block_def Let_def
  have "ra_step s0 s1" unfolding s1_def r1_def by (rule ra_step.update) (simp_all add: eval)
  moreover have "ra_step s1 s2" unfolding s2_def by (rule ra_step.launch) (simp_all add: eval)
  ultimately have r: "ra_step\<^sup>*\<^sup>* (ra_init 2 4 16 1) s2" unfolding s0_def by (meson converse_rtranclp_into_rtranclp rtranclp.rtrancl_refl)
  have "rs_running s2 = [1]" by (simp add: eval)
  then show ?thesis using r read_ahead_invariant [OF r] by auto
qed

end
