(* ===== verification/SectionReader.thy ===== *)
theory SectionReader
  imports Objects
begin

text \<open>
  \<open>io.SectionReader\<close> of the standard library, through which the caches fill their blocks and
  the volume copies its files: \<open>io.ReadFull\<close> and \<open>io.Copy\<close> from a section of an object.
\<close>

section \<open>Reading a section of a source\<close>

text \<open>
  \<open>io.ReadFull\<close> on an \<open>io.SectionReader\<close> of the standard library, into \<open>buf[:size]\<close>: the
  section's \<open>Read\<close> continues at \<open>base + n\<close>, reports the end of the section and passes any
  other read on to the source's \<open>ReadAt\<close>.  A source that reads nothing and reports nothing
  is asked for ever.
\<close>

definition section_Read :: "(byte list \<Rightarrow> int \<Rightarrow> byte list \<times> int \<times> goerr option) \<Rightarrow> int \<Rightarrow> int \<Rightarrow> byte list
    \<Rightarrow> byte list \<times> int \<times> goerr option" where
  "section_Read rd at limit p =
     (if at \<ge> limit then (p, 0, Some EOF)
      else if int (length p) > limit - at then
        (case rd (take (nat (limit - at)) p) at of (d, n, err) \<Rightarrow> (d @ drop (nat (limit - at)) p, n, err))
      else rd p at)"

partial_function (option) read_loop ::
  "(byte list \<Rightarrow> int \<Rightarrow> byte list \<times> int \<times> goerr option) \<Rightarrow> int \<Rightarrow> int \<Rightarrow> byte list \<Rightarrow> nat
   \<Rightarrow> (byte list \<times> nat \<times> goerr option) option" where
  "read_loop rd base limit p n =
     (if n \<ge> length p then Some (p, n, None)
      else case section_Read rd (base + int n) limit (drop n p) of (d, k, err) \<Rightarrow>
        (case err of
           Some e \<Rightarrow> Some (take n p @ d, n + nat k, Some e)
         | None \<Rightarrow> read_loop rd base limit (take n p @ d) (n + nat k)))"

definition section_ReadFull :: "AnonymousObject \<Rightarrow> int \<Rightarrow> int \<Rightarrow> byte list \<Rightarrow> (byte list \<times> nat \<times> goerr option) option" where
  "section_ReadFull obj base sz p =
     Option.bind (read_loop (ReadAt obj) base (base + sz) p 0) (\<lambda>(p', n, err). Some
       (if n \<ge> length p then (p', n, None)
        else if n > 0 \<and> err = Some EOF then (p', n, Some UnexpectedEOF)
        else (p', n, err)))"

text \<open>A source that holds the section fills the buffer in one read.\<close>

lemma section_ReadFull_object:
  assumes obj: "read_object obj content" and b: "0 \<le> base" "base + int (length p) \<le> int (length content)"
    and sz: "int (length p) \<le> sz"
  shows "section_ReadFull obj base sz p = Some (take (length p) (drop (nat base) content), length p, None)"
proof (cases "p = []")
  case True
  then show ?thesis by (simp add: section_ReadFull_def read_loop.simps)
next
  case False
  note rd = read_object.read_exact [OF obj b False]
  have sec: "section_Read (ReadAt obj) base (base + sz) p = (take (length p) (drop (nat base) content), int (length p), None)"
    using False sz rd by (cases p) (simp_all add: section_Read_def)
  have len: "length (take (length p) (drop (nat base) content)) = length p" using b by simp
  have "read_loop (ReadAt obj) base (base + sz) p 0 =
      Some (take (length p) (drop (nat base) content), length p, None)"
    using False len sec
    by (subst read_loop.simps) (auto simp: read_loop.simps [of _ _ _ _ "length p"])
  then show ?thesis by (simp add: section_ReadFull_def)
qed

section \<open>Copying a section\<close>

text \<open>
  \<open>io.Copy\<close> from a section reader: a buffer of 32 KiB is read and written out until the section
  ends or an error stops it.  The result is what was written.
\<close>

partial_function (option) copy_loop ::
  "(byte list \<Rightarrow> int \<Rightarrow> byte list \<times> int \<times> goerr option) \<Rightarrow> int \<Rightarrow> int \<Rightarrow> byte list \<Rightarrow> byte list
   \<Rightarrow> (byte list \<times> goerr option) option" where
  "copy_loop rd at limit p out =
     (case section_Read rd at limit p of (p', n, err) \<Rightarrow>
        let out' = out @ take (nat n) p'
        in (case err of
              Some e \<Rightarrow> Some (out', if e = EOF then None else Some e)
            | None \<Rightarrow> copy_loop rd (at + n) limit p' out'))"

definition copy_section :: "AnonymousObject \<Rightarrow> int \<Rightarrow> int \<Rightarrow> (byte list \<times> goerr option) option" where
  "copy_section obj base sz = copy_loop (ReadAt obj) base (base + sz) (replicate 32768 0) []"

lemma copy_loop_object:
  assumes obj: "read_object obj content" and p: "length p = 32768"
  shows "at \<le> length content \<Longrightarrow> copy_loop (ReadAt obj) (int at) (int (length content)) p out = Some (out @ drop at content, None)"
  using p
proof (induction "length content - at" arbitrary: at p out rule: less_induct)
  case less
  show ?case
  proof (cases "at = length content")
    case True
    then show ?thesis by (subst copy_loop.simps) (simp add: section_Read_def)
  next
    case False
    then have at: "at < length content" using less.prems by simp
    define k where "k = min 32768 (length content - at)"
    have k: "0 < k" "at + k \<le> length content" using at by (auto simp: k_def)
    have tk: "take k p \<noteq> []" "length (take k p) = k" using k less.prems(2) by (auto simp: k_def)
    have "int at + int (length (take k p)) \<le> int (length content)" using tk(2) k by simp
    from read_object.read_exact [OF obj _ this tk(1)]
    have rd: "ReadAt obj (take k p) (int at) = (take k (drop at content), int k, None)" using tk(2) by simp
    have "section_Read (ReadAt obj) (int at) (int (length content)) p = (take k (drop at content) @ drop k p, int k, None)"
    proof (cases "int (length p) > int (length content) - int at")
      case True
      then have "k = nat (int (length content) - int at)" using less.prems(2) by (auto simp: k_def)
      then show ?thesis using True at rd by (simp add: section_Read_def)
    next
      case False
      then have "k = length p" using less.prems(2) by (auto simp: k_def)
      then show ?thesis using False at rd by (simp add: section_Read_def)
    qed
    note sr = this
    let ?p = "take k (drop at content) @ drop k p"
    have lp: "length ?p = 32768" using k less.prems(2) by (auto simp: k_def)
    have tp: "take k ?p = take k (drop at content)" using k by simp
    have "copy_loop (ReadAt obj) (int (at + k)) (int (length content)) ?p (out @ take k (drop at content)) =
        Some ((out @ take k (drop at content)) @ drop (at + k) content, None)"
      using less.hyps [of "at + k" ?p] k lp by (simp del: append_assoc)
    moreover have "take k (drop at content) @ drop (at + k) content = drop at content"
      by (metis add.commute append_take_drop_id drop_drop)
    ultimately have "copy_loop (ReadAt obj) (int at + int k) (int (length content)) ?p (out @ take k (drop at content)) =
        Some (out @ drop at content, None)" by simp
    then show ?thesis
      by (subst copy_loop.simps) (simp only: sr prod.case Let_def option.case nat_int tp)
  qed
qed

lemma copy_section_object:
  assumes "read_object obj content" "sz = int (length content)"
  shows "copy_section obj 0 sz = Some (content, None)"
  using copy_loop_object [OF assms(1), of "replicate 32768 0" 0 "[]"] assms(2) by (simp add: copy_section_def)

end
