(* ===== verification/Caching.thy ===== *)
theory Caching
  imports Concat DateTime ReadAhead SectionReader
begin

text \<open>
  \<open>pkg/caching\<close>: a read-through cache in front of an object.  \<open>cache.go\<close> cuts a read into
  blocks, asks a \<open>Slicer\<close> for a cached slice per block and reads their concatenation;
  \<open>mem.go\<close> is the slicer that keeps blocks in a pool of buffers; \<open>readahead.go\<close> decides which
  blocks to fetch before they are asked for.
\<close>

section \<open>Slices in memory\<close>

text \<open>A buffer of the pool, and what fills it: the buffer afterwards, the count and the error.\<close>

type_synonym fill = "byte list \<Rightarrow> (byte list \<times> nat \<times> goerr option) option"

record memBuf =
  mb_buf :: "byte list"
  mb_key :: gostring
  mb_n :: nat

definition newMemBuf :: "int \<Rightarrow> memBuf" where
  "newMemBuf bsize = \<lparr>mb_buf = replicate (nat bsize) 0, mb_key = [], mb_n = 0\<rparr>"

text \<open>\<open>Fill\<close>, under the buffer's lock.\<close>

definition memBuf_Fill :: "gostring \<Rightarrow> fill \<Rightarrow> memBuf \<Rightarrow> (memBuf \<times> goerr option) option" where
  "memBuf_Fill key ff b =
     (if mb_key b \<noteq> key then
        map_option (\<lambda>(buf, n, err). (\<lparr>mb_buf = buf, mb_key = key, mb_n = n\<rparr>, err)) (ff (mb_buf b))
      else Some (b, None))"

text \<open>
  \<open>FillAndCopyAt\<close>, under the buffer's lock: the buffer, and the caller's \<open>p\<close>, the count and
  the error.  An offset below zero is a slice out of range.
\<close>

definition FillAndCopyAt :: "gostring \<Rightarrow> fill \<Rightarrow> byte list \<Rightarrow> int \<Rightarrow> memBuf
    \<Rightarrow> (memBuf \<times> byte list \<times> int \<times> goerr option) option" where
  "FillAndCopyAt key ff p off b =
     (if p = [] then Some (b, p, 0, None)
      else Option.bind (memBuf_Fill key ff b) (\<lambda>(b', err). Some
        (case err of
           Some e \<Rightarrow> (b'\<lparr>mb_key := [], mb_n := 0\<rparr>, p, 0, Some e)
         | None \<Rightarrow>
             if off < int (mb_n b') then
               if off < 0 then (b', p, 0, Some (Panic ''slice bounds out of range''))
               else
                 let src = drop (nat off) (take (mb_n b') (mb_buf b'));
                     n = min (length p) (length src)
                 in (b', take n src @ drop n p, int n, None)
             else (b', p, 0, Some EOF))))"

record memSlice =
  ms_size :: int
  ms_key :: gostring
  ms_ff :: fill
  ms_pos :: int

text \<open>\<open>fmt.Sprintf("%s[%d,%d)", url, offset, offset+size)\<close>.\<close>

definition sprintf_d :: "int \<Rightarrow> gostring" where
  "sprintf_d n = (if n < 0 then 45 # decimal (nat (- n)) else decimal (nat n))"

definition mem_key :: "gostring \<Rightarrow> int \<Rightarrow> int \<Rightarrow> gostring" where
  "mem_key url a b = url @ [0x5B] @ sprintf_d a @ [0x2C] @ sprintf_d b @ [0x29]"

text \<open>The closure \<open>ff\<close>: a buffer smaller than the slice panics.\<close>

definition mem_fill :: "AnonymousObject \<Rightarrow> int \<Rightarrow> int \<Rightarrow> fill" where
  "mem_fill obj offset sz buf =
     (if int (length buf) < sz then Some (buf, 0, Some (Panic ''never expected''))
      else if sz < 0 then Some (buf, 0, Some (Panic ''slice bounds out of range''))
      else
        Option.bind (section_ReadFull obj offset sz (take (nat sz) buf)) (\<lambda>(d, n, err). Some
          (case err of
             Some e \<Rightarrow> (d @ drop (nat sz) buf, 0, Some e)
           | None \<Rightarrow> (d @ drop (nat sz) buf, n, None))))"

definition memSlicer_Slice :: "int \<Rightarrow> gostring \<Rightarrow> AnonymousObject \<Rightarrow> int \<Rightarrow> memSlice" where
  "memSlicer_Slice bsize url obj offset =
     (let sz = (if bsize < Size obj - offset then bsize else Size obj - offset)
      in \<lparr>ms_size = sz, ms_key = mem_key url offset (offset + sz), ms_ff = mem_fill obj offset sz, ms_pos = 0\<rparr>)"

definition memSlice_Seek :: "memSlice \<Rightarrow> int \<Rightarrow> int \<Rightarrow> memSlice \<times> (goerr + int)" where
  "memSlice_Seek ms offset whence =
     (case pos_Seek (ms_size ms) (ms_pos ms) offset whence of (p, r) \<Rightarrow> (ms\<lparr>ms_pos := p\<rparr>, r))"

interpretation mem_slice: seekable memSlice_Seek ms_pos ms_size "\<lambda>ms. True"
  by unfold_locales (auto simp: memSlice_Seek_def pos_Seek_known)

text \<open>\<open>ReadAt\<close> and \<open>ReadAhead\<close> of a slice, on the buffer the pool gave for its key.\<close>

definition memSlice_ReadAt :: "memSlice \<Rightarrow> memBuf \<Rightarrow> byte list \<Rightarrow> int \<Rightarrow> (memBuf \<times> byte list \<times> int \<times> goerr option) option" where
  "memSlice_ReadAt ms b p off = FillAndCopyAt (ms_key ms) (ms_ff ms) p off b"

definition memSlice_Read :: "memSlice \<Rightarrow> memBuf \<Rightarrow> byte list \<Rightarrow> (memSlice \<times> memBuf \<times> byte list \<times> int \<times> goerr option) option" where
  "memSlice_Read ms b p =
     map_option (\<lambda>(b', p', n, err). (ms\<lparr>ms_pos := ms_pos ms + n\<rparr>, b', p', n, err)) (memSlice_ReadAt ms b p (ms_pos ms))"

definition memSlice_ReadAhead :: "memSlice \<Rightarrow> memBuf \<Rightarrow> memBuf option" where
  "memSlice_ReadAhead ms b = map_option fst (memBuf_Fill (ms_key ms) (ms_ff ms) b)"

section \<open>Keys\<close>

text \<open>A key names the object, the offset and the end of the section it stands for.\<close>

lemma decimal_inj: "decimal m = decimal n \<Longrightarrow> m = n"
  using decimal_digits [of m] decimal_digits [of n] by metis

lemma sprintf_d_chars: "c \<in> set (sprintf_d n) \<Longrightarrow> c \<noteq> 0x5B \<and> c \<noteq> 0x2C \<and> c \<noteq> 0x29"
proof -
  have "list_all is_digit (decimal k)" for k using decimal_digits by blast
  moreover have "is_digit c \<Longrightarrow> c \<noteq> 0x5B \<and> c \<noteq> 0x2C \<and> c \<noteq> 0x29" for c by (auto simp: is_digit_def word_le_nat_alt)
  ultimately show "c \<in> set (sprintf_d n) \<Longrightarrow> c \<noteq> 0x5B \<and> c \<noteq> 0x2C \<and> c \<noteq> 0x29"
    by (auto simp: sprintf_d_def list_all_iff split: if_splits)
qed

lemma sprintf_d_inj: "sprintf_d m = sprintf_d n \<Longrightarrow> m = n"
proof -
  have no: "45 \<notin> set (decimal k)" for k
    using decimal_digits [of k] by (auto simp: list_all_iff is_digit_def word_le_nat_alt)
  have hd: "45 # xs \<noteq> decimal k" for xs k using no [of k] by (metis list.set_intros(1))
  show "sprintf_d m = sprintf_d n \<Longrightarrow> m = n"
    by (auto simp: sprintf_d_def hd hd [symmetric] split: if_splits dest!: decimal_inj)
qed

lemma split_unique:
  assumes "xs @ c # ys = xs' @ c # ys'" "c \<notin> set ys" "c \<notin> set ys'"
  shows "xs = xs' \<and> ys = ys'"
proof -
  from assms(1) obtain us where "xs @ us = xs' \<and> c # ys = us @ c # ys' \<or> xs = xs' @ us \<and> us @ c # ys = c # ys'"
    by (auto simp: append_eq_append_conv2)
  then show ?thesis using assms(2,3) by (cases us) auto
qed

lemma mem_key_inj:
  assumes "mem_key url a b = mem_key url' a' b'"
  shows "url = url' \<and> a = a' \<and> b = b'"
proof -
  have nb: "0x5B \<notin> set (sprintf_d a @ [0x2C] @ sprintf_d b @ [0x29])" for a b
    using sprintf_d_chars by fastforce
  have u: "url = url'" "sprintf_d a @ [0x2C] @ sprintf_d b @ [0x29] = sprintf_d a' @ [0x2C] @ sprintf_d b' @ [0x29]"
    using split_unique [of url "0x5B" _ url', OF _ nb nb] assms by (simp_all add: mem_key_def)
  have nc: "0x2C \<notin> set (sprintf_d b @ [0x29])" for b using sprintf_d_chars by fastforce
  have "sprintf_d a = sprintf_d a'" "sprintf_d b @ [0x29] = sprintf_d b' @ [0x29]"
    using split_unique [of "sprintf_d a" "0x2C" _ "sprintf_d a'", OF _ nc nc] u(2) by simp_all
  then show ?thesis using u(1) sprintf_d_inj by auto
qed

lemma mem_key_nonempty [simp]: "mem_key url a b \<noteq> []"
  by (simp add: mem_key_def)

section \<open>What the buffers hold\<close>

text \<open>
  \<open>src\<close> gives the bytes behind every URL.  A buffer is coherent when it is marked empty, or
  holds the section that its key names.
\<close>

definition coherent :: "int \<Rightarrow> (gostring \<Rightarrow> byte list) \<Rightarrow> memBuf \<Rightarrow> bool" where
  "coherent bsize src b \<longleftrightarrow> length (mb_buf b) = nat bsize \<and>
     (mb_key b = [] \<or> (\<exists>url a n. mb_key b = mem_key url (int a) (int (a + n)) \<and> a + n \<le> length (src url) \<and>
        int n \<le> bsize \<and> mb_n b = n \<and> take n (mb_buf b) = take n (drop a (src url))))"

lemma coherent_new: "coherent bsize src (newMemBuf bsize)"
  by (simp add: coherent_def newMemBuf_def)

text \<open>The section of block \<open>offset\<close>.\<close>

definition block_of :: "int \<Rightarrow> byte list \<Rightarrow> int \<Rightarrow> byte list" where
  "block_of bsize content offset = take (nat bsize) (drop (nat offset) content)"

lemma memBuf_Fill_coherent:
  assumes obj: "read_object obj (src url)" and b: "coherent bsize src b" and bs: "0 < bsize"
    and off: "0 \<le> offset" "offset \<le> Size obj"
    and ms: "ms = memSlicer_Slice bsize url obj offset"
  shows "\<exists>b'. memBuf_Fill (ms_key ms) (ms_ff ms) b = Some (b', None) \<and> coherent bsize src b' \<and>
     mb_key b' = ms_key ms \<and> int (mb_n b') = ms_size ms \<and> take (mb_n b') (mb_buf b') = block_of bsize (src url) offset"
proof -
  define c where "c = src url"
  define a where "a = nat offset"
  define n where "n = min (nat bsize) (length c - a)"
  have size: "Size obj = int (length c)" using read_object.size_content [OF obj] by (simp add: c_def)
  have a: "offset = int a" "a \<le> length c" using off size by (auto simp: a_def)
  have sz: "(if bsize < Size obj - offset then bsize else Size obj - offset) = int n"
    using bs a size by (auto simp: n_def min_def)
  have key: "ms_key ms = mem_key url (int a) (int (a + n))" and ff: "ms_ff ms = mem_fill obj (int a) (int n)"
    and mz: "ms_size ms = int n"
    unfolding ms memSlicer_Slice_def Let_def sz by (simp_all add: a(1))
  have n: "int n \<le> bsize" "a + n \<le> length c" using bs a(2) by (auto simp: n_def)
  have blk: "take n (drop a c) = block_of bsize c offset" by (simp add: block_of_def n_def a_def min_def)
  show ?thesis
  proof (cases "mb_key b = ms_key ms")
    case True
    then obtain url' a' n' where h: "mem_key url (int a) (int (a + n)) = mem_key url' (int a') (int (a' + n'))"
      "mb_n b = n'" "take n' (mb_buf b) = take n' (drop a' (src url'))"
      using b by (auto simp: coherent_def key)
    from mem_key_inj [OF h(1)] have "url' = url" "a' = a" "n' = n" by auto
    then show ?thesis using True h b blk by (auto simp: memBuf_Fill_def mz c_def)
  next
    case False
    have len: "length (mb_buf b) = nat bsize" using b by (simp add: coherent_def)
    then have ln: "n \<le> length (mb_buf b)" using n(1) by linarith
    have "int a + int (length (take n (mb_buf b))) \<le> int (length (src url))"
      "int (length (take n (mb_buf b))) \<le> int n"
      using n(2) ln by (simp_all add: c_def)
    from section_ReadFull_object [OF obj _ this]
    have "section_ReadFull obj (int a) (int n) (take n (mb_buf b)) = Some (take n (drop a c), n, None)"
      using ln by (simp add: c_def min_def)
    then have f: "ms_ff ms (mb_buf b) = Some (take n (drop a c) @ drop n (mb_buf b), n, None)"
      using ln by (simp add: ff mem_fill_def)
    let ?b = "\<lparr>mb_buf = take n (drop a c) @ drop n (mb_buf b), mb_key = ms_key ms, mb_n = n\<rparr>"
    have t: "length (take n (drop a c)) = n" using n(2) by simp
    have "coherent bsize src ?b"
      unfolding coherent_def using len ln n t by (auto simp: key c_def simp del: length_take intro!: exI [of _ url] exI [of _ a])
    then show ?thesis using False f t blk by (auto simp: memBuf_Fill_def mz c_def simp del: length_take)
  qed
qed

text \<open>A slice reads its block, through any coherent buffer, and leaves the buffer coherent.\<close>

lemma memSlice_reads:
  assumes obj: "read_object obj (src url)" and b: "coherent bsize src b" and bs: "0 < bsize"
    and off: "0 \<le> offset" "offset \<le> Size obj"
    and ms: "ms = memSlicer_Slice bsize url obj offset"
  shows "ms_size ms = int (length (block_of bsize (src url) offset))"
    and "p \<noteq> [] \<Longrightarrow> 0 \<le> at \<Longrightarrow> \<exists>b' p' n e. memSlice_ReadAt ms b p at = Some (b', p', n, e) \<and> coherent bsize src b' \<and>
       (if at < ms_size ms then reads_from (block_of bsize (src url) offset) at p (p', n, e)
        else (p', n, e) = (p, 0, Some EOF))"
proof -
  obtain b' where f: "memBuf_Fill (ms_key ms) (ms_ff ms) b = Some (b', None)" "coherent bsize src b'"
    "int (mb_n b') = ms_size ms" "take (mb_n b') (mb_buf b') = block_of bsize (src url) offset"
    using memBuf_Fill_coherent [OF obj b bs off ms] by blast
  have "Size obj = int (length (src url))" using read_object.size_content [OF obj] .
  then show sz: "ms_size ms = int (length (block_of bsize (src url) offset))"
    using ms bs off by (auto simp: memSlicer_Slice_def block_of_def min_def Let_def)
  assume p: "p \<noteq> []" "0 \<le> at"
  have k: "int (mb_n b') = int (length (block_of bsize (src url) offset))" using f(3) sz by simp
  show "\<exists>b' p' n e. memSlice_ReadAt ms b p at = Some (b', p', n, e) \<and> coherent bsize src b' \<and>
       (if at < ms_size ms then reads_from (block_of bsize (src url) offset) at p (p', n, e)
        else (p', n, e) = (p, 0, Some EOF))"
    using p f(1,2,4) k sz by (auto simp: memSlice_ReadAt_def FillAndCopyAt_def Let_def reads_from_def)
qed

text \<open>
  The slice as an object: what its calls return when the pool hands it the buffer \<open>b\<close>.
\<close>

definition memSlice_object :: "memSlice \<Rightarrow> memBuf \<Rightarrow> AnonymousObject" where
  "memSlice_object ms b = \<lparr>Size = ms_size ms, ReadAt = (\<lambda>p off. snd (the (memSlice_ReadAt ms b p off)))\<rparr>"

lemma memSlice_is_object:
  assumes "read_object obj (src url)" "coherent bsize src b" "0 < bsize" "0 \<le> offset" "offset \<le> Size obj"
  shows "read_object (memSlice_object (memSlicer_Slice bsize url obj offset) b) (block_of bsize (src url) offset)"
proof
  note s = memSlice_reads [where src = src and url = url, OF assms refl]
  show "Size (memSlice_object (memSlicer_Slice bsize url obj offset) b) = int (length (block_of bsize (src url) offset))"
    using s(1) by (simp add: memSlice_object_def)
  fix at :: int and p :: "byte list"
  show "0 \<le> at \<Longrightarrow> at < int (length (block_of bsize (src url) offset)) \<Longrightarrow> p \<noteq> [] \<Longrightarrow>
      reads_from (block_of bsize (src url) offset) at p (ReadAt (memSlice_object (memSlicer_Slice bsize url obj offset) b) p at)"
    using s(2) [of p at] s(1) by (auto simp: memSlice_object_def)
  show "int (length (block_of bsize (src url) offset)) \<le> at \<Longrightarrow> p \<noteq> [] \<Longrightarrow>
      ReadAt (memSlice_object (memSlicer_Slice bsize url obj offset) b) p at = (p, 0, Some EOF)"
    using s(2) [of p at] s(1) by (force simp: memSlice_object_def)
qed

section \<open>The pool\<close>

text \<open>
  The LRU list of \<open>github.com/hashicorp/golang-lru/simplelru\<close>, a parameter, and its documented
  behaviour: entries in the order of their last use, the newest first; a list that holds its
  capacity removes the oldest before it adds.
\<close>

record 'c simplelru =
  lru_New :: "int \<Rightarrow> 'c option"
  lru_Get :: "gostring \<Rightarrow> 'c \<Rightarrow> nat option \<times> 'c"
  lru_Add :: "gostring \<Rightarrow> nat \<Rightarrow> 'c \<Rightarrow> 'c"
  lru_RemoveOldest :: "'c \<Rightarrow> (gostring \<times> nat) option \<times> 'c"

definition use_entry :: "gostring \<Rightarrow> nat \<Rightarrow> (gostring \<times> nat) list \<Rightarrow> (gostring \<times> nat) list" where
  "use_entry k v es = (k, v) # filter (\<lambda>e. fst e \<noteq> k) es"

definition simplelru_laws :: "'c simplelru \<Rightarrow> ('c \<Rightarrow> (gostring \<times> nat) list) \<Rightarrow> ('c \<Rightarrow> nat) \<Rightarrow> bool" where
  "simplelru_laws L entries cap \<longleftrightarrow>
     (\<forall>n. if n \<le> 0 then lru_New L n = None else \<exists>c. lru_New L n = Some c \<and> entries c = [] \<and> cap c = nat n) \<and>
     (\<forall>k c. fst (lru_Get L k c) = map_of (entries c) k \<and> cap (snd (lru_Get L k c)) = cap c \<and>
        entries (snd (lru_Get L k c)) = (case map_of (entries c) k of None \<Rightarrow> entries c | Some v \<Rightarrow> use_entry k v (entries c))) \<and>
     (\<forall>k v c. cap (lru_Add L k v c) = cap c \<and>
        (length (entries c) < cap c \<longrightarrow> entries (lru_Add L k v c) = use_entry k v (entries c))) \<and>
     (\<forall>c. cap (snd (lru_RemoveOldest L c)) = cap c \<and> entries (snd (lru_RemoveOldest L c)) = butlast (entries c) \<and>
        fst (lru_RemoveOldest L c) = (if entries c = [] then None else Some (last (entries c))))"

text \<open>They hold of lists with a capacity, which the witnesses use.\<close>

definition list_lru :: "(nat \<times> (gostring \<times> nat) list) simplelru" where
  "list_lru = \<lparr>lru_New = (\<lambda>n. if n \<le> 0 then None else Some (nat n, [])),
     lru_Get = (\<lambda>k (n, es). case map_of es k of None \<Rightarrow> (None, (n, es)) | Some v \<Rightarrow> (Some v, (n, use_entry k v es))),
     lru_Add = (\<lambda>k v (n, es). (n, if length es < n then use_entry k v es else use_entry k v (butlast es))),
     lru_RemoveOldest = (\<lambda>(n, es). (if es = [] then None else Some (last es), (n, butlast es)))\<rparr>"

lemma list_lru_laws: "simplelru_laws list_lru snd fst"
  by (auto simp: simplelru_laws_def list_lru_def split: option.splits)

record 'c memPool =
  mp_bsize :: int
  mp_bcount :: int
  mp_next :: int
  mp_lru :: 'c
  mp_bufs :: "memBuf list"   \<comment> \<open>the buffers; a \<open>*memBuf\<close> is an index\<close>

definition newMemPool :: "'c simplelru \<Rightarrow> int \<Rightarrow> int \<Rightarrow> goerr + 'c memPool" where
  "newMemPool L bsize bcount =
     (case lru_New L bcount of
        None \<Rightarrow> Inl (Err ''must provide a positive size'')
      | Some c \<Rightarrow> Inr \<lparr>mp_bsize = bsize, mp_bcount = bcount, mp_next = 0, mp_lru = c, mp_bufs = []\<rparr>)"

definition memPool_Get :: "'c simplelru \<Rightarrow> gostring \<Rightarrow> 'c memPool \<Rightarrow> goerr + (nat \<times> 'c memPool)" where
  "memPool_Get L key mp =
     (case lru_Get L key (mp_lru mp) of
        (Some i, c) \<Rightarrow> Inr (i, mp\<lparr>mp_lru := c\<rparr>)
      | (None, c) \<Rightarrow>
          if mp_next mp < mp_bcount mp then
            let i = length (mp_bufs mp)
            in Inr (i, mp\<lparr>mp_next := mp_next mp + 1, mp_bufs := mp_bufs mp @ [newMemBuf (mp_bsize mp)],
                          mp_lru := lru_Add L key i c\<rparr>)
          else
            (case lru_RemoveOldest L c of
               (Some (k, i), c') \<Rightarrow> Inr (i, mp\<lparr>mp_lru := lru_Add L key i c'\<rparr>)
             | (None, c') \<Rightarrow> Inl (Panic ''interface conversion'')))"

text \<open>
  Goroutines take a buffer from the pool and use it later, each under a lock of its own, and the
  pool may have given the buffer to another key in between.  \<open>cs_calls\<close> are the calls between
  the two: the slice, its buffer, and the read or the read-ahead to be done.
\<close>

datatype request = Read_at "byte list" int | Read_ahead

record 'c cache_state =
  cs_pool :: "'c memPool"
  cs_calls :: "(memSlice \<times> nat \<times> request) list"

inductive cache_step :: "'c simplelru \<Rightarrow> (memSlice \<Rightarrow> bool) \<Rightarrow> 'c cache_state \<Rightarrow> 'c cache_state \<Rightarrow> bool"
  for L served where
  get: "served ms \<Longrightarrow> memPool_Get L (ms_key ms) (cs_pool s) = Inr (i, mp) \<Longrightarrow>
     cache_step L served s (s\<lparr>cs_pool := mp, cs_calls := (ms, i, r) # cs_calls s\<rparr>)"
| read: "(ms, i, Read_at p off) \<in> set (cs_calls s) \<Longrightarrow> 0 \<le> off \<Longrightarrow>
     memSlice_ReadAt ms (mp_bufs (cs_pool s) ! i) p off = Some (b, p', n, err) \<Longrightarrow>
     cache_step L served s (s\<lparr>cs_pool := (cs_pool s)\<lparr>mp_bufs := (mp_bufs (cs_pool s))[i := b]\<rparr>,
                              cs_calls := remove1 (ms, i, Read_at p off) (cs_calls s)\<rparr>)"
| ahead: "(ms, i, Read_ahead) \<in> set (cs_calls s) \<Longrightarrow>
     memSlice_ReadAhead ms (mp_bufs (cs_pool s) ! i) = Some b \<Longrightarrow>
     cache_step L served s (s\<lparr>cs_pool := (cs_pool s)\<lparr>mp_bufs := (mp_bufs (cs_pool s))[i := b]\<rparr>,
                              cs_calls := remove1 (ms, i, Read_ahead) (cs_calls s)\<rparr>)"

text \<open>The slices of objects that hold what stands behind their URL.\<close>

definition serves :: "int \<Rightarrow> (gostring \<Rightarrow> byte list) \<Rightarrow> memSlice \<Rightarrow> bool" where
  "serves bsize src ms \<longleftrightarrow> (\<exists>url obj offset. read_object obj (src url) \<and> 0 \<le> offset \<and> offset \<le> Size obj \<and>
     ms = memSlicer_Slice bsize url obj offset)"

text \<open>
  The invariant: the list has an entry per buffer, as many as were made; no two entries share a
  buffer; the buffers are coherent.
\<close>

definition pool_ok :: "('c \<Rightarrow> (gostring \<times> nat) list) \<Rightarrow> ('c \<Rightarrow> nat) \<Rightarrow> (gostring \<Rightarrow> byte list) \<Rightarrow> 'c memPool \<Rightarrow> bool" where
  "pool_ok entries cap src mp \<longleftrightarrow>
     mp_next mp = int (length (mp_bufs mp)) \<and> mp_next mp \<le> mp_bcount mp \<and> 0 < mp_bcount mp \<and>
     cap (mp_lru mp) = nat (mp_bcount mp) \<and>
     distinct (map fst (entries (mp_lru mp))) \<and> distinct (map snd (entries (mp_lru mp))) \<and>
     set (map snd (entries (mp_lru mp))) = {..<length (mp_bufs mp)} \<and>
     list_all (coherent (mp_bsize mp) src) (mp_bufs mp)"

lemma filter_key_absent: "map_of es k = None \<Longrightarrow> filter (\<lambda>e. fst e \<noteq> k) es = es"
  by (force simp: map_of_eq_None_iff filter_id_conv)

lemma use_entry_perm:
  assumes "distinct (map fst es)" "map_of es k = Some v"
  shows "mset (use_entry k v es) = mset es"
  using assms
proof (induction es)
  case (Cons e es)
  show ?case
  proof (cases "fst e = k")
    case True
    then have "map_of es k = None" using Cons.prems(1) by (auto simp: map_of_eq_None_iff)
    then show ?thesis using True Cons.prems filter_key_absent [of es k] by (cases e) (simp add: use_entry_def)
  next
    case False
    then show ?thesis using Cons by (cases e) (auto simp: use_entry_def)
  qed
qed simp

lemma memPool_Get_ok:
  assumes L: "simplelru_laws L entries cap" and ok: "pool_ok entries cap src mp"
  shows "\<exists>i mp'. memPool_Get L key mp = Inr (i, mp') \<and> pool_ok entries cap src mp' \<and> i < length (mp_bufs mp') \<and>
     map_of (entries (mp_lru mp')) key = Some i \<and> mp_bsize mp' = mp_bsize mp \<and> mp_bcount mp' = mp_bcount mp \<and>
     length (mp_bufs mp) \<le> length (mp_bufs mp')"
proof -
  let ?es = "entries (mp_lru mp)"
  obtain g c where get: "lru_Get L key (mp_lru mp) = (g, c)" by (cases "lru_Get L key (mp_lru mp)")
  have g: "g = map_of ?es key" "cap c = cap (mp_lru mp)"
    "entries c = (case map_of ?es key of None \<Rightarrow> ?es | Some v \<Rightarrow> use_entry key v ?es)"
    using L get unfolding simplelru_laws_def by (metis fst_conv snd_conv)+
  note o = ok [unfolded pool_ok_def]
  have card: "length ?es = length (mp_bufs mp)"
    using o by (metis card_lessThan distinct_card length_map)
  show ?thesis
  proof (cases "map_of ?es key")
    case (Some i)
    have m: "mset (entries c) = mset ?es" using use_entry_perm [OF _ Some] o by (simp add: g(3) Some)
    then have sets: "set (map snd (entries c)) = set (map snd ?es)" "set (map fst (entries c)) = set (map fst ?es)"
      by (metis mset_map set_mset_mset)+
    have dist: "distinct (map fst (entries c))" "distinct (map snd (entries c))"
      using m o by (metis mset_eq_imp_distinct_iff mset_map)+
    have "i \<in> set (map snd ?es)" using map_of_SomeD [OF Some] by force
    then have "i < length (mp_bufs mp)" using o by simp
    moreover have "map_of (entries c) key = Some i" by (simp add: g(3) Some use_entry_def)
    ultimately show ?thesis using o dist sets g(2) by (simp add: memPool_Get_def get g(1) Some pool_ok_def)
  next
    case None
    then have c: "entries c = ?es" by (simp add: g(3))
    have add: "cap (lru_Add L key i c') = cap c'"
      "length (entries c') < cap c' \<Longrightarrow> entries (lru_Add L key i c') = use_entry key i (entries c')" for i c'
      using L by (simp_all add: simplelru_laws_def)
    show ?thesis
    proof (cases "mp_next mp < mp_bcount mp")
      case True
      have "entries (lru_Add L key (length (mp_bufs mp)) c) = (key, length (mp_bufs mp)) # ?es"
        using add(2) [of c] True o card g(2) c filter_key_absent [OF None] by (simp add: use_entry_def nat_less_iff)
      moreover have "key \<notin> set (map fst ?es)" using None by (auto simp: map_of_eq_None_iff)
      ultimately show ?thesis using o True add(1) g(2) coherent_new [of "mp_bsize mp" src]
        by (auto simp: memPool_Get_def get g(1) None pool_ok_def lessThan_Suc Let_def)
    next
      case False
      have ne: "?es \<noteq> []" using o card False by auto
      obtain k i where last: "last ?es = (k, i)" by (cases "last ?es")
      obtain c' where rem: "lru_RemoveOldest L c = (Some (k, i), c')" "entries c' = butlast ?es" "cap c' = cap c"
        using L ne last c unfolding simplelru_laws_def by (metis fst_conv snd_conv prod.collapse)
      have es: "?es = butlast ?es @ [(k, i)]" using ne last by (metis append_butlast_last_id)
      have nk: "map_of (butlast ?es) key = None"
        using None by (auto simp: map_of_eq_None_iff dest: in_set_butlastD)
      have "length (entries c') < cap c'" using rem g(2) o card ne False by (cases ?es) auto
      then have e: "entries (lru_Add L key i c') = (key, i) # butlast ?es"
        using add(2) rem(2) filter_key_absent [OF nk] by (simp add: use_entry_def)
      have d: "distinct (map fst (butlast ?es @ [(k, i)]))" "distinct (map snd (butlast ?es @ [(k, i)]))"
        "set (map snd (butlast ?es @ [(k, i)])) = {..<length (mp_bufs mp)}"
        using o es by metis+
      have "key \<notin> set (map fst (butlast ?es))" using nk by (auto simp: map_of_eq_None_iff)
      moreover have "i < length (mp_bufs mp)" using d(3) by auto
      ultimately show ?thesis using o False d e add(1) rem g(2)
        by (auto simp: memPool_Get_def get g(1) None pool_ok_def)
    qed
  qed
qed

section \<open>Reachable states\<close>

definition cache_ok :: "('c \<Rightarrow> (gostring \<times> nat) list) \<Rightarrow> ('c \<Rightarrow> nat) \<Rightarrow> (gostring \<Rightarrow> byte list) \<Rightarrow> int \<Rightarrow> int \<Rightarrow> 'c cache_state \<Rightarrow> bool" where
  "cache_ok entries cap src bsize bcount s \<longleftrightarrow>
     pool_ok entries cap src (cs_pool s) \<and> mp_bsize (cs_pool s) = bsize \<and> mp_bcount (cs_pool s) = bcount \<and>
     (\<forall>(ms, i, r) \<in> set (cs_calls s). serves bsize src ms \<and> i < length (mp_bufs (cs_pool s)))"

lemma newMemPool_ok:
  assumes "simplelru_laws L entries cap" "newMemPool L bsize bcount = Inr mp"
  shows "cache_ok entries cap src bsize bcount \<lparr>cs_pool = mp, cs_calls = []\<rparr>"
proof (cases "bcount \<le> 0")
  case True
  then show ?thesis using assms by (simp add: newMemPool_def simplelru_laws_def)
next
  case False
  then obtain c where "lru_New L bcount = Some c" "entries c = []" "cap c = nat bcount"
    using assms(1) unfolding simplelru_laws_def by metis
  then show ?thesis using assms(2) False by (auto simp: newMemPool_def cache_ok_def pool_ok_def)
qed

lemma put_buffer_ok:
  assumes "cache_ok entries cap src bsize bcount s" "coherent bsize src b"
  shows "cache_ok entries cap src bsize bcount
     (s\<lparr>cs_pool := (cs_pool s)\<lparr>mp_bufs := (mp_bufs (cs_pool s))[i := b]\<rparr>, cs_calls := remove1 x (cs_calls s)\<rparr>)"
proof -
  have "set (remove1 x (cs_calls s)) \<subseteq> set (cs_calls s)" by (rule set_remove1_subset)
  moreover have "list_all (coherent bsize src) ((mp_bufs (cs_pool s))[i := b])"
    using assms set_update_subset_insert [of "mp_bufs (cs_pool s)" i b] by (auto simp: cache_ok_def pool_ok_def list_all_iff)
  ultimately show ?thesis using assms(1) by (auto simp: cache_ok_def pool_ok_def)
qed

lemma pending_coherent:
  assumes "cache_ok entries cap src bsize bcount s" "(ms, i, r) \<in> set (cs_calls s)"
  shows "serves bsize src ms" "coherent bsize src (mp_bufs (cs_pool s) ! i)"
  using assms by (auto simp: cache_ok_def pool_ok_def list_all_length)

lemma FillAndCopyAt_empty: "FillAndCopyAt key ff [] off b = Some (b, [], 0, None)"
  by (simp add: FillAndCopyAt_def)

lemma cache_ok_step:
  assumes L: "simplelru_laws L entries cap" and bs: "0 < bsize"
    and ok: "cache_ok entries cap src bsize bcount s" and step: "cache_step L (serves bsize src) s s'"
  shows "cache_ok entries cap src bsize bcount s'"
  using step
proof cases
  case (get ms i mp r)
  have "pool_ok entries cap src (cs_pool s)" using ok by (simp add: cache_ok_def)
  from memPool_Get_ok [OF L this, of "ms_key ms"] get(3)
  have "pool_ok entries cap src mp" "i < length (mp_bufs mp)" "mp_bsize mp = mp_bsize (cs_pool s)"
    "mp_bcount mp = mp_bcount (cs_pool s)" "length (mp_bufs (cs_pool s)) \<le> length (mp_bufs mp)" by auto
  then show ?thesis using ok get(1,2) by (fastforce simp: cache_ok_def)
next
  case (read ms i p off b p' n err)
  note c = pending_coherent [OF ok read(2)]
  obtain url obj offset where ms: "read_object obj (src url)" "0 \<le> offset" "offset \<le> Size obj" "ms = memSlicer_Slice bsize url obj offset"
    using c(1) unfolding serves_def by blast
  have "coherent bsize src b"
  proof (cases "p = []")
    case True
    then show ?thesis using read(4) c(2) by (simp add: memSlice_ReadAt_def FillAndCopyAt_empty)
  next
    case False
    then show ?thesis using memSlice_reads(2) [OF ms(1) c(2) bs ms(2-4) False read(3)] read(4) by auto
  qed
  then show ?thesis unfolding read(1) by (rule put_buffer_ok [OF ok])
next
  case (ahead ms i b)
  note c = pending_coherent [OF ok ahead(2)]
  obtain url obj offset where ms: "read_object obj (src url)" "0 \<le> offset" "offset \<le> Size obj" "ms = memSlicer_Slice bsize url obj offset"
    using c(1) unfolding serves_def by blast
  have "coherent bsize src b"
    using memBuf_Fill_coherent [OF ms(1) c(2) bs ms(2-4)] ahead(3) by (auto simp: memSlice_ReadAhead_def)
  then show ?thesis unfolding ahead(1) by (rule put_buffer_ok [OF ok])
qed

definition cache_start :: "'c memPool \<Rightarrow> 'c cache_state" where
  "cache_start mp = \<lparr>cs_pool = mp, cs_calls = []\<rparr>"

lemma cache_reachable:
  assumes "simplelru_laws L entries cap" "0 < bsize" "newMemPool L bsize bcount = Inr mp"
    "(cache_step L (serves bsize src))\<^sup>*\<^sup>* (cache_start mp) s"
  shows "cache_ok entries cap src bsize bcount s"
  using assms(4)
proof (induction rule: rtranclp_induct)
  case base
  show ?case unfolding cache_start_def by (rule newMemPool_ok [OF assms(1,3)])
next
  case (step s s')
  then show ?case using cache_ok_step [OF assms(1,2)] by blast
qed

section \<open>Reading through the cache\<close>

text \<open>
  The contract of a \<open>Slicer\<close> towards the reader: the slice at a block's offset holds the block.
\<close>

definition withCaching_ReadAt ::
  "'t btree \<Rightarrow> (nat \<Rightarrow> nat list) \<Rightarrow> int \<Rightarrow> (int \<Rightarrow> AnonymousObject) \<Rightarrow> int \<Rightarrow> byte list \<Rightarrow> int
   \<Rightarrow> byte list \<times> int \<times> goerr option" where
  "withCaching_ReadAt B sched bsize blk objSize p off =
     (if p = [] then (p, 0, None)
      else
        (case Intersection \<lparr>iStart = 0, iEnd = objSize\<rparr> \<lparr>iStart = off, iEnd = off + int (length p)\<rparr> of
           None \<Rightarrow> (p, 0, Some EOF)
         | Some overlap \<Rightarrow>
             let bstart = iStart overlap div bsize;
                 boff = iStart overlap mod bsize;
                 bend = iEnd overlap div bsize;
                 parts = map (\<lambda>block. blk (block * bsize)) [bstart..bend];
                 joined = (if length parts > 1 then ConcurrentConcat B sched parts else hd parts);
                 m = nat (iEnd overlap - iStart overlap)
             in (case ReadAt joined (take m p) boff of (d, n, err) \<Rightarrow> (d @ drop m p, n, err))))"

definition withCaching_object ::
  "'t btree \<Rightarrow> (nat \<Rightarrow> nat list) \<Rightarrow> int \<Rightarrow> (int \<Rightarrow> AnonymousObject) \<Rightarrow> int \<Rightarrow> AnonymousObject" where
  "withCaching_object B sched bsize blk objSize =
     \<lparr>Size = objSize, ReadAt = withCaching_ReadAt B sched bsize blk objSize\<rparr>"

locale slicer =
  fixes bsize :: int and blk :: "int \<Rightarrow> AnonymousObject" and content :: "byte list"
  assumes bsize_pos: "0 < bsize"
    and slice_object: "0 \<le> offset \<Longrightarrow> offset \<le> int (length content) \<Longrightarrow>
          read_object (blk offset) (block_of bsize content offset)"
begin

lemma blocks_concat:
  assumes "0 \<le> a" "a \<le> b"
  shows "concat (map (\<lambda>k. block_of bsize content (k * bsize)) [a..b]) =
     take (nat ((b + 1 - a) * bsize)) (drop (nat (a * bsize)) content)"
  using assms
proof (induction "nat (b - a)" arbitrary: a)
  case 0
  then have "a = b" by simp
  then show ?case by (simp add: block_of_def)
next
  case (Suc n)
  have "a < b" using Suc(2) by linarith
  then have "[a..b] = a # [a + 1..b]" by (simp add: upto_rec1)
  moreover have "concat (map (\<lambda>k. block_of bsize content (k * bsize)) [a + 1..b]) =
      take (nat ((b + 1 - (a + 1)) * bsize)) (drop (nat ((a + 1) * bsize)) content)"
    using Suc(1) [of "a + 1"] Suc(2,3) \<open>a < b\<close> by simp
  moreover have "nat ((a + 1) * bsize) = nat bsize + nat (a * bsize)"
    using Suc(3) bsize_pos by (simp add: algebra_simps nat_add_distrib)
  moreover have "nat ((b + 1 - a) * bsize) = nat bsize + nat ((b + 1 - (a + 1)) * bsize)"
    using \<open>a < b\<close> bsize_pos by (simp add: algebra_simps flip: nat_add_distrib)
  ultimately show ?case by (simp add: block_of_def take_add)
qed

lemma joined_reads:
  assumes B: "btree_laws B" and sched: "\<And>n. set (sched n) = {..<n}"
    and r: "0 \<le> off" "off + int (length q) \<le> int (length content)" "q \<noteq> []"
    and bstart: "bstart = off div bsize" and bend: "bend = (off + int (length q)) div bsize"
    and ps: "ps = map (\<lambda>block. blk (block * bsize)) [bstart..bend]"
    and joined: "joined = (if length ps > 1 then ConcurrentConcat B sched ps else hd ps)"
  shows "reads_from content off q (ReadAt joined q (off mod bsize)) \<and> ps \<noteq> []"
proof -
  let ?cs = "map (\<lambda>k. block_of bsize content (k * bsize)) [bstart..bend]"
  have b: "0 \<le> bstart" "bstart \<le> bend" unfolding bstart bend using r(1) bsize_pos by (simp_all add: pos_imp_zdiv_nonneg_iff zdiv_mono1)
  have bound: "k * bsize \<le> int (length content)" if "k \<le> bend" for k
  proof -
    have "k * bsize \<le> bend * bsize" using that bsize_pos by simp
    also have "\<dots> \<le> off + int (length q)" unfolding bend using minus_mod_eq_div_mult [of "off + int (length q)" bsize] 
        pos_mod_sign [OF bsize_pos, of "off + int (length q)"] by linarith
    finally show ?thesis using r(2) by simp
  qed
  have "list_all2 (\<lambda>k l. read_object (blk (k * bsize)) (block_of bsize content (l * bsize))) [bstart..bend] [bstart..bend]"
    using slice_object b bound bsize_pos by (auto simp: list_all2_same)
  then have objs: "list_all2 read_object ps ?cs" unfolding ps by (simp add: list_all2_map1 list_all2_map2)
  have ne: "ps \<noteq> []" using b ps by simp
  have j: "joined = concat_objects B sched True ps"
  proof (cases "length ps > 1")
    case False
    then have "length ps = 1" using ne by (cases ps) auto
    then show ?thesis by (simp add: joined concat_objects_def)
  qed (simp add: joined ConcurrentConcat_def)
  have off: "off = bstart * bsize + off mod bsize" "0 \<le> off mod bsize"
    unfolding bstart using bsize_pos by simp_all
  have e: "off + int (length q) < (bend + 1) * bsize"
    unfolding bend using bsize_pos by (metis add.commute int_one_le_iff_zero_less div_mult_mod_eq distrib_right mult_1 add_strict_left_mono pos_mod_bound)
  have cc: "concat ?cs = take (nat ((bend + 1 - bstart) * bsize)) (drop (nat (bstart * bsize)) content)"
    by (rule blocks_concat [OF b])
  have s: "nat (bstart * bsize) + nat (off mod bsize) = nat off"
    using off b(1) bsize_pos by (metis nat_add_distrib mult_nonneg_nonneg less_imp_le)
  have lim: "off mod bsize + int (length q) \<le> (bend + 1 - bstart) * bsize"
    using e off(1) by (simp add: algebra_simps)
  have inside: "off mod bsize + int (length q) \<le> int (length (concat ?cs))"
  proof -
    have "0 \<le> bstart * bsize" using b(1) bsize_pos by simp
    then have "int (length content) - bstart * bsize \<le> int (length content - nat (bstart * bsize))" by linarith
    then have "off mod bsize + int (length q) \<le> int (length content - nat (bstart * bsize))" using r(2) off(1) by linarith
    moreover have "off mod bsize + int (length q) \<le> int (nat ((bend + 1 - bstart) * bsize))" using lim by linarith
    ultimately show ?thesis unfolding cc length_take length_drop by (simp only: min_def simp_thms split: if_split)
  qed
  from concat_reads_inside [where conc = True, OF B objs sched off(2) inside r(3)]
  have reads: "reads_from (concat ?cs) (off mod bsize) q (ReadAt joined q (off mod bsize))" unfolding j .
  have "take (length q) (drop (nat (off mod bsize)) (concat ?cs)) = take (length q) (drop (nat off) content)"
  proof -
    have "length q \<le> nat ((bend + 1 - bstart) * bsize) - nat (off mod bsize)" using lim off(2) by linarith
    then show ?thesis unfolding cc by (simp add: drop_take add.commute s min_absorb1)
  qed
  then show ?thesis using reads inside r ne by (auto simp: reads_from_def min_def)
qed

lemma withCaching_reads:
  assumes B: "btree_laws B" and sched: "\<And>n. set (sched n) = {..<n}"
  shows "read_object (withCaching_object B sched bsize blk (int (length content))) content"
proof
  fix off :: int and p :: "byte list"
  assume a: "0 \<le> off" "off < int (length content)" "p \<noteq> []"
  have lp: "0 < int (length p)" using a(3) by simp
  define e where "e = min (int (length content)) (off + int (length p))"
  have e: "off < e" "e \<le> int (length content)" "e - off \<le> int (length p)" using a lp by (auto simp: e_def)
  define q where "q = take (nat (e - off)) p"
  have q: "int (length q) = e - off" "q \<noteq> []" using e by (auto simp: q_def)
  have i: "Intersection \<lparr>iStart = 0, iEnd = int (length content)\<rparr> \<lparr>iStart = off, iEnd = off + int (length p)\<rparr> = Some \<lparr>iStart = off, iEnd = e\<rparr>"
    using a e by (simp add: Intersection_Some e_def)
  let ?parts = "map (\<lambda>block. blk (block * bsize)) [off div bsize..(off + int (length q)) div bsize]"
  let ?joined = "if length ?parts > 1 then ConcurrentConcat B sched ?parts else hd ?parts"
  have "off + int (length q) \<le> int (length content)" using q e by simp
  from joined_reads [OF B sched a(1) this q(2) refl refl refl refl]
  obtain d n err where rd: "ReadAt ?joined q (off mod bsize) = (d, n, err)" and
    r: "n = int (length q)" "length d = length q" "take (nat n) d = take (nat n) (drop (nat off) content)" "err = None"
    using sched \<open>off + int (length q) \<le> int (length content)\<close> by (cases "ReadAt ?joined q (off mod bsize)") (auto simp: reads_from_def)
  have ee: "off + int (length q) = e" using q by simp
  have "ReadAt (withCaching_object B sched bsize blk (int (length content))) p off =
      (case ReadAt ?joined q (off mod bsize) of (d, n, err) \<Rightarrow> (d @ drop (nat (e - off)) p, n, err))"
    unfolding ee using a(3) by (simp add: withCaching_object_def withCaching_ReadAt_def Let_def i flip: q_def)
  then have "ReadAt (withCaching_object B sched bsize blk (int (length content))) p off = (d @ drop (nat (e - off)) p, n, err)"
    unfolding rd by simp
  moreover have "min (int (length p)) (int (length content) - off) = e - off" by (auto simp: e_def)
  moreover have "length d = nat (e - off)" using r(2) q(1) by linarith
  ultimately show "reads_from content off p (ReadAt (withCaching_object B sched bsize blk (int (length content))) p off)"
    using r q(1) e by (auto simp: reads_from_def)
next
  fix off :: int and p :: "byte list"
  assume a: "int (length content) \<le> off" "p \<noteq> []"
  then have "Intersection \<lparr>iStart = 0, iEnd = int (length content)\<rparr> \<lparr>iStart = off, iEnd = off + int (length p)\<rparr> = None"
    by (simp add: Intersection_None)
  then show "ReadAt (withCaching_object B sched bsize blk (int (length content))) p off = (p, 0, Some EOF)"
    using a by (simp add: withCaching_object_def withCaching_ReadAt_def)
qed (simp add: withCaching_object_def)

end

text \<open>
  The object behind the cache: its position, and the controller that every read but an empty one
  and one past the end informs of its offset and count.
\<close>

record withCaching =
  wc_size :: int
  wc_pos :: int
  wc_rac :: ReadAheadController

definition WithCaching :: "int \<Rightarrow> int \<Rightarrow> int \<Rightarrow> withCaching" where
  "WithCaching window bsize objSize =
     \<lparr>wc_size = objSize, wc_pos = 0, wc_rac = NewReadAheadController window bsize objSize\<rparr>"

definition withCaching_Update :: "byte list \<Rightarrow> int \<Rightarrow> int \<Rightarrow> nat \<Rightarrow> withCaching \<Rightarrow> withCaching \<times> int list" where
  "withCaching_Update p off n tokens w =
     (if p = [] \<or> Intersection \<lparr>iStart = 0, iEnd = wc_size w\<rparr> \<lparr>iStart = off, iEnd = off + int (length p)\<rparr> = None then (w, [])
      else (case Update off n tokens (wc_rac w) of (rac, blocks) \<Rightarrow> (w\<lparr>wc_rac := rac\<rparr>, blocks)))"

text \<open>\<open>Read\<close> returns the blocks whose fetches it has started as well.\<close>

definition withCaching_Read ::
  "'t btree \<Rightarrow> (nat \<Rightarrow> nat list) \<Rightarrow> int \<Rightarrow> (int \<Rightarrow> AnonymousObject) \<Rightarrow> nat \<Rightarrow> withCaching \<Rightarrow> byte list
   \<Rightarrow> withCaching \<times> int list \<times> byte list \<times> int \<times> goerr option" where
  "withCaching_Read B sched bsize blk tokens w p =
     (case withCaching_ReadAt B sched bsize blk (wc_size w) p (wc_pos w) of (p', n, err) \<Rightarrow>
        (case withCaching_Update p (wc_pos w) n tokens w of (w', blocks) \<Rightarrow>
           (w'\<lparr>wc_pos := wc_pos w + n\<rparr>, blocks, p', n, err)))"

definition withCaching_Seek :: "withCaching \<Rightarrow> int \<Rightarrow> int \<Rightarrow> withCaching \<times> (goerr + int)" where
  "withCaching_Seek w offset whence =
     (case pos_Seek (wc_size w) (wc_pos w) offset whence of (p, r) \<Rightarrow> (w\<lparr>wc_pos := p\<rparr>, r))"

interpretation with_caching: seekable withCaching_Seek wc_pos wc_size "\<lambda>w. True"
  by unfold_locales (auto simp: withCaching_Seek_def pos_Seek_known)

text \<open>
  The slices in memory meet the contract: through any coherent buffers, as those of a warm pool
  are, and in a cold cache, whose buffers are new.
\<close>

lemma memSlicer_slicer:
  assumes "read_object obj (src url)" "0 < bsize" "\<And>offset. coherent bsize src (view offset)"
  shows "slicer bsize (\<lambda>offset. memSlice_object (memSlicer_Slice bsize url obj offset) (view offset)) (src url)"
proof (rule slicer.intro)
  fix offset assume "0 \<le> offset" "offset \<le> int (length (src url))"
  then show "read_object (memSlice_object (memSlicer_Slice bsize url obj offset) (view offset)) (block_of bsize (src url) offset)"
    using memSlice_is_object [OF assms(1,3,2)] read_object.size_content [OF assms(1)] by simp
qed (rule assms(2))

interpretation cold: slicer "int (Suc n)"
  "\<lambda>offset. memSlice_object (memSlicer_Slice (int (Suc n)) url (bytes_object s) offset) (newMemBuf (int (Suc n)))" s
  for n url s
  by (rule memSlicer_slicer [where src = "\<lambda>_. s"])
    (simp_all add: bytes.read_object_axioms coherent_new del: of_nat_Suc)

text \<open>C7:
  Reading an object through the memory cache is reading the object.  Let the pool start empty,
  and let any number of goroutines read and read ahead, of this object and of others, the steps
  of their calls interleaved in any way.  If each block's read happens upon its buffer in some
  state that can be reached, then the cached object holds the object's bytes: a read inside it
  returns exactly them, in one piece or many, and a read past the end reports end of file.
\<close>

theorem cache_is_transparent:
  assumes "simplelru_laws L entries cap" "btree_laws B" "\<And>n. mset (sched n) = mset [0..<n]"
    and "read_object obj (src url)" "0 < bsize" "newMemPool L bsize bcount = Inr mp"
    and "\<And>offset. \<exists>s i. (cache_step L (serves bsize src))\<^sup>*\<^sup>* (cache_start mp) s \<and>
           i < length (mp_bufs (cs_pool s)) \<and> view offset = mp_bufs (cs_pool s) ! i"
  shows "read_object (withCaching_object B sched bsize
      (\<lambda>offset. memSlice_object (memSlicer_Slice bsize url obj offset) (view offset)) (Size obj)) (src url)"
proof -
  have "coherent bsize src (view offset)" for offset
  proof -
    obtain s i where "(cache_step L (serves bsize src))\<^sup>*\<^sup>* (cache_start mp) s"
      "i < length (mp_bufs (cs_pool s))" "view offset = mp_bufs (cs_pool s) ! i"
      using assms(7) by blast
    with cache_reachable [OF assms(1,5,6) this(1)] show ?thesis
      by (auto simp: cache_ok_def pool_ok_def list_all_length)
  qed
  then have s: "slicer bsize (\<lambda>offset. memSlice_object (memSlicer_Slice bsize url obj offset) (view offset)) (src url)"
    using memSlicer_slicer assms(4,5) by blast
  have "set (sched n) = {..<n}" for n
    using mset_eq_setD [OF assms(3)] by (simp add: lessThan_atLeast0)
  from slicer.withCaching_reads [OF s assms(2) this] show ?thesis
    by (simp add: read_object.size_content [OF assms(4)])
qed

text \<open>
  The pool of the witness: one buffer of four bytes, given to the first block of an object of
  ten, then to all of its blocks in turn.
\<close>

definition sample_bytes :: "byte list" where
  "sample_bytes = [0, 1, 2, 3, 4, 5, 6, 7, 8, 9]"

definition sample_pool :: "(nat \<times> (gostring \<times> nat) list) memPool" where
  "sample_pool = \<lparr>mp_bsize = 4, mp_bcount = 1, mp_next = 0, mp_lru = (1, []), mp_bufs = []\<rparr>"

theorem cache_is_transparent_witness:
  "\<exists>view. read_object (withCaching_object list_btree (\<lambda>n. [0..<n]) 4
      (\<lambda>offset. memSlice_object (memSlicer_Slice 4 [0x75] (bytes_object sample_bytes) offset) (view offset)) 10) sample_bytes"
proof -
  let ?ms = "memSlicer_Slice 4 [0x75] (bytes_object sample_bytes) 0"
  have new: "newMemPool list_lru 4 1 = Inr sample_pool"
    by (simp add: newMemPool_def list_lru_def sample_pool_def)
  have served: "serves 4 (\<lambda>_. sample_bytes) ?ms"
    unfolding serves_def by (intro exI [of _ "[0x75]"] exI [of _ "bytes_object sample_bytes"] exI [of _ 0])
      (simp add: bytes.read_object_axioms bytes.size_content)
  obtain mp i where g: "memPool_Get list_lru (ms_key ?ms) sample_pool = Inr (i, mp)" "i < length (mp_bufs mp)"
    by (simp add: memPool_Get_def list_lru_def sample_pool_def Let_def)
  define s where "s = (cache_start sample_pool)\<lparr>cs_pool := mp, cs_calls := [(?ms, i, Read_ahead)]\<rparr>"
  have "cache_step list_lru (serves 4 (\<lambda>_. sample_bytes)) (cache_start sample_pool) s"
    unfolding s_def using cache_step.get [where s = "cache_start sample_pool" and served = "serves 4 (\<lambda>_. sample_bytes)" and ms = ?ms
      and L = list_lru and i = i and mp = mp and r = Read_ahead, OF served] g
    by (simp add: cache_start_def)
  then have r: "(cache_step list_lru (serves 4 (\<lambda>_. sample_bytes)))\<^sup>*\<^sup>* (cache_start sample_pool) s" by blast
  have i: "i < length (mp_bufs (cs_pool s))" using g(2) by (simp add: s_def)
  have "read_object (withCaching_object list_btree (\<lambda>n. [0..<n]) 4
      (\<lambda>offset. memSlice_object (memSlicer_Slice 4 [0x75] (bytes_object sample_bytes) offset) (mp_bufs (cs_pool s) ! i))
      (Size (bytes_object sample_bytes))) sample_bytes"
    by (rule cache_is_transparent [OF list_lru_laws list_btree_laws _ _ _ new, where src = "\<lambda>_. sample_bytes"])
      (use r i in \<open>auto simp: bytes.read_object_axioms\<close>)
  then show ?thesis by (auto simp: bytes_object_def sample_bytes_def)
qed

text \<open>C8:
  In every reachable state of the cache the pool holds at most \<open>bcount\<close> buffers, all of
  \<open>bsize\<close> bytes, an entry of the LRU list stands for each and no two entries share one, and
  whatever read is pending returns, with the bytes of its own block, although the pool may have
  given its buffer to another block since.
\<close>

theorem cache_invariant:
  assumes "simplelru_laws L entries cap" "0 < bsize" "newMemPool L bsize bcount = Inr mp"
    "(cache_step L (serves bsize src))\<^sup>*\<^sup>* (cache_start mp) s"
  shows "int (length (mp_bufs (cs_pool s))) \<le> bcount \<and> (\<forall>b \<in> set (mp_bufs (cs_pool s)). length (mb_buf b) = nat bsize) \<and>
     bij_betw snd (set (entries (mp_lru (cs_pool s)))) {..<length (mp_bufs (cs_pool s))} \<and>
     (\<forall>ms i p off. (ms, i, Read_at p off) \<in> set (cs_calls s) \<longrightarrow> p \<noteq> [] \<longrightarrow> 0 \<le> off \<longrightarrow> off < ms_size ms \<longrightarrow>
        (\<exists>url obj offset b r. ms = memSlicer_Slice bsize url obj offset \<and>
           memSlice_ReadAt ms (mp_bufs (cs_pool s) ! i) p off = Some (b, r) \<and> reads_from (block_of bsize (src url) offset) off p r))"
proof -
  have ok: "cache_ok entries cap src bsize bcount s" by (rule cache_reachable [OF assms])
  have "\<exists>url obj offset b r. ms = memSlicer_Slice bsize url obj offset \<and>
           memSlice_ReadAt ms (mp_bufs (cs_pool s) ! i) p off = Some (b, r) \<and> reads_from (block_of bsize (src url) offset) off p r"
    if c: "(ms, i, Read_at p off) \<in> set (cs_calls s)" and p: "p \<noteq> []" "0 \<le> off" "off < ms_size ms" for ms i p off
  proof -
    note pc = pending_coherent [OF ok c]
    obtain url obj offset where ms: "read_object obj (src url)" "0 \<le> offset" "offset \<le> Size obj" "ms = memSlicer_Slice bsize url obj offset"
      using pc(1) unfolding serves_def by blast
    obtain b p' n e where "memSlice_ReadAt ms (mp_bufs (cs_pool s) ! i) p off = Some (b, p', n, e)"
      "reads_from (block_of bsize (src url) offset) off p (p', n, e)"
      using memSlice_reads(2) [OF ms(1) pc(2) assms(2) ms(2-4) p(1,2)] p(3) by auto
    with ms(4) show ?thesis by blast
  qed
  moreover have "inj_on snd (set (entries (mp_lru (cs_pool s))))"
    using ok by (simp add: cache_ok_def pool_ok_def distinct_map)
  ultimately show ?thesis
    using ok by (auto simp: cache_ok_def pool_ok_def bij_betw_def list_all_iff coherent_def)
qed

theorem cache_invariant_witness:
  "\<exists>s. (cache_step list_lru (serves 4 (\<lambda>_. sample_bytes)))\<^sup>*\<^sup>* (cache_start sample_pool) s \<and>
     int (length (mp_bufs (cs_pool s))) \<le> 1 \<and> bij_betw snd (set (snd (mp_lru (cs_pool s)))) {..<length (mp_bufs (cs_pool s))}"
proof -
  have new: "newMemPool list_lru 4 1 = Inr sample_pool"
    by (simp add: newMemPool_def list_lru_def sample_pool_def)
  show ?thesis
    using cache_invariant [OF list_lru_laws _ new rtranclp.rtrancl_refl, where src = "\<lambda>_. sample_bytes"] by auto
qed

text \<open>C37:
  A read-ahead that fails is not forgotten.  Its error is logged, but the buffer keeps the key
  of the block it did not read, with a count of zero; the next read of the block through that
  buffer takes it for filled and reports end of file, whatever the source would give by then.
\<close>

theorem failed_read_ahead_poisons:
  assumes "mb_key b \<noteq> ms_key ms" "ms_ff ms (mb_buf b) = Some (buf, 0, Some e)" "p \<noteq> []" "0 \<le> off"
    "ms_key ms' = ms_key ms"
  shows "\<exists>b'. memSlice_ReadAhead ms b = Some b' \<and> memSlice_ReadAt ms' b' p off = Some (b', p, 0, Some EOF)"
  using assms by (simp add: memSlice_ReadAhead_def memSlice_ReadAt_def FillAndCopyAt_def memBuf_Fill_def)

text \<open>An object that fails, and one that holds ten bytes, at the same URL.\<close>

definition failing_object :: AnonymousObject where
  "failing_object = \<lparr>Size = 10, ReadAt = (\<lambda>p off. (p, 0, Some EIO))\<rparr>"

theorem failed_read_ahead_poisons_witness:
  "\<exists>b'. memSlice_ReadAhead (memSlicer_Slice 4 [0x75] failing_object 4) (newMemBuf 4) = Some b' \<and>
     memSlice_ReadAt (memSlicer_Slice 4 [0x75] (bytes_object sample_bytes) 4) b' [0, 0] 0 = Some (b', [0, 0], 0, Some EOF)"
proof (rule failed_read_ahead_poisons [where e = EIO and buf = "[0, 0, 0, 0]"])
  show "ms_ff (memSlicer_Slice 4 [0x75] failing_object 4) (mb_buf (newMemBuf 4)) = Some ([0, 0, 0, 0], 0, Some EIO)"
  proof -
    have z: "mb_buf (newMemBuf 4) = [0, 0, 0, 0]" by (simp add: newMemBuf_def numeral_eq_Suc)
    have "section_ReadFull failing_object 4 4 [0, 0, 0, 0] = Some ([0, 0, 0, 0], 0, Some EIO)"
      unfolding section_ReadFull_def by (subst read_loop.simps) (simp add: section_Read_def failing_object_def)
    then show ?thesis unfolding z by (simp add: memSlicer_Slice_def mem_fill_def) (simp add: failing_object_def)
  qed
qed (simp_all add: memSlicer_Slice_def newMemBuf_def failing_object_def bytes_object_def sample_bytes_def
    mem_key_nonempty [symmetric])

end
