(* ===== verification/Storage.thy ===== *)
theory Storage
  imports Inode Caching
begin

text \<open>
  \<open>pkg/storage/storage.go\<close> and \<open>pkg/storage/driver/registry.go\<close>: the drivers registered by URI
  scheme and the calls that are dispatched to them, with the driver for \<open>zero:\<close> URLs, whose
  objects pad the images.  \<open>'s\<close> is the state the drivers keep and \<open>'w\<close> the type of their
  writers.
\<close>

section \<open>net/url, a parameter\<close>

text \<open>
  The fields of \<open>url.URL\<close>, and the functions of \<open>net/url\<close> that the program calls; parsing and
  printing URLs is left to the parameter \<open>U\<close>.
\<close>

record net_url =
  u_Scheme :: gostring
  u_Opaque :: gostring
  u_User :: "gostring option"
  u_Host :: gostring
  u_Path :: gostring
  u_RawPath :: gostring
  u_ForceQuery :: bool
  u_RawQuery :: gostring
  u_Fragment :: gostring

definition zero_url :: net_url where
  "zero_url = \<lparr>u_Scheme = [], u_Opaque = [], u_User = None, u_Host = [], u_Path = [], u_RawPath = [],
     u_ForceQuery = False, u_RawQuery = [], u_Fragment = []\<rparr>"

record url_ops =
  url_Parse :: "gostring \<Rightarrow> goerr + net_url"
  url_String :: "net_url \<Rightarrow> gostring"
  url_ResolveReference :: "net_url \<Rightarrow> net_url \<Rightarrow> net_url"

section \<open>Drivers\<close>

record FileInfo_s =
  fs_Name :: gostring
  fs_Size :: int
  fs_IsDir :: bool

text \<open>
  A driver has the methods of \<open>driver.Driver\<close>; the interfaces it may implement besides are
  options, as the type switches of \<open>storage.go\<close> see them.
\<close>

record ('s, 'w) Driver =
  drv_Name :: gostring
  drv_Open :: "gostring \<Rightarrow> int \<Rightarrow> 's \<Rightarrow> goerr + Object"
  drv_Stat :: "gostring \<Rightarrow> 's \<Rightarrow> goerr + FileInfo_s"
  drv_Create :: "(gostring \<Rightarrow> 's \<Rightarrow> goerr + 'w) option"
  drv_Remove :: "(gostring \<Rightarrow> 's \<Rightarrow> 's \<times> goerr option) option"
  drv_Readdir :: "(gostring \<Rightarrow> 's \<Rightarrow> goerr + FileInfo_s list) option"
  drv_Lock :: "(gostring \<Rightarrow> 's \<Rightarrow> 's \<times> goerr option) option"
  drv_RLock :: "(gostring \<Rightarrow> 's \<Rightarrow> 's \<times> goerr option) option"

type_synonym ('s, 'w) drivers = "(gostring \<times> ('s, 'w) Driver) list"

definition Register :: "gostring \<Rightarrow> ('s, 'w) Driver option \<Rightarrow> ('s, 'w) drivers \<Rightarrow> goerr + ('s, 'w) drivers" where
  "Register scheme d ds =
     (case d of
        None \<Rightarrow> Inl (Panic ''storage: Register driver is nil'')
      | Some drv \<Rightarrow>
          if map_of ds scheme \<noteq> None then Inl (Panic ''storage: Register called twice for driver'')
          else Inr ((scheme, drv) # ds))"

definition Drivers :: "('s, 'w) drivers \<Rightarrow> gostring list" where
  "Drivers ds = sort (map fst ds)"

text \<open>\<open>ClearRegistry\<close> gives the empty registry, and the closure that puts the old one back.\<close>

definition ClearRegistry :: "('s, 'w) drivers \<Rightarrow> ('s, 'w) drivers \<times> (('s, 'w) drivers \<Rightarrow> ('s, 'w) drivers)" where
  "ClearRegistry ds = ([], \<lambda>_. ds)"

definition HasPrefix :: "gostring \<Rightarrow> gostring \<Rightarrow> bool" where
  "HasPrefix s p \<longleftrightarrow> take (length p) s = p"

definition TrimPrefix :: "gostring \<Rightarrow> gostring \<Rightarrow> gostring" where
  "TrimPrefix s p = (if HasPrefix s p then drop (length p) s else s)"

definition Find :: "url_ops \<Rightarrow> ('s, 'w) drivers \<Rightarrow> gostring \<Rightarrow> goerr + ('s, 'w) Driver" where
  "Find U ds url =
     (case url_Parse U url of
        Inl e \<Rightarrow> Inl e
      | Inr u \<Rightarrow>
          let u = (if u_Scheme u = [] then
                     (let u1 = u\<lparr>u_Scheme := bytes_of ''file''\<rparr>
                      in if \<not> HasPrefix (u_Path u1) [slash]
                         then u1\<lparr>u_Opaque := u_Path u1, u_Path := [], u_RawPath := []\<rparr> else u1)
                   else u)
          in (case map_of ds (u_Scheme u) of
                None \<Rightarrow> Inl (Err ''storage: unknown driver'')
              | Some drv \<Rightarrow> Inr drv))"

section \<open>storage.go\<close>

definition OpenContextSize :: "url_ops \<Rightarrow> ('s, 'w) drivers \<Rightarrow> gostring \<Rightarrow> int \<Rightarrow> 's \<Rightarrow> goerr + Object" where
  "OpenContextSize U ds url sz s =
     (case Find U ds url of Inl e \<Rightarrow> Inl e | Inr drv \<Rightarrow> drv_Open drv url sz s)"

definition Open :: "url_ops \<Rightarrow> ('s, 'w) drivers \<Rightarrow> gostring \<Rightarrow> 's \<Rightarrow> goerr + Object" where
  "Open U ds url s = OpenContextSize U ds url (- 1) s"

definition OpenSize :: "url_ops \<Rightarrow> ('s, 'w) drivers \<Rightarrow> gostring \<Rightarrow> int \<Rightarrow> 's \<Rightarrow> goerr + Object" where
  "OpenSize U ds url sz s = OpenContextSize U ds url sz s"

definition CreateContext :: "url_ops \<Rightarrow> ('s, 'w) drivers \<Rightarrow> gostring \<Rightarrow> 's \<Rightarrow> goerr + 'w" where
  "CreateContext U ds url s =
     (case Find U ds url of
        Inl e \<Rightarrow> Inl e
      | Inr drv \<Rightarrow>
          (case drv_Create drv of
             Some f \<Rightarrow> f url s
           | None \<Rightarrow> Inl (Err ''create not implemented'')))"

definition Create :: "url_ops \<Rightarrow> ('s, 'w) drivers \<Rightarrow> gostring \<Rightarrow> 's \<Rightarrow> goerr + 'w" where
  "Create U ds url s = CreateContext U ds url s"

definition RemoveContext :: "url_ops \<Rightarrow> ('s, 'w) drivers \<Rightarrow> gostring \<Rightarrow> 's \<Rightarrow> 's \<times> goerr option" where
  "RemoveContext U ds url s =
     (case Find U ds url of
        Inl e \<Rightarrow> (s, Some e)
      | Inr drv \<Rightarrow>
          (case drv_Remove drv of
             Some f \<Rightarrow> f url s
           | None \<Rightarrow> (s, Some (Err ''remove not implemented''))))"

definition StatContext :: "url_ops \<Rightarrow> ('s, 'w) drivers \<Rightarrow> gostring \<Rightarrow> 's \<Rightarrow> goerr + FileInfo_s" where
  "StatContext U ds url s = (case Find U ds url of Inl e \<Rightarrow> Inl e | Inr drv \<Rightarrow> drv_Stat drv url s)"

definition ReaddirContext :: "url_ops \<Rightarrow> ('s, 'w) drivers \<Rightarrow> gostring \<Rightarrow> 's \<Rightarrow> goerr + FileInfo_s list" where
  "ReaddirContext U ds url s =
     (case Find U ds url of
        Inl e \<Rightarrow> Inl e
      | Inr drv \<Rightarrow>
          (case drv_Readdir drv of
             Some f \<Rightarrow> f url s
           | None \<Rightarrow> Inl (Err ''readdir not implemented'')))"

definition LockContext :: "url_ops \<Rightarrow> ('s, 'w) drivers \<Rightarrow> gostring \<Rightarrow> 's \<Rightarrow> 's \<times> goerr option" where
  "LockContext U ds url s =
     (case Find U ds url of
        Inl e \<Rightarrow> (s, Some e)
      | Inr drv \<Rightarrow>
          (case drv_Lock drv of
             Some f \<Rightarrow> f url s
           | None \<Rightarrow> (s, Some (Err ''lock not implemented''))))"

definition RLockContext :: "url_ops \<Rightarrow> ('s, 'w) drivers \<Rightarrow> gostring \<Rightarrow> 's \<Rightarrow> 's \<times> goerr option" where
  "RLockContext U ds url s =
     (case Find U ds url of
        Inl e \<Rightarrow> (s, Some e)
      | Inr drv \<Rightarrow>
          (case drv_RLock drv of
             Some f \<Rightarrow> f url s
           | None \<Rightarrow> (s, Some (Err ''rlock not implemented''))))"

definition WithURL :: "AnonymousObject \<Rightarrow> gostring \<Rightarrow> Object" where
  "WithURL x url = AnonymousObject.extend x \<lparr>URL = url\<rparr>"

text \<open>What an object is is what it was: the contract of \<open>WithURL\<close>.\<close>

lemma WithURL_object [simp]: "AnonymousObject.truncate (WithURL x url) = x" "URL (WithURL x url) = url"
  by (simp_all add: WithURL_def AnonymousObject.defs)

section \<open>Zeros\<close>

text \<open>\<open>strconv.ParseInt(s, 10, 64)\<close>: a sign and digits, in the range of the type.\<close>

definition ParseInt :: "gostring \<Rightarrow> int option" where
  "ParseInt s =
     (let neg = (s \<noteq> [] \<and> hd s = 0x2D);
          ds = (if s \<noteq> [] \<and> (hd s = 0x2D \<or> hd s = 0x2B) then tl s else s)
      in if ds = [] \<or> \<not> list_all is_digit ds then None
         else
           let v = (if neg then - int (number_of ds) else int (number_of ds))
           in if - (2 ^ 63) \<le> v \<and> v < 2 ^ 63 then Some v else None)"

definition urlToSize :: "url_ops \<Rightarrow> gostring \<Rightarrow> goerr + int" where
  "urlToSize U url =
     (case url_Parse U url of
        Inl e \<Rightarrow> Inl e
      | Inr u \<Rightarrow>
          if u_Scheme u \<noteq> bytes_of ''zero'' then Inl (Err ''zerodriver: unsupported URI scheme'')
          else
            (case ParseInt (u_Opaque u) of
               None \<Rightarrow> Inl (Err ''zerodriver: invalid URI'')
             | Some n \<Rightarrow> Inr n))"

record zero_object =
  zo_url :: gostring
  zo_size :: int
  zo_pos :: int

definition zero_ReadAt :: "int \<Rightarrow> byte list \<Rightarrow> int \<Rightarrow> byte list \<times> int \<times> goerr option" where
  "zero_ReadAt sz p off =
     (if p = [] then (p, 0, None)
      else if off \<ge> sz then (p, 0, Some EOF)
      else
        let m = (if int (length p) < sz - off then int (length p) else sz - off)
        in (replicate (nat m) 0 @ drop (nat m) p, m, None))"

definition zero_Read :: "zero_object \<Rightarrow> byte list \<Rightarrow> zero_object \<times> byte list \<times> int \<times> goerr option" where
  "zero_Read z p = (case zero_ReadAt (zo_size z) p (zo_pos z) of (p', n, err) \<Rightarrow> (z\<lparr>zo_pos := zo_pos z + n\<rparr>, p', n, err))"

definition zero_Seek :: "zero_object \<Rightarrow> int \<Rightarrow> int \<Rightarrow> zero_object \<times> (goerr + int)" where
  "zero_Seek z offset whence = (case pos_Seek (zo_size z) (zo_pos z) offset whence of (q, r) \<Rightarrow> (z\<lparr>zo_pos := q\<rparr>, r))"

definition zero_Open :: "url_ops \<Rightarrow> gostring \<Rightarrow> int \<Rightarrow> 's \<Rightarrow> goerr + Object" where
  "zero_Open U url sz s =
     (case urlToSize U url of
        Inl e \<Rightarrow> Inl e
      | Inr n \<Rightarrow> Inr \<lparr>Size = n, ReadAt = zero_ReadAt n, URL = url\<rparr>)"

definition zero_Stat :: "url_ops \<Rightarrow> gostring \<Rightarrow> 's \<Rightarrow> goerr + FileInfo_s" where
  "zero_Stat U url s =
     (case urlToSize U url of
        Inl e \<Rightarrow> Inl e
      | Inr n \<Rightarrow> Inr \<lparr>fs_Name = sprintf_d n, fs_Size = n, fs_IsDir = False\<rparr>)"

definition zero_driver :: "url_ops \<Rightarrow> ('s, 'w) Driver" where
  "zero_driver U = \<lparr>drv_Name = bytes_of ''zerodriver'', drv_Open = zero_Open U, drv_Stat = zero_Stat U,
     drv_Create = None, drv_Remove = None, drv_Readdir = None, drv_Lock = None, drv_RLock = None\<rparr>"


definition zero_object_of :: "int \<Rightarrow> AnonymousObject" where
  "zero_object_of n = \<lparr>Size = n, ReadAt = zero_ReadAt n\<rparr>"

interpretation zeros: read_object "zero_object_of (int n)" "replicate n 0" for n
proof
  show "Size (zero_object_of (int n)) = int (length (replicate n (0 :: byte)))" by (simp add: zero_object_of_def)
  fix off :: int and p :: "byte list"
  show "int (length (replicate n (0 :: byte))) \<le> off \<Longrightarrow> p \<noteq> [] \<Longrightarrow> ReadAt (zero_object_of (int n)) p off = (p, 0, Some EOF)"
    by (simp add: zero_object_of_def zero_ReadAt_def)
  assume "0 \<le> off" "off < int (length (replicate n (0 :: byte)))" "p \<noteq> []"
  then show "reads_from (replicate n 0) off p (ReadAt (zero_object_of (int n)) p off)"
    by (auto simp: zero_object_of_def zero_ReadAt_def reads_from_def Let_def min_def)
qed

interpretation zero: seekable zero_Seek zo_pos zo_size "\<lambda>z. True"
  by unfold_locales (auto simp: zero_Seek_def pos_Seek_known)

text \<open>The number that \<open>fmt.Sprintf("zero:%d", n)\<close> writes is the one that is parsed.\<close>

lemma ParseInt_sprintf_d:
  assumes "0 \<le> n" "n < 2 ^ 63"
  shows "ParseInt (sprintf_d n) = Some n"
proof -
  let ?s = "decimal (nat n)"
  have d: "list_all is_digit ?s" "number_of ?s = nat n" using decimal_digits by blast+
  have ne: "?s \<noteq> []" by (simp add: decimal.simps [of "nat n"])
  then have "is_digit (hd ?s)" using d(1) by (cases ?s) auto
  then have "hd ?s \<noteq> 0x2D \<and> hd ?s \<noteq> 0x2B" by (auto simp: is_digit_def word_le_nat_alt)
  then show ?thesis using d ne assms by (simp add: ParseInt_def sprintf_d_def Let_def)
qed

lemma zero_Open_object:
  assumes "url_Parse U url = Inr u" "u_Scheme u = bytes_of ''zero''" "u_Opaque u = sprintf_d (int n)" "n < 2 ^ 63"
  shows "zero_Open U url sz s = Inr (WithURL (zero_object_of (int n)) url)"
  using assms ParseInt_sprintf_d [of "int n"]
  by (simp add: zero_Open_def urlToSize_def WithURL_def zero_object_of_def AnonymousObject.defs)

end
