(* ===== verification/DiskCache.thy ===== *)
theory DiskCache
  imports Storage
begin

text \<open>
  \<open>pkg/caching/disk.go\<close>: the slicer that keeps blocks as files of a directory.  A file is named by
  a hash of its block's key and carries the key as an attribute, so that a collision is found when
  the file is opened.  A block that is not there is read from its source under a lock on the name,
  and a goroutine that inherits the lock writes the file.
\<close>

section \<open>Slices on disk\<close>

text \<open>
  Third-party code: \<open>json.Marshal\<close> of a key, \<open>md5\<close> and \<open>xxhash\<close>.
\<close>

record disk_lib =
  dl_marshal :: "gostring \<Rightarrow> int \<Rightarrow> int \<Rightarrow> gostring"
  dl_md5 :: "gostring \<Rightarrow> byte list"
  dl_xxhash :: "byte list \<Rightarrow> u64"

record DiskSlicer =
  ds_root :: gostring
  ds_bsize :: int

definition NewDiskSlicer :: "gostring \<Rightarrow> int \<Rightarrow> DiskSlicer" where
  "NewDiskSlicer root bsize = \<lparr>ds_root = root, ds_bsize = bsize\<rparr>"

record diskSlice =
  dk_root :: gostring
  dk_bsize :: int
  dk_obj :: AnonymousObject
  dk_offset :: int
  dk_size :: int
  dk_key :: gostring
  dk_pos :: int

definition DiskSlicer_Slice :: "disk_lib \<Rightarrow> DiskSlicer \<Rightarrow> Object \<Rightarrow> int \<Rightarrow> diskSlice" where
  "DiskSlicer_Slice D ds obj offset =
     (let sz = (if ds_bsize ds < Size obj - offset then ds_bsize ds else Size obj - offset)
      in \<lparr>dk_root = ds_root ds, dk_bsize = ds_bsize ds, dk_obj = AnonymousObject.truncate obj, dk_offset = offset, dk_size = sz,
          dk_key = dl_marshal D (URL obj) offset sz, dk_pos = 0\<rparr>)"

text \<open>\<open>filepath.Join\<close>, and \<open>%x\<close> of bytes.\<close>

definition filepath_Join :: "gostring list \<Rightarrow> gostring" where
  "filepath_Join elems = (let es = filter (\<lambda>e. e \<noteq> []) elems in if es = [] then [] else path_Clean (join_slash es))"

definition hex_digit :: "nat \<Rightarrow> byte" where
  "hex_digit n = (if n < 10 then of_nat (0x30 + n) else of_nat (0x57 + n))"

definition sprintf_x :: "byte list \<Rightarrow> gostring" where
  "sprintf_x bs = concat (map (\<lambda>b. [hex_digit (unat b div 16), hex_digit (unat b mod 16)]) bs)"

definition cacheFname :: "disk_lib \<Rightarrow> diskSlice \<Rightarrow> gostring" where
  "cacheFname D dk =
     (let bkey = sprintf_x (dl_md5 D (dk_key dk))
      in filepath_Join [dk_root dk, bytes_of ''v0'', take 2 bkey, drop 2 bkey])"

text \<open>
  An opened file: its bytes, and its key attribute when the object has attributes.  \<open>dt_open\<close> and
  \<open>dt_check\<close> are what opening the file gives before and under the lock, \<open>dt_lock\<close> the error of
  locking, \<open>dt_buf\<close> the buffer of the pool.
\<close>

record cache_file =
  cf_obj :: AnonymousObject
  cf_key :: "(goerr + gostring) option"

record disk_turn =
  dt_open :: "goerr + cache_file"
  dt_lock :: "goerr option"
  dt_check :: "goerr + cache_file"
  dt_buf :: "byte list"

definition has_key :: "diskSlice \<Rightarrow> goerr + cache_file \<Rightarrow> bool" where
  "has_key dk r \<longleftrightarrow> (case r of Inl e \<Rightarrow> False | Inr f \<Rightarrow> cf_key f = Some (Inr (dk_key dk)))"

text \<open>
  \<open>fill\<close>: the caller's buffer, the count and the error, and the bytes that are to be written back.
  The caller's buffer is \<open>None\<close> for a read-ahead.  When another has filled the block first, the
  count is zero and the caller starts over.
\<close>

definition disk_fill :: "diskSlice \<Rightarrow> disk_turn \<Rightarrow> byte list option \<Rightarrow> int \<Rightarrow>
    ((byte list option \<times> int \<times> goerr option) \<times> byte list option) option" where
  "disk_fill dk t p off =
     (if dt_lock t \<noteq> None then Some ((p, 0, dt_lock t), None)
      else if has_key dk (dt_check t) then Some ((p, 0, None), None)
      else if (case dt_check t of Inl e \<Rightarrow> e \<noteq> ErrNotExist | Inr f \<Rightarrow> False) then
        Some ((p, 0, case dt_check t of Inl e \<Rightarrow> Some e | Inr f \<Rightarrow> None), None)
      else if dk_size dk < 0 \<or> int (length (dt_buf t)) < dk_size dk then
        Some ((p, 0, Some (Panic ''slice bounds out of range'')), None)
      else
        map_option (\<lambda>(b, m, rerr).
            if rerr \<noteq> None then ((p, 0, rerr), None)
            else if int m < dk_size dk then ((p, 0, Some UnexpectedEOF), None)
            else
              (case p of
                 None \<Rightarrow> ((None, 0, None), Some b)
               | Some q \<Rightarrow>
                   if off < 0 \<or> dk_size dk < off then ((p, 0, Some (Panic ''slice bounds out of range'')), None)
                   else
                     let n = min (length q) (length (drop (nat off) b))
                     in ((Some (take n (drop (nat off) b) @ drop n q), int n, None), Some b)))
          (section_ReadFull (dk_obj dk) (dk_offset dk) (dk_bsize dk) (take (nat (dk_size dk)) (dt_buf t))))"

text \<open>
  The loop of \<open>ReadAt\<close>, a turn for each round; it gives what was read and the bytes handed to
  write-backs.  With no turn left it is still running.
\<close>

fun disk_ReadAt_loop :: "diskSlice \<Rightarrow> disk_turn list \<Rightarrow> byte list \<Rightarrow> int \<Rightarrow>
    ((byte list \<times> int \<times> goerr option) \<times> byte list list) option" where
  "disk_ReadAt_loop dk [] p off = None"
| "disk_ReadAt_loop dk (t # ts) p off =
     (if has_key dk (dt_open t) then
        (case dt_open t of Inr f \<Rightarrow> Some (ReadAt (cf_obj f) p off, []) | Inl e \<Rightarrow> None)
      else
        Option.bind (disk_fill dk t (Some p) off) (\<lambda>((p', n, err), wb).
          let wbs = (case wb of None \<Rightarrow> [] | Some b \<Rightarrow> [b]); q = (case p' of Some q \<Rightarrow> q | None \<Rightarrow> p)
          in if err \<noteq> None \<or> n > 0 then Some ((q, n, err), wbs)
             else map_option (\<lambda>(r, w). (r, wbs @ w)) (disk_ReadAt_loop dk ts q off)))"

definition disk_ReadAt :: "diskSlice \<Rightarrow> disk_turn list \<Rightarrow> byte list \<Rightarrow> int \<Rightarrow>
    ((byte list \<times> int \<times> goerr option) \<times> byte list list) option" where
  "disk_ReadAt dk ts p off = (if p = [] then Some ((p, 0, None), []) else disk_ReadAt_loop dk ts p off)"

definition disk_Read :: "diskSlice \<Rightarrow> disk_turn list \<Rightarrow> byte list \<Rightarrow>
    (diskSlice \<times> (byte list \<times> int \<times> goerr option) \<times> byte list list) option" where
  "disk_Read dk ts p =
     map_option (\<lambda>((q, n, err), wbs). (dk\<lparr>dk_pos := dk_pos dk + n\<rparr>, (q, n, err), wbs)) (disk_ReadAt dk ts p (dk_pos dk))"

definition disk_ReadAhead :: "diskSlice \<Rightarrow> disk_turn \<Rightarrow> byte list option option" where
  "disk_ReadAhead dk t = map_option snd (disk_fill dk t None 0)"

definition disk_Seek :: "diskSlice \<Rightarrow> int \<Rightarrow> int \<Rightarrow> diskSlice \<times> (goerr + int)" where
  "disk_Seek dk offset whence =
     (case pos_Seek (dk_size dk) (dk_pos dk) offset whence of (p, r) \<Rightarrow> (dk\<lparr>dk_pos := p\<rparr>, r))"

interpretation disk_slice: seekable disk_Seek dk_pos dk_size "\<lambda>dk. True"
  by unfold_locales (auto simp: disk_Seek_def pos_Seek_known)

section \<open>The directory\<close>

record disk_file =
  df_data :: "byte list"
  df_key :: gostring
  df_csum :: u64

definition disk_open :: "(gostring \<rightharpoonup> disk_file) \<Rightarrow> gostring \<Rightarrow> goerr + cache_file" where
  "disk_open fs fname =
     (case fs fname of
        None \<Rightarrow> Inl ErrNotExist
      | Some f \<Rightarrow> Inr \<lparr>cf_obj = bytes_object (df_data f), cf_key = Some (Inr (df_key f))\<rparr>)"

text \<open>What the goroutine of \<open>fill\<close> commits.\<close>

definition write_back :: "disk_lib \<Rightarrow> diskSlice \<Rightarrow> byte list \<Rightarrow> (gostring \<rightharpoonup> disk_file) \<Rightarrow> gostring \<rightharpoonup> disk_file" where
  "write_back D dk b fs = fs(cacheFname D dk \<mapsto> \<lparr>df_data = b, df_key = dk_key dk, df_csum = dl_xxhash D b\<rparr>)"

text \<open>
  The files, and the write-backs under way, each of which holds the lock of its name.  A write-back
  ends by committing its file or, after any error, without; garbage collection may remove any file.
\<close>

record disk_state =
  dsk_files :: "gostring \<rightharpoonup> disk_file"
  dsk_writes :: "(diskSlice \<times> byte list) list"

inductive disk_step :: "disk_lib \<Rightarrow> (diskSlice \<Rightarrow> bool) \<Rightarrow> disk_state \<Rightarrow> disk_state \<Rightarrow> bool" for D served where
  fill: "served dk \<Longrightarrow> cacheFname D dk \<notin> (cacheFname D \<circ> fst) ` set (dsk_writes s) \<Longrightarrow>
     length (dt_buf t) = nat (dk_bsize dk) \<Longrightarrow> disk_fill dk t p off = Some (r, Some b) \<Longrightarrow>
     disk_step D served s (s\<lparr>dsk_writes := (dk, b) # dsk_writes s\<rparr>)"
| commit: "(dk, b) \<in> set (dsk_writes s) \<Longrightarrow>
     disk_step D served s (s\<lparr>dsk_files := write_back D dk b (dsk_files s), dsk_writes := remove1 (dk, b) (dsk_writes s)\<rparr>)"
| give_up: "(dk, b) \<in> set (dsk_writes s) \<Longrightarrow> disk_step D served s (s\<lparr>dsk_writes := remove1 (dk, b) (dsk_writes s)\<rparr>)"
| evict: "disk_step D served s (s\<lparr>dsk_files := (dsk_files s)(fname := None)\<rparr>)"

definition disk_start :: disk_state where
  "disk_start = \<lparr>dsk_files = Map.empty, dsk_writes = []\<rparr>"

section \<open>What the files hold\<close>

text \<open>
  A slice of an object that holds the bytes of its URL, and the block that the slice stands for.
  The keys of such slices have to be different for different blocks; their hashes need not be.
\<close>

definition disk_serves :: "disk_lib \<Rightarrow> DiskSlicer \<Rightarrow> (gostring \<rightharpoonup> byte list) \<Rightarrow> diskSlice \<Rightarrow> byte list \<Rightarrow> bool" where
  "disk_serves D ds src dk b \<longleftrightarrow>
     (\<exists>obj c offset. src (URL obj) = Some c \<and> read_object (AnonymousObject.truncate obj) c \<and> 0 \<le> offset \<and> offset \<le> Size obj \<and>
        dk = DiskSlicer_Slice D ds obj offset \<and> b = block_of (ds_bsize ds) c offset)"

definition keys_differ :: "disk_lib \<Rightarrow> gostring set \<Rightarrow> bool" where
  "keys_differ D urls \<longleftrightarrow> inj_on (\<lambda>(url, off, len). dl_marshal D url off len) (urls \<times> UNIV)"

lemma key_block:
  assumes "keys_differ D (dom src)" "disk_serves D ds src dk b" "disk_serves D ds src dk' b'" "dk_key dk = dk_key dk'"
  shows "b = b'"
proof -
  from assms(2) obtain o1 c1 a1 where 1: "src (URL o1) = Some c1" "dk = DiskSlicer_Slice D ds o1 a1" "b = block_of (ds_bsize ds) c1 a1"
    unfolding disk_serves_def by blast
  from assms(3) obtain o2 c2 a2 where 2: "src (URL o2) = Some c2" "dk' = DiskSlicer_Slice D ds o2 a2" "b' = block_of (ds_bsize ds) c2 a2"
    unfolding disk_serves_def by blast
  let ?sz = "\<lambda>x a. if ds_bsize ds < Size x - a then ds_bsize ds else Size x - a"
  have "(\<lambda>(url, off, len). dl_marshal D url off len) (URL o1, a1, ?sz o1 a1) = (\<lambda>(url, off, len). dl_marshal D url off len) (URL o2, a2, ?sz o2 a2)"
    using assms(4) 1(2) 2(2) by (simp add: DiskSlicer_Slice_def Let_def)
  from inj_onD [OF assms(1) [unfolded keys_differ_def] this] have "URL o1 = URL o2 \<and> a1 = a2"
    using 1(1) 2(1) by (auto simp: dom_def)
  then show ?thesis using 1 2 by simp
qed

lemma served_slice:
  assumes "disk_serves D ds src dk b" "0 < ds_bsize ds"
  shows "dk_size dk = int (length b)" "dk_bsize dk = ds_bsize ds" "int (length b) \<le> ds_bsize ds"
    "length p = length b \<Longrightarrow> section_ReadFull (dk_obj dk) (dk_offset dk) (dk_bsize dk) p = Some (b, length b, None)"
proof -
  obtain obj c offset where o: "read_object (AnonymousObject.truncate obj) c" "0 \<le> offset" "offset \<le> Size obj"
    "dk = DiskSlicer_Slice D ds obj offset" "b = block_of (ds_bsize ds) c offset"
    using assms(1) unfolding disk_serves_def by blast
  have sz: "Size obj = int (length c)" using read_object.size_content [OF o(1)] by (simp add: AnonymousObject.defs)
  show "dk_size dk = int (length b)" "dk_bsize dk = ds_bsize ds" "int (length b) \<le> ds_bsize ds"
    using o sz assms(2) by (auto simp: DiskSlicer_Slice_def block_of_def min_def Let_def)
  assume p: "length p = length b"
  have lb: "length b = min (nat (ds_bsize ds)) (length c - nat offset)" using o(5) by (simp add: block_of_def)
  then have "offset + int (length p) \<le> int (length c)" "int (length p) \<le> ds_bsize ds"
    using p o(2,3) sz assms(2) by linarith+
  from section_ReadFull_object [OF o(1,2) this] p
  have "section_ReadFull (AnonymousObject.truncate obj) offset (ds_bsize ds) p = Some (take (length b) (drop (nat offset) c), length b, None)"
    by simp
  moreover have "take (length b) (drop (nat offset) c) = b"
    unfolding o(5) block_of_def by (simp add: min_def)
  ultimately show "section_ReadFull (dk_obj dk) (dk_offset dk) (dk_bsize dk) p = Some (b, length b, None)"
    using o(4) by (simp add: DiskSlicer_Slice_def Let_def)
qed

text \<open>Opening failed for another reason than that there is no file.\<close>

definition deeper :: "goerr + cache_file \<Rightarrow> goerr option" where
  "deeper r = (case r of Inl e \<Rightarrow> if e = ErrNotExist then None else Some e | Inr f \<Rightarrow> None)"

lemma disk_fill_served:
  assumes "disk_serves D ds src dk b" "0 < ds_bsize ds" "length (dt_buf t) = nat (ds_bsize ds)"
  shows "disk_fill dk t p off = Some (
    if dt_lock t \<noteq> None then ((p, 0, dt_lock t), None)
    else if has_key dk (dt_check t) then ((p, 0, None), None)
    else if deeper (dt_check t) \<noteq> None then ((p, 0, deeper (dt_check t)), None)
    else
      (case p of
         None \<Rightarrow> ((None, 0, None), Some b)
       | Some q \<Rightarrow>
           if off < 0 \<or> int (length b) < off then ((p, 0, Some (Panic ''slice bounds out of range'')), None)
           else
             let n = min (length q) (length (drop (nat off) b))
             in ((Some (take n (drop (nat off) b) @ drop n q), int n, None), Some b)))"
proof -
  note s = served_slice [OF assms(1,2)]
  have "length (take (nat (dk_size dk)) (dt_buf t)) = length b" using s(1,3) assms(3) by simp
  from s(4) [OF this] s assms(3) show ?thesis
    by (cases "dt_check t") (auto simp: disk_fill_def deeper_def Let_def split: option.split)
qed


section \<open>The invariant\<close>

definition disk_ok :: "disk_lib \<Rightarrow> DiskSlicer \<Rightarrow> (gostring \<rightharpoonup> byte list) \<Rightarrow> disk_state \<Rightarrow> bool" where
  "disk_ok D ds src s \<longleftrightarrow>
     (\<forall>fname f. dsk_files s fname = Some f \<longrightarrow> df_csum f = dl_xxhash D (df_data f) \<and>
        (\<exists>dk. disk_serves D ds src dk (df_data f) \<and> df_key f = dk_key dk \<and> fname = cacheFname D dk)) \<and>
     (\<forall>(dk, b) \<in> set (dsk_writes s). disk_serves D ds src dk b) \<and>
     distinct (map (cacheFname D \<circ> fst) (dsk_writes s))"

lemma disk_ok_step:
  assumes "disk_ok D ds src s" "disk_step D (\<lambda>dk. \<exists>b. disk_serves D ds src dk b) s s'" "0 < ds_bsize ds"
  shows "disk_ok D ds src s'"
  using assms(2)
proof (cases rule: disk_step.cases)
  case (fill dk t p off r b)
  then obtain b' where b': "disk_serves D ds src dk b'" by blast
  have len: "length (dt_buf t) = nat (ds_bsize ds)" using fill(4) served_slice(2) [OF b' assms(3)] by simp
  have "b = b'" using fill(5) unfolding disk_fill_served [OF b' assms(3) len] by (auto split: if_splits option.splits simp: Let_def)
  then show ?thesis using fill(1,3) b' assms(1) by (auto simp: disk_ok_def)
next
  case (commit dk b)
  have b: "disk_serves D ds src dk b" using commit(2) assms(1) by (auto simp: disk_ok_def)
  have "set (remove1 (dk, b) (dsk_writes s)) \<subseteq> set (dsk_writes s)" by (rule set_remove1_subset)
  then show ?thesis using commit(1) b assms(1) by (auto simp: disk_ok_def write_back_def distinct_map inj_on_def distinct_remove1)
next
  case (give_up dk b)
  have "set (remove1 (dk, b) (dsk_writes s)) \<subseteq> set (dsk_writes s)" by (rule set_remove1_subset)
  then show ?thesis using give_up(1) assms(1) by (auto simp: disk_ok_def distinct_map inj_on_def distinct_remove1)
next
  case (evict fname)
  then show ?thesis using assms(1) by (auto simp: disk_ok_def)
qed

lemma disk_reachable:
  assumes "(disk_step D (\<lambda>dk. \<exists>b. disk_serves D ds src dk b))\<^sup>*\<^sup>* disk_start s" "0 < ds_bsize ds"
  shows "disk_ok D ds src s"
  using assms(1)
proof (induction rule: rtranclp_induct)
  case base
  show ?case by (simp add: disk_ok_def disk_start_def)
next
  case (step s s')
  then show ?case using disk_ok_step assms(2) by blast
qed

section \<open>Reading through the disk\<close>

text \<open>
  What a turn may see: opening the slice's file gives the file of a state of the cache, or fails,
  or gives an object without the slice's key.
\<close>

definition sees :: "disk_lib \<Rightarrow> diskSlice \<Rightarrow> (disk_state \<Rightarrow> bool) \<Rightarrow> goerr + cache_file \<Rightarrow> bool" where
  "sees D dk P r \<longleftrightarrow> (has_key dk r \<longrightarrow> (\<exists>s. P s \<and> r = disk_open (dsk_files s) (cacheFname D dk)))"

definition turn_error :: "disk_turn \<Rightarrow> goerr option" where
  "turn_error t = (if dt_lock t \<noteq> None then dt_lock t else deeper (dt_check t))"

lemma hit_reads:
  assumes "keys_differ D (dom src)" "disk_serves D ds src dk b" "sees D dk (disk_ok D ds src) (dt_open t)" "has_key dk (dt_open t)"
    and "p \<noteq> []" "0 \<le> off" "off < int (length b)"
  shows "\<exists>f. dt_open t = Inr f \<and> reads_from b off p (ReadAt (cf_obj f) p off)"
proof -
  obtain s where s: "disk_ok D ds src s" "dt_open t = disk_open (dsk_files s) (cacheFname D dk)"
    using assms(3,4) unfolding sees_def by blast
  then obtain f where f: "dsk_files s (cacheFname D dk) = Some f" "df_key f = dk_key dk"
    using assms(4) by (auto simp: has_key_def disk_open_def split: option.splits)
  then obtain dk' where "disk_serves D ds src dk' (df_data f)" "df_key f = dk_key dk'"
    using s(1) unfolding disk_ok_def by blast
  then have "df_data f = b" using key_block [OF assms(1) _ assms(2)] f(2) by metis
  then show ?thesis
    using s(2) f(1) read_object.read_inside [OF bytes.read_object_axioms assms(6,7,5)] by (simp add: disk_open_def)
qed

lemma disk_loop_reads:
  assumes k: "keys_differ D (dom src)" and b: "disk_serves D ds src dk b" and bs: "0 < ds_bsize ds"
    and ts: "\<forall>t \<in> set ts. sees D dk (disk_ok D ds src) (dt_open t) \<and> length (dt_buf t) = nat (ds_bsize ds)"
    and p: "p \<noteq> []" "0 \<le> off" "off < int (length b)"
  shows "case disk_ReadAt_loop dk ts p off of
      None \<Rightarrow> \<forall>t \<in> set ts. has_key dk (dt_check t) \<and> \<not> has_key dk (dt_open t) \<and> dt_lock t = None
    | Some ((q, n, err), wbs) \<Rightarrow> set wbs \<subseteq> {b} \<and>
        (reads_from b off p (q, n, err) \<or> q = p \<and> n = 0 \<and> err \<noteq> None \<and> (\<exists>t \<in> set ts. turn_error t = err))"
  using ts
proof (induction ts)
  case (Cons t ts)
  have t: "sees D dk (disk_ok D ds src) (dt_open t)" "length (dt_buf t) = nat (ds_bsize ds)" using Cons.prems by simp_all
  note f = disk_fill_served [OF b bs t(2), of "Some p" off]
  have ih: "case disk_ReadAt_loop dk ts p off of
      None \<Rightarrow> \<forall>t \<in> set ts. has_key dk (dt_check t) \<and> \<not> has_key dk (dt_open t) \<and> dt_lock t = None
    | Some ((q, n, err), wbs) \<Rightarrow> set wbs \<subseteq> {b} \<and>
        (reads_from b off p (q, n, err) \<or> q = p \<and> n = 0 \<and> err \<noteq> None \<and> (\<exists>t \<in> set ts. turn_error t = err))"
    using Cons by simp
  show ?case
  proof (cases "has_key dk (dt_open t)")
    case True
    with hit_reads [OF k b t(1) True p] show ?thesis by (auto split: prod.splits)
  next
    case miss: False
    consider (err) "turn_error t \<noteq> None" "dt_lock t \<noteq> None \<or> \<not> has_key dk (dt_check t)"
      | (lost) "dt_lock t = None" "has_key dk (dt_check t)"
      | (fill) "dt_lock t = None" "\<not> has_key dk (dt_check t)" "deeper (dt_check t) = None"
      by (cases "dt_lock t = None"; cases "has_key dk (dt_check t)"; cases "deeper (dt_check t) = None") (simp_all add: turn_error_def)
    then show ?thesis
    proof cases
      case err
      then have "disk_fill dk t (Some p) off = Some ((Some p, 0, turn_error t), None)"
        unfolding f by (cases "dt_lock t"; cases "deeper (dt_check t)") (auto simp: turn_error_def)
      then show ?thesis using miss err(1) by (auto simp: Let_def)
    next
      case lost
      then have "disk_fill dk t (Some p) off = Some ((Some p, 0, None), None)" unfolding f by simp
      then show ?thesis using miss ih lost by (auto simp: Let_def split: option.splits prod.splits)
    next
      case fill
      let ?n = "min (length p) (length (drop (nat off) b))"
      have "disk_fill dk t (Some p) off = Some ((Some (take ?n (drop (nat off) b) @ drop ?n p), int ?n, None), Some b)"
        unfolding f using fill p by (simp add: Let_def)
      moreover have "0 < ?n" using p by (simp add: nat_less_iff)
      moreover have "reads_from b off p (take ?n (drop (nat off) b) @ drop ?n p, int ?n, None)"
        using p by (auto simp: reads_from_def min_def)
      ultimately show ?thesis using miss by (simp add: Let_def)
    qed
  qed
qed simp


text \<open>C10:
  In every reachable state of the disk cache, whatever collides and whenever files are evicted, a
  file's checksum is that of its bytes and no two write-backs are for one name.  A read inside a
  block, whose rounds see files of reachable states or fail to see any, gives the block's bytes or
  an error of locking or of opening; it is still running only if every round lost the race for the
  lock; and what it hands to a write-back is the block.
\<close>

theorem disk_cache_serves_blocks:
  assumes "(disk_step D (\<lambda>dk. \<exists>b. disk_serves D ds src dk b))\<^sup>*\<^sup>* disk_start s" "0 < ds_bsize ds" "keys_differ D (dom src)"
  shows "(\<forall>fname f. dsk_files s fname = Some f \<longrightarrow> df_csum f = dl_xxhash D (df_data f)) \<and>
    distinct (map (cacheFname D \<circ> fst) (dsk_writes s)) \<and>
    (\<forall>dk b ts p off. disk_serves D ds src dk b \<and> p \<noteq> [] \<and> 0 \<le> off \<and> off < int (length b) \<and>
       (\<forall>t \<in> set ts. length (dt_buf t) = nat (ds_bsize ds) \<and>
          sees D dk (\<lambda>s. (disk_step D (\<lambda>dk. \<exists>b. disk_serves D ds src dk b))\<^sup>*\<^sup>* disk_start s) (dt_open t)) \<longrightarrow>
       (case disk_ReadAt dk ts p off of
          None \<Rightarrow> \<forall>t \<in> set ts. has_key dk (dt_check t) \<and> dt_lock t = None
        | Some ((q, n, err), wbs) \<Rightarrow> set wbs \<subseteq> {b} \<and>
            (reads_from b off p (q, n, err) \<or> q = p \<and> n = 0 \<and> err \<noteq> None \<and> (\<exists>t \<in> set ts. turn_error t = err))))"
proof (intro conjI allI impI; (elim conjE)?)
  have ok: "disk_ok D ds src s" by (rule disk_reachable [OF assms(1,2)])
  show "df_csum f = dl_xxhash D (df_data f)" if "dsk_files s fname = Some f" for fname f using ok that by (simp add: disk_ok_def)
  show "distinct (map (cacheFname D \<circ> fst) (dsk_writes s))" using ok by (simp add: disk_ok_def)
  fix dk b off and p :: "byte list" and ts :: "disk_turn list"
  assume b: "disk_serves D ds src dk b" and p: "p \<noteq> []" "0 \<le> off" "off < int (length b)"
    and ts: "\<forall>t \<in> set ts. length (dt_buf t) = nat (ds_bsize ds) \<and>
       sees D dk (\<lambda>s. (disk_step D (\<lambda>dk. \<exists>b. disk_serves D ds src dk b))\<^sup>*\<^sup>* disk_start s) (dt_open t)"
  then have "\<forall>t \<in> set ts. sees D dk (disk_ok D ds src) (dt_open t) \<and> length (dt_buf t) = nat (ds_bsize ds)"
    using disk_reachable [OF _ assms(2)] unfolding sees_def by blast
  from disk_loop_reads [OF assms(3) b assms(2) this p] p(1)
  show "case disk_ReadAt dk ts p off of
      None \<Rightarrow> \<forall>t \<in> set ts. has_key dk (dt_check t) \<and> dt_lock t = None
    | Some ((q, n, err), wbs) \<Rightarrow> set wbs \<subseteq> {b} \<and>
        (reads_from b off p (q, n, err) \<or> q = p \<and> n = 0 \<and> err \<noteq> None \<and> (\<exists>t \<in> set ts. turn_error t = err))"
    by (auto simp: disk_ReadAt_def split: option.splits)
qed

text \<open>A library whose hash makes every name collide, and an object of ten bytes.\<close>

definition sample_lib :: disk_lib where
  "sample_lib = \<lparr>dl_marshal = mem_key, dl_md5 = (\<lambda>_. replicate 16 0), dl_xxhash = (\<lambda>_. 0)\<rparr>"

definition ten_bytes :: Object where
  "ten_bytes = WithURL (bytes_object sample_bytes) [0x75]"

definition sample_disk :: DiskSlicer where
  "sample_disk = NewDiskSlicer (bytes_of ''/c'') 4"

lemma sample_keys: "keys_differ sample_lib urls"
  by (auto simp: keys_differ_def inj_on_def sample_lib_def dest: mem_key_inj)

lemma sample_served:
  "disk_serves sample_lib sample_disk [[0x75] \<mapsto> sample_bytes] (DiskSlicer_Slice sample_lib sample_disk ten_bytes 4) [4, 5, 6, 7]"
proof -
  have "AnonymousObject.truncate ten_bytes = bytes_object sample_bytes"
    by (simp add: ten_bytes_def WithURL_def AnonymousObject.defs bytes_object_def)
  moreover have "URL ten_bytes = [0x75]" "Size ten_bytes = 10"
    by (simp_all add: ten_bytes_def WithURL_def AnonymousObject.defs bytes_object_def sample_bytes_def)
  moreover have "[4, 5, 6, 7] = block_of (ds_bsize sample_disk) sample_bytes 4"
    by (simp add: block_of_def sample_disk_def NewDiskSlicer_def sample_bytes_def)
  ultimately show ?thesis
    unfolding disk_serves_def using bytes.read_object_axioms [of sample_bytes]
    by (intro exI [of _ ten_bytes] exI [of _ sample_bytes] exI [of _ 4]) simp
qed

definition cold_turn :: disk_turn where
  "cold_turn = \<lparr>dt_open = Inl ErrNotExist, dt_lock = None, dt_check = Inl ErrNotExist, dt_buf = [0, 0, 0, 0]\<rparr>"

theorem disk_cache_serves_blocks_witness:
  "\<exists>q wbs. disk_ReadAt (DiskSlicer_Slice sample_lib sample_disk ten_bytes 4) [cold_turn] [0, 0] 1 = Some ((q, 2, None), wbs) \<and>
     take 2 q = [5, 6] \<and> set wbs \<subseteq> {[4, 5, 6, 7]}"
proof -
  let ?dk = "DiskSlicer_Slice sample_lib sample_disk ten_bytes 4"
  have bs: "0 < ds_bsize sample_disk" by (simp add: sample_disk_def NewDiskSlicer_def)
  have nk: "\<not> has_key ?dk (dt_open cold_turn)" "\<not> has_key ?dk (dt_check cold_turn)" "turn_error cold_turn = None"
    "length (dt_buf cold_turn) = nat (ds_bsize sample_disk)"
    by (simp_all add: has_key_def cold_turn_def turn_error_def deeper_def sample_disk_def NewDiskSlicer_def)
  have "case disk_ReadAt ?dk [cold_turn] [0, 0] 1 of
      None \<Rightarrow> \<forall>t \<in> set [cold_turn]. has_key ?dk (dt_check t) \<and> dt_lock t = None
    | Some ((q, n, err), wbs) \<Rightarrow> set wbs \<subseteq> {[4, 5, 6, 7]} \<and>
        (reads_from [4, 5, 6, 7] 1 [0, 0] (q, n, err) \<or> q = [0, 0] \<and> n = 0 \<and> err \<noteq> None \<and> (\<exists>t \<in> set [cold_turn]. turn_error t = err))"
    by (rule disk_cache_serves_blocks [OF rtranclp.rtrancl_refl bs sample_keys, THEN conjunct2, THEN conjunct2, rule_format])
      (use sample_served nk in \<open>auto simp: sees_def\<close>)
  then show ?thesis using nk by (auto simp: reads_from_def split: option.splits)
qed

text \<open>
  A read that starts at the end of a block is not told so before the block is in the cache: a round
  that fills it reads nothing, so the loop goes round again, and again when the write-back fails.
\<close>

lemma disk_read_at_end_spins:
  assumes "disk_serves D ds src dk b" "0 < ds_bsize ds" "p \<noteq> []"
    and "\<forall>t \<in> set ts. \<not> has_key dk (dt_open t) \<and> turn_error t = None \<and> length (dt_buf t) = nat (ds_bsize ds)"
  shows "disk_ReadAt dk ts p (int (length b)) = None"
proof -
  have "disk_ReadAt_loop dk ts p (int (length b)) = None"
    using assms(4)
  proof (induction ts)
    case (Cons t ts)
    then have t: "dt_lock t = None" "deeper (dt_check t) = None" "length (dt_buf t) = nat (ds_bsize ds)"
      by (auto simp: turn_error_def split: if_splits)
    show ?case using Cons t by (simp add: disk_fill_served [OF assms(1,2) t(3)] Let_def)
  qed simp
  then show ?thesis using assms(3) by (simp add: disk_ReadAt_def)
qed


section \<open>Walking the directory\<close>

text \<open>
  \<open>diskIter\<close> gives the files of the cache, subdirectory by subdirectory, each in a random order.
  \<open>rd\<close> is \<open>storage.Readdir\<close> and \<open>sh\<close> the shuffle.
\<close>

record diskIter =
  it_root :: gostring
  it_primed :: bool
  it_parentQ :: "gostring list"
  it_victimQ :: "gostring list"

definition new_iter :: "gostring \<Rightarrow> diskIter" where
  "new_iter root = \<lparr>it_root = root, it_primed = False, it_parentQ = [], it_victimQ = []\<rparr>"

definition iter_prime :: "(gostring \<Rightarrow> goerr + FileInfo_s list) \<Rightarrow> (gostring list \<Rightarrow> gostring list) \<Rightarrow> diskIter \<Rightarrow> diskIter" where
  "iter_prime rd sh it =
     (if it_primed it then it
      else
        let root = filepath_Join [it_root it, bytes_of ''v0'']
        in (case rd root of
              Inl e \<Rightarrow> it\<lparr>it_primed := True\<rparr>
            | Inr fis \<Rightarrow>
                it\<lparr>it_primed := True,
                   it_parentQ := sh (it_parentQ it @
                     map (\<lambda>fi. filepath_Join [root, fs_Name fi]) (filter (\<lambda>fi. fs_IsDir fi \<and> length (fs_Name fi) = 2) fis))\<rparr>))"

definition is_victim :: "FileInfo_s \<Rightarrow> bool" where
  "is_victim fi \<longleftrightarrow> \<not> fs_IsDir fi \<and> \<not> HasPrefix (fs_Name fi) (bytes_of ''.lock'') \<and> \<not> HasPrefix (fs_Name fi) (bytes_of ''.tmp'')"

fun iter_loop :: "(gostring \<Rightarrow> goerr + FileInfo_s list) \<Rightarrow> (gostring list \<Rightarrow> gostring list) \<Rightarrow> gostring list \<Rightarrow> gostring list
    \<Rightarrow> gostring option \<times> gostring list \<times> gostring list" where
  "iter_loop rd sh (victim # vq) pq = (Some victim, vq, pq)"
| "iter_loop rd sh [] [] = (None, [], [])"
| "iter_loop rd sh [] (parent # pq) =
     (case rd parent of
        Inl e \<Rightarrow> iter_loop rd sh [] pq
      | Inr fis \<Rightarrow> iter_loop rd sh (sh (map (\<lambda>fi. filepath_Join [parent, fs_Name fi]) (filter is_victim fis))) pq)"

definition diskIter_Next :: "(gostring \<Rightarrow> goerr + FileInfo_s list) \<Rightarrow> (gostring list \<Rightarrow> gostring list) \<Rightarrow> diskIter
    \<Rightarrow> gostring option \<times> diskIter" where
  "diskIter_Next rd sh it =
     (let it1 = iter_prime rd sh it
      in (case iter_loop rd sh (it_victimQ it1) (it_parentQ it1) of (v, vq, pq) \<Rightarrow> (v, it1\<lparr>it_victimQ := vq, it_parentQ := pq\<rparr>)))"

text \<open>
  Garbage collection, on the state \<open>s\<close> of the file system: \<open>statfs\<close> says whether the threshold is
  still passed, \<open>rm\<close> is \<open>storage.Remove\<close>.
\<close>

partial_function (option) gc_loop :: "('s \<Rightarrow> goerr + bool) \<Rightarrow> ('s \<Rightarrow> gostring \<Rightarrow> goerr + FileInfo_s list) \<Rightarrow> (gostring list \<Rightarrow> gostring list)
    \<Rightarrow> (gostring \<Rightarrow> 's \<Rightarrow> 's \<times> goerr option) \<Rightarrow> diskIter \<Rightarrow> 's \<Rightarrow> 's option" where
  "gc_loop statfs rd sh rm it s =
     (case statfs s of
        Inl e \<Rightarrow> Some s
      | Inr needed \<Rightarrow>
          if \<not> needed then Some s
          else
            (case diskIter_Next (rd s) sh it of
               (None, it') \<Rightarrow> Some s
             | (Some victim, it') \<Rightarrow>
                 (case rm victim s of
                    (s', Some e) \<Rightarrow> Some s'
                  | (s', None) \<Rightarrow> gc_loop statfs rd sh rm it' s')))"

definition DiskSlicer_Gc :: "DiskSlicer \<Rightarrow> ('s \<Rightarrow> goerr + bool) \<Rightarrow> ('s \<Rightarrow> gostring \<Rightarrow> goerr + FileInfo_s list) \<Rightarrow> (gostring list \<Rightarrow> gostring list)
    \<Rightarrow> (gostring \<Rightarrow> 's \<Rightarrow> 's \<times> goerr option) \<Rightarrow> 's \<Rightarrow> 's option" where
  "DiskSlicer_Gc ds statfs rd sh rm s = gc_loop statfs rd sh rm (new_iter (ds_root ds)) s"

text \<open>
  The check of all files: \<open>op\<close> opens a file and gives what \<open>io.Copy\<close> reads of it, and its checksum
  attribute if the object has attributes.
\<close>

partial_function (option) check_loop :: "disk_lib \<Rightarrow> (gostring \<Rightarrow> goerr + FileInfo_s list) \<Rightarrow> (gostring list \<Rightarrow> gostring list)
    \<Rightarrow> (gostring \<Rightarrow> goerr + (goerr + byte list) \<times> (goerr + u64) option) \<Rightarrow> diskIter \<Rightarrow> goerr option option" where
  "check_loop D rd sh op it =
     (case diskIter_Next rd sh it of
        (None, it') \<Rightarrow> Some None
      | (Some fname, it') \<Rightarrow>
          (case op fname of
             Inl e \<Rightarrow> if e = ErrNotExist then check_loop D rd sh op it' else Some (Some e)
           | Inr (data, csum) \<Rightarrow>
               (case csum of
                  None \<Rightarrow> Some (Some (Err ''object missing checksum xattr''))
                | Some (Inl e) \<Rightarrow> Some (Some e)
                | Some (Inr expected) \<Rightarrow>
                    (case data of
                       Inl e \<Rightarrow> Some (Some e)
                     | Inr bs \<Rightarrow>
                         if dl_xxhash D bs \<noteq> expected then Some (Some (Err ''Bad checksum''))
                         else check_loop D rd sh op it'))))"

definition CheckIntegrity :: "disk_lib \<Rightarrow> DiskSlicer \<Rightarrow> (gostring \<Rightarrow> goerr + FileInfo_s list) \<Rightarrow> (gostring list \<Rightarrow> gostring list)
    \<Rightarrow> (gostring \<Rightarrow> goerr + (goerr + byte list) \<times> (goerr + u64) option) \<Rightarrow> goerr option option" where
  "CheckIntegrity D ds rd sh op = check_loop D rd sh op (new_iter (ds_root ds))"

text \<open>Opening a file of the cache's directory.\<close>

definition check_open :: "(gostring \<rightharpoonup> disk_file) \<Rightarrow> gostring \<Rightarrow> goerr + (goerr + byte list) \<times> (goerr + u64) option" where
  "check_open fs fname =
     (case fs fname of None \<Rightarrow> Inl ErrNotExist | Some f \<Rightarrow> Inr (Inr (df_data f), Some (Inr (df_csum f))))"

text \<open>The files an iterator has still to give.\<close>

definition shuffles :: "(gostring list \<Rightarrow> gostring list) \<Rightarrow> bool" where
  "shuffles sh \<longleftrightarrow> (\<forall>xs. mset (sh xs) = mset xs)"

definition listed :: "(gostring \<Rightarrow> goerr + FileInfo_s list) \<Rightarrow> gostring \<Rightarrow> nat" where
  "listed rd parent = (case rd parent of Inl e \<Rightarrow> 0 | Inr fis \<Rightarrow> length fis)"

definition left :: "(gostring \<Rightarrow> goerr + FileInfo_s list) \<Rightarrow> diskIter \<Rightarrow> nat" where
  "left rd it = length (it_victimQ it) + sum_list (map (listed rd) (it_parentQ it))"

lemma iter_loop_left:
  assumes "shuffles sh"
  shows "iter_loop rd sh vq pq = (Some v, vq', pq') \<Longrightarrow>
    length vq' + sum_list (map (listed rd) pq') < length vq + sum_list (map (listed rd) pq)"
proof (induction pq arbitrary: vq)
  case Nil
  then show ?case by (cases vq) auto
next
  case (Cons parent pq)
  show ?case
  proof (cases vq)
    case vq: Nil
    show ?thesis
    proof (cases "rd parent")
      case (Inl e)
      then have "iter_loop rd sh [] pq = (Some v, vq', pq')" "listed rd parent = 0" using Cons.prems vq by (simp_all add: listed_def)
      then show ?thesis using Cons.IH [of "[]"] vq by simp
    next
      case (Inr fis)
      let ?vs = "map (\<lambda>fi. filepath_Join [parent, fs_Name fi]) (filter is_victim fis)"
      have "mset (sh ?vs) = mset ?vs" using assms by (simp add: shuffles_def)
      then have "length (sh ?vs) = length ?vs" by (metis size_mset)
      then have "length (sh ?vs) \<le> length fis" by simp
      moreover have "length vq' + sum_list (map (listed rd) pq') < length (sh ?vs) + sum_list (map (listed rd) pq)"
        by (rule Cons.IH) (use Cons.prems vq Inr in simp)
      moreover have "listed rd parent = length fis" using Inr by (simp add: listed_def)
      ultimately show ?thesis using vq by simp
    qed
  qed (use Cons.prems in auto)
qed

lemma iter_prime_primed: "it_primed (iter_prime rd sh it)" "it_primed it \<Longrightarrow> iter_prime rd sh it = it"
  by (simp_all add: iter_prime_def Let_def split: sum.split)

lemma diskIter_Next_left:
  assumes "shuffles sh" "diskIter_Next rd sh it = (Some v, it')"
  shows "left rd (iter_prime rd sh it') < left rd (iter_prime rd sh it)"
proof -
  let ?it = "iter_prime rd sh it"
  obtain vq pq where l: "iter_loop rd sh (it_victimQ ?it) (it_parentQ ?it) = (Some v, vq, pq)" "it' = ?it\<lparr>it_victimQ := vq, it_parentQ := pq\<rparr>"
    using assms(2) by (auto simp: diskIter_Next_def Let_def split: prod.splits)
  have "it_primed it'" using l(2) iter_prime_primed(1) by simp
  then have "iter_prime rd sh it' = it'" by (rule iter_prime_primed(2))
  then show ?thesis using iter_loop_left [OF assms(1) l(1)] l(2) by (simp add: left_def)
qed

lemma check_loop_passes:
  assumes "shuffles sh" "\<And>fname. op fname = Inl ErrNotExist \<or> (\<exists>bs. op fname = Inr (Inr bs, Some (Inr (dl_xxhash D bs))))"
  shows "check_loop D rd sh op it = Some None"
proof (induction "left rd (iter_prime rd sh it)" arbitrary: it rule: less_induct)
  case less
  obtain v it' where n: "diskIter_Next rd sh it = (v, it')" by fastforce
  show ?case
  proof (cases v)
    case (Some fname)
    then have "check_loop D rd sh op it' = Some None" using less diskIter_Next_left [OF assms(1)] n by blast
    then show ?thesis using assms(2) [of fname] n Some by (subst check_loop.simps) auto
  qed (use n in \<open>simp add: check_loop.simps\<close>)
qed

text \<open>Garbage collection leaves the lock files and the files being written alone.\<close>

lemma iter_loop_victims:
  assumes "shuffles sh" "\<forall>v \<in> set vq. P v"
    "\<And>parent fis fi. rd parent = Inr fis \<Longrightarrow> fi \<in> set fis \<Longrightarrow> is_victim fi \<Longrightarrow> P (filepath_Join [parent, fs_Name fi])"
  shows "case iter_loop rd sh vq pq of (v, vq', pq') \<Rightarrow> (\<forall>x. v = Some x \<longrightarrow> P x) \<and> (\<forall>x \<in> set vq'. P x)"
  using assms(2)
proof (induction pq arbitrary: vq)
  case Nil
  then show ?case by (cases vq) auto
next
  case (Cons parent pq)
  show ?case
  proof (cases vq)
    case vq: Nil
    show ?thesis
    proof (cases "rd parent")
      case (Inr fis)
      let ?vs = "map (\<lambda>fi. filepath_Join [parent, fs_Name fi]) (filter is_victim fis)"
      have "mset (sh ?vs) = mset ?vs" using assms(1) by (simp add: shuffles_def)
      then have "set (sh ?vs) = set ?vs" by (metis set_mset_mset)
      then have "\<forall>v \<in> set (sh ?vs). P v" using assms(3) [OF Inr] by auto
      then show ?thesis using Cons.IH [of "sh ?vs"] Inr vq by simp
    qed (use Cons.IH [of "[]"] vq in simp)
  qed (use Cons.prems in simp)
qed

text \<open>C32:
  The check of the cache ends without an error, whatever the directory lists and in any order of
  the shuffles, when each file is found as it is in some reachable state of the cache, or is gone.
\<close>

theorem check_integrity_passes:
  assumes "shuffles sh" "0 < ds_bsize ds"
    and "\<And>fname. \<exists>s. (disk_step D (\<lambda>dk. \<exists>b. disk_serves D ds src dk b))\<^sup>*\<^sup>* disk_start s \<and> op fname = check_open (dsk_files s) fname"
  shows "CheckIntegrity D ds rd sh op = Some None"
  unfolding CheckIntegrity_def
proof (rule check_loop_passes [OF assms(1)])
  fix fname
  obtain s where s: "(disk_step D (\<lambda>dk. \<exists>b. disk_serves D ds src dk b))\<^sup>*\<^sup>* disk_start s" "op fname = check_open (dsk_files s) fname"
    using assms(3) by blast
  have "disk_ok D ds src s" by (rule disk_reachable [OF s(1) assms(2)])
  then show "op fname = Inl ErrNotExist \<or> (\<exists>bs. op fname = Inr (Inr bs, Some (Inr (dl_xxhash D bs))))"
    using s(2) by (auto simp: check_open_def disk_ok_def split: option.split)
qed

theorem check_integrity_passes_witness:
  "\<exists>s. (disk_step sample_lib (\<lambda>dk. \<exists>b. disk_serves sample_lib sample_disk [[0x75] \<mapsto> sample_bytes] dk b))\<^sup>*\<^sup>* disk_start s \<and>
     dsk_files s (cacheFname sample_lib (DiskSlicer_Slice sample_lib sample_disk ten_bytes 4)) \<noteq> None \<and>
     CheckIntegrity sample_lib sample_disk (\<lambda>_. Inr [\<lparr>fs_Name = bytes_of ''00'', fs_Size = 0, fs_IsDir = True\<rparr>]) rev
       (check_open (dsk_files s)) = Some None"
proof -
  let ?dk = "DiskSlicer_Slice sample_lib sample_disk ten_bytes 4" and ?b = "[4, 5, 6, 7] :: byte list"
  let ?step = "disk_step sample_lib (\<lambda>dk. \<exists>b. disk_serves sample_lib sample_disk [[0x75] \<mapsto> sample_bytes] dk b)"
  have bs: "0 < ds_bsize sample_disk" "length (dt_buf cold_turn) = nat (ds_bsize sample_disk)"
    by (simp_all add: sample_disk_def NewDiskSlicer_def cold_turn_def)
  have f: "disk_fill ?dk cold_turn None 0 = Some ((None, 0, None), Some ?b)"
    by (simp add: disk_fill_served [OF sample_served bs]) (simp add: cold_turn_def has_key_def deeper_def)
  let ?s1 = "disk_start\<lparr>dsk_writes := (?dk, ?b) # dsk_writes disk_start\<rparr>"
  let ?s2 = "?s1\<lparr>dsk_files := write_back sample_lib ?dk ?b (dsk_files ?s1), dsk_writes := remove1 (?dk, ?b) (dsk_writes ?s1)\<rparr>"
  have "?step disk_start ?s1"
    by (rule disk_step.fill [OF _ _ _ f]) (use sample_served bs served_slice(2) [OF sample_served bs(1)] in \<open>auto simp: disk_start_def\<close>)
  moreover have "?step ?s1 ?s2" by (rule disk_step.commit) simp
  ultimately have r: "?step\<^sup>*\<^sup>* disk_start ?s2" by (meson converse_rtranclp_into_rtranclp rtranclp.rtrancl_refl)
  moreover have "dsk_files ?s2 (cacheFname sample_lib ?dk) \<noteq> None" by (simp add: write_back_def)
  moreover have "CheckIntegrity sample_lib sample_disk (\<lambda>_. Inr [\<lparr>fs_Name = bytes_of ''00'', fs_Size = 0, fs_IsDir = True\<rparr>]) rev
       (check_open (dsk_files ?s2)) = Some None"
    by (rule check_integrity_passes [OF _ bs(1)]) (use r in \<open>auto simp: shuffles_def\<close>)
  ultimately show ?thesis by blast
qed

end
