(* ===== verification/Trie.thy ===== *)
theory Trie
  imports Utf8 Containers "HOL-Library.AList"
begin

text \<open>
  \<open>pkg/vdisc/trie.go\<close>: the trie that compresses the URLs of a disc's objects.  \<open>Put\<close> and
  \<open>Get\<close> are shown to be a map from URLs, as sequences of runes, to block addresses, and
  \<open>Invert\<close>, the level order traversal whose output is stored in the disc, to give each
  URL back as the contents along a chain of parents, whatever order Go visits the
  children in.
\<close>

section \<open>The code\<close>

datatype trieNode =
  TrieNode (content: gostring) (terminal: bool) (nodeValue: u32) (children: "(rune \<times> trieNode) list")

record InvertedTrieNode =
  Parent :: nat
  Content :: gostring

type_synonym TrieMap = trieNode

definition NewTrieMap :: TrieMap where
  "NewTrieMap = TrieNode [] False 0 []"

text \<open>
  The loop of \<open>Put\<close> over the runes of the key, \<open>i\<close> being \<open>contentIdx\<close>.  The node that the
  code's \<open>node\<close> points to is the argument, and the result is what that node has become;
  descending puts the child's new value back under its rune.
\<close>

fun put_loop :: "trieNode \<Rightarrow> nat \<Rightarrow> rune list \<Rightarrow> u32 \<Rightarrow> trieNode" where
  "put_loop node i [] v =
     (let remainder = drop i (content node)
      in if 0 < length remainder
         then TrieNode (take i (content node)) True v
                [(fst (DecodeRune remainder), TrieNode remainder (terminal node) (nodeValue node) (children node))]
         else TrieNode (content node) True v (children node))"
| "put_loop node i (r # rs) v =
     (if i < length (content node) then
        (let (cr, crLen) = DecodeRune (drop i (content node))
         in if r = cr then put_loop node (i + crLen) rs v
            else TrieNode (take i (content node)) False (nodeValue node)
                   (AList.update r (put_loop (TrieNode (EncodeRune r) False 0 []) (nat (RuneLen r)) rs v)
                     [(cr, TrieNode (drop i (content node)) (terminal node) (nodeValue node) (children node))]))
      else
        (case map_of (children node) r of
           Some child \<Rightarrow>
             TrieNode (content node) (terminal node) (nodeValue node)
               (AList.update r (put_loop child (nat (RuneLen r)) rs v) (children node))
         | None \<Rightarrow>
             if terminal node \<or> 0 < length (children node)
             then TrieNode (content node) (terminal node) (nodeValue node)
                    (AList.update r (put_loop (TrieNode (EncodeRune r) False 0 []) (nat (RuneLen r)) rs v)
                      (children node))
             else put_loop (TrieNode (content node @ EncodeRune r) (terminal node) (nodeValue node) (children node))
                    (i + nat (RuneLen r)) rs v))"

definition Put :: "gostring \<Rightarrow> u32 \<Rightarrow> TrieMap \<Rightarrow> TrieMap" where
  "Put key v t = put_loop t 0 (runes key) v"

fun get_loop :: "trieNode \<Rightarrow> nat \<Rightarrow> rune list \<Rightarrow> u32 option" where
  "get_loop node i [] =
     (if terminal node \<and> length (drop i (content node)) = 0 then Some (nodeValue node) else None)"
| "get_loop node i (r # rs) =
     (if i < length (content node) then
        (let (cr, crLen) = DecodeRune (drop i (content node))
         in if r = cr then get_loop node (i + crLen) rs else None)
      else
        (case map_of (children node) r of
           Some child \<Rightarrow> get_loop child (nat (RuneLen r)) rs
         | None \<Rightarrow> None))"

definition Get :: "gostring \<Rightarrow> TrieMap \<Rightarrow> u32 option" where
  "Get key t = get_loop t 0 (runes key)"

record traversalNode =
  prefix :: gostring
  parentIndex :: nat
  node :: trieNode

text \<open>
  The loop of \<open>Invert\<close>: \<open>Q\<close> is the queue's implementation and \<open>rng\<close> the order of the range
  over the children, which may differ at each node.
\<close>

partial_function (option) invert_loop ::
  "('q, traversalNode) queue \<Rightarrow> (nat \<Rightarrow> (rune \<times> trieNode) list \<Rightarrow> (rune \<times> trieNode) list) \<Rightarrow>
   'q \<Rightarrow> InvertedTrieNode list \<Rightarrow> (u32 \<rightharpoonup> InvertedTrieNode) \<Rightarrow>
   (goerr + InvertedTrieNode list \<times> (u32 \<rightharpoonup> InvertedTrieNode)) option" where
  "invert_loop Q rng q branches leaves =
     (if 0 < q_Len Q q then
        let tnode = fst (q_Dequeue Q q); q' = snd (q_Dequeue Q q); n = node tnode;
            inode = \<lparr>Parent = parentIndex tnode, Content = content n\<rparr>
        in if terminal n \<and> leaves (nodeValue n) \<noteq> None then Some (Inl (Panic ''never''))
           else let leaves' = (if terminal n then leaves(nodeValue n \<mapsto> inode) else leaves)
                in if 0 < length (children n)
                   then let idx = length branches
                        in invert_loop Q rng
                             (enqueue_all Q (map (\<lambda>(r, child). \<lparr>prefix = prefix tnode @ content n,
                                parentIndex = idx, node = child\<rparr>) (rng idx (children n))) q')
                             (branches @ [inode]) leaves'
                   else invert_loop Q rng q' branches leaves'
      else Some (Inr (branches, leaves)))"

definition Invert ::
  "('q, traversalNode) queue \<Rightarrow> (nat \<Rightarrow> (rune \<times> trieNode) list \<Rightarrow> (rune \<times> trieNode) list) \<Rightarrow> TrieMap \<Rightarrow>
   (goerr + InvertedTrieNode list \<times> (u32 \<rightharpoonup> InvertedTrieNode)) option" where
  "Invert Q rng t =
     invert_loop Q rng (q_Enqueue Q \<lparr>prefix = [], parentIndex = 0, node = t\<rparr> (q_New Q))
       [\<lparr>Parent = 0, Content = []\<rparr>] Map.empty"

section \<open>Well-formed tries\<close>

text \<open>
  The contents are whole runes, and a child's content starts with the rune it is filed under.
\<close>

inductive trie_ok :: "trieNode \<Rightarrow> bool" where
  "list_all scalar cs \<Longrightarrow> distinct (map fst chs) \<Longrightarrow>
   (\<And>r child. (r, child) \<in> set chs \<Longrightarrow>
      trie_ok child \<and> (\<exists>ds. list_all scalar (r # ds) \<and> content child = encode_runes (r # ds))) \<Longrightarrow>
   trie_ok (TrieNode (encode_runes cs) t v chs)"

inductive_simps trie_ok_iff: "trie_ok (TrieNode c t v chs)"

text \<open>\<open>at_rune n pre rest i\<close>: the index \<open>i\<close> stands between two runes of the node's content.\<close>

definition at_rune :: "trieNode \<Rightarrow> rune list \<Rightarrow> rune list \<Rightarrow> nat \<Rightarrow> bool" where
  "at_rune n pre rest i \<longleftrightarrow>
     content n = encode_runes (pre @ rest) \<and> list_all scalar (pre @ rest) \<and> i = length (encode_runes pre)"

lemma at_rune_end: "at_rune n pre [] i \<Longrightarrow> \<not> i < length (content n) \<and> drop i (content n) = []"
  by (simp add: at_rune_def)

lemma at_rune_cons:
  assumes "at_rune n pre (c # rest) i"
  shows "i < length (content n)" "DecodeRune (drop i (content n)) = (c, length (EncodeRune c))"
    "at_rune n (pre @ [c]) rest (i + length (EncodeRune c))"
    "drop i (content n) = encode_runes (c # rest)" "take i (content n) = encode_runes pre"
  using assms DecodeRune_EncodeRune [of c "encode_runes rest"] by (auto simp: at_rune_def)

lemma nat_RuneLen: "scalar r \<Longrightarrow> nat (RuneLen r) = length (EncodeRune r)"
  by (simp add: RuneLen_EncodeRune)

lemma trie_ok_at: "trie_ok n \<Longrightarrow> \<exists>cs. at_rune n [] cs 0"
  by (cases rule: trie_ok.cases) (auto simp: at_rune_def)

lemma trie_ok_child:
  assumes "trie_ok n" "map_of (children n) r = Some child"
  shows "trie_ok child" "\<exists>ds. at_rune child [r] ds (nat (RuneLen r))"
proof -
  have m: "(r, child) \<in> set (children n)" using assms(2) by (rule map_of_SomeD)
  with assms(1) have t: "trie_ok child" "\<exists>ds. list_all scalar (r # ds) \<and> content child = encode_runes (r # ds)"
    by (cases rule: trie_ok.cases; auto)+
  then show "trie_ok child" "\<exists>ds. at_rune child [r] ds (nat (RuneLen r))"
    by (auto simp: at_rune_def nat_RuneLen)
qed

text \<open>Looking up in a node whose content was cut off at a rune.\<close>

lemma get_loop_shift:
  "get_loop (TrieNode (drop k c) t v chs) i rs = get_loop (TrieNode c t v chs) (k + i) rs"
proof (induction rs arbitrary: i)
  case (Cons r rs)
  have "i < length c - k \<longleftrightarrow> k + i < length c" by linarith
  then show ?case
    using Cons by (simp add: add.commute add.left_commute split: prod.splits option.splits)
qed (simp add: add.commute)

lemma get_barren:
  "\<not> terminal n \<Longrightarrow> children n = [] \<Longrightarrow> get_loop n i rs = None"
  by (induction rs arbitrary: i) (auto split: prod.splits)

section \<open>A trie is a map\<close>

text \<open>What \<open>put_loop\<close> does to the node it is given, seen from the place it has reached.\<close>

definition put_spec :: "trieNode \<Rightarrow> rune list \<Rightarrow> nat \<Rightarrow> rune list \<Rightarrow> u32 \<Rightarrow> trieNode \<Rightarrow> bool" where
  "put_spec n pre i rs v n' \<longleftrightarrow>
     trie_ok n' \<and> (\<exists>rest'. at_rune n' pre rest' i) \<and>
     (\<forall>rs'. list_all scalar rs' \<longrightarrow>
        get_loop n' i rs' = (if rs' = rs then Some v else get_loop n i rs'))"

lemma put_specI:
  assumes "trie_ok n'" "at_rune n' pre rest' i"
    and "\<And>rs'. list_all scalar rs' \<Longrightarrow> get_loop n' i rs' = (if rs' = rs then Some v else get_loop n i rs')"
  shows "put_spec n pre i rs v n'"
  using assms by (auto simp: put_spec_def)

lemma trie_ok_fresh: "scalar r \<Longrightarrow> trie_ok (TrieNode (EncodeRune r) False v [])"
  using trie_ok.intros [of "[r]" "[]" False v] by simp

lemma put_spec_child:
  assumes "put_spec n [r] i rs v n'"
  shows "trie_ok n'" "\<exists>ds. list_all scalar (r # ds) \<and> content n' = encode_runes (r # ds)"
  using assms by (auto simp: put_spec_def at_rune_def)

lemma put_spec_cong:
  "(\<And>rs'. get_loop m i rs' = get_loop n i rs') \<Longrightarrow> put_spec m pre i rs v n' \<Longrightarrow> put_spec n pre i rs v n'"
  by (simp add: put_spec_def)

text \<open>Splitting a node between two runes leaves what can be looked up in it.\<close>

definition split_node :: "trieNode \<Rightarrow> nat \<Rightarrow> rune \<Rightarrow> trieNode" where
  "split_node n i c = TrieNode (take i (content n)) False (nodeValue n)
     [(c, TrieNode (drop i (content n)) (terminal n) (nodeValue n) (children n))]"

lemma split_node:
  assumes ok: "trie_ok n" and at: "at_rune n pre (c # rest) i"
  shows "trie_ok (split_node n i c)" "at_rune (split_node n i c) pre [] i"
    "get_loop (split_node n i c) i rs = get_loop n i rs"
proof -
  have sc: "list_all scalar pre" "scalar c" "list_all scalar rest" using at by (simp_all add: at_rune_def)
  let ?o = "TrieNode (encode_runes (c # rest)) (terminal n) (nodeValue n) (children n)"
  have ch: "distinct (map fst (children n))"
    "\<And>r child. (r, child) \<in> set (children n) \<Longrightarrow> trie_ok child \<and> (\<exists>ds. list_all scalar (r # ds) \<and> content child = encode_runes (r # ds))"
    using ok by (cases rule: trie_ok.cases; auto)+
  have "trie_ok ?o" using sc ch by (intro trie_ok.intros) simp_all
  then have "trie_ok (TrieNode (encode_runes pre) False (nodeValue n) [(c, ?o)])"
    using sc by (intro trie_ok.intros) (auto intro!: exI [of _ rest])
  then show "trie_ok (split_node n i c)"
    using at_rune_cons(4,5) [OF at] by (simp add: split_node_def)
  show at2: "at_rune (split_node n i c) pre [] i"
    using at sc by (simp add: at_rune_def split_node_def)
  show "get_loop (split_node n i c) i rs = get_loop n i rs"
  proof (cases rs)
    case Nil
    then show ?thesis using at_rune_cons(1) [OF at] by (simp add: split_node_def)
  next
    case (Cons r rs')
    have "get_loop (TrieNode (drop i (content n)) (terminal n) (nodeValue n) (children n)) k rs' = get_loop n (i + k) rs'" for k
      using get_loop_shift [of i "content n" "terminal n" "nodeValue n" "children n" k rs'] by simp
    moreover have "\<not> i < length (content (split_node n i c))"
      using at_rune_end [OF at2] by blast
    ultimately show ?thesis
      using at_rune_cons(1,2) [OF at] sc by (simp add: Cons split_node_def nat_RuneLen)
  qed
qed

lemma put_spec_end:
  assumes ok: "trie_ok n" and at: "at_rune n pre [] i"
  shows "put_spec n pre i [] v (TrieNode (content n) True v (children n))" (is "put_spec _ _ _ _ _ ?n")
proof (rule put_specI)
  show "trie_ok ?n" using ok by (cases n) (auto simp: trie_ok_iff)
  show "at_rune ?n pre [] i" using at by (simp add: at_rune_def)
  show "get_loop ?n i rs' = (if rs' = [] then Some v else get_loop n i rs')" for rs'
    using at_rune_end [OF at] by (cases rs') auto
qed

lemma put_spec_stop:
  assumes ok: "trie_ok n" and at: "at_rune n pre rest i"
  shows "put_spec n pre i [] v (put_loop n i [] v)"
proof (cases rest)
  case Nil
  then show ?thesis using put_spec_end [OF ok, of pre i v] at at_rune_end [of n pre i] by simp
next
  case (Cons c rest')
  note at = at [unfolded Cons]
  have "put_loop n i [] v = TrieNode (content (split_node n i c)) True v (children (split_node n i c))"
    using at_rune_cons [OF at] by (simp add: split_node_def)
  then show ?thesis
    using put_spec_cong [OF split_node(3) [OF ok at] put_spec_end [OF split_node(1,2) [OF ok at]]]
    by simp
qed

lemma put_spec_match:
  assumes at: "at_rune n pre (c # rest) i"
    and p: "put_spec n (pre @ [c]) (i + length (EncodeRune c)) rs v n'"
  shows "put_spec n pre i (c # rs) v n'"
proof -
  obtain rest' where a: "at_rune n' (pre @ [c]) rest' (i + length (EncodeRune c))" and ok: "trie_ok n'"
    and g: "\<And>rs'. list_all scalar rs' \<Longrightarrow> get_loop n' (i + length (EncodeRune c)) rs'
       = (if rs' = rs then Some v else get_loop n (i + length (EncodeRune c)) rs')"
    using p by (auto simp: put_spec_def)
  have a': "at_rune n' pre (c # rest') i" using a at by (simp add: at_rune_def)
  show ?thesis
  proof (rule put_specI [OF ok a'])
    fix rs' assume "list_all scalar rs'"
    then show "get_loop n' i rs' = (if rs' = c # rs then Some v else get_loop n i rs')"
      using at_rune_cons(1,2) [OF at] at_rune_cons(1,2) [OF a'] g by (cases rs') auto
  qed
qed

text \<open>The new value of the child goes back under its rune, whether it was there or not.\<close>

lemma put_spec_under:
  assumes ok: "trie_ok n" and at: "at_rune n pre [] i" and r: "scalar r"
    and p: "put_spec child [r] (nat (RuneLen r)) rs v child'"
    and g: "\<And>rs'. get_loop n i (r # rs') = get_loop child (nat (RuneLen r)) rs'"
  shows "put_spec n pre i (r # rs) v
    (TrieNode (content n) (terminal n) (nodeValue n) (AList.update r child' (children n)))"
    (is "put_spec _ _ _ _ _ ?n")
proof (rule put_specI)
  obtain cs where cs: "content n = encode_runes cs" "list_all scalar cs"
    using at by (auto simp: at_rune_def)
  have "distinct (map fst (children n))"
    using ok by (cases rule: trie_ok.cases) auto
  moreover have "trie_ok c \<and> (\<exists>ds. list_all scalar (q # ds) \<and> content c = encode_runes (q # ds))"
    if "(q, c) \<in> set (AList.update r child' (children n))" for q c
  proof -
    have "map_of (AList.update r child' (children n)) q = Some c"
      using that \<open>distinct (map fst (children n))\<close> by (simp add: distinct_update)
    then have "q = r \<and> c = child' \<or> (q, c) \<in> set (children n)"
      by (auto simp: update_Some_unfold dest: map_of_SomeD)
    then show ?thesis
      using put_spec_child [OF p] ok by (cases rule: disjE) (auto elim: trie_ok.cases)
  qed
  ultimately show "trie_ok ?n"
    unfolding cs using cs(2) by (intro trie_ok.intros) (auto simp: distinct_update)
  show "at_rune ?n pre [] i" using at by (simp add: at_rune_def)
  fix rs' assume s: "list_all scalar rs'"
  show "get_loop ?n i rs' = (if rs' = r # rs then Some v else get_loop n i rs')"
  proof (cases rs')
    case (Cons q qs)
    then show ?thesis
      using at_rune_end [OF at] g [of qs] p s by (auto simp: put_spec_def update_conv)
  qed auto
qed

lemma put_spec_extend:
  assumes n: "\<not> terminal n" "children n = []" and at: "at_rune n pre [] i" and r: "scalar r"
    and p: "put_spec m (pre @ [r]) (i + nat (RuneLen r)) rs v n'" and m: "\<not> terminal m" "children m = []"
  shows "put_spec n pre i (r # rs) v n'"
proof -
  obtain rest' where ok: "trie_ok n'" and a: "at_rune n' (pre @ [r]) rest' (i + nat (RuneLen r))"
    and g: "\<And>rs'. list_all scalar rs' \<Longrightarrow> get_loop n' (i + nat (RuneLen r)) rs' = (if rs' = rs then Some v else None)"
    using p by (auto simp: put_spec_def get_barren [OF m])
  have a': "at_rune n' pre (r # rest') i" using a at by (simp add: at_rune_def)
  show ?thesis
  proof (rule put_specI [OF ok a'])
    fix rs' assume "list_all scalar rs'"
    then show "get_loop n' i rs' = (if rs' = r # rs then Some v else get_loop n i rs')"
      using at_rune_cons(1,2) [OF a'] g r unfolding get_barren [OF n]
      by (cases rs') (auto simp: nat_RuneLen)
  qed
qed

lemma put_loop_spec:
  assumes "trie_ok n" "at_rune n pre rest i" "list_all scalar rs"
  shows "put_spec n pre i rs v (put_loop n i rs v)"
  using assms
proof (induction rs arbitrary: n pre rest i)
  case Nil
  then show ?case by (intro put_spec_stop)
next
  case (Cons r rs)
  then have r: "scalar r" and rs: "list_all scalar rs" and ok: "trie_ok n" by auto
  let ?fresh = "TrieNode (EncodeRune r) False 0 []"
  let ?k = "nat (RuneLen r)"
  have fresh: "put_spec ?fresh [r] ?k rs v (put_loop ?fresh ?k rs v)"
    by (rule Cons.IH [OF trie_ok_fresh, where rest = "[]"]) (use r rs in \<open>auto simp: at_rune_def nat_RuneLen\<close>)
  have barren: "get_loop ?fresh ?k rs' = None" for rs'
    by (rule get_barren) auto
  show ?case
  proof (cases rest)
    case (Cons c rest')
    note at = Cons.prems(2) [unfolded Cons]
    show ?thesis
    proof (cases "r = c")
      case True
      have "put_loop n i (r # rs) v = put_loop n (i + length (EncodeRune c)) rs v"
        using at_rune_cons(1,2) [OF at] True by simp
      then show ?thesis
        using put_spec_match [OF at Cons.IH [OF ok at_rune_cons(3) [OF at] rs]] True by simp
    next
      case False
      let ?s = "split_node n i c"
      have "get_loop ?s i (r # rs') = get_loop ?fresh ?k rs'" for rs'
        using split_node(3) [OF ok at, of "r # rs'"] at_rune_cons(1,2) [OF at] False by (simp only: barren) simp
      then have "put_spec ?s pre i (r # rs) v
          (TrieNode (content ?s) (terminal ?s) (nodeValue ?s) (AList.update r (put_loop ?fresh ?k rs v) (children ?s)))"
        by (intro put_spec_under [OF split_node(1,2) [OF ok at] r fresh])
      moreover have "put_loop n i (r # rs) v =
          TrieNode (content ?s) (terminal ?s) (nodeValue ?s) (AList.update r (put_loop ?fresh ?k rs v) (children ?s))"
        using at_rune_cons(1,2) [OF at] False by (simp add: split_node_def)
      ultimately show ?thesis
        using put_spec_cong [OF split_node(3) [OF ok at]] by simp
    qed
  next
    case Nil
    note at = Cons.prems(2) [unfolded Nil]
    note e = at_rune_end [OF at, THEN conjunct1]
    show ?thesis
    proof (cases "map_of (children n) r")
      case (Some child)
      obtain ds where "at_rune child [r] ds ?k" using trie_ok_child(2) [OF ok Some] by blast
      then have "put_spec child [r] ?k rs v (put_loop child ?k rs v)"
        using trie_ok_child(1) [OF ok Some] rs by (intro Cons.IH)
      moreover have "get_loop n i (r # rs') = get_loop child ?k rs'" for rs' using e Some by simp
      ultimately have "put_spec n pre i (r # rs) v
          (TrieNode (content n) (terminal n) (nodeValue n) (AList.update r (put_loop child ?k rs v) (children n)))"
        by (intro put_spec_under [OF ok at r])
      then show ?thesis using e Some by simp
    next
      case None
      show ?thesis
      proof (cases "terminal n \<or> 0 < length (children n)")
        case True
        have "get_loop n i (r # rs') = get_loop ?fresh ?k rs'" for rs' using e None by (simp only: barren) simp
        from put_spec_under [OF ok at r fresh this] show ?thesis using e None True by simp
      next
        case False
        then have n: "\<not> terminal n" "children n = []" by auto
        let ?m = "TrieNode (content n @ EncodeRune r) (terminal n) (nodeValue n) (children n)"
        have a: "at_rune ?m (pre @ [r]) [] (i + ?k)"
          using at r by (simp add: at_rune_def nat_RuneLen)
        have "trie_ok ?m"
          using a n trie_ok.intros [of "pre @ [r]" "[]" "terminal n" "nodeValue n"] by (auto simp: at_rune_def)
        then have "put_spec ?m (pre @ [r]) (i + ?k) rs v (put_loop ?m (i + ?k) rs v)"
          using a rs by (intro Cons.IH)
        from put_spec_extend [OF n at r this] show ?thesis using e None n by simp
      qed
    qed
  qed
qed

lemma Put_Get:
  assumes "trie_ok t"
  shows "trie_ok (Put k v t)" "Get k' (Put k v t) = (if runes k' = runes k then Some v else Get k' t)"
proof -
  obtain cs where "at_rune t [] cs 0" using trie_ok_at [OF assms] by blast
  then have "put_spec t [] 0 (runes k) v (Put k v t)"
    unfolding Put_def by (intro put_loop_spec assms scalar_runes)
  then show "trie_ok (Put k v t)" "Get k' (Put k v t) = (if runes k' = runes k then Some v else Get k' t)"
    by (auto simp: put_spec_def Get_def scalar_runes)
qed


lemma trie_ok_New: "trie_ok NewTrieMap"
  using trie_ok.intros [of "[]" "[]" False 0] by (simp add: NewTrieMap_def)

lemma Get_New: "Get k NewTrieMap = None"
  unfolding Get_def by (rule get_barren) (simp_all add: NewTrieMap_def)

definition put_all :: "(gostring \<times> u32) list \<Rightarrow> TrieMap" where
  "put_all kvs = fold (\<lambda>(k, v). Put k v) kvs NewTrieMap"

lemma put_all:
  "trie_ok (put_all kvs) \<and> Get k (put_all kvs) = map_of (rev (map (apfst runes) kvs)) (runes k)"
proof (induction kvs rule: rev_induct)
  case Nil
  then show ?case by (simp add: put_all_def trie_ok_New Get_New)
next
  case (snoc kv kvs)
  then show ?case using Put_Get [of "put_all kvs"] by (cases kv) (auto simp: put_all_def)
qed

section \<open>What a trie holds\<close>

text \<open>The keys below a node with their values; \<open>p\<close> is what stands above it.\<close>

fun entries :: "gostring \<Rightarrow> trieNode \<Rightarrow> (gostring \<times> u32) list" where
  "entries p (TrieNode c t v chs) =
     (if t then [(p @ c, v)] else []) @ concat (map (\<lambda>(r, child). entries (p @ c) child) chs)"

lemma entries_prefix: "(k, v) \<in> set (entries p n) \<Longrightarrow> \<exists>k'. k = p @ content n @ k'"
proof (induction p n arbitrary: k v rule: entries.induct)
  case (1 p c t w chs)
  then show ?case by (fastforce split: if_splits)
qed

lemma encode_runes_inj:
  "list_all scalar rs \<Longrightarrow> list_all scalar rs' \<Longrightarrow> encode_runes rs = encode_runes rs' \<Longrightarrow> rs = rs'"
  by (metis runes_encode)

lemma entries_get:
  assumes "trie_ok n" "at_rune n pre rest i" "list_all scalar rs" "get_loop n i rs = Some v"
  shows "(p @ encode_runes (pre @ rs), v) \<in> set (entries p n)"
  using assms
proof (induction rs arbitrary: n pre rest i p)
  case Nil
  then show ?case
    by (cases n) (auto simp: at_rune_def split: if_splits)
next
  case (Cons r rs)
  show ?case
  proof (cases rest)
    case (Cons c rest')
    note at = at_rune_cons [OF Cons.prems(2) [unfolded Cons]]
    have "r = c" "get_loop n (i + length (EncodeRune c)) rs = Some v"
      using at(1,2) Cons.prems(4) by (auto split: if_splits)
    then show ?thesis
      using Cons.IH [OF Cons.prems(1) at(3), of p] Cons.prems(3) by simp
  next
    case Nil
    note at = Cons.prems(2) [unfolded Nil]
    obtain child where child: "map_of (children n) r = Some child"
      and g: "get_loop child (nat (RuneLen r)) rs = Some v"
      using at_rune_end [OF at] Cons.prems(4) by (auto split: option.splits)
    obtain ds where "at_rune child [r] ds (nat (RuneLen r))"
      using trie_ok_child(2) [OF Cons.prems(1) child] by blast
    then have "((p @ content n) @ encode_runes ([r] @ rs), v) \<in> set (entries (p @ content n) child)"
      using trie_ok_child(1) [OF Cons.prems(1) child] Cons.prems(3) g by (intro Cons.IH) auto
    then show ?thesis
      using at map_of_SomeD [OF child] by (cases n) (force simp: at_rune_def)
  qed
qed

lemma get_content:
  "list_all scalar ds \<Longrightarrow> content n = encode_runes (cs @ ds) \<Longrightarrow> list_all scalar cs \<Longrightarrow>
   get_loop n (length (encode_runes cs)) (ds @ rs) = get_loop n (length (content n)) rs"
proof (induction ds arbitrary: cs)
  case (Cons d ds)
  then show ?case using DecodeRune_EncodeRune [of d "encode_runes ds"] Cons.IH [of "cs @ [d]"] by simp
qed simp

lemma get_entries:
  assumes "trie_ok n" "(k, v) \<in> set (entries p n)"
  shows "\<exists>rs. list_all scalar rs \<and> k = p @ encode_runes rs \<and> get_loop n 0 rs = Some v"
  using assms
proof (induction arbitrary: p k v rule: trie_ok.induct)
  case (1 cs chs t w)
  let ?n = "TrieNode (encode_runes cs) t w chs"
  have skip: "get_loop ?n 0 (cs @ rs) = get_loop ?n (length (encode_runes cs)) rs" for rs
    using get_content [of cs ?n "[]" rs] 1(1) by simp
  consider "t" "k = p @ encode_runes cs" "v = w"
    | r child where "(r, child) \<in> set chs" "(k, v) \<in> set (entries (p @ encode_runes cs) child)"
    using 1(4) by (auto split: if_splits)
  then show ?case
  proof cases
    case 1
    then show ?thesis using skip [of "[]"] \<open>list_all scalar cs\<close> by (intro exI [of _ cs]) simp
  next
    case (2 r child)
    from 1(3) [OF 2(1)] obtain ds where ds: "list_all scalar (r # ds)" "content child = encode_runes (r # ds)"
      and ok: "trie_ok child"
      and IH: "\<And>p k v. (k, v) \<in> set (entries p child) \<Longrightarrow>
        \<exists>rs. list_all scalar rs \<and> k = p @ encode_runes rs \<and> get_loop child 0 rs = Some v"
      by blast
    obtain rs where rs: "list_all scalar rs" "k = (p @ encode_runes cs) @ encode_runes rs"
      and g: "get_loop child 0 rs = Some v" using IH [OF 2(2)] by blast
    have at: "at_rune child [] (r # ds) 0" using ds by (simp add: at_rune_def)
    obtain rs' where rs': "rs = r # rs'" "get_loop child (length (EncodeRune r)) rs' = Some v"
      using g at_rune_cons(1,2) [OF at] by (cases rs) (auto split: if_splits)
    have "get_loop ?n 0 (cs @ rs) = Some v"
      unfolding skip using rs' ds map_of_is_SomeI [OF 1(2) 2(1)] by (simp add: nat_RuneLen)
    then show ?thesis using rs 1(1) by (intro exI [of _ "cs @ rs"]) simp
  qed
qed

text \<open>The keys of a child start with the rune it is filed under; so no key stands twice.\<close>

lemma child_entries:
  assumes ok: "trie_ok child" and c: "content child = encode_runes (r # ds)" "list_all scalar (r # ds)"
    and e: "(k, v) \<in> set (entries p child)"
  obtains rs where "k = p @ encode_runes (r # rs)" "list_all scalar (r # rs)"
proof -
  obtain rs where rs: "list_all scalar rs" "k = p @ encode_runes rs" "get_loop child 0 rs = Some v"
    using get_entries [OF ok e] by blast
  have "at_rune child [] (r # ds) 0" using c by (simp add: at_rune_def)
  then have "\<exists>rs'. rs = r # rs'"
    using rs(3) at_rune_cons(1,2) [of child "[]" r ds 0] by (cases rs) (auto split: if_splits)
  then show thesis using rs that by auto
qed

lemma distinct_children:
  assumes "distinct (map fst chs)"
    and "\<And>r child. (r, child) \<in> set chs \<Longrightarrow> trie_ok child \<and> (\<exists>ds. list_all scalar (r # ds) \<and> content child = encode_runes (r # ds))"
    and "\<And>r child. (r, child) \<in> set chs \<Longrightarrow> distinct (map fst (entries p child))"
  shows "distinct (map fst (concat (map (\<lambda>(r, child). entries p child) chs)))"
  using assms
proof (induction chs)
  case (Cons rc chs)
  obtain r child where rc: "rc = (r, child)" by fastforce
  have rest: "distinct (map fst (concat (map (\<lambda>(r, child). entries p child) chs)))"
    using Cons.prems by (intro Cons.IH) auto
  have "False" if a: "(k, v) \<in> set (entries p child)" and b: "(r', child') \<in> set chs" "(k, v') \<in> set (entries p child')"
    for k v v' r' child'
  proof -
    obtain rs where "k = p @ encode_runes (r # rs)" "list_all scalar (r # rs)"
      using Cons.prems(2) [of r child] a child_entries [of child r _ k v p] by (auto simp: rc)
    moreover obtain rs' where "k = p @ encode_runes (r' # rs')" "list_all scalar (r' # rs')"
      using Cons.prems(2) [of r' child'] b child_entries [of child' r' _ k v' p] by auto
    ultimately have "r # rs = r' # rs'"
      by (intro encode_runes_inj) auto
    then show False using Cons.prems(1) b(1) by (force simp: rc)
  qed
  then show ?case using rest Cons.prems(3) [of r child] by (fastforce simp: rc)
qed simp

lemma distinct_entries: "trie_ok n \<Longrightarrow> distinct (map fst (entries p n))"
proof (induction arbitrary: p rule: trie_ok.induct)
  case (1 cs chs t v)
  have "distinct (map fst (concat (map (\<lambda>(r, child). entries (p @ encode_runes cs) child) chs)))"
    using 1 by (intro distinct_children) blast+
  moreover have "k \<noteq> p @ encode_runes cs"
    if h: "(r, child) \<in> set chs" "(k, w) \<in> set (entries (p @ encode_runes cs) child)" for r child k w
  proof -
    obtain ds where ok: "trie_ok child" "content child = encode_runes (r # ds)" "list_all scalar (r # ds)"
      using 1(3) [OF h(1)] by blast
    show ?thesis by (rule child_entries [OF ok h(2)]) simp
  qed
  ultimately show ?case by force
qed

text \<open>For a trie that was filled with \<open>Put\<close>: each pair, the last one of every key.\<close>

lemma map_of_apfst_inj:
  assumes "inj_on f (insert k (fst ` set kvs))"
  shows "map_of (map (apfst f) kvs) (f k) = map_of kvs k"
  using assms
proof (induction kvs)
  case (Cons kv kvs)
  obtain x v where kv: "kv = (x, v)" by fastforce
  have "f k = f x \<longleftrightarrow> k = x" using Cons.prems by (auto simp: kv inj_on_def)
  moreover have "inj_on f (insert k (fst ` set kvs))" using Cons.prems by (rule inj_on_subset) auto
  ultimately show ?case using Cons.IH by (simp add: kv)
qed simp

lemma entries_put_all:
  assumes "\<forall>(k, v) \<in> set kvs. valid_utf8 k"
  shows "(k, v) \<in> set (entries [] (put_all kvs)) \<longleftrightarrow> map_of (rev kvs) k = Some v"
    "distinct (map fst (entries [] (put_all kvs)))"
proof -
  have ok: "trie_ok (put_all kvs)" using put_all by blast
  then show "distinct (map fst (entries [] (put_all kvs)))" by (rule distinct_entries)
  have look: "map_of (rev (map (apfst runes) kvs)) (runes k) = map_of (rev kvs) k" if "valid_utf8 k" for k
  proof -
    have "inj_on runes (insert k (fst ` set (rev kvs)))"
    proof (rule inj_onI)
      fix x y assume "x \<in> insert k (fst ` set (rev kvs))" "y \<in> insert k (fst ` set (rev kvs))" "runes x = runes y"
      moreover have "valid_utf8 x" "valid_utf8 y" using calculation assms(1) that by force+
      ultimately show "x = y" unfolding valid_utf8_def by metis
    qed
    then show ?thesis by (simp only: rev_map map_of_apfst_inj)
  qed
  have get: "get_loop (put_all kvs) 0 (runes k) = map_of (rev kvs) k" if "valid_utf8 k" for k
    using put_all [of kvs k] look [OF that] by (simp add: Get_def)
  show "(k, v) \<in> set (entries [] (put_all kvs)) \<longleftrightarrow> map_of (rev kvs) k = Some v"
  proof
    assume "(k, v) \<in> set (entries [] (put_all kvs))"
    then obtain rs where rs: "list_all scalar rs" "k = encode_runes rs" "get_loop (put_all kvs) 0 rs = Some v"
      using get_entries [OF ok, of k v "[]"] by auto
    have "runes k = rs" using rs(1,2) by (simp add: runes_encode)
    moreover have "valid_utf8 k" using rs(1,2) by (auto simp: valid_utf8_def runes_encode)
    ultimately show "map_of (rev kvs) k = Some v" using get rs(3) by metis
  next
    assume kv: "map_of (rev kvs) k = Some v"
    then have u: "valid_utf8 k" using assms(1) by (auto dest!: map_of_SomeD)
    then have "get_loop (put_all kvs) 0 (runes k) = Some v" using get kv by simp
    moreover obtain cs where "at_rune (put_all kvs) [] cs 0" using trie_ok_at [OF ok] by blast
    ultimately have "([] @ encode_runes ([] @ runes k), v) \<in> set (entries [] (put_all kvs))"
      using ok by (intro entries_get) (auto simp: scalar_runes)
    then show "(k, v) \<in> set (entries [] (put_all kvs))"
      using u by (force simp: valid_utf8_def)
  qed
qed

section \<open>Inverting\<close>

text \<open>The contents along the parents of a node of the inverted trie.\<close>

function prefix_of :: "InvertedTrieNode list \<Rightarrow> nat \<Rightarrow> gostring" where
  "prefix_of bs i =
     (if i < length bs \<and> Parent (bs ! i) < i then prefix_of bs (Parent (bs ! i)) @ Content (bs ! i)
      else Content (bs ! i))"
  by auto
termination by (relation "measure snd") auto

declare prefix_of.simps [simp del]

text \<open>Only the first node is its own parent.\<close>

definition chain_ok :: "InvertedTrieNode list \<Rightarrow> bool" where
  "chain_ok bs \<longleftrightarrow> bs \<noteq> [] \<and> bs ! 0 = \<lparr>Parent = 0, Content = []\<rparr> \<and>
     (\<forall>i. 0 < i \<and> i < length bs \<longrightarrow> Parent (bs ! i) < i)"

lemma prefix_of_append: "i < length bs \<Longrightarrow> prefix_of (bs @ ext) i = prefix_of bs i"
proof (induction i rule: less_induct)
  case (less i)
  then show ?case by (simp add: prefix_of.simps [of _ i] nth_append)
qed

lemma chain_ok_root: "chain_ok bs \<Longrightarrow> prefix_of bs 0 = []"
  by (simp add: chain_ok_def prefix_of.simps [of bs 0])

lemma chain_ok_snoc:
  assumes "chain_ok bs" "Parent n < length bs"
  shows "chain_ok (bs @ [n])" "prefix_of (bs @ [n]) (length bs) = prefix_of bs (Parent n) @ Content n"
  using assms by (auto simp: chain_ok_def nth_append less_Suc_eq prefix_of.simps [of "bs @ [n]" "length bs"]
    prefix_of_append)

fun nodes :: "trieNode \<Rightarrow> nat" where
  "nodes (TrieNode c t v chs) = Suc (sum_list (map (\<lambda>(r, child). nodes child) chs))"

definition pending :: "traversalNode list \<Rightarrow> (gostring \<times> u32) list" where
  "pending ts = concat (map (\<lambda>t. entries (prefix t) (node t)) ts)"

lemma pending_simps [simp]:
  "pending [] = []" "pending (t # ts) = entries (prefix t) (node t) @ pending ts"
  "pending (ts @ ts') = pending ts @ pending ts'"
  by (simp_all add: pending_def)

definition tnode_ok :: "InvertedTrieNode list \<Rightarrow> traversalNode \<Rightarrow> bool" where
  "tnode_ok bs t \<longleftrightarrow> parentIndex t < length bs \<and> prefix_of bs (parentIndex t) = prefix t"

lemma tnode_ok_append: "tnode_ok bs t \<Longrightarrow> tnode_ok (bs @ ext) t"
  by (simp add: tnode_ok_def prefix_of_append)

text \<open>The leaf that stands for a key.\<close>

definition leaf_for :: "InvertedTrieNode list \<Rightarrow> gostring \<Rightarrow> InvertedTrieNode \<Rightarrow> bool" where
  "leaf_for bs k leaf \<longleftrightarrow> Parent leaf < length bs \<and> prefix_of bs (Parent leaf) @ Content leaf = k"

lemma leaf_for_append: "leaf_for bs k leaf \<Longrightarrow> leaf_for (bs @ ext) k leaf"
  by (simp add: leaf_for_def prefix_of_append)

lemma mset_concat_perm:
  "mset xs = mset ys \<Longrightarrow> mset (concat (map f xs)) = mset (concat (map f ys))"
  by (metis mset_concat mset_map sum_mset_sum_list)

lemma sum_list_perm: "mset xs = mset ys \<Longrightarrow> sum_list (map f xs) = (sum_list (map f ys) :: nat)"
  by (metis mset_map sum_mset_sum_list)

text \<open>
  The loop from any state: it ends, adds to what it is given, and leaves a leaf with the
  right chain for every key that was pending.
\<close>

definition inverted :: "InvertedTrieNode list \<Rightarrow> (u32 \<rightharpoonup> InvertedTrieNode) \<Rightarrow> (gostring \<times> u32) list \<Rightarrow>
    InvertedTrieNode list \<Rightarrow> (u32 \<rightharpoonup> InvertedTrieNode) \<Rightarrow> bool" where
  "inverted bs ls es bs' ls' \<longleftrightarrow>
     chain_ok bs' \<and> (\<exists>ext. bs' = bs @ ext) \<and>
     (\<forall>v. v \<notin> snd ` set es \<longrightarrow> ls' v = ls v) \<and>
     (\<forall>(k, v) \<in> set es. \<exists>leaf. ls' v = Some leaf \<and> leaf_for bs' k leaf)"

lemma inverted_perm: "set es = set es' \<Longrightarrow> inverted bs ls es bs' ls' = inverted bs ls es' bs' ls'"
  by (simp add: inverted_def)

text \<open>One more branch, and one more leaf.\<close>

lemma inverted_grow:
  "inverted (bs @ [n]) ls es bs' ls' \<Longrightarrow> inverted bs ls es bs' ls'"
  by (auto simp: inverted_def)

lemma inverted_leaf:
  assumes i: "inverted bs (ls(v \<mapsto> leaf)) es bs' ls'" and v: "v \<notin> snd ` set es" and l: "leaf_for bs k leaf"
  shows "inverted bs ls ((k, v) # es) bs' ls'"
proof -
  obtain ext where ext: "bs' = bs @ ext" using i by (auto simp: inverted_def)
  have "ls' v = Some leaf" using i v by (simp add: inverted_def)
  then show ?thesis
    using i leaf_for_append [OF l, of ext] by (auto simp: inverted_def ext)
qed

lemma entries_node:
  "entries p n = (if terminal n then [(p @ content n, nodeValue n)] else []) @
     concat (map (\<lambda>(r, child). entries (p @ content n) child) (children n))"
  by (cases n) simp

lemma nodes_node: "nodes n = Suc (sum_list (map (\<lambda>(r, child). nodes child) (children n)))"
  by (cases n) simp

lemma invert_loop_ok:
  assumes Q: "queue_laws Q items" and rng: "range_order rng"
    and "chain_ok bs" "\<forall>t \<in> set (items q). tnode_ok bs t"
    and "distinct (map snd (pending (items q)))" "\<forall>(k, v) \<in> set (pending (items q)). ls v = None"
  shows "\<exists>bs' ls'. invert_loop Q rng q bs ls = Some (Inr (bs', ls')) \<and>
           inverted bs ls (pending (items q)) bs' ls'"
  using assms(3-)
proof (induction "sum_list (map (\<lambda>t. nodes (node t)) (items q))" arbitrary: q bs ls rule: less_induct)
  case less
  show ?case
  proof (cases "items q")
    case Nil
    then show ?thesis
      using less.prems queue_len [OF Q, of q]
      by (simp add: invert_loop.simps [of Q rng q] inverted_def)
  next
    case (Cons t ts)
    let ?n = "node t"
    let ?leaf = "\<lparr>Parent = parentIndex t, Content = content ?n\<rparr>"
    let ?q' = "snd (q_Dequeue Q q)"
    note deq = queue_front [OF Q Cons]
    define chs where "chs = rng (length bs) (children ?n)"
    define mk where "mk = (\<lambda>(r :: rune, child). \<lparr>prefix = prefix t @ content ?n, parentIndex = length bs, node = child\<rparr>)"
    define ls1 where "ls1 = (if terminal ?n then ls(nodeValue ?n \<mapsto> ?leaf) else ls)"
    define later where "later = concat (map (\<lambda>(r, child). entries (prefix t @ content ?n) child) (children ?n)) @ pending ts"
    have all: "pending (items q) = (if terminal ?n then [(prefix t @ content ?n, nodeValue ?n)] else []) @ later"
      unfolding Cons pending_simps entries_node [of "prefix t" ?n] later_def by simp
    have t: "tnode_ok bs t" "\<forall>t \<in> set ts. tnode_ok bs t"
      using less.prems(2) by (simp_all add: Cons)
    then have leaf: "leaf_for bs (prefix t @ content ?n) ?leaf"
      by (simp add: tnode_ok_def leaf_for_def)
    have d: "distinct (map snd later)" and new: "terminal ?n \<Longrightarrow> nodeValue ?n \<notin> snd ` set later"
      and free: "\<forall>(k, v) \<in> set later. ls1 v = None" and fresh: "terminal ?n \<Longrightarrow> ls (nodeValue ?n) = None"
      using less.prems(3,4) unfolding all ls1_def by (auto split: if_splits) force+
    have close: "inverted bs ls (pending (items q)) bs' ls'" if "inverted bs ls1 later bs' ls'" for bs' ls'
      using that inverted_leaf [OF _ new leaf, of ls bs' ls'] unfolding all ls1_def by (auto split: if_splits)
    show ?thesis
    proof (cases "children ?n = []")
      case True
      have step: "invert_loop Q rng q bs ls = invert_loop Q rng ?q' bs ls1"
        using queue_len [OF Q, of q] fresh True
        by (subst invert_loop.simps) (auto simp: Cons deq Let_def ls1_def)
      have "later = pending ts" by (simp add: later_def True)
      then have "\<exists>bs' ls'. invert_loop Q rng ?q' bs ls1 = Some (Inr (bs', ls')) \<and> inverted bs ls1 later bs' ls'"
        using less.hyps [of ?q' bs ls1] less.prems(1) t d free deq by (simp add: Cons nodes_node [of ?n])
      then show ?thesis unfolding step using close by blast
    next
      case False
      let ?q2 = "enqueue_all Q (map mk chs) ?q'"
      have step: "invert_loop Q rng q bs ls = invert_loop Q rng ?q2 (bs @ [?leaf]) ls1"
        using queue_len [OF Q, of q] fresh False
        by (subst invert_loop.simps) (auto simp: Cons deq Let_def ls1_def chs_def mk_def)
      have items: "items ?q2 = ts @ map mk chs" by (simp add: items_enqueue_all [OF Q] deq)
      have perm: "mset chs = mset (children ?n)" using rng by (simp add: chs_def range_order_def)
      have "pending (map mk chs) = concat (map (\<lambda>(r, child). entries (prefix t @ content ?n) child) chs)"
        by (simp add: pending_def mk_def comp_def case_prod_unfold)
      then have ms: "mset (pending (items ?q2)) = mset later"
        using mset_concat_perm [OF perm] by (simp add: items later_def)
      have set: "set (pending (items ?q2)) = set later" using ms by (rule mset_eq_setD)
      have "distinct (map snd (pending (items ?q2)))"
        using d ms by (metis mset_map mset_eq_imp_distinct_iff)
      moreover have "chain_ok (bs @ [?leaf])" "\<forall>t \<in> set (items ?q2). tnode_ok (bs @ [?leaf]) t"
      proof -
        note s = chain_ok_snoc [OF less.prems(1), of ?leaf]
        show "chain_ok (bs @ [?leaf])" using s(1) t by (simp add: tnode_ok_def)
        have "tnode_ok (bs @ [?leaf]) (mk rc)" for rc
          using s(2) t by (cases rc) (simp add: tnode_ok_def mk_def)
        then show "\<forall>t \<in> set (items ?q2). tnode_ok (bs @ [?leaf]) t"
          unfolding items using t tnode_ok_append by auto
      qed
      moreover have "(\<Sum>t\<leftarrow>items ?q2. nodes (node t)) < (\<Sum>t\<leftarrow>items q. nodes (node t))"
      proof -
        have "(\<Sum>t\<leftarrow>map mk chs. nodes (node t)) = (\<Sum>(r, child)\<leftarrow>chs. nodes child)"
          by (simp add: mk_def comp_def case_prod_unfold)
        then show ?thesis
          unfolding items Cons using sum_list_perm [OF perm, of "\<lambda>(r, child). nodes child"]
          by (simp add: nodes_node [of ?n])
      qed
      ultimately have "\<exists>bs' ls'. invert_loop Q rng ?q2 (bs @ [?leaf]) ls1 = Some (Inr (bs', ls')) \<and>
          inverted (bs @ [?leaf]) ls1 later bs' ls'"
        using less.hyps [of ?q2 "bs @ [?leaf]" ls1] free unfolding inverted_perm [OF set] set by blast
      then show ?thesis unfolding step using close inverted_grow by blast
    qed
  qed
qed

definition sample_urls :: "(gostring \<times> u32) list" where
  "sample_urls = [(bytes_of ''s3://b/x'', 0), (bytes_of ''s3://b/yy'', 5), (bytes_of ''s3://'', 9)]"

lemma sample_urls_ok:
  "list_all (\<lambda>(k, v). valid_utf8 k) sample_urls" "distinct (map fst sample_urls)" "distinct (map snd sample_urls)"
  by (simp_all add: sample_urls_def valid_utf8_ascii ascii_def bytes_of_def word_less_def)

text \<open>
  C20: the trie is a map.  After any sequence of \<open>Put\<close>s, \<open>Get\<close> returns the value last put
  under the key, keys being compared rune by rune; so for URLs that are valid UTF-8 the trie
  is exactly the map from URLs to addresses.
\<close>

theorem trie_is_map:
  assumes "list_all (\<lambda>(k, v). valid_utf8 k) kvs" "valid_utf8 key"
  shows "Get key (fold (\<lambda>(k, v). Put k v) kvs NewTrieMap) = map_of (rev kvs) key"
proof -
  have "map_of (map (apfst runes) xs) (runes key) = map_of xs key" if "\<forall>(k, v) \<in> set xs. valid_utf8 k" for xs :: "(gostring \<times> u32) list"
    using that by (induction xs) (auto, (metis assms(2) valid_utf8_def)+)
  then show ?thesis
    using put_all [of kvs key] assms(1) by (auto simp: put_all_def rev_map list_all_iff)
qed

theorem trie_is_map_witness:
  "Get (bytes_of ''s3://b/yy'') (fold (\<lambda>(k, v). Put k v) sample_urls NewTrieMap)
     = map_of (rev sample_urls) (bytes_of ''s3://b/yy'') \<and> map_of (rev sample_urls) (bytes_of ''s3://b/yy'') = Some 5"
proof
  have "valid_utf8 (bytes_of ''s3://b/yy'')"
    by (simp add: valid_utf8_ascii ascii_def bytes_of_def word_less_def)
  then show "Get (bytes_of ''s3://b/yy'') (fold (\<lambda>(k, v). Put k v) sample_urls NewTrieMap)
     = map_of (rev sample_urls) (bytes_of ''s3://b/yy'')"
    by (intro trie_is_map sample_urls_ok(1))
  show "map_of (rev sample_urls) (bytes_of ''s3://b/yy'') = Some 5"
    by (simp add: sample_urls_def bytes_of_def)
qed

text \<open>Of the pairs with the same key, the last one put has a leaf and the others have none.\<close>

lemma Invert_spec:
  assumes "queue_laws Q items" "range_order rng"
    and "\<forall>(k, v) \<in> set kvs. valid_utf8 k" "distinct (map snd kvs)"
  shows "\<exists>bs ls. Invert Q rng (fold (\<lambda>(k, v). Put k v) kvs NewTrieMap) = Some (Inr (bs, ls)) \<and>
           chain_ok bs \<and> (\<forall>v. ls v \<noteq> None \<longrightarrow> (\<exists>k. map_of (rev kvs) k = Some v)) \<and>
           (\<forall>k v. map_of (rev kvs) k = Some v \<longrightarrow> (\<exists>leaf. ls v = Some leaf \<and> Parent leaf < length bs \<and>
              prefix_of bs (Parent leaf) @ Content leaf = k))"
proof -
  let ?t = "\<lparr>prefix = [], parentIndex = 0, node = put_all kvs\<rparr>"
  let ?q = "q_Enqueue Q ?t (q_New Q)"
  let ?bs = "[\<lparr>Parent = 0, Content = []\<rparr>] :: InvertedTrieNode list"
  have items: "items ?q = [?t]" using assms(1) by (simp add: queue_laws_def)
  note e = entries_put_all [OF assms(3)]
  have sub: "set (entries [] (put_all kvs)) \<subseteq> set kvs" using e(1) by (auto dest!: map_of_SomeD)
  have "inj_on snd (set kvs)" using assms(4) by (simp add: distinct_map)
  then have "inj_on snd (set (entries [] (put_all kvs)))" by (rule inj_on_subset [OF _ sub])
  then have "distinct (map snd (pending (items ?q)))"
    using e(2) by (simp add: items distinct_map)
  then obtain bs ls where bs: "invert_loop Q rng ?q ?bs Map.empty = Some (Inr (bs, ls))"
    "inverted ?bs Map.empty (pending (items ?q)) bs ls"
    using invert_loop_ok [OF assms(1,2), of ?bs ?q Map.empty]
    by (auto simp: items chain_ok_def tnode_ok_def prefix_of.simps)
  then have i: "inverted ?bs Map.empty (entries [] (put_all kvs)) bs ls" by (simp add: items)
  have "\<exists>k. map_of (rev kvs) k = Some v" if "ls v \<noteq> None" for v
    using i that e(1) by (force simp: inverted_def)
  moreover have "\<exists>leaf. ls v = Some leaf \<and> Parent leaf < length bs \<and> prefix_of bs (Parent leaf) @ Content leaf = k"
    if "map_of (rev kvs) k = Some v" for k v
  proof -
    have "(k, v) \<in> set (entries [] (put_all kvs))" using that e(1) by blast
    then show ?thesis using i by (fastforce simp: inverted_def leaf_for_def)
  qed
  ultimately show ?thesis
    using bs(1) i by (intro exI [of _ bs] exI [of _ ls]) (auto simp: Invert_def put_all_def inverted_def)
qed

lemma Invert_recovers:
  assumes "queue_laws Q items" "range_order rng"
    and "\<forall>(k, v) \<in> set kvs. valid_utf8 k" "distinct (map fst kvs)" "distinct (map snd kvs)"
  shows "\<exists>bs ls. Invert Q rng (fold (\<lambda>(k, v). Put k v) kvs NewTrieMap) = Some (Inr (bs, ls)) \<and>
           chain_ok bs \<and> dom ls = snd ` set kvs \<and>
           (\<forall>(k, v) \<in> set kvs. \<exists>leaf. ls v = Some leaf \<and> Parent leaf < length bs \<and>
              prefix_of bs (Parent leaf) @ Content leaf = k)"
proof -
  have m: "map_of (rev kvs) k = Some v \<longleftrightarrow> (k, v) \<in> set kvs" for k v
    using map_of_eq_Some_iff [of "rev kvs"] assms(4) by (simp flip: rev_map)
  obtain bs ls where i: "Invert Q rng (fold (\<lambda>(k, v). Put k v) kvs NewTrieMap) = Some (Inr (bs, ls))" "chain_ok bs"
    "\<And>v. ls v \<noteq> None \<Longrightarrow> \<exists>k. (k, v) \<in> set kvs"
    "\<And>k v. (k, v) \<in> set kvs \<Longrightarrow> \<exists>leaf. ls v = Some leaf \<and> Parent leaf < length bs \<and> prefix_of bs (Parent leaf) @ Content leaf = k"
    using Invert_spec [OF assms(1-3,5)] unfolding m by blast
  have "dom ls = snd ` set kvs"
  proof (intro equalityI subsetI)
    fix v assume "v \<in> dom ls"
    then show "v \<in> snd ` set kvs" using i(3) by force
  next
    fix v assume "v \<in> snd ` set kvs"
    then show "v \<in> dom ls" using i(4) by force
  qed
  then show ?thesis using i(1,2,4) by fastforce
qed

text \<open>
  C19: inverting the trie of a disc.  For objects with different URLs and different addresses,
  in whatever order Go ranges over the children, \<open>Invert\<close> ends without its panic; the node of
  every parent precedes the node, only the first is its own parent; and every address has
  a leaf whose contents along the parents give back the URL.
\<close>

theorem Invert_recovers_keys:
  assumes "queue_laws Q items" "range_order rng"
    and "\<forall>(k, v) \<in> set kvs. valid_utf8 k" "distinct (map fst kvs)" "distinct (map snd kvs)"
  shows "\<exists>bs ls. Invert Q rng (fold (\<lambda>(k, v). Put k v) kvs NewTrieMap) = Some (Inr (bs, ls)) \<and>
           chain_ok bs \<and> dom ls = snd ` set kvs \<and>
           (\<forall>(k, v) \<in> set kvs. \<exists>leaf. ls v = Some leaf \<and> Parent leaf < length bs \<and>
              prefix_of bs (Parent leaf) @ Content leaf = k)"
  by (rule Invert_recovers [OF assms])

theorem Invert_recovers_keys_witness:
  "\<exists>bs ls. Invert list_queue (\<lambda>i xs. rev xs) (fold (\<lambda>(k, v). Put k v) sample_urls NewTrieMap) = Some (Inr (bs, ls)) \<and>
     chain_ok bs \<and> dom ls = snd ` set sample_urls \<and>
     (\<forall>(k, v) \<in> set sample_urls. \<exists>leaf. ls v = Some leaf \<and> Parent leaf < length bs \<and>
        prefix_of bs (Parent leaf) @ Content leaf = k)"
  by (rule Invert_recovers_keys [OF list_queue_laws range_order_rev])
    (use sample_urls_ok in \<open>auto simp: list_all_iff\<close>)

end
