(* ===== verification/TwoFiles.thy ===== *)
theory TwoFiles
  imports Image
begin

text \<open>
  A volume with two files in its root, for the examples of \<open>FileLayout\<close> and of the disc builder:
  it can be written whatever the objects of the files, as long as each fits one part.
\<close>

definition pair_volume :: "Object \<Rightarrow> Object \<Rightarrow> (gostring \<times> dirEntry) list Volume" where
  "pair_volume x y = fst (AddFile list_treemap (fst (AddFile list_treemap sample_new [0x64] x)) [0x65] y)"

definition pair_idents :: "gostring \<times> gostring" where
  "pair_idents = (first_ident @ bytes_of '';1'', base32_Encode (PutUvarint 1) @ bytes_of '';1'')"

definition pair_root :: "(gostring \<times> dirEntry) list Inode" where
  "pair_root = DirI \<lparr>d_ino = 1, d_perm = 0x16D, d_created = epoch, d_modified = epoch, d_parent = None, d_start = 0,
     d_idAlloc = \<lparr>ia_count = 2\<rparr>, d_names = [[0x64] \<mapsto> fst pair_idents, [0x65] \<mapsto> snd pair_idents],
     d_children = [(fst pair_idents, \<lparr>de_name = [0x64], de_child = 1\<rparr>), (snd pair_idents, \<lparr>de_name = [0x65], de_child = 2\<rparr>)],
     d_size = 0, d_nameValidator = (\<lambda>name. None)\<rparr>"

definition pair_file :: "InodeNumber \<Rightarrow> Object \<Rightarrow> (gostring \<times> dirEntry) list Inode" where
  "pair_file ino x = FileI \<lparr>f_ino = ino, f_perm = 0x124, f_created = epoch, f_modified = epoch, f_nlink = 1, f_start = 0, f_o = x\<rparr>"

lemma pair_order: "fst pair_idents < snd pair_idents"
  by code_simp

lemma pair_heap: "v_heap (pair_volume x y) = [pair_root, pair_file 2 x, pair_file 3 y]" "v_root (pair_volume x y) = 0"
  using pair_order
  by (simp_all add: pair_volume_def pair_root_def pair_file_def pair_idents_def first_ident_def volume_eval)

lemma pair_ok: "volume_ok list_treemap (pair_volume x y)"
  unfolding pair_volume_def
  by (rule built_ok [OF list_treemap_laws add_file [OF add_file [OF sample_built(1)]]])


definition small_object :: "Object \<Rightarrow> bool" where
  "small_object x \<longleftrightarrow> 0 \<le> Size x \<and> Size x \<le> int MaxPartSize"

lemma pair_types [simp]:
  "Inode_Type pair_root = InodeTypeDirectory" "Inode_Type (pair_file ino x) = InodeTypeFile"
  "d_children (the_dir pair_root) =
     [(fst pair_idents, \<lparr>de_name = [0x64], de_child = 1\<rparr>), (snd pair_idents, \<lparr>de_name = [0x65], de_child = 2\<rparr>)]"
  "d_parent (the_dir pair_root) = None"
  by (simp_all add: pair_root_def pair_file_def)

abbreviation pair_tree :: "Object \<Rightarrow> Object \<Rightarrow> (gostring \<times> dirEntry) list heap" where
  "pair_tree x y \<equiv> [pair_root, pair_file 2 x, pair_file 3 y]"

lemma pair_times: "times_ok (pair_tree x y)"
  by (simp add: times_ok_def node_times_def pair_root_def pair_file_def entry_time_def epoch_def valid_time_def daysIn_def)

lemma pair_members:
  "directory_members list_treemap (pair_tree x y) 0 =
     [([0], dot, pair_root), ([1], dotdot, pair_root), (fst pair_idents, [0x64], pair_file 2 x), (snd pair_idents, [0x65], pair_file 3 y)]"
  unfolding directory_members_def child_entries_def list_treemap_def by (simp add: numeral_2_eq_2)

lemma pair_reached: "reached (pair_tree x y) c \<longleftrightarrow> c = 0"
proof -
  have "c = 0 \<or> c = 1 \<or> c = 2" if "c < 3" using that by presburger
  then show ?thesis unfolding reached_def by (auto simp: numeral_3_eq_3)
qed

lemma pair_names: "name \<in> {dot, dotdot, [0x64], [0x65]} \<Longrightarrow> isValid (\<lambda>r. True) name \<and> length (name_chunks name) = 1"
  by (auto simp: isValid_def range_string_def DecodeRune_def dot_def dotdot_def name_chunks_short)

lemma pair_member:
  assumes "(ident, name, i) \<in> set (directory_members list_treemap (pair_tree x y) c)" "reached (pair_tree x y) c"
  shows "i \<in> set (pair_tree x y)" "name \<in> {dot, dotdot, [0x64], [0x65]}" "AdditionalSystemUseEntries p i = Inr []"
    "length (directory_members list_treemap (pair_tree x y) c) = 4"
proof -
  have c: "c = 0" using assms(2) pair_reached by blast
  show "length (directory_members list_treemap (pair_tree x y) c) = 4" by (simp add: c pair_members)
  show "i \<in> set (pair_tree x y)" "name \<in> {dot, dotdot, [0x64], [0x65]}" using assms(1) by (auto simp: c pair_members)
  then show "AdditionalSystemUseEntries p i = Inr []" by (auto simp: pair_root_def pair_file_def)
qed

lemma pair_recordable:
  assumes "small_object x" "small_object y"
  shows "recordable (\<lambda>r. True) list_treemap (pair_tree x y)"
proof -
  have "small_files (pair_tree x y)"
    using assms by (auto simp: small_files_def pair_root_def pair_file_def small_object_def)
  moreover have "length (directory_members list_treemap (pair_tree x y) c) = 4" if "reached (pair_tree x y) c" for c
    using that pair_reached [of x y c] by (auto simp: pair_members)
  moreover have "isValid (\<lambda>r. True) name \<and> (\<exists>adds. AdditionalSystemUseEntries (\<lambda>r. True) i = Inr adds)"
    if "(ident, name, i) \<in> set (directory_members list_treemap (pair_tree x y) c)" "reached (pair_tree x y) c" for ident name i c
    using pair_member(2,3) [OF that] pair_names by blast
  ultimately show ?thesis unfolding recordable_def by auto
qed

lemma pair_entry_count:
  assumes "small_object x" "small_object y"
    and "m \<in> set (directory_members list_treemap (pair_tree x y) c)" "reached (pair_tree x y) c"
  shows "entry_count (\<lambda>r. True) list_treemap (pair_tree x y) m \<le> 6"
proof -
  obtain ident name i where m: "m = (ident, name, i)" by (cases m)
  note mem = pair_member [OF assms(3,4) [unfolded m]]
  have "isValid (\<lambda>r. True) name" "length (name_chunks name) = 1" using mem(2) pair_names by blast+
  from InodeSystemUseEntries_ok [OF this(1) mem(3), of list_treemap "pair_tree x y" ident] this(2)
  obtain es where es: "InodeSystemUseEntries (\<lambda>r. True) list_treemap (pair_tree x y) ident name i = Inr es" "length es \<le> 6"
    by auto
  have "small_files (pair_tree x y)" using pair_recordable [OF assms(1,2)] by (simp add: recordable_def)
  moreover have "small_dirs (pair_tree x y)" using pair_ok [of x y] heap_ok_small by (auto simp: volume_ok_def pair_heap)
  ultimately obtain part where "Inode_Parts i = Inr [part]" using one_part mem(1) by blast
  then show ?thesis using es by (simp add: entry_count_def m)
qed

lemma pair_walks: "walks list_treemap (pair_tree x y) [root_rel 0] [root_rel 0]"
proof -
  have "subdirectories list_treemap (pair_tree x y) 0 = []"
    by (simp add: subdirectories_def child_entries_def list_treemap_def numeral_2_eq_2)
  then show ?thesis
    using walks_step [of "pair_tree x y" "root_rel 0" list_treemap "[]" "[]"] walks_end [of list_treemap "pair_tree x y"]
    by (simp add: root_rel_def)
qed

lemma pair_writable:
  assumes s: "small_object x" "small_object y"
  shows "writable (\<lambda>r. True) list_treemap (pair_volume x y)"
proof -
  let ?es = "sum_list (map (entry_count (\<lambda>r. True) list_treemap (pair_tree x y)) (directory_members list_treemap (pair_tree x y) 0))"
  have r: "reached (pair_tree x y) 0" by (simp add: pair_reached)
  have l: "length (directory_members list_treemap (pair_tree x y) 0) = 4" by (simp add: pair_members)
  have "?es \<le> sum_list (map (\<lambda>m. 6) (directory_members list_treemap (pair_tree x y) 0))"
    by (rule sum_list_mono) (rule pair_entry_count [OF s _ r])
  then have e: "?es \<le> 24" using l by (simp add: sum_list_triv)
  have h: "heap_ok list_treemap (pair_tree x y)" using pair_ok [of x y] by (simp add: volume_ok_def pair_heap)
  from dir_len_le [where p = "\<lambda>r. True", OF h pair_times r _ pair_recordable [OF s]] e l
  have d: "dir_len (\<lambda>r. True) list_treemap (pair_tree x y) 0 \<le> 100000" by simp
  have "table_len [root_rel 0] \<le> 100" by (simp add: table_len_def root_rel_def)
  then have "(table_len [root_rel 0] + 2047) div 2048 \<le> (100 + 2047) div 2048" by (intro div_le_mono) simp
  then have "image_len (\<lambda>r. True) list_treemap (pair_tree x y) [root_rel 0] < 2 ^ 32"
    using d by (simp add: image_len_def root_rel_def)
  then have "\<exists>n < 2 ^ 32. metadata_len (\<lambda>r. True) list_treemap (pair_volume x y) n"
    unfolding metadata_len_def pair_heap using pair_walks by blast
  then show ?thesis
    unfolding writable_def using pair_ok [of x y] pair_times pair_recordable [OF s] by (simp add: pair_heap)
qed

text \<open>Its files, in the order of the visits.\<close>

definition pair_rels :: "Relationship list" where
  "pair_rels = [entry_rel 0 (fst pair_idents, \<lparr>de_name = [0x64], de_child = 1\<rparr>),
     entry_rel 0 (snd pair_idents, \<lparr>de_name = [0x65], de_child = 2\<rparr>)]"

lemma pair_visited: "visited_files list_treemap (v_heap (pair_volume x y)) (v_root (pair_volume x y)) pair_rels"
proof -
  have "concat (map (files_of list_treemap (pair_tree x y) \<circ> rel_Child) [root_rel 0]) = pair_rels"
    by (simp add: pair_rels_def files_of_def files_in_def child_entries_def list_treemap_def root_rel_def entry_rel_def)
  then show ?thesis using pair_walks unfolding visited_files_def pair_heap by metis
qed

lemma pair_distinct: "distinct (map rel_Child pair_rels)"
  by (simp add: pair_rels_def entry_rel_def)

end
