(* ===== verification/FileLayout.thy ===== *)
theory FileLayout
  imports TwoFiles SectionReader
begin

text \<open>
  The files of a volume: \<open>VisitFiles\<close>, \<open>VisitFileInodes\<close> and \<open>WriteTo\<close> of \<open>volume.go\<close>.  The
  addresses that \<open>WriteMetadataTo\<close> gives to the files are where their bytes lie when they follow
  the metadata, each in whole sectors.
\<close>

section \<open>The code\<close>

definition VisitFileInodes ::
  "('m, dirEntry) treemap \<Rightarrow> ('r, ref) queue \<Rightarrow> (FileInode \<Rightarrow> 's \<Rightarrow> ('s \<times> goerr option) option) \<Rightarrow>
   'm Volume \<Rightarrow> 's \<Rightarrow> ('s \<times> goerr option) option" where
  "VisitFileInodes T R visit v s =
     VisitFiles T R (\<lambda>s. v_heap v)
       (\<lambda>rel s. case v_heap v ! rel_Child rel of
          FileI f \<Rightarrow> visit f s
        | _ \<Rightarrow> Some (s, Some (Panic ''interface conversion''))) (v_root v) s"

definition Volume_VisitFiles ::
  "('m, dirEntry) treemap \<Rightarrow> ('r, ref) queue \<Rightarrow> (Object \<Rightarrow> 's \<Rightarrow> ('s \<times> goerr option) option) \<Rightarrow>
   'm Volume \<Rightarrow> 's \<Rightarrow> ('s \<times> goerr option) option" where
  "Volume_VisitFiles T R visit v s = VisitFileInodes T R (\<lambda>f. visit (f_o f)) v s"

definition FileInode_WriteTo :: "FileInode \<Rightarrow> (byte list \<times> goerr option) option" where
  "FileInode_WriteTo f = copy_section (AnonymousObject.truncate (f_o f)) 0 (Size (f_o f))"

text \<open>The visitor of \<open>WriteTo\<close>; \<open>out\<close> is what has been written.\<close>

definition write_file :: "'m heap \<Rightarrow> byte list visitor" where
  "write_file h rel out =
     (case h ! rel_Child rel of
        FileI f \<Rightarrow>
          if f_start f = 0 then Some (out, None)
          else
            (case assertLBA (f_start f) out of
               Some e \<Rightarrow> Some (out, Some e)
             | None \<Rightarrow>
                 map_option (\<lambda>(bs, err). if err \<noteq> None then (out @ bs, err) else (pad_out (out @ bs), None))
                   (FileInode_WriteTo f))
      | _ \<Rightarrow> Some (out, Some (Panic ''interface conversion'')))"

definition Volume_WriteTo ::
  "(rune \<Rightarrow> bool) \<Rightarrow> (rune \<Rightarrow> rune) \<Rightarrow> ('m, dirEntry) treemap \<Rightarrow> ('q, Relationship) queue \<Rightarrow> ('r, ref) queue \<Rightarrow>
   'm Volume \<Rightarrow> ('m Volume \<times> byte list \<times> goerr option) option" where
  "Volume_WriteTo is_print up T Q R v =
     Option.bind (WriteMetadataTo is_print up T Q R v) (\<lambda>(v', out, err).
       if err \<noteq> None then Some (v', out, err)
       else map_option (\<lambda>(out', err'). (v', out', err'))
              (VisitFiles T R (\<lambda>out. v_heap v') (write_file (v_heap v')) (v_root v') out))"

section \<open>Where the files are\<close>

text \<open>The file at a node, and the bytes it holds; it fits one part.\<close>

definition file_holds :: "'m heap \<Rightarrow> Relationship \<Rightarrow> byte list \<Rightarrow> bool" where
  "file_holds h r c \<longleftrightarrow> (\<exists>f. h ! rel_Child r = FileI f \<and> read_object (AnonymousObject.truncate (f_o f)) c \<and>
     length c \<le> MaxPartSize)"

lemma Size_truncate [simp]: "Size (AnonymousObject.truncate x) = Size x"
  by (simp add: AnonymousObject.defs)

text \<open>The sectors of a file: one of zeros for an empty file.\<close>

definition slot :: "byte list \<Rightarrow> byte list" where
  "slot c = (if c = [] then pad 2048 else pad_out c)"

lemma slot_aligned: "2048 dvd length (slot c)"
  using pad_out_aligned by (simp add: slot_def)

lemma slot_pos: "0 < length (slot c)"
proof (cases "c = []")
  case True
  then show ?thesis by (simp add: slot_def length_pad del: length_greater_0_conv)
next
  case False
  then show ?thesis by (simp add: slot_def pad_out_def)
qed

lemma slot_prefix: "take (length c) (slot c) = c"
  by (simp add: slot_def pad_out_def)

lemma slot_sectors:
  assumes "length c \<le> MaxPartSize"
  shows "bytesToSectors (of_int (int (length c))) = of_nat (length (slot c) div 2048)"
proof (cases "c = []")
  case True
  then show ?thesis by (simp add: slot_def bytesToSectors_def)
next
  case False
  have "length c < 2 ^ 32" using assms by (simp add: MaxPartSize_def)
  from length_pad_out(2) [of c, OF _ this] False
  have "length (slot c) div 2048 = unat (bytesToSectors (of_nat (length c)))" by (simp add: slot_def)
  then show ?thesis by simp
qed

lemma slots_aligned: "2048 dvd length (concat (map slot cs))"
proof (induction cs)
  case (Cons c cs)
  then show ?case using slot_aligned [of c] by simp
qed simp

definition file_at :: "'m heap \<Rightarrow> Relationship \<Rightarrow> FileInode" where
  "file_at h r = (case h ! rel_Child r of FileI f \<Rightarrow> f)"

lemma files_placed_start:
  assumes "files_placed H (of_nat (n div 2048)) fs b" "list_all2 (file_holds H) fs cs" "2048 dvd n"
    and "n + length (concat (map slot cs)) < 2048 * 2 ^ 32" "i < length fs"
  shows "unat (f_start (file_at H (fs ! i))) * 2048 = n + length (concat (map slot (take i cs)))"
  using assms
proof (induction fs arbitrary: n cs i)
  case (Cons r fs)
  obtain c cs' where cs: "cs = c # cs'" "file_holds H r c" "list_all2 (file_holds H) fs cs'"
    using Cons.prems(2) by (auto simp: list_all2_Cons1)
  obtain f where f: "H ! rel_Child r = FileI f" "f_start f = of_nat (n div 2048)"
    "files_placed H (of_nat (n div 2048) + bytesToSectors (of_int (Size (f_o f)))) fs b"
    using Cons.prems(1) by auto
  have c: "Size (f_o f) = int (length c)" "length c \<le> MaxPartSize"
    using cs(2) f(1) read_object.size_content by (fastforce simp: file_holds_def)+
  show ?case
  proof (cases i)
    case 0
    have "n div 2048 < 2 ^ 32" using Cons.prems(4) by simp
    then have "unat (of_nat (n div 2048) :: u32) = n div 2048" by (simp add: unat_of_nat)
    then show ?thesis using 0 f Cons.prems(3) by (simp add: file_at_def)
  next
    case (Suc j)
    have "(n + length (slot c)) div 2048 = n div 2048 + length (slot c) div 2048"
      using Cons.prems(3) slot_aligned [of c] by (auto elim!: dvdE)
    then have "files_placed H (of_nat ((n + length (slot c)) div 2048)) fs b"
      using f(3) slot_sectors [OF c(2)] by (simp add: c(1))
    moreover have "2048 dvd n + length (slot c)" using Cons.prems(3) slot_aligned [of c] by simp
    ultimately show ?thesis
      using Cons.IH [of "n + length (slot c)" cs' j] Cons.prems(4,5) Suc cs by (simp add: add.assoc)
  qed
qed simp

text \<open>So a file's bytes lie at its address when the slots of the files follow the metadata.\<close>

lemma file_in_image:
  assumes "files_placed H (of_nat (length out div 2048)) fs b" "list_all2 (file_holds H) fs cs" "2048 dvd length out"
    and "length (out @ concat (map slot cs)) < 2048 * 2 ^ 32" "i < length fs"
  shows "take (length (cs ! i)) (drop (unat (f_start (file_at H (fs ! i))) * 2048) (out @ concat (map slot cs))) = cs ! i"
proof -
  have len: "length cs = length fs" using assms(2) by (simp add: list_all2_lengthD)
  have st: "unat (f_start (file_at H (fs ! i))) * 2048 = length out + length (concat (map slot (take i cs)))"
    using files_placed_start [OF assms(1-3) _ assms(5)] assms(4) by simp
  have "cs = take i cs @ cs ! i # drop (Suc i) cs" using assms(5) len by (simp add: id_take_nth_drop)
  then have "concat (map slot cs) = concat (map slot (take i cs)) @ slot (cs ! i) @ concat (map slot (drop (Suc i) cs))"
    by (metis concat.simps(2) concat_append list.simps(9) map_append)
  then have "drop (unat (f_start (file_at H (fs ! i))) * 2048) (out @ concat (map slot cs)) =
      slot (cs ! i) @ concat (map slot (drop (Suc i) cs))"
    unfolding st by (simp add: drop_append)
  moreover have "length (cs ! i) \<le> length (slot (cs ! i))" by (simp add: slot_def pad_out_def)
  ultimately show ?thesis using slot_prefix [of "cs ! i"] by simp
qed

section \<open>Writing the files\<close>

lemma pad_out_slot: "c \<noteq> [] \<Longrightarrow> slot c = pad_out c"
  by (simp add: slot_def)

lemma write_files:
  assumes "files_placed H (of_nat (length out div 2048)) fs b" "list_all2 (file_holds H) fs cs" "2048 dvd length out"
    and "0 < length out" "length (out @ concat (map slot cs)) < 2048 * 2 ^ 32" "[] \<notin> set cs"
  shows "run_files (write_file H) fs out = Some (out @ concat (map slot cs), None)"
  using assms
proof (induction fs arbitrary: out cs)
  case (Cons r fs)
  obtain c cs' where cs: "cs = c # cs'" "file_holds H r c" "list_all2 (file_holds H) fs cs'" "c \<noteq> []"
    using Cons.prems(2,6) by (auto simp: list_all2_Cons1)
  obtain f where f: "H ! rel_Child r = FileI f" "f_start f = of_nat (length out div 2048)"
    "files_placed H (of_nat (length out div 2048) + bytesToSectors (of_int (Size (f_o f)))) fs b"
    using Cons.prems(1) by auto
  have c: "read_object (AnonymousObject.truncate (f_o f)) c" "length c \<le> MaxPartSize"
    using cs(2) f(1) by (auto simp: file_holds_def)
  have sz: "Size (f_o f) = int (length c)" using read_object.size_content [OF c(1)] by simp
  obtain k where k: "length out = 2048 * k" using Cons.prems(3) by (rule dvdE)
  then have d: "0 < length out div 2048" "length out div 2048 < 2 ^ 32"
    using Cons.prems(4,5) by (auto simp del: length_greater_0_conv)
  then have "unat (of_nat (length out div 2048) :: u32) \<noteq> 0" by (simp add: unat_of_nat)
  then have ne: "f_start f \<noteq> 0" using f(2) by auto
  have lba: "assertLBA (f_start f) out = None"
    using Cons.prems(3) f(2) by (simp add: assertLBA_def LogicalBlockSize_def dvd_eq_mod_eq_0)
  have "FileInode_WriteTo f = Some (c, None)"
    unfolding FileInode_WriteTo_def by (rule copy_section_object [OF c(1) sz])
  then have st: "write_file H r out = Some (out @ slot c, None)"
    using f(1) ne lba cs(4) Cons.prems(3) by (simp add: write_file_def pad_out_append pad_out_slot)
  have "length (out @ slot c) div 2048 = length out div 2048 + length (slot c) div 2048"
    using Cons.prems(3) slot_aligned [of c] by (auto elim!: dvdE)
  then have "files_placed H (of_nat (length (out @ slot c) div 2048)) fs b"
    using f(3) slot_sectors [OF c(2)] by (simp add: sz)
  moreover have "2048 dvd length (out @ slot c)" using Cons.prems(3) slot_aligned [of c] by simp
  ultimately have "run_files (write_file H) fs (out @ slot c) = Some ((out @ slot c) @ concat (map slot cs'), None)"
    using Cons.IH [of "out @ slot c" cs'] Cons.prems(4,5,6) cs by simp
  then show ?case using st cs(1) by simp
qed simp

section \<open>The whole image\<close>

lemma moved_file:
  assumes "moved h h'" "p < length h" "h ! p = FileI f"
  shows "\<exists>f'. h' ! p = FileI f' \<and> f_o f' = f_o f"
proof -
  have e: "erase (h' ! p) = FileI (f\<lparr>f_start := 0\<rparr>)" using moved_nth [OF assms(1,2)] assms(3) by simp
  then obtain f' where f': "h' ! p = FileI f'" "f'\<lparr>f_start := 0\<rparr> = f\<lparr>f_start := 0\<rparr>" by (cases "h' ! p") auto
  have "f_o (f'\<lparr>f_start := 0\<rparr>) = f_o (f\<lparr>f_start := 0\<rparr>)" by (simp only: f'(2))
  then show ?thesis using f'(1) by simp
qed

lemma moved_holds:
  assumes "moved h h'" "rel_Child r < length h" "file_holds h r c"
  shows "file_holds h' r c"
  using assms(3) moved_file [OF assms(1,2)] unfolding file_holds_def by fastforce

lemma visited_valid:
  assumes "volume_ok T v" "visited_files T (v_heap v) (v_root v) fs" "r \<in> set fs"
  shows "rel_Child r < length (v_heap v)"
proof -
  obtain xs where w: "walks T (v_heap v) [root_rel (v_root v)] xs"
    and fs: "fs = concat (map (files_of T (v_heap v) \<circ> rel_Child) xs)"
    using assms(2) unfolding visited_files_def by blast
  have h: "heap_ok T (v_heap v)" and d: "reached (v_heap v) (v_root v)"
    using assms(1) by (auto simp: volume_ok_def reached_def)
  have r: "\<forall>r \<in> set xs. reached (v_heap v) (rel_Child r)" using walks_reached [OF w h] d by (simp add: root_rel_def)
  obtain x where x: "x \<in> set xs" "r \<in> set (files_of T (v_heap v) (rel_Child x))" using assms(3) fs by auto
  then obtain e where e: "e \<in> set (child_entries T (v_heap v) (rel_Child x))" "r = entry_rel (rel_Child x) e"
    by (auto simp: files_of_def files_in_def)
  have "de_child (snd e) < length (v_heap v)"
    using child_entries_valid(1) [OF h _ _ e(1)] r x(1) by (simp add: reached_def)
  then show ?thesis using e(2) by (simp add: entry_rel_def)
qed

lemma VisitFiles_run:
  assumes "volume_ok T v" "moved (v_heap v) H" "queue_laws R ritems" "visited_files T (v_heap v) (v_root v) fs"
  shows "VisitFiles T R (\<lambda>s. H) visit (v_root v) s = run_files visit fs s"
proof -
  obtain xs where w: "walks T (v_heap v) [root_rel (v_root v)] xs"
    and fs: "fs = concat (map (files_of T (v_heap v) \<circ> rel_Child) xs)"
    using assms(4) unfolding visited_files_def by blast
  have h: "heap_ok T (v_heap v)" and d: "reached (v_heap v) (v_root v)"
    using assms(1) by (auto simp: volume_ok_def reached_def)
  have r: "\<forall>r \<in> set xs. reached (v_heap v) (rel_Child r)" using walks_reached [OF w h] d by (simp add: root_rel_def)
  have i: "ritems (q_Enqueue R (v_root v) (q_New R)) = map rel_Child [root_rel (v_root v)]"
    using assms(3) by (simp add: queue_laws_def root_rel_def)
  have k: "keeps (v_heap v) (\<lambda>s. H) visit fs" using assms(2) by (simp add: keeps_def)
  show ?thesis unfolding VisitFiles_def fs
    by (rule visit_files_walks [OF assms(3) h w r i k [unfolded fs] assms(2)])
qed

lemma written_visits:
  assumes T: "treemap_laws T" and v: "writable p T v" and p: "p RuneError" and Q: "queue_laws Q items" "queue_laws R ritems"
    and fs: "visited_files T (v_heap v) (v_root v) fs" "distinct (map rel_Child fs)"
  shows "\<exists>v' out. WriteMetadataTo p up T Q R v = Some (v', out, None) \<and> length out < 2 ^ 32 \<and> 0 < length out \<and> 2048 dvd length out \<and>
    moved (v_heap v) (v_heap v') \<and> v_root v' = v_root v \<and>
    files_placed (v_heap v') (of_nat (length out div 2048)) fs (VolumeSpaceSize (v_pvd v')) \<and>
    (\<forall>visit s. VisitFiles T R (\<lambda>s. v_heap v') visit (v_root v') (s :: byte list) = run_files visit fs s)"
proof -
  have ok: "volume_ok T v" "small_files (v_heap v)" using v by (auto simp: writable_def recordable_def)
  obtain v' out where w: "WriteMetadataTo p up T Q R v = Some (v', out, None)" "length out < 2 ^ 32"
    "moved (v_heap v) (v_heap v')" "v_root v' = v_root v" "image_of p up T v' out" "files_follow T v v' out"
    using writable_writes [where p = p and up = up, OF T v p Q] by blast
  have "length (pad (16 * LogicalBlockSize)) \<le> length out" using w(5) by (auto simp: image_of_def)
  then have "0 < length out" by (simp add: length_pad LogicalBlockSize_def del: length_greater_0_conv)
  moreover have "2048 dvd length out" using w(6) by (simp add: files_follow_def)
  moreover have "files_placed (v_heap v') (of_nat (length out div 2048)) fs (VolumeSpaceSize (v_pvd v'))"
    using w(6) fs(1,2) ok(2) unfolding files_follow_def by blast
  ultimately show ?thesis using w VisitFiles_run [OF ok(1) w(3) Q(2) fs(1)] by auto
qed

lemma holds_moved:
  assumes "volume_ok T v" "moved (v_heap v) H" "visited_files T (v_heap v) (v_root v) fs"
    and "set fs1 \<subseteq> set fs" "list_all2 (file_holds (v_heap v)) fs1 cs"
  shows "list_all2 (file_holds H) fs1 cs"
  using assms(4,5) visited_valid [OF assms(1,3)] moved_holds [OF assms(2)]
  by (auto simp: list_all2_conv_all_nth subset_eq)

lemma written_files:
  assumes T: "treemap_laws T" and v: "writable p T v" and p: "p RuneError" and Q: "queue_laws Q items" "queue_laws R ritems"
    and fs: "visited_files T (v_heap v) (v_root v) fs" "distinct (map rel_Child fs)" "list_all2 (file_holds (v_heap v)) fs cs"
    and n: "length (concat (map slot cs)) < 2047 * 2 ^ 32"
  shows "\<exists>v' out. WriteMetadataTo p up T Q R v = Some (v', out, None) \<and> length out < 2 ^ 32 \<and> 0 < length out \<and> 2048 dvd length out \<and>
    moved (v_heap v) (v_heap v') \<and> v_root v' = v_root v \<and>
    files_placed (v_heap v') (of_nat (length out div 2048)) fs (VolumeSpaceSize (v_pvd v')) \<and>
    list_all2 (file_holds (v_heap v')) fs cs \<and>
    (\<forall>visit s. VisitFiles T R (\<lambda>s. v_heap v') visit (v_root v') (s :: byte list) = run_files visit fs s)"
proof -
  have "volume_ok T v" using v by (simp add: writable_def)
  then show ?thesis
    using written_visits [where p = p and up = up, OF T v p Q fs(1,2)] holds_moved [OF _ _ fs(1) _ fs(3)] by blast
qed

lemma VisitFiles_end:
  assumes "WriteMetadataTo p up T Q R v = Some (v', out, None)"
    and "VisitFiles T R (\<lambda>s. v_heap v') (write_file (v_heap v')) (v_root v') out = Some (out', e)"
  shows "Volume_WriteTo p up T Q R v = Some (v', out', e)"
  using assms by (simp add: Volume_WriteTo_def)

lemma WriteTo_spec:
  assumes T: "treemap_laws T" and v: "writable p T v" and p: "p RuneError" and Q: "queue_laws Q items" "queue_laws R ritems"
    and fs: "visited_files T (v_heap v) (v_root v) fs" "distinct (map rel_Child fs)" "list_all2 (file_holds (v_heap v)) fs cs"
    and n: "length (concat (map slot cs)) < 2047 * 2 ^ 32" and ne: "[] \<notin> set cs"
  shows "\<exists>v' out. WriteMetadataTo p up T Q R v = Some (v', out, None) \<and>
    Volume_WriteTo p up T Q R v = Some (v', out @ concat (map slot cs), None) \<and>
    (\<forall>i < length fs. take (length (cs ! i))
       (drop (unat (f_start (file_at (v_heap v') (fs ! i))) * 2048) (out @ concat (map slot cs))) = cs ! i)"
proof -
  obtain v' out where w: "WriteMetadataTo p up T Q R v = Some (v', out, None)" "length out < 2 ^ 32"
    "0 < length out" "2048 dvd length out"
    "files_placed (v_heap v') (of_nat (length out div 2048)) fs (VolumeSpaceSize (v_pvd v'))"
    "list_all2 (file_holds (v_heap v')) fs cs"
    "\<And>visit s. VisitFiles T R (\<lambda>s. v_heap v') visit (v_root v') (s :: byte list) = run_files visit fs s"
    using written_files [where p = p and up = up, OF T v p Q fs n] by blast
  have len: "length (out @ concat (map slot cs)) < 2048 * 2 ^ 32" using w(2) n by simp
  have "VisitFiles T R (\<lambda>s. v_heap v') (write_file (v_heap v')) (v_root v') out = Some (out @ concat (map slot cs), None)"
    unfolding w(7) by (rule write_files [OF w(5,6,4,3) len ne])
  from VisitFiles_end [OF w(1) this] file_in_image [OF w(5,6,4) len] w(1) show ?thesis by blast
qed


text \<open>C6:
  A writable volume whose files hold bytes, no two entries being the same file, is written
  without an error: the image is the metadata followed by the files in the order in which they
  are visited, each padded to whole sectors, and the bytes of every file stand at the address
  that its node was given.
\<close>

theorem WriteTo_image:
  assumes "treemap_laws T" "writable p T v" "p RuneError" "queue_laws Q items" "queue_laws R ritems"
    and "visited_files T (v_heap v) (v_root v) fs" "distinct (map rel_Child fs)" "list_all2 (file_holds (v_heap v)) fs cs"
    and "length (concat (map slot cs)) < 2047 * 2 ^ 32" "[] \<notin> set cs"
  shows "\<exists>v' out. WriteMetadataTo p up T Q R v = Some (v', out, None) \<and>
    Volume_WriteTo p up T Q R v = Some (v', out @ concat (map slot cs), None) \<and>
    (\<forall>i < length fs. take (length (cs ! i))
       (drop (unat (f_start (file_at (v_heap v') (fs ! i))) * 2048) (out @ concat (map slot cs))) = cs ! i)"
  using WriteTo_spec [where p = p and up = up, OF assms] .

text \<open>The file of the small volume.\<close>

definition sample_c :: Relationship where
  "sample_c = entry_rel 3 (first_ident @ bytes_of '';1'', \<lparr>de_name = [0x63], de_child = 1\<rparr>)"

lemma sample_visited: "visited_files list_treemap (v_heap sample_volume) (v_root sample_volume) [sample_c]"
proof -
  have "concat (map (files_of list_treemap sample_tree \<circ> rel_Child) sample_rels) = [sample_c]"
    by (simp add: sample_rels_def files_of_def files_in_def child_entries_def list_treemap_def sample_c_def
        root_rel_def entry_rel_def)
  then show ?thesis using sample_walks unfolding visited_files_def sample_heap by metis
qed

lemma sample_object_is: "AnonymousObject.truncate sample_object = bytes_object [1, 2, 3]"
  by (simp add: sample_object_def bytes_object_def AnonymousObject.defs)

lemma sample_holds: "file_holds (v_heap sample_volume) sample_c [1, 2, 3]"
  using bytes.read_object_axioms [of "[1, 2, 3]"]
  by (simp add: file_holds_def sample_heap sample_tree_def sample_defs sample_object_is MaxPartSize_def sample_c_def entry_rel_def)

theorem WriteTo_image_witness:
  "\<exists>v' out. Volume_WriteTo (\<lambda>r. True) (\<lambda>r. r) list_treemap list_queue list_queue sample_volume =
     Some (v', out @ slot [1, 2, 3], None)"
proof -
  have h: "list_all2 (file_holds (v_heap sample_volume)) [sample_c] [[1, 2, 3]]"
    by (simp add: sample_holds)
  have d: "distinct (map rel_Child [sample_c])"
    by simp
  have n: "length (concat (map slot [[1, 2, 3 :: byte]])) < 2047 * 2 ^ 32"
    using length_pad_out(1) [of "[1, 2, 3]"] by (simp add: slot_def)
  from WriteTo_image [where p = "\<lambda>r. True" and up = "\<lambda>r. r" and Q = list_queue and R = list_queue,
      OF list_treemap_laws sample_writable _ list_queue_laws list_queue_laws sample_visited d h n] show ?thesis by auto
qed

lemma files_placed_append:
  "files_placed H a (xs @ ys) b \<Longrightarrow> \<exists>m. files_placed H a xs m \<and> files_placed H m ys b"
  by (induction H a xs b rule: files_placed.induct) auto

lemma files_placed_end:
  assumes "files_placed H (of_nat (n div 2048)) fs b" "list_all2 (file_holds H) fs cs" "2048 dvd n"
  shows "b = of_nat ((n + length (concat (map slot cs))) div 2048)"
  using assms
proof (induction fs arbitrary: n cs)
  case (Cons r fs)
  obtain c cs' where cs: "cs = c # cs'" "file_holds H r c" "list_all2 (file_holds H) fs cs'"
    using Cons.prems(2) by (auto simp: list_all2_Cons1)
  obtain f where f: "H ! rel_Child r = FileI f"
    "files_placed H (of_nat (n div 2048) + bytesToSectors (of_int (Size (f_o f)))) fs b"
    using Cons.prems(1) by auto
  have c: "Size (f_o f) = int (length c)" "length c \<le> MaxPartSize"
    using cs(2) f(1) read_object.size_content by (fastforce simp: file_holds_def)+
  have "(n + length (slot c)) div 2048 = n div 2048 + length (slot c) div 2048"
    using Cons.prems(3) slot_aligned [of c] by (auto elim!: dvdE)
  then have "files_placed H (of_nat ((n + length (slot c)) div 2048)) fs b"
    using f(2) slot_sectors [OF c(2)] by (simp add: c(1))
  moreover have "2048 dvd n + length (slot c)" using Cons.prems(3) slot_aligned [of c] by simp
  ultimately show ?case using Cons.IH [of "n + length (slot c)" cs'] cs by (simp add: add.assoc)
qed simp

lemma run_files_panics:
  assumes "run_files visit xs s = Some (s1, None)" "visit r s1 = Some (s2, e)"
  shows "run_files visit (xs @ r # rest) s = (if is_panic e then Some (s2, e) else run_files visit rest s2)"
  using assms by (simp add: run_files_append)

lemma empty_file_panics:
  assumes "treemap_laws T" "writable p T v" "p RuneError" "queue_laws Q items" "queue_laws R ritems"
    and "visited_files T (v_heap v) (v_root v) fs" "distinct (map rel_Child fs)"
    and "list_all2 (file_holds (v_heap v)) fs (cs @ [] # c # ds)"
    and "length (concat (map slot (cs @ [] # c # ds))) < 2047 * 2 ^ 32" "[] \<notin> set cs"
  shows "\<exists>v' out. WriteMetadataTo p up T Q R v = Some (v', out, None) \<and>
    Volume_WriteTo p up T Q R v = Some (v', out @ concat (map slot cs), Some (Panic ''expected, actual''))"
proof -
  obtain v' out where w: "WriteMetadataTo p up T Q R v = Some (v', out, None)" "length out < 2 ^ 32"
    "0 < length out" "2048 dvd length out"
    "files_placed (v_heap v') (of_nat (length out div 2048)) fs (VolumeSpaceSize (v_pvd v'))"
    "list_all2 (file_holds (v_heap v')) fs (cs @ [] # c # ds)"
    "\<And>visit s. VisitFiles T R (\<lambda>s. v_heap v') visit (v_root v') (s :: byte list) = run_files visit fs s"
    using written_files [where p = p and up = up, OF assms(1-9)] by blast
  obtain fs1 r1 r2 fs2 where fs: "fs = fs1 @ r1 # r2 # fs2" "list_all2 (file_holds (v_heap v')) fs1 cs"
    "file_holds (v_heap v') r1 []" "file_holds (v_heap v') r2 c"
    using w(6) by (fastforce simp: list_all2_append2 list_all2_Cons2)
  let ?out = "out @ concat (map slot cs)"
  have al: "2048 dvd length ?out" using w(4) slots_aligned [of cs] by simp
  have "length (slot []) = 2048" by (simp add: slot_def length_pad)
  then have len: "length ?out < 2048 * 2 ^ 32 - 2048" using w(2) assms(9) by simp
  obtain m where m: "files_placed (v_heap v') (of_nat (length out div 2048)) fs1 m"
    "files_placed (v_heap v') m (r1 # r2 # fs2) (VolumeSpaceSize (v_pvd v'))"
    using files_placed_append w(5) fs(1) by blast
  have m': "m = of_nat (length ?out div 2048)" using files_placed_end [OF m(1) fs(2) w(4)] by simp
  obtain f1 f2 where f: "v_heap v' ! rel_Child r1 = FileI f1" "f_start f1 = m" "v_heap v' ! rel_Child r2 = FileI f2"
    "f_start f2 = m + bytesToSectors (of_int (Size (f_o f1)))"
    using m(2) by auto
  have e: "read_object (AnonymousObject.truncate (f_o f1)) []" using fs(3) f(1) by (simp add: file_holds_def)
  have sz: "Size (f_o f1) = int (length ([] :: byte list))" using read_object.size_content [OF e] by simp
  have st: "f_start f2 = m + 1" using f(4) by (simp add: sz bytesToSectors_def)
  obtain k where k: "length ?out = 2048 * k" using al by (rule dvdE)
  have kb: "0 < k" "k + 1 < 2 ^ 32" using k w(3) len by (auto intro: Nat.gr0I)
  have mk: "m = of_nat k" unfolding m' k by simp
  then have mk1: "m + 1 = of_nat (k + 1)" by simp
  have un: "unat m = k" unfolding mk using kb(2) by (simp add: unat_of_nat)
  have un1: "unat (m + 1) = k + 1" unfolding mk1 unat_of_nat using kb(2) by simp
  then have nz: "m \<noteq> 0" "m + 1 \<noteq> 0" using kb(1) un1 by auto
  have "FileInode_WriteTo f1 = Some ([], None)"
    unfolding FileInode_WriteTo_def by (rule copy_section_object [OF e sz])
  then have s1: "write_file (v_heap v') r1 ?out = Some (?out, None)"
    using f(1,2) nz(1) al m' pad_out_id [OF al] by (simp add: write_file_def assertLBA_def LogicalBlockSize_def dvd_eq_mod_eq_0)
  have "f_start f2 \<noteq> of_nat (length ?out div 2048)" unfolding st m' [symmetric] by simp
  then have s2: "write_file (v_heap v') r2 ?out = Some (?out, Some (Panic ''expected, actual''))"
    using f(3) nz(2) al by (simp add: st write_file_def assertLBA_def LogicalBlockSize_def dvd_eq_mod_eq_0)
  have "run_files (write_file (v_heap v')) fs1 out = Some (?out, None)"
    by (rule write_files [OF m(1) fs(2) w(4,3) _ assms(10)]) (use len in simp)
  then have "run_files (write_file (v_heap v')) fs out = Some (?out, Some (Panic ''expected, actual''))"
    unfolding fs(1) by (simp add: run_files_append s1 s2)
  then show ?thesis using VisitFiles_end [OF w(1)] w(1,7) by metis
qed

text \<open>C35:
  Only the last file of a volume can be empty.  An empty file is given a sector and takes none of
  the image, so the file that is visited after it is not at the address it was given: \<open>WriteTo\<close>
  writes the files up to the empty one and panics.
\<close>

theorem WriteTo_empty_file_panics:
  assumes "treemap_laws T" "writable p T v" "p RuneError" "queue_laws Q items" "queue_laws R ritems"
    and "visited_files T (v_heap v) (v_root v) fs" "distinct (map rel_Child fs)"
    and "list_all2 (file_holds (v_heap v)) fs (cs @ [] # c # ds)"
    and "length (concat (map slot (cs @ [] # c # ds))) < 2047 * 2 ^ 32" "[] \<notin> set cs"
  shows "\<exists>v' out. WriteMetadataTo p up T Q R v = Some (v', out, None) \<and>
    Volume_WriteTo p up T Q R v = Some (v', out @ concat (map slot cs), Some (Panic ''expected, actual''))"
  by (rule empty_file_panics [OF assms])

text \<open>An empty file before another.\<close>

definition hollow_volume :: "(gostring \<times> dirEntry) list Volume" where
  "hollow_volume = pair_volume \<lparr>Size = 0, ReadAt = bytes_ReadAt [], URL = []\<rparr> sample_object"

lemma hollow_writable: "writable (\<lambda>r. True) list_treemap hollow_volume"
  unfolding hollow_volume_def
  by (rule pair_writable) (simp_all add: small_object_def sample_object_def MaxPartSize_def)

lemma hollow_holds: "list_all2 (file_holds (v_heap hollow_volume)) pair_rels ([] @ [] # [1, 2, 3] # [])"
proof -
  have "read_object (AnonymousObject.truncate \<lparr>Size = 0, ReadAt = bytes_ReadAt [], URL = []\<rparr>) []"
    using bytes.read_object_axioms [of "[]"] by (simp add: bytes_object_def AnonymousObject.defs)
  moreover have "read_object (AnonymousObject.truncate sample_object) [1, 2, 3]"
    unfolding sample_object_is by (rule bytes.read_object_axioms)
  ultimately show ?thesis
    by (simp add: hollow_volume_def pair_heap pair_rels_def entry_rel_def file_holds_def pair_file_def MaxPartSize_def)
qed

lemma hollow_visited: "visited_files list_treemap (v_heap hollow_volume) (v_root hollow_volume) pair_rels"
  unfolding hollow_volume_def by (rule pair_visited)

lemma hollow_size: "length (concat (map slot ([] @ [] # [1, 2, 3 :: byte] # []))) < 2047 * 2 ^ 32"
  using length_pad_out(1) [of "[1, 2, 3]"] by (simp add: slot_def length_pad)

theorem WriteTo_empty_file_panics_witness:
  "\<exists>v' out. Volume_WriteTo (\<lambda>r. True) (\<lambda>r. r) list_treemap list_queue list_queue hollow_volume =
     Some (v', out, Some (Panic ''expected, actual''))"
  using WriteTo_empty_file_panics [where p = "\<lambda>r. True" and up = "\<lambda>r. r" and Q = list_queue and R = list_queue,
      OF list_treemap_laws hollow_writable _ list_queue_laws list_queue_laws hollow_visited pair_distinct hollow_holds hollow_size]
  by auto

text \<open>The sectors that are kept for an object that fits one part.\<close>

lemma bytesToSectors_covers:
  assumes "0 \<le> sz" "sz \<le> int MaxPartSize"
  shows "\<exists>k. bytesToSectors (of_int sz) = of_nat k \<and> sz \<le> int (2048 * k) \<and> 0 < k \<and> 2048 * k \<le> 2 ^ 32"
proof -
  define c :: "byte list" where "c = replicate (nat sz) 0"
  have len: "int (length c) = sz" "length c \<le> MaxPartSize" using assms by (auto simp: c_def)
  obtain k where k: "length (slot c) = 2048 * k" using slot_aligned [of c] by (rule dvdE)
  have "length (slot c) \<le> length c + 2048"
    using length_pad_out(1) [of c] by (cases "c = []") (simp_all add: slot_def length_pad del: length_append)
  then have "2048 * k \<le> 2 ^ 32" using len(2) k by (simp add: MaxPartSize_def)
  moreover have "length c \<le> length (slot c)" by (simp add: slot_def pad_out_def)
  moreover have "0 < k" using slot_pos [of c] k by (auto intro: Nat.gr0I)
  ultimately show ?thesis using slot_sectors [OF len(2)] k len(1) by (intro exI [of _ k]) auto
qed

lemma unread_file:
  assumes H: "files_placed H (of_nat k) (r # fs) b" "H ! rel_Child r = FileI f" "2048 * k + 2 ^ 32 < 2048 * 2 ^ 32" "0 < k"
    and f: "0 \<le> Size (f_o f)" "Size (f_o f) \<le> int MaxPartSize"
    and rd: "FileInode_WriteTo f = Some (bs, Some e)" "\<not> is_panic (Some e)" "int (length bs) < Size (f_o f)"
    and out: "length out = 2048 * k"
  shows "run_files (write_file H) (r # fs) out = Some (out @ bs,
    if fs = [] then None
    else if 2048 dvd length bs then Some (Panic ''expected, actual'') else Some (Panic ''not at a sector''))"
proof -
  have f': "f_start f = of_nat k" "files_placed H (of_nat k + bytesToSectors (of_int (Size (f_o f)))) fs b"
    using H(1,2) by auto
  have nz: "(of_nat n :: u32) \<noteq> 0" if "0 < n" "n < 2 ^ 32" for n
  proof -
    have "unat (of_nat n :: u32) = n" using that(2) by (simp add: unat_of_nat)
    then show ?thesis using that(1) by auto
  qed
  have "write_file H r out = Some (out @ bs, Some e)"
    using H(2,3,4) f'(1) nz [of k] rd(1) out by (simp add: write_file_def assertLBA_def LogicalBlockSize_def)
  moreover have "run_files (write_file H) fs (out @ bs) = Some (out @ bs,
      if 2048 dvd length bs then Some (Panic ''expected, actual'') else Some (Panic ''not at a sector''))" if "fs \<noteq> []"
  proof -
    obtain r2 fs' where fs: "fs = r2 # fs'" using \<open>fs \<noteq> []\<close> by (cases fs) auto
    obtain l where l: "bytesToSectors (of_int (Size (f_o f))) = of_nat l" "Size (f_o f) \<le> int (2048 * l)" "0 < l" "2048 * l \<le> 2 ^ 32"
      using bytesToSectors_covers [OF f] by blast
    obtain f2 where f2: "H ! rel_Child r2 = FileI f2" "f_start f2 = of_nat (k + l)"
      using f'(2) by (auto simp: fs l(1))
    have b: "k + l < 2 ^ 32" using H(3) l(4) by simp
    have "length bs < 2048 * l" using rd(3) l(2) by simp
    then have d: "length bs div 2048 < l" by (simp add: div_less_iff_less_mult mult.commute)
    have "unat (of_nat (k + l) :: u32) = k + l" "unat (of_nat (k + length bs div 2048) :: u32) = k + length bs div 2048"
      using b d by (simp_all add: unat_of_nat del: of_nat_add)
    then have ne: "(of_nat (k + l) :: u32) \<noteq> of_nat (k + length bs div 2048)" using d by (metis add_left_cancel less_irrefl)
    have "(2048 * k + length bs) div 2048 = k + length bs div 2048" by simp
    then have "write_file H r2 (out @ bs) = Some (out @ bs,
        if 2048 dvd length bs then Some (Panic ''expected, actual'') else Some (Panic ''not at a sector''))"
      using f2 nz [of "k + l"] l(3) b ne out
      by (simp add: write_file_def assertLBA_def LogicalBlockSize_def dvd_eq_mod_eq_0 del: of_nat_add)
    then show ?thesis by (simp add: fs)
  qed
  ultimately show ?thesis using rd(2) by (cases "fs = []") simp_all
qed

text \<open>C36:
  \<open>WriteTo\<close> hides an error in reading a file: \<open>VisitFiles\<close> drops what its visitor returns, and only
  the panics come through.  Let the files before one be read and one fail before all of its bytes
  were read, with an error that is no panic.  The image ends with the bytes that were read of it;
  when it is the last file, \<open>WriteTo\<close> reports no error although the image is short of the file, and
  otherwise the file that is visited next is not at its address, and \<open>WriteTo\<close> panics.
\<close>

theorem WriteTo_hides_errors:
  assumes "treemap_laws T" "writable p T v" "p RuneError" "queue_laws Q items" "queue_laws R ritems"
    and "visited_files T (v_heap v) (v_root v) (fs1 @ r # fs2)" "distinct (map rel_Child (fs1 @ r # fs2))"
    and "list_all2 (file_holds (v_heap v)) fs1 cs" "length (concat (map slot cs)) < 2046 * 2 ^ 32" "[] \<notin> set cs"
    and "v_heap v ! rel_Child r = FileI f" "FileInode_WriteTo f = Some (bs, Some e)" "\<not> is_panic (Some e)"
    and "int (length bs) < Size (f_o f)"
  shows "\<exists>v' out. WriteMetadataTo p up T Q R v = Some (v', out, None) \<and>
    Volume_WriteTo p up T Q R v = Some (v', out @ concat (map slot cs) @ bs,
      if fs2 = [] then None
      else if 2048 dvd length bs then Some (Panic ''expected, actual'') else Some (Panic ''not at a sector''))"
proof -
  obtain v' out where w: "WriteMetadataTo p up T Q R v = Some (v', out, None)" "length out < 2 ^ 32"
    "0 < length out" "2048 dvd length out" "moved (v_heap v) (v_heap v')"
    "files_placed (v_heap v') (of_nat (length out div 2048)) (fs1 @ r # fs2) (VolumeSpaceSize (v_pvd v'))"
    "\<And>visit s. VisitFiles T R (\<lambda>s. v_heap v') visit (v_root v') (s :: byte list) = run_files visit (fs1 @ r # fs2) s"
    using written_visits [where p = p and up = up, OF assms(1-7)] by blast
  have ok: "volume_ok T v" "small_files (v_heap v)" using assms(2) by (auto simp: writable_def recordable_def)
  have holds: "list_all2 (file_holds (v_heap v')) fs1 cs"
    by (rule holds_moved [OF ok(1) w(5) assms(6) _ assms(8)]) auto
  have valid: "rel_Child r < length (v_heap v)" using visited_valid [OF ok(1) assms(6)] by simp
  obtain f' where f': "v_heap v' ! rel_Child r = FileI f'" "f_o f' = f_o f"
    using moved_file [OF w(5) valid assms(11)] by blast
  have "FileI f \<in> set (v_heap v)" using valid assms(11) by (metis nth_mem)
  then have sz: "0 \<le> Size (f_o f')" "Size (f_o f') \<le> int MaxPartSize" using ok(2) f'(2) by (auto simp: small_files_def)
  have rd: "FileInode_WriteTo f' = Some (bs, Some e)" "int (length bs) < Size (f_o f')"
    using assms(12,14) f'(2) by (simp_all add: FileInode_WriteTo_def)
  let ?out = "out @ concat (map slot cs)"
  have "2048 dvd length ?out" using w(4) slots_aligned [of cs] by simp
  then obtain k where k: "length ?out = 2048 * k" by (rule dvdE)
  have kb: "0 < k" "2048 * k + 2 ^ 32 < 2048 * 2 ^ 32" using k w(2,3) assms(9) by (auto intro: Nat.gr0I)
  obtain m where m: "files_placed (v_heap v') (of_nat (length out div 2048)) fs1 m"
    "files_placed (v_heap v') m (r # fs2) (VolumeSpaceSize (v_pvd v'))"
    using files_placed_append w(6) by blast
  have "length out + length (concat (map slot cs)) = 2048 * k" using k by simp
  then have mk: "m = of_nat k" using files_placed_end [OF m(1) holds w(4)] by simp
  have "run_files (write_file (v_heap v')) fs1 out = Some (?out, None)"
    by (rule write_files [OF m(1) holds w(4,3) _ assms(10)]) (use k kb(2) in simp)
  moreover note unread_file [OF m(2) [unfolded mk] f'(1) kb(2,1) sz rd(1) assms(13) rd(2) k]
  ultimately have "VisitFiles T R (\<lambda>s. v_heap v') (write_file (v_heap v')) (v_root v') out = Some (?out @ bs,
      if fs2 = [] then None
      else if 2048 dvd length bs then Some (Panic ''expected, actual'') else Some (Panic ''not at a sector''))"
    unfolding w(7) run_files_append by simp
  from VisitFiles_end [OF w(1) this] w(1) show ?thesis unfolding append_assoc by blast
qed

text \<open>
  Two files, the second with three bytes that cannot be read: the image is the metadata and the first
  file, and no error is reported.
\<close>

definition broken_object :: Object where
  "broken_object = \<lparr>Size = 3, ReadAt = (\<lambda>p off. (p, 0, Some (Err ''EIO''))), URL = []\<rparr>"

definition broken_volume :: "(gostring \<times> dirEntry) list Volume" where
  "broken_volume = pair_volume sample_object broken_object"

lemma broken_writable: "writable (\<lambda>r. True) list_treemap broken_volume"
  unfolding broken_volume_def
  by (rule pair_writable) (simp_all add: small_object_def sample_object_def broken_object_def MaxPartSize_def)

lemma broken_read: "f_o f = broken_object \<Longrightarrow> FileInode_WriteTo f = Some ([], Some (Err ''EIO''))"
  by (simp add: FileInode_WriteTo_def copy_section_def copy_loop.simps section_Read_def broken_object_def AnonymousObject.defs)

theorem WriteTo_hides_errors_witness:
  "\<exists>v' out. WriteMetadataTo (\<lambda>r. True) (\<lambda>r. r) list_treemap list_queue list_queue broken_volume = Some (v', out, None) \<and>
     Volume_WriteTo (\<lambda>r. True) (\<lambda>r. r) list_treemap list_queue list_queue broken_volume = Some (v', out @ slot [1, 2, 3], None)"
proof -
  obtain r1 r2 where r: "pair_rels = [r1] @ r2 # []" "rel_Child r1 = 1" "rel_Child r2 = 2"
    by (simp add: pair_rels_def entry_rel_def)
  obtain f where f: "pair_file 3 broken_object = FileI f" "f_o f = broken_object"
    by (simp add: pair_file_def)
  have "list_all2 (file_holds (v_heap broken_volume)) [r1] [[1, 2, 3]]"
    using bytes.read_object_axioms [of "[1, 2, 3]"]
    by (simp add: broken_volume_def pair_heap r(2) file_holds_def pair_file_def sample_object_is MaxPartSize_def)
  moreover have "length (concat (map slot [[1, 2, 3 :: byte]])) < 2046 * 2 ^ 32"
    using length_pad_out(1) [of "[1, 2, 3]"] by (simp add: slot_def)
  moreover have "v_heap broken_volume ! rel_Child r2 = FileI f" by (simp add: broken_volume_def pair_heap r(3) f(1))
  moreover have "FileInode_WriteTo f = Some ([], Some (Err ''EIO''))" "int (length ([] :: byte list)) < Size (f_o f)"
    using broken_read [OF f(2)] by (simp_all add: f(2) broken_object_def)
  moreover have "visited_files list_treemap (v_heap broken_volume) (v_root broken_volume) ([r1] @ r2 # [])"
    unfolding broken_volume_def r(1) [symmetric] by (rule pair_visited)
  ultimately show ?thesis
    using WriteTo_hides_errors [where p = "\<lambda>r. True" and up = "\<lambda>r. r" and Q = list_queue and R = list_queue,
        OF list_treemap_laws broken_writable _ list_queue_laws list_queue_laws _ pair_distinct [unfolded r(1)]] by fastforce
qed

end
