(* ===== verification/Vdisc.thy ===== *)
theory Vdisc
  imports Storage Trie FileLayout Concat Safecast "HOL-Library.Signed_Division"
begin

text \<open>
  \<open>pkg/vdisc\<close>: the builder, which writes the metadata of a volume to one object and a list of
  extents to another (\<open>builder.go\<close>), and the loader, which presents the extents as one image
  (\<open>loader.go\<close>, \<open>extent.go\<close>).  The list of extents is a Cap'n Proto message, compressed with
  gzip; both encodings are third-party code and parameters here.
\<close>

section \<open>The message\<close>

record ITrie =
  it_Parent :: u32
  it_Content :: gostring

record Extent =
  x_UriPrefix :: u32
  x_UriSuffix :: gostring
  x_Blocks :: u32
  x_Padding :: u16

record VDiscV1 =
  m_BlockSize :: u16
  m_FsType :: gostring
  m_Uris :: "ITrie list"
  m_Extents :: "Extent list"

record codec =
  cd_Marshal :: "VDiscV1 \<Rightarrow> goerr + byte list"
  cd_Unmarshal :: "byte list \<Rightarrow> goerr + VDiscV1"
  cd_gzip :: "byte list \<Rightarrow> byte list"
  cd_gunzip :: "byte list \<Rightarrow> goerr + byte list"

definition gzip_header :: "byte list" where
  "gzip_header = [0x1F, 0x8B, 0x08, 0x00]"

text \<open>
  What is documented of them: a message that has been encoded is decoded to itself and is not
  empty; a gzip stream without a name starts with the header that the loader looks for, and
  expands to what was compressed.
\<close>

definition codec_laws :: "codec \<Rightarrow> bool" where
  "codec_laws C \<longleftrightarrow>
     (\<forall>m raw. cd_Marshal C m = Inr raw \<longrightarrow> cd_Unmarshal C raw = Inr m \<and> raw \<noteq> []) \<and>
     (\<forall>raw. cd_gunzip C (cd_gzip C raw) = Inr raw \<and> take 4 (cd_gzip C raw) = gzip_header)"

text \<open>The methods of \<open>storage.ObjectWriter\<close>, for the writers of all drivers.\<close>

record ('s, 'w) ObjectWriter =
  ow_Write :: "'w \<Rightarrow> byte list \<Rightarrow> 's \<Rightarrow> 'w \<times> 's \<times> goerr option"
  ow_Commit :: "'w \<Rightarrow> 's \<Rightarrow> 'w \<times> 's \<times> (goerr + gostring)"
  ow_Abort :: "'w \<Rightarrow> 's \<Rightarrow> 'w \<times> 's"

section \<open>The builder\<close>

record 'm builder =
  b_cfg_URL :: gostring
  b_volume :: "'m Volume"
  b_numFiles :: go_int32

definition NewPosixPortableISO9660Builder ::
  "('m, dirEntry) treemap \<Rightarrow> Time \<Rightarrow> gostring \<Rightarrow> goerr + 'm builder" where
  "NewPosixPortableISO9660Builder T now url =
     map_sum id (\<lambda>v. \<lparr>b_cfg_URL = url, b_volume = v, b_numFiles = 0\<rparr>) (NewPosixPortableVolume T now)"

definition NewISO9660Builder ::
  "('m, dirEntry) treemap \<Rightarrow> Time \<Rightarrow> gostring \<Rightarrow> goerr + 'm builder" where
  "NewISO9660Builder T now url = NewPosixPortableISO9660Builder T now url"

definition NewExtendedISO9660Builder ::
  "(rune \<Rightarrow> bool) \<Rightarrow> ('m, dirEntry) treemap \<Rightarrow> Time \<Rightarrow> gostring \<Rightarrow> goerr + 'm builder" where
  "NewExtendedISO9660Builder p T now url =
     map_sum id (\<lambda>v. \<lparr>b_cfg_URL = url, b_volume = v, b_numFiles = 0\<rparr>) (NewNvidiaExtendedVolume p T now)"

definition builder_SetSystemIdentifier :: "gostring \<Rightarrow> 'm builder \<Rightarrow> 'm builder" where
  "builder_SetSystemIdentifier val b = b\<lparr>b_volume := Volume_SetSystemIdentifier val (b_volume b)\<rparr>"

definition builder_SetVolumeIdentifier :: "gostring \<Rightarrow> 'm builder \<Rightarrow> 'm builder" where
  "builder_SetVolumeIdentifier val b = b\<lparr>b_volume := Volume_SetVolumeIdentifier val (b_volume b)\<rparr>"

definition builder_SetVolumeSetIdentifier :: "gostring \<Rightarrow> 'm builder \<Rightarrow> 'm builder" where
  "builder_SetVolumeSetIdentifier val b = b\<lparr>b_volume := Volume_SetVolumeSetIdentifier val (b_volume b)\<rparr>"

definition builder_SetPublisherIdentifier :: "gostring \<Rightarrow> 'm builder \<Rightarrow> 'm builder" where
  "builder_SetPublisherIdentifier val b = b\<lparr>b_volume := Volume_SetPublisherIdentifier val (b_volume b)\<rparr>"

definition builder_SetDataPreparerIdentifier :: "gostring \<Rightarrow> 'm builder \<Rightarrow> 'm builder" where
  "builder_SetDataPreparerIdentifier val b = b\<lparr>b_volume := Volume_SetDataPreparerIdentifier val (b_volume b)\<rparr>"

definition builder_SetApplicationIdentifier :: "gostring \<Rightarrow> 'm builder \<Rightarrow> 'm builder" where
  "builder_SetApplicationIdentifier val b = b\<lparr>b_volume := Volume_SetApplicationIdentifier val (b_volume b)\<rparr>"

definition builder_SetCopyrightFileIdentifier :: "gostring \<Rightarrow> 'm builder \<Rightarrow> 'm builder" where
  "builder_SetCopyrightFileIdentifier val b = b\<lparr>b_volume := Volume_SetCopyrightFileIdentifier val (b_volume b)\<rparr>"

definition builder_SetAbstractFileIdentifier :: "gostring \<Rightarrow> 'm builder \<Rightarrow> 'm builder" where
  "builder_SetAbstractFileIdentifier val b = b\<lparr>b_volume := Volume_SetAbstractFileIdentifier val (b_volume b)\<rparr>"

definition builder_SetBibliographicFileIdentifier :: "gostring \<Rightarrow> 'm builder \<Rightarrow> 'm builder" where
  "builder_SetBibliographicFileIdentifier val b = b\<lparr>b_volume := Volume_SetBibliographicFileIdentifier val (b_volume b)\<rparr>"

definition builder_AddFile ::
  "('m, dirEntry) treemap \<Rightarrow> url_ops \<Rightarrow> ('s, 'w) drivers \<Rightarrow> 's \<Rightarrow> 'm builder \<Rightarrow> gostring \<Rightarrow> gostring \<Rightarrow> int
   \<Rightarrow> 'm builder \<times> goerr option" where
  "builder_AddFile T U ds s b path url sz =
     (case OpenContextSize U ds url sz s of
        Inl e \<Rightarrow> (b, Some e)
      | Inr r \<Rightarrow>
          (case AddFile T (b_volume b) path r of
             (v, Some e) \<Rightarrow> (b\<lparr>b_volume := v\<rparr>, Some e)
           | (v, None) \<Rightarrow> (b\<lparr>b_volume := v, b_numFiles := b_numFiles b + 1\<rparr>, None)))"

definition builder_AddSymlink ::
  "('m, dirEntry) treemap \<Rightarrow> 'm builder \<Rightarrow> gostring \<Rightarrow> gostring \<Rightarrow> 'm builder \<times> goerr option" where
  "builder_AddSymlink T b path target =
     (case AddSymlink T (b_volume b) path target of (v, err) \<Rightarrow> (b\<lparr>b_volume := v\<rparr>, err))"

text \<open>The sectors that hold a number of bytes, one for none, and the bytes of a number of sectors.\<close>

definition disc_bytesToSectors :: "int \<Rightarrow> u32" where
  "disc_bytesToSectors bytes =
     (let sectors = of_int (bytes sdiv 2048)
      in if bytes smod 2048 \<noteq> 0 \<or> sectors = 0 then sectors + 1 else sectors)"

definition disc_sectorsToBytes :: "u32 \<Rightarrow> int" where
  "disc_sectorsToBytes sectors = uint sectors * 2048"

text \<open>\<open>path.Base\<close>.\<close>

definition path_Base :: "gostring \<Rightarrow> gostring" where
  "path_Base p =
     (if p = [] then dot
      else
        let q = rev (dropWhile (\<lambda>c. c = slash) (rev p));
            r = rev (takeWhile (\<lambda>c. c \<noteq> slash) (rev q))
        in if r = [] then [slash] else r)"

text \<open>The name under which the disc refers to its own metadata.\<close>

definition metadata_key :: "url_ops \<Rightarrow> net_url \<Rightarrow> gostring" where
  "metadata_key U mu = url_String U (zero_url\<lparr>u_Path := path_Base (u_Path mu), u_RawQuery := u_RawQuery mu\<rparr>)"

definition build_trie ::
  "('m, dirEntry) treemap \<Rightarrow> ('r, ref) queue \<Rightarrow> gostring \<Rightarrow> 'm Volume \<Rightarrow> (TrieMap \<times> goerr option) option" where
  "build_trie T R key v =
     VisitFileInodes T R (\<lambda>f t. Some (Put (URL (f_o f)) (f_start f) t, None)) v (Put key 0 NewTrieMap)"

text \<open>
  A conversion of a length or an index: a slice has fewer than \<open>2 ^ 63\<close> elements.
\<close>

definition index_Int :: "nat \<Rightarrow> goerr + go_int" where
  "index_Int n = (if n < 2 ^ 63 then Inr (of_nat n) else Inl (Panic ''makeslice: len out of range''))"

definition index_Int32 :: "nat \<Rightarrow> goerr + go_int32" where
  "index_Int32 n = (case index_Int n of Inl e \<Rightarrow> Inl e | Inr i \<Rightarrow> IntToInt32 i)"

definition index_Uint32 :: "nat \<Rightarrow> goerr + go_uint32" where
  "index_Uint32 n = (case index_Int n of Inl e \<Rightarrow> Inl e | Inr i \<Rightarrow> IntToUint32 i)"

fun build_uris :: "InvertedTrieNode list \<Rightarrow> goerr + ITrie list" where
  "build_uris [] = Inr []"
| "build_uris (inode # inodes) =
     (case index_Uint32 (Parent inode) of
        Inl e \<Rightarrow> Inl e
      | Inr p \<Rightarrow> map_sum id (\<lambda>us. \<lparr>it_Parent = p, it_Content = Content inode\<rparr> # us) (build_uris inodes))"

text \<open>The entry of an object; a leaf that is not there is the zero value of the map.\<close>

definition leaf_at :: "(u32 \<rightharpoonup> InvertedTrieNode) \<Rightarrow> u32 \<Rightarrow> InvertedTrieNode" where
  "leaf_at leaves a = (case leaves a of Some l \<Rightarrow> l | None \<Rightarrow> \<lparr>Parent = 0, Content = []\<rparr>)"

definition extent_entry :: "InvertedTrieNode \<Rightarrow> int \<Rightarrow> goerr + Extent" where
  "extent_entry leaf sz =
     (let blocks = disc_bytesToSectors sz
      in (case index_Uint32 (Parent leaf) of
            Inl e \<Rightarrow> Inl e
          | Inr p \<Rightarrow> Inr \<lparr>x_UriPrefix = p, x_UriSuffix = Content leaf, x_Blocks = blocks,
              x_Padding = of_int (disc_sectorsToBytes blocks - sz)\<rparr>))"

definition zero_extent :: Extent where
  "zero_extent = \<lparr>x_UriPrefix = 0, x_UriSuffix = [], x_Blocks = 0, x_Padding = 0\<rparr>"

text \<open>The visitor of the second walk over the files; the state is the list and \<open>currExtent\<close>.\<close>

definition set_extent :: "Extent list \<Rightarrow> nat \<Rightarrow> InvertedTrieNode \<Rightarrow> int \<Rightarrow> Extent list \<times> goerr option" where
  "set_extent xs i leaf sz =
     (if length xs \<le> i then (xs, Some (Panic ''index out of range''))
      else
        (case extent_entry leaf sz of
           Inl e \<Rightarrow> (xs, Some e)
         | Inr x \<Rightarrow> (xs[i := x], None)))"

definition add_extent ::
  "(u32 \<rightharpoonup> InvertedTrieNode) \<Rightarrow> FileInode \<Rightarrow> Extent list \<times> nat \<Rightarrow> ((Extent list \<times> nat) \<times> goerr option) option" where
  "add_extent leaves f st =
     (case set_extent (fst st) (snd st) (leaf_at leaves (f_start f)) (Size (f_o f)) of
        (xs, Some e) \<Rightarrow> Some ((xs, snd st), Some e)
      | (xs, None) \<Rightarrow> Some ((xs, snd st + 1), None))"

text \<open>
  From the written volume to the message.  \<open>NewExtents\<close> is given an \<open>int32\<close>; a negative count
  is an error of the Cap'n Proto library.
\<close>

definition build_message ::
  "('m, dirEntry) treemap \<Rightarrow> ('r, ref) queue \<Rightarrow> ('i, traversalNode) queue \<Rightarrow>
   (nat \<Rightarrow> (rune \<times> trieNode) list \<Rightarrow> (rune \<times> trieNode) list) \<Rightarrow>
   'm Volume \<Rightarrow> go_int32 \<Rightarrow> gostring \<Rightarrow> int \<Rightarrow> (goerr + VDiscV1) option" where
  "build_message T R IQ rng v numFiles key metaLen =
     Option.bind (build_trie T R key v) (\<lambda>(t, terr).
       if is_panic terr then Some (Inl (the terr))
       else
         Option.bind (Invert IQ rng t) (\<lambda>inv.
           case inv of
             Inl e \<Rightarrow> Some (Inl e)
           | Inr (branches, leaves) \<Rightarrow>
               (case index_Int32 (length branches) of
                  Inl e \<Rightarrow> Some (Inl e)
                | Inr n \<Rightarrow>
                    (case build_uris branches of
                       Inl e \<Rightarrow> Some (Inl e)
                     | Inr uris \<Rightarrow>
                         if sint (numFiles + 1) < 0 then Some (Inl (Err ''vdisc.NewExtents''))
                         else
                           let extents = replicate (nat (sint (numFiles + 1))) zero_extent
                           in (case set_extent extents 0 (leaf_at leaves 0) metaLen of
                                 (xs, Some e) \<Rightarrow> Some (Inl e)
                               | (xs, None) \<Rightarrow>
                                   map_option (\<lambda>((ys, k), err).
                                       if is_panic err then Inl (the err)
                                       else Inr \<lparr>m_BlockSize = 2048, m_FsType = bytes_of ''iso9660'', m_Uris = uris, m_Extents = ys\<rparr>)
                                     (VisitFileInodes T R (add_extent leaves) v (xs, 1)))))))"

text \<open>
  \<open>Build\<close>.  The buffered writer passes on what is written in chunks of its own; the model writes
  the whole metadata at once, and nothing when \<open>WriteMetadataTo\<close> has failed, since the object is
  then aborted.  Every return after \<open>Create\<close> runs the deferred \<open>Abort\<close>.
\<close>

definition Build ::
  "url_ops \<Rightarrow> ('s, 'w) drivers \<Rightarrow> ('s, 'w) ObjectWriter \<Rightarrow> codec \<Rightarrow> (rune \<Rightarrow> bool) \<Rightarrow> (rune \<Rightarrow> rune) \<Rightarrow>
   ('m, dirEntry) treemap \<Rightarrow> ('q, Relationship) queue \<Rightarrow> ('r, ref) queue \<Rightarrow> ('i, traversalNode) queue \<Rightarrow>
   (nat \<Rightarrow> (rune \<times> trieNode) list \<Rightarrow> (rune \<times> trieNode) list) \<Rightarrow> 'm builder \<Rightarrow> 's \<Rightarrow>
   ('m builder \<times> 's \<times> (goerr + gostring)) option" where
  "Build U ds W C p up T Q R IQ rng b s =
     (case Create U ds (b_cfg_URL b @ bytes_of ''.isohdr'') s of
        Inl e \<Rightarrow> Some (b, s, Inl e)
      | Inr meta \<Rightarrow>
          Option.bind (WriteMetadataTo p up T Q R (b_volume b)) (\<lambda>(v, out, err).
            let b' = b\<lparr>b_volume := v\<rparr>;
                fail = (\<lambda>meta s e. Some (b', snd (ow_Abort W meta s), Inl e))
            in if err \<noteq> None then fail meta s (the err)
               else
                 (case ow_Write W meta out s of (meta, s, werr) \<Rightarrow>
                    if werr \<noteq> None then fail meta s (the werr)
                    else
                      (case ow_Commit W meta s of
                         (meta, s, Inl e) \<Rightarrow> fail meta s e
                       | (meta, s, Inr metaURL) \<Rightarrow>
                           (case url_Parse U metaURL of
                              Inl e \<Rightarrow> fail meta s e
                            | Inr mu \<Rightarrow>
                                Option.bind (build_message T R IQ rng v (b_numFiles b) (metadata_key U mu) (int (length out))) (\<lambda>msg.
                                  case msg of
                                    Inl e \<Rightarrow> fail meta s e
                                  | Inr m \<Rightarrow>
                                      (case Create U ds (b_cfg_URL b) s of
                                         Inl e \<Rightarrow> fail meta s e
                                       | Inr vd \<Rightarrow>
                                           (case cd_Marshal C m of
                                              Inl e \<Rightarrow> fail meta (snd (ow_Abort W vd s)) e
                                            | Inr raw \<Rightarrow>
                                                (case ow_Write W vd (cd_gzip C raw) s of (vd, s, werr) \<Rightarrow>
                                                   if werr \<noteq> None then fail meta (snd (ow_Abort W vd s)) (the werr)
                                                   else
                                                     (case ow_Commit W vd s of (vd, s, res) \<Rightarrow>
                                                        Some (b', snd (ow_Abort W meta (snd (ow_Abort W vd s))), res)))))))))))"

section \<open>Extents\<close>

record extent =
  e_blockSize :: u16
  e_baseURL :: net_url
  e_uris :: "ITrie list"
  e_extents :: "Extent list"
  e_idx :: nat
  e_pos :: int
  e_closed :: bool

text \<open>The loop of \<open>URL\<close> up the chain of parents; a message can make it run for ever.\<close>

partial_function (option) uri_loop :: "ITrie list \<Rightarrow> u32 \<Rightarrow> gostring \<Rightarrow> (goerr + gostring) option" where
  "uri_loop uris parent uri =
     (if length uris \<le> unat parent then Some (Inl (Panic ''index out of range''))
      else
        let node = uris ! unat parent; uri' = it_Content node @ uri
        in if it_Parent node = parent then Some (Inr uri') else uri_loop uris (it_Parent node) uri')"

definition resolve_uri :: "url_ops \<Rightarrow> net_url \<Rightarrow> gostring \<Rightarrow> goerr + gostring" where
  "resolve_uri U base uri =
     (case url_Parse U uri of
        Inl e \<Rightarrow> Inl (Panic ''url.Parse'')
      | Inr u \<Rightarrow>
          let resolved = url_ResolveReference U base u;
              resolved = (if \<not> HasPrefix (u_Path base) [slash]
                          then resolved\<lparr>u_Path := TrimPrefix (u_Path resolved) [slash]\<rparr> else resolved)
          in Inr (url_String U resolved))"

definition extent_URL :: "url_ops \<Rightarrow> extent \<Rightarrow> (goerr + gostring) option" where
  "extent_URL U e =
     (if length (e_extents e) \<le> e_idx e then Some (Inl (Panic ''index out of range''))
      else
        let x = e_extents e ! e_idx e
        in map_option (\<lambda>r. case r of Inl err \<Rightarrow> Inl err | Inr uri \<Rightarrow> resolve_uri U (e_baseURL e) uri)
             (uri_loop (e_uris e) (x_UriPrefix x) (x_UriSuffix x)))"

definition extent_Size :: "extent \<Rightarrow> int" where
  "extent_Size e =
     (let x = e_extents e ! e_idx e
      in if x_Blocks x = 0 then 0 else uint (x_Blocks x) * uint (e_blockSize e) - uint (x_Padding x))"

text \<open>A read opens the object behind the extent, reads and closes it.\<close>

definition extent_ReadAt ::
  "url_ops \<Rightarrow> ('s, 'w) drivers \<Rightarrow> 's \<Rightarrow> extent \<Rightarrow> byte list \<Rightarrow> int \<Rightarrow> (byte list \<times> int \<times> goerr option) option" where
  "extent_ReadAt U ds s e p off =
     (if e_closed e then Some (p, 0, Some ErrClosed)
      else
        map_option (\<lambda>r. case r of
            Inl err \<Rightarrow> (p, 0, Some err)
          | Inr url \<Rightarrow>
              (case OpenContextSize U ds url (extent_Size e) s of
                 Inl err \<Rightarrow> (p, 0, Some err)
               | Inr obj \<Rightarrow> ReadAt obj p off))
          (extent_URL U e))"

definition extent_Read ::
  "url_ops \<Rightarrow> ('s, 'w) drivers \<Rightarrow> 's \<Rightarrow> extent \<Rightarrow> byte list \<Rightarrow> (extent \<times> byte list \<times> int \<times> goerr option) option" where
  "extent_Read U ds s e p =
     map_option (\<lambda>(p', n, err). (e\<lparr>e_pos := e_pos e + n\<rparr>, p', n, err)) (extent_ReadAt U ds s e p (e_pos e))"

definition extent_Seek :: "extent \<Rightarrow> int \<Rightarrow> int \<Rightarrow> extent \<times> (goerr + int)" where
  "extent_Seek e offset whence =
     (if e_closed e then (e, Inl ErrClosed)
      else (case pos_Seek (extent_Size e) (e_pos e) offset whence of (q, r) \<Rightarrow> (e\<lparr>e_pos := q\<rparr>, r)))"

definition extent_Close :: "extent \<Rightarrow> extent" where
  "extent_Close e = e\<lparr>e_closed := True\<rparr>"

text \<open>
  The extent as an object, in the storage state \<open>s\<close>.  A call of an object is a total function
  here, so a read whose URL is never found is recorded as a panic.
\<close>

definition extent_object :: "url_ops \<Rightarrow> ('s, 'w) drivers \<Rightarrow> 's \<Rightarrow> extent \<Rightarrow> Object" where
  "extent_object U ds s e =
     \<lparr>Size = extent_Size e,
      ReadAt = (\<lambda>p off. case extent_ReadAt U ds s e p off of
                  Some r \<Rightarrow> r | None \<Rightarrow> (p, 0, Some (Panic ''does not return''))),
      URL = (case extent_URL U e of Some (Inr url) \<Rightarrow> url | _ \<Rightarrow> [])\<rparr>"

section \<open>The loader\<close>

record vdisc =
  vd_baseURL :: net_url
  vd_fsType :: gostring
  vd_blockSize :: u16
  vd_image :: AnonymousObject
  vd_uris :: "ITrie list"
  vd_extents :: "Extent list"
  vd_extentIndices :: "u32 \<rightharpoonup> nat"

text \<open>
  The compressed message, read through a section of the whole object.  The temporary file and its
  mapping into memory hold the bytes; mapping an empty file fails.
\<close>

definition downloadMemoryMapped ::
  "url_ops \<Rightarrow> ('s, 'w) drivers \<Rightarrow> codec \<Rightarrow> gostring \<Rightarrow> 's \<Rightarrow> (goerr + byte list) option" where
  "downloadMemoryMapped U ds C url s =
     (case Open U ds url s of
        Inl e \<Rightarrow> Some (Inl e)
      | Inr res \<Rightarrow>
          map_option (\<lambda>(raw, err).
              if length raw < 4 then Inl (case err of Some e \<Rightarrow> e | None \<Rightarrow> EOF)
              else if err \<noteq> None then Inl (the err)
              else
                (case (if take 4 raw = gzip_header then cd_gunzip C raw else Inr raw) of
                   Inl e \<Rightarrow> Inl e
                 | Inr data \<Rightarrow> if data = [] then Inl EINVAL else Inr data))
            (copy_section (AnonymousObject.truncate res) 0 (Size res)))"

definition new_extent :: "net_url \<Rightarrow> VDiscV1 \<Rightarrow> nat \<Rightarrow> extent" where
  "new_extent base m i = \<lparr>e_blockSize = m_BlockSize m, e_baseURL = base, e_uris = m_Uris m, e_extents = m_Extents m,
     e_idx = i, e_pos = 0, e_closed = False\<rparr>"

text \<open>
  The loop over the extents.  \<open>wc\<close> is \<open>WithCaching\<close> of the cache that the caller passed.
\<close>

fun load_extents ::
  "url_ops \<Rightarrow> ('s, 'w) drivers \<Rightarrow> 's \<Rightarrow> (Object \<Rightarrow> Object) \<Rightarrow> net_url \<Rightarrow> VDiscV1 \<Rightarrow> Extent list \<Rightarrow> nat \<Rightarrow> u32 \<Rightarrow>
   (u32 \<rightharpoonup> nat) \<Rightarrow> AnonymousObject list \<Rightarrow> goerr + (u32 \<rightharpoonup> nat) \<times> AnonymousObject list" where
  "load_extents U ds s wc base m [] i pos idx objs = Inr (idx, objs)"
| "load_extents U ds s wc base m (x # xs) i pos idx objs =
     (let idx' = idx(pos \<mapsto> i)
      in if x_Blocks x = 0 then load_extents U ds s wc base m xs (i + 1) pos idx' objs
         else
           let objs' = objs @ [AnonymousObject.truncate (wc (extent_object U ds s (new_extent base m i)))]
           in if 0 < x_Padding x then
                (case Open U ds (bytes_of ''zero:'' @ sprintf_d (uint (x_Padding x))) s of
                   Inl e \<Rightarrow> Inl e
                 | Inr padObj \<Rightarrow>
                     load_extents U ds s wc base m xs (i + 1) (pos + x_Blocks x) idx' (objs' @ [AnonymousObject.truncate padObj]))
              else load_extents U ds s wc base m xs (i + 1) (pos + x_Blocks x) idx' objs')"

definition Load ::
  "url_ops \<Rightarrow> ('s, 'w) drivers \<Rightarrow> codec \<Rightarrow> 't btree \<Rightarrow> (nat \<Rightarrow> nat list) \<Rightarrow> (Object \<Rightarrow> Object) \<Rightarrow> gostring \<Rightarrow> 's
   \<Rightarrow> (goerr + vdisc) option" where
  "Load U ds C B sched wc url s =
     (case url_Parse U url of
        Inl e \<Rightarrow> Some (Inl e)
      | Inr base \<Rightarrow>
          map_option (\<lambda>r.
              case r of
                Inl e \<Rightarrow> Inl e
              | Inr raw \<Rightarrow>
                  (case cd_Unmarshal C raw of
                     Inl e \<Rightarrow> Inl e
                   | Inr m \<Rightarrow>
                       (case load_extents U ds s wc base m (m_Extents m) 0 0 Map.empty [] of
                          Inl e \<Rightarrow> Inl e
                        | Inr (idx, objs) \<Rightarrow>
                            Inr \<lparr>vd_baseURL = base, vd_fsType = m_FsType m, vd_blockSize = m_BlockSize m,
                              vd_image = Concat B sched objs, vd_uris = m_Uris m, vd_extents = m_Extents m,
                              vd_extentIndices = idx\<rparr>)))
            (downloadMemoryMapped U ds C url s))"

definition vdisc_extent :: "vdisc \<Rightarrow> nat \<Rightarrow> extent" where
  "vdisc_extent d i = \<lparr>e_blockSize = vd_blockSize d, e_baseURL = vd_baseURL d, e_uris = vd_uris d, e_extents = vd_extents d,
     e_idx = i, e_pos = 0, e_closed = False\<rparr>"

definition OpenExtent ::
  "url_ops \<Rightarrow> ('s, 'w) drivers \<Rightarrow> 's \<Rightarrow> (Object \<Rightarrow> Object) \<Rightarrow> vdisc \<Rightarrow> u32 \<Rightarrow> goerr + Object" where
  "OpenExtent U ds s wc d lba =
     (case vd_extentIndices d lba of
        None \<Rightarrow> Inl (Err ''unable to open file: invalid extent'')
      | Some i \<Rightarrow> Inr (wc (extent_object U ds s (vdisc_extent d i))))"

definition ExtentURL :: "url_ops \<Rightarrow> vdisc \<Rightarrow> u32 \<Rightarrow> (goerr + gostring) option" where
  "ExtentURL U d lba =
     (case vd_extentIndices d lba of
        None \<Rightarrow> Some (Inl (Err ''unable to open file: invalid extent''))
      | Some i \<Rightarrow> extent_URL U (vdisc_extent d i))"

end
