(* ===== verification/TrieSize.thy ===== *)
theory TrieSize
  imports Trie
begin

text \<open>
  The size of a trie and of its inversion: a key adds at most two nodes, so a disc's list of URIs
  stays below the limits of its encoding.
\<close>

definition child_nodes :: "(rune \<times> trieNode) list \<Rightarrow> nat" where
  "child_nodes chs = sum_list (map (\<lambda>rc. nodes (snd rc)) chs)"

lemma nodes_children [simp]: "nodes (TrieNode c t v chs) = Suc (child_nodes chs)"
  by (simp add: child_nodes_def case_prod_unfold)

declare nodes.simps [simp del]

lemma child_nodes_simps [simp]: "child_nodes [] = 0" "child_nodes (rc # chs) = nodes (snd rc) + child_nodes chs"
  by (simp_all add: child_nodes_def)

lemma child_nodes_update:
  "child_nodes (AList.update r n chs) + (case map_of chs r of Some c \<Rightarrow> nodes c | None \<Rightarrow> 0) = child_nodes chs + nodes n"
  by (induction chs) (auto split: option.splits)

text \<open>A new node takes the rest of the key.\<close>

lemma put_fresh:
  "list_all scalar rs \<Longrightarrow> \<not> terminal n \<Longrightarrow> children n = [] \<Longrightarrow> i = length (content n) \<Longrightarrow> nodes (put_loop n i rs v) = 1"
proof (induction rs arbitrary: n i)
  case (Cons r rs)
  have "nodes (put_loop (TrieNode (content n @ EncodeRune r) False (nodeValue n) []) (length (content n) + length (EncodeRune r)) rs v) = 1"
    by (rule Cons.IH) (use Cons.prems in simp_all)
  then show ?case using Cons.prems by (simp add: nat_RuneLen)
qed simp

lemma put_loop_nodes:
  assumes "list_all scalar rs"
  shows "nodes (put_loop n i rs v) \<le> nodes n + 2"
  using assms
proof (induction rs arbitrary: n i)
  case Nil
  show ?case by (cases n) (simp add: Let_def)
next
  case (Cons r rs)
  have rs: "scalar r" "list_all scalar rs" using Cons.prems by simp_all
  note ih = Cons.IH [OF rs(2)]
  obtain c t w chs where n: "n = TrieNode c t w chs" by (cases n)
  have fresh: "nodes (put_loop (TrieNode (EncodeRune r) False 0 []) (nat (RuneLen r)) rs v) = 1"
    by (rule put_fresh [OF rs(2)]) (simp_all add: nat_RuneLen rs(1))
  consider (inside) "i < length c" | (down) ch where "\<not> i < length c" "map_of chs r = Some ch"
    | (new) "\<not> i < length c" "map_of chs r = None" "t \<or> chs \<noteq> []" | (grow) "\<not> i < length c" "map_of chs r = None" "\<not> t" "chs = []"
    by (cases "map_of chs r") auto
  then show ?case
  proof cases
    case inside
    obtain cr k where d: "DecodeRune (drop i c) = (cr, k)" by fastforce
    show ?thesis
    proof (cases "r = cr")
      case True
      then show ?thesis using ih [of n "i + k"] inside d by (simp add: n Let_def)
    next
      case False
      then show ?thesis using inside d fresh by (simp add: n Let_def)
    qed
  next
    case down
    then show ?thesis using ih [of ch "nat (RuneLen r)"] child_nodes_update [of r "put_loop ch (nat (RuneLen r)) rs v" chs] by (simp add: n)
  next
    case new
    then show ?thesis using fresh child_nodes_update [of r "put_loop (TrieNode (EncodeRune r) False 0 []) (nat (RuneLen r)) rs v" chs]
      by (simp add: n)
  next
    case grow
    then show ?thesis using ih [of "TrieNode (c @ EncodeRune r) False w []" "i + nat (RuneLen r)"] by (simp add: n)
  qed
qed

lemma put_all_nodes: "nodes (put_all kvs) \<le> 2 * length kvs + 1"
proof (induction kvs rule: rev_induct)
  case (snoc kv kvs)
  obtain k v where kv: "kv = (k, v)" by fastforce
  have "put_all (kvs @ [kv]) = put_loop (put_all kvs) 0 (runes k) v" by (simp add: put_all_def kv Put_def)
  then show ?case using put_loop_nodes [OF scalar_runes, of "put_all kvs" 0 k v] snoc by simp
qed (simp add: put_all_def NewTrieMap_def)

lemma invert_loop_length:
  assumes Q: "queue_laws Q items" and rng: "range_order rng"
  shows "invert_loop Q rng q bs ls = Some (Inr (bs', ls')) \<Longrightarrow> length bs' \<le> length bs + sum_list (map (\<lambda>t. nodes (node t)) (items q))"
proof (induction "sum_list (map (\<lambda>t. nodes (node t)) (items q))" arbitrary: q bs ls rule: less_induct)
  case less
  show ?case
  proof (cases "items q")
    case Nil
    then show ?thesis using less.prems queue_len [OF Q, of q] by (simp add: invert_loop.simps [of Q rng q])
  next
    case (Cons t ts)
    let ?n = "node t" and ?leaf = "\<lparr>Parent = parentIndex t, Content = content (node t)\<rparr>"
    let ?q' = "snd (q_Dequeue Q q)"
    note deq = queue_front [OF Q Cons]
    define ls1 where "ls1 = (if terminal ?n then ls(nodeValue ?n \<mapsto> ?leaf) else ls)"
    have ok: "\<not> (terminal ?n \<and> ls (nodeValue ?n) \<noteq> None)"
    proof
      assume "terminal ?n \<and> ls (nodeValue ?n) \<noteq> None"
      then have "invert_loop Q rng q bs ls = Some (Inl (Panic ''never''))"
        using queue_len [OF Q, of q] by (subst invert_loop.simps) (simp add: Cons deq Let_def)
      then show False using less.prems by simp
    qed
    show ?thesis
    proof (cases "children ?n = []")
      case True
      have "invert_loop Q rng q bs ls = invert_loop Q rng ?q' bs ls1"
        using queue_len [OF Q, of q] ok True by (subst invert_loop.simps) (auto simp: Cons deq Let_def ls1_def)
      then have "length bs' \<le> length bs + sum_list (map (\<lambda>t. nodes (node t)) (items ?q'))"
        using less.hyps [of ?q' bs ls1] less.prems by (simp add: Cons deq nodes_node [of ?n])
      then show ?thesis by (simp add: Cons deq)
    next
      case False
      define mk where "mk = (\<lambda>(r :: rune, child). \<lparr>prefix = prefix t @ content ?n, parentIndex = length bs, node = child\<rparr>)"
      define chs where "chs = rng (length bs) (children ?n)"
      let ?q2 = "enqueue_all Q (map mk chs) ?q'"
      have step: "invert_loop Q rng q bs ls = invert_loop Q rng ?q2 (bs @ [?leaf]) ls1"
        using queue_len [OF Q, of q] ok False
        by (subst invert_loop.simps) (auto simp: Cons deq Let_def ls1_def chs_def mk_def)
      have it: "items ?q2 = ts @ map mk chs" by (simp add: items_enqueue_all [OF Q] deq)
      have "mset chs = mset (children ?n)" using rng by (simp add: chs_def range_order_def)
      from sum_list_perm [OF this, of "\<lambda>(r, child). nodes child"]
      have sum: "sum_list (map (\<lambda>t. nodes (node t)) (map mk chs)) + 1 = nodes ?n"
        by (simp add: mk_def nodes_node [of ?n] comp_def case_prod_unfold)
      then have "length bs' \<le> Suc (length bs) + sum_list (map (\<lambda>t. nodes (node t)) (items ?q2))"
        using less.hyps [of ?q2 "bs @ [?leaf]" ls1] less.prems step by (simp add: Cons it)
      then show ?thesis using sum by (simp add: Cons it)
    qed
  qed
qed

lemma Invert_length:
  assumes "queue_laws Q items" "range_order rng" "Invert Q rng (put_all kvs) = Some (Inr (bs, ls))"
  shows "length bs \<le> 2 * length kvs + 2"
proof -
  have "items (q_Enqueue Q \<lparr>prefix = [], parentIndex = 0, node = put_all kvs\<rparr> (q_New Q)) =
      [\<lparr>prefix = [], parentIndex = 0, node = put_all kvs\<rparr>]" using assms(1) by (simp add: queue_laws_def)
  then show ?thesis
    using invert_loop_length [OF assms(1,2) assms(3) [unfolded Invert_def]] put_all_nodes [of kvs] by simp
qed

end
