(* ===== verification/Disc.thy ===== *)
theory Disc
  imports Vdisc TrieSize
begin

text \<open>
  From a volume to the disc and back: the message that \<open>Build\<close> makes names every object by a URI
  that the loader puts together again from the inverted trie, with its size; and the image that
  \<open>Load\<close> makes of such a message is the objects one after another, each in whole sectors.
\<close>

section \<open>URIs\<close>

lemma sint_of_nat: "n < 2 ^ 63 \<Longrightarrow> sint (of_nat n :: 64 word) = int n"
  by (simp add: signed_of_nat signed_take_bit_int_eq_self)

lemma index_Uint32_ok:
  assumes "n < 2 ^ 32"
  shows "index_Uint32 n = Inr (of_nat n)"
proof -
  have s: "sint (of_nat n :: 64 word) = int n"
    by (rule sint_of_nat) (use assms in simp)
  have "to_unsigned (int n) (IntToUint32 (of_nat n))" using IntToUint32_exact [of "of_nat n"] by (simp add: s)
  then obtain w where w: "IntToUint32 (of_nat n) = Inr w" "uint w = int n"
    using assms by (auto simp: to_unsigned_def split: sum.splits)
  have "w = of_nat n" using w(2) by (metis of_int_of_nat_eq of_int_uint ucast_id)
  then show ?thesis using w(1) assms by (simp add: index_Uint32_def index_Int_def)
qed

lemma index_Int32_bound:
  assumes "index_Int32 n = Inr r"
  shows "n < 2 ^ 31"
proof -
  have n: "n < 2 ^ 63" and i: "IntToInt32 (of_nat n) = Inr r"
    using assms by (auto simp: index_Int32_def index_Int_def split: if_splits)
  have s: "sint (of_nat n :: 64 word) = int n"
    by (rule sint_of_nat) (use n in simp)
  have "sint r = int n" using IntToInt32_exact [of "of_nat n"] by (simp add: s i to_signed_def)
  moreover have "sint r < 2 ^ 31" using sint_lt [of r] by simp
  ultimately have "int n < 2 ^ 31" by simp
  then show ?thesis by simp
qed

lemma build_uris_nodes:
  assumes "build_uris bs = Inr uris"
  shows "length uris = length bs \<and> (\<forall>i < length bs. it_Content (uris ! i) = Content (bs ! i) \<and>
    (Parent (bs ! i) < 2 ^ 32 \<longrightarrow> unat (it_Parent (uris ! i)) = Parent (bs ! i)))"
  using assms
proof (induction bs arbitrary: uris)
  case (Cons b bs)
  then obtain p us where p: "index_Uint32 (Parent b) = Inr p" "build_uris bs = Inr us"
    "uris = \<lparr>it_Parent = p, it_Content = Content b\<rparr> # us"
    by (cases "build_uris bs") (auto split: sum.splits)
  have "unat p = Parent b" if "Parent b < 2 ^ 32"
  proof -
    have "p = of_nat (Parent b)" using p(1) index_Uint32_ok [OF that] by simp
    then show ?thesis using that by (simp add: unat_of_nat)
  qed
  then show ?case using Cons.IH [OF p(2)] p(3) by (auto simp: nth_Cons split: nat.splits)
qed simp

text \<open>The loader's loop collects the contents along the parents.\<close>

lemma uri_loop_prefix:
  assumes "chain_ok bs" "build_uris bs = Inr uris" "length bs < 2 ^ 31" "i < length bs"
  shows "uri_loop uris (of_nat i) uri = Some (Inr (prefix_of bs i @ uri))"
  using assms(4)
proof (induction i arbitrary: uri rule: less_induct)
  case (less i)
  note n = build_uris_nodes [OF assms(2)]
  have i: "unat (of_nat i :: u32) = i" using less.prems assms(3) by (simp add: unat_of_nat)
  have c: "it_Content (uris ! i) = Content (bs ! i)" using n less.prems by blast
  show ?case
  proof (cases "i = 0")
    case True
    have "bs ! 0 = \<lparr>Parent = 0, Content = []\<rparr>" using assms(1) by (simp add: chain_ok_def)
    moreover have "unat (it_Parent (uris ! 0)) = 0" using n less.prems True calculation by simp
    ultimately show ?thesis
      using n less.prems True c by (subst uri_loop.simps) (simp add: Let_def chain_ok_root [OF assms(1)] unat_eq_0)
  next
    case False
    have p: "Parent (bs ! i) < i" using assms(1) less.prems False by (simp add: chain_ok_def)
    then have "unat (it_Parent (uris ! i)) = Parent (bs ! i)" using n less.prems assms(3) by simp
    then have q: "it_Parent (uris ! i) = of_nat (Parent (bs ! i))" by (metis of_nat_unat ucast_id)
    have "of_nat (Parent (bs ! i)) \<noteq> (of_nat i :: u32)"
      using p i assms(3) less.prems by (metis \<open>unat (it_Parent (uris ! i)) = Parent (bs ! i)\<close> less_irrefl q)
    then have "uri_loop uris (of_nat i) uri = uri_loop uris (of_nat (Parent (bs ! i))) (Content (bs ! i) @ uri)"
      using n less.prems i c q by (subst uri_loop.simps) (simp add: Let_def)
    also have "\<dots> = Some (Inr (prefix_of bs i @ uri))"
      using less.IH [OF p] p less.prems by (simp add: prefix_of.simps [of bs i])
    finally show ?thesis .
  qed
qed

text \<open>What an extent says of an object: its URI and its size.\<close>

definition says :: "VDiscV1 \<Rightarrow> gostring \<Rightarrow> int \<Rightarrow> Extent \<Rightarrow> bool" where
  "says m key sz x \<longleftrightarrow>
     uri_loop (m_Uris m) (x_UriPrefix x) (x_UriSuffix x) = Some (Inr key) \<and>
     x_Blocks x = disc_bytesToSectors sz \<and> x_Padding x = of_int (disc_sectorsToBytes (disc_bytesToSectors sz) - sz)"

lemma entry_says:
  assumes "chain_ok bs" "build_uris bs = Inr uris" "length bs < 2 ^ 31" "m_Uris m = uris"
    and "Parent leaf < length bs" "extent_entry leaf sz = Inr x"
  shows "says m (prefix_of bs (Parent leaf) @ Content leaf) sz x"
proof -
  have "index_Uint32 (Parent leaf) = Inr (of_nat (Parent leaf))"
    using index_Uint32_ok [of "Parent leaf"] assms(3,5) by simp
  then have "x_UriPrefix x = of_nat (Parent leaf)" "x_UriSuffix x = Content leaf" "x_Blocks x = disc_bytesToSectors sz"
    "x_Padding x = of_int (disc_sectorsToBytes (disc_bytesToSectors sz) - sz)"
    using assms(6) by (auto simp: extent_entry_def Let_def)
  then show ?thesis using uri_loop_prefix [OF assms(1-3,5)] assms(4) by (simp add: says_def)
qed

section \<open>The walks over the files\<close>

lemma run_files_simple:
  assumes "\<forall>r \<in> set fs. \<exists>f. H ! rel_Child r = FileI f"
  shows "run_files (\<lambda>rel s. case H ! rel_Child rel of FileI f \<Rightarrow> Some (g f s, None) | _ \<Rightarrow> Some (s, Some e)) fs s =
    Some (fold (\<lambda>r. g (file_at H r)) fs s, None)"
  using assms by (induction fs arbitrary: s) (auto simp: file_at_def)

text \<open>The second walk fills the list from the given index.\<close>

lemma run_extents:
  assumes "\<forall>r \<in> set fs. \<exists>f. H ! rel_Child r = FileI f"
    and "run_files (\<lambda>rel s. case H ! rel_Child rel of FileI f \<Rightarrow> add_extent leaves f s | _ \<Rightarrow> Some (s, Some e)) fs (xs, k) =
      Some ((ys, j), err)" "\<not> is_panic err"
  shows "\<exists>es. list_all2 (\<lambda>r x. extent_entry (leaf_at leaves (f_start (file_at H r))) (Size (f_o (file_at H r))) = Inr x) fs es \<and>
    ys = take k xs @ es @ drop (k + length fs) xs \<and> (fs \<noteq> [] \<longrightarrow> k + length fs \<le> length xs)"
  using assms
proof (induction fs arbitrary: xs k)
  case (Cons r fs)
  obtain f where f: "H ! rel_Child r = FileI f" using Cons.prems(1) by auto
  let ?l = "leaf_at leaves (f_start f)" and ?sz = "Size (f_o f)"
  obtain x where x: "k < length xs" "extent_entry ?l ?sz = Inr x"
  proof (cases "k < length xs")
    case True
    show ?thesis
    proof (cases "extent_entry ?l ?sz")
      case (Inl e')
      then have "is_panic (Some e')"
        using IntToUint32_exact [of "of_nat (Parent ?l)"]
        by (auto simp: extent_entry_def Let_def index_Uint32_def index_Int_def to_unsigned_def split: sum.splits if_splits)
      then show ?thesis using Cons.prems(2,3) f Inl True
        by (cases e') (auto simp: add_extent_def set_extent_def)
    qed (use that True in blast)
  next
    case False
    then show ?thesis using Cons.prems(2,3) f by (auto simp: add_extent_def set_extent_def)
  qed
  have "run_files (\<lambda>rel s. case H ! rel_Child rel of FileI f \<Rightarrow> add_extent leaves f s | _ \<Rightarrow> Some (s, Some e)) fs (xs[k := x], k + 1) =
      Some ((ys, j), err)"
    using Cons.prems(2) f x by (simp add: add_extent_def set_extent_def)
  from Cons.IH [OF _ this Cons.prems(3)] Cons.prems(1)
  obtain es where es: "list_all2 (\<lambda>r x. extent_entry (leaf_at leaves (f_start (file_at H r))) (Size (f_o (file_at H r))) = Inr x) fs es"
    "ys = take (k + 1) (xs[k := x]) @ es @ drop (k + 1 + length fs) (xs[k := x])"
    "fs \<noteq> [] \<longrightarrow> k + 1 + length fs \<le> length xs"
    by auto
  have "take (k + 1) (xs[k := x]) = take k xs @ [x]" using x(1) by (simp add: take_Suc_conv_app_nth)
  then show ?case using es x f by (intro exI [of _ "x # es"]) (auto simp: file_at_def)
qed simp


section \<open>The message\<close>

text \<open>Of several objects with the same URL, the last one put has it.\<close>

lemma map_of_rev_Cons:
  "map_of (rev (kv # kvs)) k =
     (case map_of (rev kvs) k of Some v \<Rightarrow> Some v | None \<Rightarrow> if k = fst kv then Some (snd kv) else None)"
  by (simp add: map_add_def split: option.split)

lemma map_of_rev_None: "map_of (rev (zip us ss)) k = None \<longleftrightarrow> k \<notin> set us" if "length us = length ss"
proof -
  have "map fst (zip us ss) = us" using that by simp
  then have "fst ` set (zip us ss) = set us" by (metis list.set_map)
  then show ?thesis by (simp add: map_of_eq_None_iff)
qed

lemma last_put:
  assumes "length us = length ss" "distinct ss" "i < length us"
  shows "if us ! i \<in> set (drop (Suc i) us) then map_of (rev (zip us ss)) k \<noteq> Some (ss ! i)
    else map_of (rev (zip us ss)) (us ! i) = Some (ss ! i)"
  using assms
proof (induction us ss arbitrary: i rule: list_induct2)
  case (Cons u us s ss)
  have rng: "v \<in> set ss" if "map_of (rev (zip us ss)) k = Some v" for k v
    using map_of_SomeD [OF that] by (auto dest: set_zip_rightD)
  note none = map_of_rev_None [OF Cons.hyps(1)]
  show ?case
  proof (cases i)
    case 0
    show ?thesis
    proof (cases "u \<in> set us")
      case True
      then have "map_of (rev (zip us ss)) u \<noteq> None" using none by blast
      then show ?thesis using 0 True rng [of k] Cons.prems(1) unfolding zip_Cons_Cons map_of_rev_Cons
        by (auto split: option.split)
    next
      case False
      then have "map_of (rev (zip us ss)) u = None" using none by blast
      then show ?thesis using 0 False unfolding zip_Cons_Cons map_of_rev_Cons by simp
    qed
  next
    case (Suc j)
    have j: "j < length us" "s \<noteq> ss ! j" using Cons.prems Suc Cons.hyps(1) by auto
    note ih = Cons.IH [OF _ j(1)]
    show ?thesis
      using ih Cons.prems(1) j Suc unfolding zip_Cons_Cons map_of_rev_Cons by (auto split: option.split if_splits)
  qed
qed simp

definition uri_of :: "gostring list \<Rightarrow> nat \<Rightarrow> gostring" where
  "uri_of us i = (if us ! i \<in> set (drop (Suc i) us) then [] else us ! i)"

lemma Inodes_run:
  assumes "volume_ok T v" "moved (v_heap v) (v_heap v')" "v_root v' = v_root v" "queue_laws R ritems"
    and "visited_files T (v_heap v) (v_root v) fs"
  shows "VisitFileInodes T R visit v' s =
    run_files (\<lambda>rel s. case v_heap v' ! rel_Child rel of FileI f \<Rightarrow> visit f s
        | _ \<Rightarrow> Some (s, Some (Panic ''interface conversion''))) fs s"
  using VisitFiles_run [OF assms(1,2,4,5)] by (simp add: VisitFileInodes_def assms(3))

lemma fold_zip:
  "fold (\<lambda>r. Put (URL (f_o (file_at H r))) (f_start (file_at H r))) fs t =
   fold (\<lambda>(k, a). Put k a) (zip (map (\<lambda>r. URL (f_o (file_at H r))) fs) (map (\<lambda>r. f_start (file_at H r)) fs)) t"
  by (induction fs arbitrary: t) simp_all

lemma built_message:
  assumes ok: "volume_ok T v" "moved (v_heap v) (v_heap v')" "v_root v' = v_root v"
    and Q: "queue_laws R ritems" "queue_laws IQ items" "range_order rng"
    and fs: "visited_files T (v_heap v) (v_root v) fs" "\<forall>r \<in> set fs. \<exists>f. v_heap v' ! rel_Child r = FileI f"
    and us: "us = map (\<lambda>r. URL (f_o (file_at (v_heap v') r))) fs" "list_all valid_utf8 (key # us)" "key \<notin> set us"
    and ss: "ss = map (\<lambda>r. f_start (file_at (v_heap v') r)) fs" "distinct (0 # ss)"
    and n: "sint (numFiles + 1) = int (length fs) + 1"
    and b: "build_message T R IQ rng v' numFiles key metaLen = Some (Inr m)"
  shows "m_BlockSize m = 2048 \<and> (\<exists>x0 es. m_Extents m = x0 # es \<and> says m key metaLen x0 \<and> length es = length fs \<and>
    (\<forall>i < length fs. says m (uri_of us i) (Size (f_o (file_at (v_heap v') (fs ! i)))) (es ! i)))"
proof -
  let ?H = "v_heap v'" and ?kvs = "(key, 0) # zip us ss"
  note run = Inodes_run [OF ok Q(1) fs(1)]
  have len: "length us = length ss" "length us = length fs" using us(1) ss(1) by simp_all
  have "build_trie T R key v' = Some (fold (\<lambda>(k, a). Put k a) ?kvs NewTrieMap, None)"
    unfolding build_trie_def run by (simp add: run_files_simple [OF fs(2)] fold_zip us(1) ss(1))
  note t = this
  have valid: "\<forall>(k, a) \<in> set ?kvs. valid_utf8 k" using us(2) by (auto simp: list_all_iff dest: set_zip_leftD)
  have dist: "distinct (map snd ?kvs)" using ss(2) len by simp
  obtain bs ls where inv: "Invert IQ rng (fold (\<lambda>(k, a). Put k a) ?kvs NewTrieMap) = Some (Inr (bs, ls))" "chain_ok bs"
    "\<And>a. ls a \<noteq> None \<Longrightarrow> \<exists>k. map_of (rev ?kvs) k = Some a"
    "\<And>k a. map_of (rev ?kvs) k = Some a \<Longrightarrow> \<exists>leaf. ls a = Some leaf \<and> Parent leaf < length bs \<and> prefix_of bs (Parent leaf) @ Content leaf = k"
    using Invert_spec [OF Q(2,3) valid dist] by blast
  obtain c uris xs ys k err where m: "index_Int32 (length bs) = Inr c" "build_uris bs = Inr uris"
    "set_extent (replicate (nat (sint (numFiles + 1))) zero_extent) 0 (leaf_at ls 0) metaLen = (xs, None)"
    "VisitFileInodes T R (add_extent ls) v' (xs, 1) = Some ((ys, k), err)" "\<not> is_panic err"
    "m = \<lparr>m_BlockSize = 2048, m_FsType = bytes_of ''iso9660'', m_Uris = uris, m_Extents = ys\<rparr>"
    using b t inv(1) by (auto simp: build_message_def Let_def split: sum.splits if_splits option.splits prod.splits)
  have bl: "length bs < 2 ^ 31" by (rule index_Int32_bound [OF m(1)])
  have rep: "nat (sint (numFiles + 1)) = Suc (length fs)" using n by simp
  obtain x0 where x0: "extent_entry (leaf_at ls 0) metaLen = Inr x0" "xs = x0 # replicate (length fs) zero_extent"
    using m(3) by (auto simp: rep set_extent_def split: sum.splits)
  from run_extents [OF fs(2) m(4) [unfolded run] m(5)]
  obtain es where es: "list_all2 (\<lambda>r x. extent_entry (leaf_at ls (f_start (file_at ?H r))) (Size (f_o (file_at ?H r))) = Inr x) fs es"
    "ys = take 1 xs @ es @ drop (1 + length fs) xs"
    by blast
  have ys: "ys = x0 # es" using es(2) by (simp add: x0(2))
  have root: "bs \<noteq> []" "prefix_of bs 0 = []" using inv(2) chain_ok_root by (auto simp: chain_ok_def)
  note entry = entry_says [OF inv(2) m(2) bl, of m]
  have mu: "m_Uris m = uris" "m_Extents m = ys" "m_BlockSize m = 2048" by (simp_all add: m(6))
  have s0: "says m key metaLen x0"
  proof -
    have "map_of (rev (zip us ss)) key = None" using us(3) map_of_rev_None [OF len(1)] by blast
    then have "map_of (rev ?kvs) key = Some 0" unfolding map_of_rev_Cons by simp
    from inv(4) [OF this] obtain leaf where l: "ls 0 = Some leaf" "Parent leaf < length bs" "prefix_of bs (Parent leaf) @ Content leaf = key"
      by blast
    then show ?thesis using entry [OF mu(1) l(2), of metaLen x0] x0(1) by (simp add: leaf_at_def)
  qed
  have "says m (uri_of us i) (Size (f_o (file_at ?H (fs ! i)))) (es ! i)" if i: "i < length fs" for i
  proof -
    let ?a = "f_start (file_at ?H (fs ! i))"
    have a: "ss ! i = ?a" "?a \<noteq> 0" using i ss by auto
    have x: "extent_entry (leaf_at ls ?a) (Size (f_o (file_at ?H (fs ! i)))) = Inr (es ! i)"
      using es(1) i by (simp add: list_all2_conv_all_nth)
    have last: "if us ! i \<in> set (drop (Suc i) us) then \<forall>k. map_of (rev (zip us ss)) k \<noteq> Some ?a
        else map_of (rev (zip us ss)) (us ! i) = Some ?a"
      using last_put [OF len(1), of i] ss(2) i len(2) a(1) by auto
    show ?thesis
    proof (cases "us ! i \<in> set (drop (Suc i) us)")
      case True
      have "map_of (rev ?kvs) k \<noteq> Some ?a" for k
        using last True a(2) unfolding map_of_rev_Cons by (auto split: option.split)
      then have "ls ?a = None" using inv(3) by blast
      then have "leaf_at ls ?a = \<lparr>Parent = 0, Content = []\<rparr>" by (simp add: leaf_at_def)
      then show ?thesis using entry [OF mu(1), of "leaf_at ls ?a"] x root True by (simp add: uri_of_def)
    next
      case False
      then have "map_of (rev ?kvs) (us ! i) = Some ?a" using last unfolding map_of_rev_Cons by simp
      from inv(4) [OF this] obtain leaf where l: "ls ?a = Some leaf" "Parent leaf < length bs" "prefix_of bs (Parent leaf) @ Content leaf = us ! i"
        by blast
      then show ?thesis using entry [OF mu(1) l(2)] x False by (simp add: leaf_at_def uri_of_def)
    qed
  qed
  moreover have "length es = length fs" using es(1) by (simp add: list_all2_lengthD)
  ultimately show ?thesis using s0 ys mu by blast
qed


text \<open>A disc of fewer than \<open>2 ^ 29\<close> files has a message.\<close>

lemma build_uris_ok:
  assumes "\<forall>b \<in> set bs. Parent b < 2 ^ 32"
  shows "\<exists>uris. build_uris bs = Inr uris"
  using assms by (induction bs) (auto simp: index_Uint32_ok)

lemma extent_entry_ok: "Parent leaf < 2 ^ 32 \<Longrightarrow> \<exists>x. extent_entry leaf sz = Inr x"
  using index_Uint32_ok [of "Parent leaf"] by (simp add: extent_entry_def Let_def)

lemma run_extents_ok:
  assumes "\<forall>r \<in> set fs. \<exists>f. H ! rel_Child r = FileI f" "\<forall>a. Parent (leaf_at leaves a) < 2 ^ 32"
  shows "k + length fs \<le> length xs \<Longrightarrow>
    \<exists>ys j. run_files (\<lambda>rel s. case H ! rel_Child rel of FileI f \<Rightarrow> add_extent leaves f s | _ \<Rightarrow> Some (s, Some e)) fs (xs, k) =
      Some ((ys, j), None)"
  using assms(1)
proof (induction fs arbitrary: xs k)
  case (Cons r fs)
  obtain f where f: "H ! rel_Child r = FileI f" using Cons.prems(2) by auto
  obtain x where x: "extent_entry (leaf_at leaves (f_start f)) (Size (f_o f)) = Inr x"
    using extent_entry_ok assms(2) by blast
  have "k + 1 + length fs \<le> length (xs[k := x])" using Cons.prems(1) by simp
  from Cons.IH [OF this] Cons.prems(2) show ?case using f x Cons.prems(1) by (simp add: add_extent_def set_extent_def)
qed simp

lemma message_built:
  assumes ok: "volume_ok T v" "moved (v_heap v) (v_heap v')" "v_root v' = v_root v"
    and Q: "queue_laws R ritems" "queue_laws IQ items" "range_order rng"
    and fs: "visited_files T (v_heap v) (v_root v) fs" "\<forall>r \<in> set fs. \<exists>f. v_heap v' ! rel_Child r = FileI f"
    and us: "us = map (\<lambda>r. URL (f_o (file_at (v_heap v') r))) fs" "list_all valid_utf8 (key # us)"
    and ss: "ss = map (\<lambda>r. f_start (file_at (v_heap v') r)) fs" "distinct (0 # ss)"
    and n: "sint (numFiles + 1) = int (length fs) + 1" "length fs < 2 ^ 29"
  shows "\<exists>m. build_message T R IQ rng v' numFiles key metaLen = Some (Inr m)"
proof -
  let ?H = "v_heap v'" and ?kvs = "(key, 0) # zip us ss"
  note run = Inodes_run [OF ok Q(1) fs(1)]
  have len: "length us = length ss" "length us = length fs" using us(1) ss(1) by simp_all
  have t: "build_trie T R key v' = Some (put_all ?kvs, None)"
    unfolding build_trie_def run by (simp add: run_files_simple [OF fs(2)] fold_zip us(1) ss(1) put_all_def)
  have valid: "\<forall>(k, a) \<in> set ?kvs. valid_utf8 k" using us(2) by (auto simp: list_all_iff dest: set_zip_leftD)
  have dist: "distinct (map snd ?kvs)" using ss(2) len by simp
  obtain bs ls where inv: "Invert IQ rng (put_all ?kvs) = Some (Inr (bs, ls))" "chain_ok bs"
    "\<And>a. ls a \<noteq> None \<Longrightarrow> \<exists>k. map_of (rev ?kvs) k = Some a"
    "\<And>k a. map_of (rev ?kvs) k = Some a \<Longrightarrow> \<exists>leaf. ls a = Some leaf \<and> Parent leaf < length bs"
    using Invert_spec [OF Q(2,3) valid dist] unfolding put_all_def by blast
  have "length ?kvs = Suc (length fs)" using len by simp
  then have bl: "length bs < 2 ^ 31" using Invert_length [OF Q(2,3) inv(1)] n(2) by simp
  then have "length bs < 2 ^ 63" by simp
  then obtain c where c: "index_Int32 (length bs) = Inr c"
    using IntToInt32_exact [of "of_nat (length bs)"] bl
    by (auto simp: index_Int32_def index_Int_def sint_of_nat to_signed_def split: sum.splits)
  have par: "Parent b < 2 ^ 32" if "b \<in> set bs" for b
  proof -
    obtain i where i: "i < length bs" "b = bs ! i" using \<open>b \<in> set bs\<close> by (auto simp: in_set_conv_nth)
    have "Parent b \<le> i" using inv(2) i unfolding chain_ok_def by (cases "i = 0") auto
    then show ?thesis using i(1) bl by simp
  qed
  obtain uris where uris: "build_uris bs = Inr uris" using build_uris_ok [of bs] par by blast
  have leaf: "Parent (leaf_at ls a) < 2 ^ 32" for a
  proof (cases "ls a")
    case (Some l)
    then obtain k where "map_of (rev ?kvs) k = Some a" using inv(3) by blast
    then show ?thesis using inv(4) bl Some by (fastforce simp: leaf_at_def)
  qed (simp add: leaf_at_def)
  have rep: "nat (sint (numFiles + 1)) = Suc (length fs)" using n by simp
  obtain x0 where x0: "extent_entry (leaf_at ls 0) metaLen = Inr x0" using extent_entry_ok leaf by blast
  have "1 + length fs \<le> length (x0 # replicate (length fs) zero_extent)" by simp
  from run_extents_ok [OF fs(2) _ this, of ls] leaf
  obtain ys j where ys: "VisitFileInodes T R (add_extent ls) v' (x0 # replicate (length fs) zero_extent, 1) = Some ((ys, j), None)"
    unfolding run by blast
  have "\<not> sint (numFiles + 1) < 0" using n(1) by simp
  then show ?thesis
    using t inv(1) c uris x0 ys by (simp add: build_message_def rep set_extent_def)
qed

end
