(* ===== verification/DiscLoad.thy ===== *)
theory DiscLoad
  imports Disc
begin

text \<open>
  Loading a disc: when the storage holds the bytes of the objects that the message names, the image
  is those bytes, each object padded to whole sectors, and the extent at an object's first sector
  is the object.
\<close>

section \<open>Sectors\<close>

lemma sector_ceil: "(n + 2047) div 2048 = n div 2048 + (if n mod 2048 = 0 then 0 else 1)" for n :: nat
proof -
  have "(n mod 2048 + 2047) div 2048 = (if n mod 2048 = 0 then 0 else 1)"
  proof (cases "n mod 2048 = 0")
    case False
    have "(n mod 2048 + 2047) div 2048 = 1" by (rule div_nat_eqI) (use False in simp_all)
    then show ?thesis using False by simp
  qed simp
  moreover have "(q * 2048 + r) div 2048 = q + r div 2048" for q r :: nat by simp
  from this [of "n div 2048" "n mod 2048 + 2047"] have "(n + 2047) div 2048 = n div 2048 + (n mod 2048 + 2047) div 2048"
    by (simp only: add.assoc [symmetric] div_mult_mod_eq)
  ultimately show ?thesis by simp
qed

lemma slot_length: "length (slot c) = (if c = [] then 2048 else (length c + 2047) div 2048 * 2048)"
  using length_pad_out(1) by (simp add: slot_def length_pad)

lemma slot_zeros: "slot c = c @ replicate (length (slot c) - length c) 0"
proof (cases "c = []")
  case True
  then show ?thesis by (simp add: slot_def pad_replicate)
next
  case False
  have "pad_out c = c @ padOutSector (length c)" by (simp add: pad_out_def)
  moreover have "padOutSector (length c) = replicate (length (padOutSector (length c))) 0"
    by (simp add: padOutSector_def pad_replicate Let_def)
  ultimately show ?thesis using False by (simp add: slot_def)
qed

lemma slot_rest: "length c \<le> length (slot c)" "length (slot c) - length c \<le> 2048"
proof -
  have d: "length c = length c div 2048 * 2048 + length c mod 2048" "length c mod 2048 < 2048" by simp_all
  have l: "length (slot c) = (if c = [] then 2048 else length c div 2048 * 2048 + (if length c mod 2048 = 0 then 0 else 2048))"
    unfolding slot_length sector_ceil by simp
  show "length c \<le> length (slot c)" using d unfolding l by (cases "length c mod 2048 = 0") auto
  show "length (slot c) - length c \<le> 2048" using d unfolding l by (cases "length c mod 2048 = 0") auto
qed

text \<open>The sectors that a list of objects takes.\<close>

definition sectors :: "byte list list \<Rightarrow> nat" where
  "sectors cs = sum_list (map (\<lambda>c. length (slot c) div 2048) cs)"

lemma sectors_simps [simp]: "sectors [] = 0" "sectors (c # cs) = length (slot c) div 2048 + sectors cs"
  by (simp_all add: sectors_def)

lemma sectors_length: "length (concat (map slot cs)) = 2048 * sectors cs"
proof (induction cs)
  case (Cons c cs)
  then show ?case using slot_aligned [of c] by (simp add: algebra_simps)
qed simp

lemma slot_blocks:
  assumes "length (slot c) div 2048 < 2 ^ 32"
  defines "k \<equiv> length (slot c) div 2048"
  shows "disc_bytesToSectors (int (length c)) = of_nat k" "0 < k" "length (slot c) = 2048 * k"
    "disc_sectorsToBytes (disc_bytesToSectors (int (length c))) - int (length c) = int (length (slot c) - length c)"
proof -
  show k: "length (slot c) = 2048 * k" using slot_aligned [of c] by (simp add: k_def)
  then show pos: "0 < k" using slot_pos [of c] by (intro Nat.gr0I) simp
  have sd: "int (length c) sdiv 2048 = int (length c div 2048)" "int (length c) smod 2048 = int (length c mod 2048)"
    by (cases "c = []"; simp add: signed_divide_int_def signed_modulo_int_def zdiv_int zmod_int)+
  note up = sector_ceil [of "length c"]
  show b: "disc_bytesToSectors (int (length c)) = of_nat k"
  proof (cases "length c mod 2048 = 0")
    case True
    show ?thesis
    proof (cases "c = []")
      case False
      have "k = length c div 2048" using k up True False unfolding slot_length by simp
      moreover have "unat (of_nat k :: u32) = k" using assms(1) unfolding k_def [symmetric] by (simp add: unat_of_nat)
      then have "of_nat k \<noteq> (0 :: u32)" using pos by (intro notI) simp
      ultimately show ?thesis using True by (simp add: disc_bytesToSectors_def sd)
    qed (simp add: disc_bytesToSectors_def k_def slot_length)
  next
    case False
    then have "c \<noteq> []" by auto
    then have "k = length c div 2048 + 1" using k up False unfolding slot_length by simp
    then show ?thesis using False by (simp add: disc_bytesToSectors_def sd Let_def flip: of_nat_mod)
  qed
  have "uint (of_nat k :: u32) = int k" using assms(1) unfolding k_def [symmetric] by (simp add: uint_nat unat_of_nat)
  then show "disc_sectorsToBytes (disc_bytesToSectors (int (length c))) - int (length c) = int (length (slot c) - length c)"
    unfolding b using k slot_rest(1) [of c] by (simp add: disc_sectorsToBytes_def)
qed

section \<open>Extents are objects\<close>

text \<open>The storage has an object of the given bytes at a URL.\<close>

definition stores :: "url_ops \<Rightarrow> ('s, 'w) drivers \<Rightarrow> 's \<Rightarrow> gostring \<Rightarrow> byte list \<Rightarrow> bool" where
  "stores U ds s url c \<longleftrightarrow>
     (\<forall>sz \<in> {- 1, int (length c)}. \<exists>x. OpenContextSize U ds url sz s = Inr x \<and> read_object (AnonymousObject.truncate x) c)"

definition readable :: "url_ops \<Rightarrow> ('s, 'w) drivers \<Rightarrow> 's \<Rightarrow> net_url \<Rightarrow> VDiscV1 \<Rightarrow> Extent \<Rightarrow> byte list \<Rightarrow> bool" where
  "readable U ds s base m x c \<longleftrightarrow>
     (\<exists>key url. says m key (int (length c)) x \<and> resolve_uri U base key = Inr url \<and> stores U ds s url c)"

lemma extent_is_object:
  assumes "m_BlockSize m = 2048" "i < length (m_Extents m)" "readable U ds s base m (m_Extents m ! i) c"
    and "length (slot c) div 2048 < 2 ^ 32"
  shows "read_object (AnonymousObject.truncate (extent_object U ds s (new_extent base m i))) c"
    "x_Blocks (m_Extents m ! i) = of_nat (length (slot c) div 2048)" "x_Blocks (m_Extents m ! i) \<noteq> 0"
    "uint (x_Padding (m_Extents m ! i)) = int (length (slot c) - length c)"
proof -
  obtain key url where k: "says m key (int (length c)) (m_Extents m ! i)" "resolve_uri U base key = Inr url" "stores U ds s url c"
    using assms(3) unfolding readable_def by blast
  note b = slot_blocks [OF assms(4)]
  show bl: "x_Blocks (m_Extents m ! i) = of_nat (length (slot c) div 2048)" using k(1) b(1) by (simp add: says_def)
  have ub: "unat (x_Blocks (m_Extents m ! i)) = length (slot c) div 2048" unfolding bl using assms(4) by (simp add: unat_of_nat)
  then show nz: "x_Blocks (m_Extents m ! i) \<noteq> 0" using b(2) by (intro notI) simp
  have r: "length (slot c) - length c < 65536" using slot_rest(2) [of c] by simp
  have "x_Padding (m_Extents m ! i) = of_int (int (length (slot c) - length c))" using k(1) b(4) by (simp add: says_def)
  then have "x_Padding (m_Extents m ! i) = of_nat (length (slot c) - length c)" by simp
  then show up: "uint (x_Padding (m_Extents m ! i)) = int (length (slot c) - length c)" using r by (simp add: uint_nat unat_of_nat)
  let ?e = "new_extent base m i"
  have "uint (x_Blocks (m_Extents m ! i)) = int (length (slot c) div 2048)" using ub by (simp add: uint_nat)
  then have sz: "extent_Size ?e = int (length c)"
    using nz up b(3) slot_rest(1) [of c] assms(1) by (simp add: extent_Size_def new_extent_def Let_def)
  obtain x where x: "OpenContextSize U ds url (int (length c)) s = Inr x" "read_object (AnonymousObject.truncate x) c"
    using k(3) unfolding stores_def by blast
  have "extent_URL U ?e = Some (Inr url)"
    using k(1,2) assms(2) by (simp add: extent_URL_def new_extent_def says_def Let_def)
  then have "AnonymousObject.truncate (extent_object U ds s ?e) = \<lparr>Size = int (length c), ReadAt = ReadAt x\<rparr>"
    using x(1) sz by (simp add: extent_object_def AnonymousObject.defs extent_ReadAt_def fun_eq_iff) (simp add: new_extent_def)
  moreover have "AnonymousObject.truncate x = \<lparr>Size = int (length c), ReadAt = ReadAt x\<rparr>"
    using read_object.size_content [OF x(2)] by (simp add: AnonymousObject.defs)
  ultimately show "read_object (AnonymousObject.truncate (extent_object U ds s ?e)) c" using x(2) by simp
qed

section \<open>The loop\<close>

text \<open>A cache that keeps what an object holds, and a registry that knows the zeros.\<close>

definition transparent :: "(Object \<Rightarrow> Object) \<Rightarrow> bool" where
  "transparent wc \<longleftrightarrow> (\<forall>x c. read_object (AnonymousObject.truncate x) c \<longrightarrow> read_object (AnonymousObject.truncate (wc x)) c)"

lemma NopCache_transparent: "transparent (\<lambda>x. x)"
  by (simp add: transparent_def)

definition opens_zeros :: "url_ops \<Rightarrow> ('s, 'w) drivers \<Rightarrow> 's \<Rightarrow> bool" where
  "opens_zeros U ds s \<longleftrightarrow> (\<forall>n \<le> 2048. \<exists>x. Open U ds (bytes_of ''zero:'' @ sprintf_d (int n)) s = Inr x \<and>
     AnonymousObject.truncate x = zero_object_of (int n))"

lemma load_extents_ok:
  assumes m: "m_BlockSize m = 2048" and wc: "transparent wc" and z: "opens_zeros U ds s"
  shows "drop i (m_Extents m) = xs \<Longrightarrow> list_all2 (readable U ds s base m) xs cs \<Longrightarrow> n + sectors cs < 2 ^ 32 \<Longrightarrow>
    \<exists>idx' objs' ds'. load_extents U ds s wc base m xs i (of_nat n) idx objs = Inr (idx', objs @ objs') \<and>
      list_all2 read_object objs' ds' \<and> concat ds' = concat (map slot cs) \<and> (ds' = [] \<or> last ds' \<noteq> []) \<and>
      (\<forall>j < length xs. idx' (of_nat (n + sectors (take j cs))) = Some (i + j)) \<and>
      (\<forall>a. unat a < n \<longrightarrow> idx' a = idx a)"
proof (induction xs arbitrary: i cs n idx objs)
  case Nil
  then show ?case by (intro exI [of _ idx] exI [of _ "[]"]) simp
next
  case (Cons x xs)
  obtain c cs' where cs: "cs = c # cs'" "readable U ds s base m x c" "list_all2 (readable U ds s base m) xs cs'"
    using Cons.prems(2) by (auto simp: list_all2_Cons1)
  have i: "i < length (m_Extents m)" "m_Extents m ! i = x" "drop (Suc i) (m_Extents m) = xs"
    using Cons.prems(1) by (metis drop_eq_Nil leI list.discI, metis nth_via_drop, metis drop_Suc list.sel(3) tl_drop)
  let ?k = "length (slot c) div 2048" and ?r = "length (slot c) - length c"
  have k: "?k < 2 ^ 32" using Cons.prems(3) cs(1) by simp
  note e = extent_is_object [OF m i(1) cs(2) [folded i(2)] k, unfolded i(2)]
  note b = slot_blocks [OF k]
  let ?idx = "idx(of_nat n \<mapsto> i)" and ?o = "AnonymousObject.truncate (wc (extent_object U ds s (new_extent base m i)))"
  have obj: "read_object ?o c" using wc e(1) unfolding transparent_def by blast
  obtain pobjs pds where p: "list_all2 read_object pobjs pds" "concat pds = slot c" "pds \<noteq> []" "last pds \<noteq> []"
    "load_extents U ds s wc base m (x # xs) i (of_nat n) idx objs =
     load_extents U ds s wc base m xs (Suc i) (of_nat (n + ?k)) ?idx (objs @ pobjs)"
  proof (cases "?r = 0")
    case True
    then have pad: "x_Padding x = 0" using e(4) by (simp add: uint_0_iff)
    have sc: "slot c = c" using slot_zeros [of c] True by simp
    then have "c \<noteq> []" using slot_pos [of c] by (intro notI) simp
    then show ?thesis
      using that [of "[?o]" "[c]"] obj sc e(2,3) pad by simp
  next
    case False
    then have "uint (x_Padding x) \<noteq> 0" using e(4) by linarith
    then have "x_Padding x \<noteq> 0" by (metis unsigned_0)
    then have pad: "0 < x_Padding x" by (simp add: word_greater_zero_iff)
    have r: "?r \<le> 2048" by (rule slot_rest)
    then obtain z where z: "Open U ds (bytes_of ''zero:'' @ sprintf_d (int ?r)) s = Inr z" "AnonymousObject.truncate z = zero_object_of (int ?r)"
      using z unfolding opens_zeros_def by blast
    have zo: "read_object (AnonymousObject.truncate z) (replicate ?r 0)" unfolding z(2) by (rule zeros.read_object_axioms)
    show ?thesis
      using that [of "[?o, AnonymousObject.truncate z]" "[c, replicate ?r 0]"] obj zo e(2,3,4) pad z(1) False slot_zeros [of c]
      by simp
  qed
  have le: "n + ?k + sectors cs' < 2 ^ 32" using Cons.prems(3) cs(1) by simp
  from Cons.IH [OF i(3) cs(3) le, of ?idx "objs @ pobjs"] obtain idx' objs' ds' where ih: "load_extents U ds s wc base m xs (Suc i) (of_nat (n + ?k)) ?idx (objs @ pobjs) = Inr (idx', (objs @ pobjs) @ objs')"
    "list_all2 read_object objs' ds'" "concat ds' = concat (map slot cs')" "ds' = [] \<or> last ds' \<noteq> []"
    "\<forall>j < length xs. idx' (of_nat (n + ?k + sectors (take j cs'))) = Some (Suc i + j)" "\<forall>a. unat a < n + ?k \<longrightarrow> idx' a = ?idx a"
    by blast
  have un: "unat (of_nat n :: u32) = n" using Cons.prems(3) by (simp add: unat_of_nat)
  have first: "idx' (of_nat n) = Some i" using ih(6) un b(2) by simp
  have "idx' (of_nat (n + sectors (take j cs))) = Some (i + j)" if "j < length (x # xs)" for j
  proof (cases j)
    case (Suc l)
    then show ?thesis using ih(5) that cs(1) by (simp add: add.assoc)
  qed (simp add: first)
  moreover have "idx' a = idx a" if "unat a < n" for a
  proof -
    have "a \<noteq> of_nat n" using that un by auto
    then show ?thesis using ih(6) that by simp
  qed
  moreover have "last (pds @ ds') \<noteq> []" using p(3,4) ih(4) by (cases "ds' = []") simp_all
  moreover have "load_extents U ds s wc base m (x # xs) i (of_nat n) idx objs = Inr (idx', objs @ (pobjs @ objs'))"
    unfolding p(5) ih(1) by simp
  moreover have "list_all2 read_object (pobjs @ objs') (pds @ ds')" using p(1) ih(2) by (rule list_all2_appendI)
  moreover have "concat (pds @ ds') = concat (map slot cs)" using p(2) ih(3) cs(1) by simp
  ultimately show ?case by blast
qed

section \<open>Load\<close>

text \<open>What a loaded disc shows of the objects: their image, and each at its first sector.\<close>

definition shows_disc ::
  "url_ops \<Rightarrow> ('s, 'w) drivers \<Rightarrow> 's \<Rightarrow> (Object \<Rightarrow> Object) \<Rightarrow> vdisc \<Rightarrow> gostring list \<Rightarrow> byte list list \<Rightarrow> bool" where
  "shows_disc U ds s wc d urls cs \<longleftrightarrow>
     read_object (vd_image d) (concat (map slot cs)) \<and>
     (\<forall>i < length cs.
        (\<exists>x. OpenExtent U ds s wc d (of_nat (sectors (take i cs))) = Inr x \<and> read_object (AnonymousObject.truncate x) (cs ! i)) \<and>
        ExtentURL U d (of_nat (sectors (take i cs))) = Some (Inr (urls ! i)))"

lemma Load_shows:
  assumes C: "codec_laws C" "cd_Marshal C m = Inr raw" and B: "btree_laws B" "\<And>n. mset (sched n) = mset [0..<n]"
    and wc: "transparent wc" and z: "opens_zeros U ds s"
    and url: "stores U ds s url (cd_gzip C raw)" "url_Parse U url = Inr base"
    and m: "m_BlockSize m = 2048" "sectors cs < 2 ^ 32" "length keys = length cs" "length urls = length cs"
      "length (m_Extents m) = length cs"
    and e: "\<And>i. i < length cs \<Longrightarrow> says m (keys ! i) (int (length (cs ! i))) (m_Extents m ! i) \<and>
      resolve_uri U base (keys ! i) = Inr (urls ! i) \<and> stores U ds s (urls ! i) (cs ! i)"
  shows "\<exists>d. Load U ds C B sched wc url s = Some (Inr d) \<and> shows_disc U ds s wc d urls cs"
proof -
  obtain res where res: "Open U ds url s = Inr res" "read_object (AnonymousObject.truncate res) (cd_gzip C raw)"
    using url(1) unfolding stores_def Open_def by blast
  have sz: "Size res = int (length (cd_gzip C raw))"
    using read_object.size_content [OF res(2)] by (simp add: AnonymousObject.defs)
  have gz: "cd_gunzip C (cd_gzip C raw) = Inr raw" "take 4 (cd_gzip C raw) = gzip_header" "cd_Unmarshal C raw = Inr m" "raw \<noteq> []"
    using C unfolding codec_laws_def by blast+
  have "length (take 4 (cd_gzip C raw)) = 4" unfolding gz(2) by (simp add: gzip_header_def)
  then have four: "\<not> length (cd_gzip C raw) < 4" by simp
  have dl: "downloadMemoryMapped U ds C url s = Some (Inr raw)"
    using res(1) copy_section_object [OF res(2) sz] gz four by (simp add: downloadMemoryMapped_def)
  have r: "list_all2 (readable U ds s base m) (m_Extents m) cs"
    unfolding list_all2_conv_all_nth readable_def
  proof (intro conjI allI impI m(5))
    fix i assume "i < length (m_Extents m)"
    then have "i < length cs" using m(5) by simp
    from e [OF this] show "\<exists>key url. says m key (int (length (cs ! i))) (m_Extents m ! i) \<and>
        resolve_uri U base key = Inr url \<and> stores U ds s url (cs ! i)" by blast
  qed
  from load_extents_ok [OF m(1) wc z, of 0 "m_Extents m" base cs 0 Map.empty "[]"] r m(2)
  obtain idx objs dss where ld: "load_extents U ds s wc base m (m_Extents m) 0 0 Map.empty [] = Inr (idx, objs)"
    "list_all2 read_object objs dss" "concat dss = concat (map slot cs)" "dss = [] \<or> last dss \<noteq> []"
    "\<forall>j < length cs. idx (of_nat (sectors (take j cs))) = Some j"
    unfolding m(5) by auto
  let ?d = "\<lparr>vd_baseURL = base, vd_fsType = m_FsType m, vd_blockSize = m_BlockSize m, vd_image = Concat B sched objs,
    vd_uris = m_Uris m, vd_extents = m_Extents m, vd_extentIndices = idx\<rparr>"
  have L: "Load U ds C B sched wc url s = Some (Inr ?d)" using url(2) dl gz(3) ld(1) by (simp add: Load_def)
  have img: "read_object (vd_image ?d) (concat (map slot cs))"
    using concat_objects_object [OF B(1) ld(2,4) B(2)] ld(3) by (simp add: Concat_def)
  have ext: "vdisc_extent ?d i = new_extent base m i" for i by (simp add: vdisc_extent_def new_extent_def)
  have "(\<exists>x. OpenExtent U ds s wc ?d (of_nat (sectors (take i cs))) = Inr x \<and> read_object (AnonymousObject.truncate x) (cs ! i)) \<and>
      ExtentURL U ?d (of_nat (sectors (take i cs))) = Some (Inr (urls ! i))" if i: "i < length cs" for i
  proof -
    have "cs = take i cs @ cs ! i # drop (Suc i) cs" using i by (simp add: id_take_nth_drop)
    then have "sectors cs = sectors (take i cs) + (length (slot (cs ! i)) div 2048 + sectors (drop (Suc i) cs))"
      unfolding sectors_def by (metis (no_types, lifting) list.simps(9) map_append sum_list.append sum_list.Cons)
    then have k: "length (slot (cs ! i)) div 2048 < 2 ^ 32" using m(2) by simp
    have il: "i < length (m_Extents m)" using i m(5) by simp
    have rd: "readable U ds s base m (m_Extents m ! i) (cs ! i)" using r i by (simp add: list_all2_conv_all_nth m(5))
    have "read_object (AnonymousObject.truncate (wc (extent_object U ds s (new_extent base m i)))) (cs ! i)"
      using extent_is_object(1) [OF m(1) il rd k] wc unfolding transparent_def by blast
    moreover have "extent_URL U (new_extent base m i) = Some (Inr (urls ! i))"
      using e [OF i] il by (simp add: extent_URL_def new_extent_def says_def Let_def)
    ultimately show ?thesis using ld(5) i ext by (simp add: OpenExtent_def ExtentURL_def)
  qed
  then show ?thesis using L img unfolding shows_disc_def by blast
qed

end
