(* ===== verification/Ram.thy ===== *)
theory Ram
  imports Storage DirInode "HOL-Library.Sublist"
begin

text \<open>
  The driver for \<open>ram:\<close> URLs, \<open>pkg/storage/ram\<close>: a tree of inodes in memory (\<open>inode.go\<close>,
  \<open>ram.go\<close>), the writer that puts a finished object into it (\<open>writer.go\<close>) and the objects it
  opens (\<open>object.go\<close>).  The calls hold the driver's mutex, so each is one step.  A node that is
  not in the table of inodes is a nil pointer in Go, and using it panics.
\<close>

section \<open>Inodes\<close>

record ram_inode =
  in_IsDir :: bool
  in_Dir :: "gostring \<rightharpoonup> int"
  in_File :: "byte list"

record ram =
  nextIno :: int
  inodes :: "int \<rightharpoonup> ram_inode"

definition rootIno :: int where "rootIno = 1"

definition newDirectory :: "int \<Rightarrow> int \<Rightarrow> gostring \<rightharpoonup> int" where
  "newDirectory parent self = [dotdot \<mapsto> parent, dot \<mapsto> self]"

definition newDirInode :: "int \<Rightarrow> int \<Rightarrow> ram_inode" where
  "newDirInode parent self = \<lparr>in_IsDir = True, in_Dir = newDirectory parent self, in_File = []\<rparr>"

definition newFileInode :: "byte list \<Rightarrow> ram_inode" where
  "newFileInode data = \<lparr>in_IsDir = False, in_Dir = Map.empty, in_File = data\<rparr>"

definition dir_Set :: "gostring \<Rightarrow> int \<Rightarrow> int \<Rightarrow> ram \<Rightarrow> ram" where
  "dir_Set name ino at d =
     d\<lparr>inodes := (inodes d)(at := map_option (\<lambda>it. it\<lparr>in_Dir := (in_Dir it)(name \<mapsto> ino)\<rparr>) (inodes d at))\<rparr>"

definition dir_Delete :: "gostring \<Rightarrow> int \<Rightarrow> ram \<Rightarrow> ram" where
  "dir_Delete name at d =
     d\<lparr>inodes := (inodes d)(at := map_option (\<lambda>it. it\<lparr>in_Dir := (in_Dir it)(name := None)\<rparr>) (inodes d at))\<rparr>"

definition NewDriver :: ram where
  "NewDriver = \<lparr>nextIno = 2, inodes = [rootIno \<mapsto> newDirInode rootIno rootIno]\<rparr>"

section \<open>Paths\<close>

definition urlToPath :: "url_ops \<Rightarrow> gostring \<Rightarrow> goerr + gostring" where
  "urlToPath U url =
     (case url_Parse U url of
        Inl e \<Rightarrow> Inl e
      | Inr u \<Rightarrow>
          if u_Scheme u \<noteq> bytes_of ''ram'' then Inl (Err ''ramdriver: unsupported URI scheme'')
          else
            let path = path_Clean (if u_Opaque u = [] then u_Path u else u_Opaque u);
                path = (if HasPrefix path [slash] then drop 1 path else path)
            in Inr (path_Clean path))"

definition pathToUrl :: "url_ops \<Rightarrow> gostring \<Rightarrow> gostring" where
  "pathToUrl U path = url_String U (zero_url\<lparr>u_Scheme := bytes_of ''ram'', u_Path := path\<rparr>)"

record found =
  fo_Parent :: int
  fo_Name :: gostring
  fo_Ino :: int

abbreviation nil_inode :: goerr where "nil_inode \<equiv> Panic ''nil pointer''"

fun traverse :: "ram \<Rightarrow> int \<Rightarrow> gostring list \<Rightarrow> goerr + found" where
  "traverse d cur [] = Inl (Panic ''index out of range'')"
| "traverse d cur (name # ss) =
     (case inodes d cur of
        None \<Rightarrow> Inl nil_inode
      | Some it \<Rightarrow>
          if \<not> in_IsDir it then Inl ENOTDIR
          else
            (case in_Dir it name of
               None \<Rightarrow> Inl ErrNotExist
             | Some ino \<Rightarrow>
                 if ss = [] then Inr \<lparr>fo_Parent = cur, fo_Name = name, fo_Ino = ino\<rparr> else traverse d ino ss))"

section \<open>Objects\<close>

record ram_object =
  ob_url :: gostring
  ob_br :: "byte list"
  ob_pos :: int
  ob_closed :: bool

definition ram_Close :: "ram_object \<Rightarrow> ram_object" where
  "ram_Close x = x\<lparr>ob_closed := True\<rparr>"

definition ram_ReadAt :: "ram_object \<Rightarrow> byte list \<Rightarrow> int \<Rightarrow> byte list \<times> int \<times> goerr option" where
  "ram_ReadAt x p off = (if ob_closed x then (p, 0, Some ErrClosed) else bytes_ReadAt (ob_br x) p off)"

text \<open>\<open>bytes.Reader.Read\<close> and \<open>Seek\<close> are the standard library's.\<close>

definition ram_Read :: "ram_object \<Rightarrow> byte list \<Rightarrow> ram_object \<times> byte list \<times> int \<times> goerr option" where
  "ram_Read x p =
     (if ob_closed x then (x, p, 0, Some ErrClosed)
      else if ob_pos x \<ge> int (length (ob_br x)) then (x, p, 0, Some EOF)
      else
        let src = drop (nat (ob_pos x)) (ob_br x); n = min (length p) (length src)
        in (x\<lparr>ob_pos := ob_pos x + int n\<rparr>, take n src @ drop n p, int n, None))"

definition ram_Seek :: "ram_object \<Rightarrow> int \<Rightarrow> int \<Rightarrow> ram_object \<times> (goerr + int)" where
  "ram_Seek x offset whence =
     (if ob_closed x then (x, Inl ErrClosed)
      else if whence \<noteq> SeekStart \<and> whence \<noteq> SeekCurrent \<and> whence \<noteq> SeekEnd
        then (x, Inl (Err ''bytes.Reader.Seek: invalid whence''))
      else
        let at = (if whence = SeekStart then offset
                  else if whence = SeekCurrent then ob_pos x + offset else int (length (ob_br x)) + offset)
        in if at < 0 then (x, Inl (Err ''bytes.Reader.Seek: negative position''))
           else (x\<lparr>ob_pos := at\<rparr>, Inr at))"

definition ram_as_object :: "ram_object \<Rightarrow> Object" where
  "ram_as_object x = \<lparr>Size = int (length (ob_br x)), ReadAt = ram_ReadAt x, URL = ob_url x\<rparr>"

section \<open>The driver\<close>

text \<open>\<open>data\<close> is cut to the declared size and then not used, as in the source.\<close>

definition ram_open :: "url_ops \<Rightarrow> ram \<Rightarrow> gostring \<Rightarrow> int \<Rightarrow> goerr + ram_object" where
  "ram_open U d url sz =
     (case urlToPath U url of
        Inl e \<Rightarrow> Inl e
      | Inr path \<Rightarrow>
          (case traverse d rootIno (split_slash path) of
             Inl e \<Rightarrow> Inl e
           | Inr f \<Rightarrow>
               (case inodes d (fo_Ino f) of
                  None \<Rightarrow> Inl nil_inode
                | Some it \<Rightarrow>
                    if in_IsDir it then Inl EISDIR
                    else
                      let data = in_File it;
                          data = (if sz > - 1 \<and> sz < int (length data) then take (nat sz) data else data)
                      in Inr \<lparr>ob_url = pathToUrl U path, ob_br = in_File it, ob_pos = 0, ob_closed = False\<rparr>)))"

definition ram_Open :: "url_ops \<Rightarrow> gostring \<Rightarrow> int \<Rightarrow> ram \<Rightarrow> goerr + Object" where
  "ram_Open U url sz d = map_sum id ram_as_object (ram_open U d url sz)"

fun commit_loop :: "ram \<Rightarrow> int \<Rightarrow> gostring list \<Rightarrow> byte list \<Rightarrow> ram \<times> goerr option" where
  "commit_loop d currIno [] data = (d, Some (Panic ''index out of range''))"
| "commit_loop d currIno (name # ss) data =
     (case inodes d currIno of
        None \<Rightarrow> (d, Some nil_inode)
      | Some cur \<Rightarrow>
          if \<not> in_IsDir cur then (d, Some ENOTDIR)
          else if ss \<noteq> [] then
            (case in_Dir cur name of
               Some ino \<Rightarrow> commit_loop d ino ss data
             | None \<Rightarrow>
                 let ino = nextIno d;
                     d1 = d\<lparr>nextIno := ino + 1, inodes := (inodes d)(ino \<mapsto> newDirInode currIno ino)\<rparr>
                 in commit_loop (dir_Set name ino currIno d1) ino ss data)
          else
            (case in_Dir cur name of
               Some ino \<Rightarrow>
                 (case inodes d ino of
                    None \<Rightarrow> (d, Some nil_inode)
                  | Some existing \<Rightarrow>
                      if in_IsDir existing then (d, Some ErrExist)
                      else (d\<lparr>inodes := (inodes d)(ino \<mapsto> existing\<lparr>in_File := data\<rparr>)\<rparr>, None))
             | None \<Rightarrow>
                 let ino = nextIno d;
                     d1 = d\<lparr>nextIno := ino + 1, inodes := (inodes d)(ino \<mapsto> newFileInode data)\<rparr>
                 in (dir_Set name ino currIno d1, None)))"

definition path_segments :: "gostring \<Rightarrow> gostring list" where
  "path_segments path = (let segments = split_slash path in if hd segments = [] then tl segments else segments)"

definition ram_commit :: "ram \<Rightarrow> gostring \<Rightarrow> byte list \<Rightarrow> ram \<times> goerr option" where
  "ram_commit d path data = commit_loop d rootIno (path_segments path) data"

definition ram_Remove :: "url_ops \<Rightarrow> gostring \<Rightarrow> ram \<Rightarrow> ram \<times> goerr option" where
  "ram_Remove U url d =
     (case urlToPath U url of
        Inl e \<Rightarrow> (d, Some e)
      | Inr path \<Rightarrow>
          (case traverse d rootIno (split_slash path) of
             Inl e \<Rightarrow> (d, Some e)
           | Inr f \<Rightarrow>
               let d1 = dir_Delete (fo_Name f) (fo_Parent f) d
               in (d1\<lparr>inodes := (inodes d1)(fo_Ino f := None)\<rparr>, None)))"

definition ram_info :: "gostring \<Rightarrow> ram_inode \<Rightarrow> FileInfo_s" where
  "ram_info name it = \<lparr>fs_Name = name, fs_Size = int (length (in_File it)), fs_IsDir = in_IsDir it\<rparr>"

definition ram_Stat :: "url_ops \<Rightarrow> gostring \<Rightarrow> ram \<Rightarrow> goerr + FileInfo_s" where
  "ram_Stat U url d =
     (case urlToPath U url of
        Inl e \<Rightarrow> Inl e
      | Inr path \<Rightarrow>
          (case traverse d rootIno (split_slash path) of
             Inl e \<Rightarrow> Inl e
           | Inr f \<Rightarrow>
               (case inodes d (fo_Ino f) of
                  None \<Rightarrow> Inl nil_inode
                | Some it \<Rightarrow> Inr (ram_info (fo_Name f) it))))"

text \<open>\<open>rng\<close> is the order in which Go ranges over the entries.\<close>

fun ram_infos :: "ram \<Rightarrow> (gostring \<times> int) list \<Rightarrow> goerr + FileInfo_s list" where
  "ram_infos d [] = Inr []"
| "ram_infos d ((name, ino) # es) =
     (case inodes d ino of
        None \<Rightarrow> Inl nil_inode
      | Some child \<Rightarrow> map_sum id (\<lambda>is. ram_info name child # is) (ram_infos d es))"

definition ram_Readdir ::
  "((gostring \<rightharpoonup> int) \<Rightarrow> (gostring \<times> int) list) \<Rightarrow> url_ops \<Rightarrow> gostring \<Rightarrow> ram \<Rightarrow> goerr + FileInfo_s list" where
  "ram_Readdir rng U url d =
     (case urlToPath U url of
        Inl e \<Rightarrow> Inl e
      | Inr path \<Rightarrow>
          (case traverse d rootIno (split_slash path) of
             Inl e \<Rightarrow> Inl e
           | Inr f \<Rightarrow>
               (case inodes d (fo_Ino f) of
                  None \<Rightarrow> Inl nil_inode
                | Some it \<Rightarrow> if \<not> in_IsDir it then Inl ENOTDIR else ram_infos d (rng (in_Dir it)))))"

section \<open>The writer\<close>

definition stateCreating :: int where "stateCreating = 0"
definition stateClosed :: int where "stateClosed = 1"
definition stateAborted :: int where "stateAborted = 2"

lemmas state_defs = stateCreating_def stateClosed_def stateAborted_def

record ram_writer =
  wr_url :: gostring
  wr_path :: gostring
  wr_buf :: "byte list"
  wr_state :: int

definition ram_Create :: "url_ops \<Rightarrow> gostring \<Rightarrow> ram \<Rightarrow> goerr + ram_writer" where
  "ram_Create U url d =
     (case urlToPath U url of
        Inl e \<Rightarrow> Inl e
      | Inr path \<Rightarrow>
          if length (path_segments path) < 1 then Inl ErrExist
          else Inr \<lparr>wr_url = pathToUrl U path, wr_path = path, wr_buf = [], wr_state = stateCreating\<rparr>)"

definition ram_Write :: "ram_writer \<Rightarrow> byte list \<Rightarrow> ram \<Rightarrow> ram_writer \<times> ram \<times> goerr option" where
  "ram_Write w b d = (w\<lparr>wr_buf := wr_buf w @ b\<rparr>, d, None)"

definition ram_Commit :: "ram_writer \<Rightarrow> ram \<Rightarrow> ram_writer \<times> ram \<times> (goerr + gostring)" where
  "ram_Commit w d =
     (if wr_state w = stateCreating then
        (case ram_commit d (wr_path w) (wr_buf w) of
           (d', Some e) \<Rightarrow> (w\<lparr>wr_state := stateClosed\<rparr>, d', Inl e)
         | (d', None) \<Rightarrow> (w\<lparr>wr_state := stateClosed\<rparr>, d', Inr (wr_url w)))
      else if wr_state w = stateAborted then (w, d, Inl (Err ''commit aborted object writer''))
      else (w, d, Inr (wr_url w)))"

definition ram_Abort :: "ram_writer \<Rightarrow> ram \<Rightarrow> ram_writer \<times> ram" where
  "ram_Abort w d = ((if wr_state w = stateCreating then w\<lparr>wr_state := stateAborted\<rparr> else w), d)"

definition ram_driver :: "((gostring \<rightharpoonup> int) \<Rightarrow> (gostring \<times> int) list) \<Rightarrow> url_ops \<Rightarrow> (ram, ram_writer) Driver" where
  "ram_driver rng U = \<lparr>drv_Name = bytes_of ''ramdriver'', drv_Open = ram_Open U, drv_Stat = ram_Stat U,
     drv_Create = Some (ram_Create U), drv_Remove = Some (ram_Remove U), drv_Readdir = Some (ram_Readdir rng U),
     drv_Lock = None, drv_RLock = None\<rparr>"


section \<open>The files, abstractly\<close>

text \<open>
  Abstractly the driver is a map from paths to the bytes of its files.  A path is a list of
  names, none of which is empty, \<open>.\<close> or \<open>..\<close>.
\<close>

definition child :: "ram \<Rightarrow> int \<Rightarrow> gostring \<Rightarrow> int option" where
  "child d i n = (case inodes d i of Some it \<Rightarrow> if in_IsDir it then in_Dir it n else None | None \<Rightarrow> None)"

definition walk_to :: "ram \<Rightarrow> int \<Rightarrow> gostring list \<Rightarrow> int option" where
  "walk_to d i p = foldl (\<lambda>o' n. Option.bind o' (\<lambda>j. child d j n)) (Some i) p"

lemma walk_to_simps [simp]:
  "walk_to d i [] = Some i"
  "walk_to d i (p @ [n]) = Option.bind (walk_to d i p) (\<lambda>j. child d j n)"
  by (simp_all add: walk_to_def)

lemma walk_to_append: "walk_to d i (p @ q) = Option.bind (walk_to d i p) (\<lambda>j. walk_to d j q)"
proof (induction q rule: rev_induct)
  case Nil
  show ?case by (cases "walk_to d i p") simp_all
next
  case (snoc n q)
  have "walk_to d i (p @ q @ [n]) = Option.bind (walk_to d i (p @ q)) (\<lambda>j. child d j n)"
    by (metis append_assoc walk_to_simps(2))
  then show ?case using snoc by (cases "walk_to d i p") simp_all
qed

definition files :: "ram \<Rightarrow> gostring list \<Rightarrow> byte list option" where
  "files d p =
     (if list_all normal_segment p then
        Option.bind (walk_to d rootIno p) (\<lambda>i. Option.bind (inodes d i) (\<lambda>it. if in_IsDir it then None else Some (in_File it)))
      else None)"

text \<open>
  The tree is well formed: the root is there and is nobody's child, an entry leads to an inode
  that is there and that no other entry leads to, and the next number is not taken.
\<close>

definition ram_ok :: "ram \<Rightarrow> bool" where
  "ram_ok d \<longleftrightarrow>
     rootIno < nextIno d \<and> (\<forall>i it. inodes d i = Some it \<longrightarrow> i < nextIno d) \<and>
     child d rootIno dot = Some rootIno \<and> child d rootIno dotdot = Some rootIno \<and>
     (\<forall>i n j. child d i n = Some j \<and> normal_segment n \<longrightarrow> j \<noteq> rootIno \<and> inodes d j \<noteq> None) \<and>
     (\<forall>i n i' n' j. child d i n = Some j \<and> child d i' n' = Some j \<and> normal_segment n \<and> normal_segment n' \<longrightarrow> i = i' \<and> n = n') \<and>
     (\<forall>i n j. child d i n = Some j \<longrightarrow> n \<noteq> [])"

lemma ram_okD:
  assumes "ram_ok d"
  shows "rootIno < nextIno d" "\<And>i it. inodes d i = Some it \<Longrightarrow> i < nextIno d"
    "child d rootIno dot = Some rootIno" "child d rootIno dotdot = Some rootIno"
    "\<And>i n j. child d i n = Some j \<Longrightarrow> normal_segment n \<Longrightarrow> j \<noteq> rootIno \<and> inodes d j \<noteq> None"
    "\<And>i n i' n' j. child d i n = Some j \<Longrightarrow> child d i' n' = Some j \<Longrightarrow> normal_segment n \<Longrightarrow> normal_segment n' \<Longrightarrow> i = i' \<and> n = n'"
    "\<And>i n j. child d i n = Some j \<Longrightarrow> n \<noteq> []"
  using assms unfolding ram_ok_def by blast+

lemma NewDriver_ok: "ram_ok NewDriver"
proof -
  have c: "child NewDriver i n = (if i = rootIno then newDirectory rootIno rootIno n else None)" for i n
    by (simp add: child_def NewDriver_def newDirInode_def)
  have n: "nextIno NewDriver = 2" "inodes NewDriver i = (if i = rootIno then Some (newDirInode rootIno rootIno) else None)" for i
    by (simp_all add: NewDriver_def)
  show ?thesis
    by (auto simp: ram_ok_def c n newDirectory_def normal_segment_def rootIno_def dot_def dotdot_def split: if_splits)
qed

lemma walk_inode:
  assumes "ram_ok d" "walk_to d rootIno p = Some i" "list_all normal_segment p"
  shows "inodes d i \<noteq> None"
  using assms(2,3)
proof (induction p arbitrary: i rule: rev_induct)
  case Nil
  then show ?case using ram_okD(3) [OF assms(1)] by (auto simp: child_def split: option.splits)
next
  case (snoc n p)
  then obtain j where "child d j n = Some i" "normal_segment n" by (auto split: Option.bind_splits)
  then show ?case using ram_okD(5) [OF assms(1)] by blast
qed

text \<open>An inode has one path.\<close>

lemma walk_inj:
  assumes ok: "ram_ok d"
  shows "walk_to d rootIno p = Some i \<Longrightarrow> walk_to d rootIno q = Some i \<Longrightarrow> list_all normal_segment p \<Longrightarrow> list_all normal_segment q \<Longrightarrow> p = q"
proof (induction p arbitrary: i q rule: rev_induct)
  case Nil
  then have i: "i = rootIno" by simp
  show ?case
  proof (cases q rule: rev_cases)
    case (snoc q' n)
    with Nil obtain j where "child d j n = Some i" "normal_segment n" by (auto split: Option.bind_splits)
    then show ?thesis using ram_okD(5) [OF ok] i by blast
  qed simp
next
  case (snoc n p)
  then obtain j where j: "walk_to d rootIno p = Some j" "child d j n = Some i" "normal_segment n"
    by (auto split: Option.bind_splits)
  show ?case
  proof (cases q rule: rev_cases)
    case Nil
    then show ?thesis using ram_okD(5) [OF ok j(2,3)] snoc.prems(2) by simp
  next
    case (snoc q' n')
    with snoc.prems obtain j' where j': "walk_to d rootIno q' = Some j'" "child d j' n' = Some i" "normal_segment n'"
      by (auto split: Option.bind_splits)
    from ram_okD(6) [OF ok j(2) j'(2) j(3) j'(3)] have "j = j'" "n = n'" by auto
    then show ?thesis using snoc.IH [OF j(1) j'(1) [folded \<open>j = j'\<close>]] snoc.prems snoc by simp
  qed
qed

section \<open>Adding an entry\<close>

text \<open>The state after a new inode has been entered in a directory.\<close>

definition entered :: "ram \<Rightarrow> int \<Rightarrow> gostring \<Rightarrow> ram_inode \<Rightarrow> ram" where
  "entered d i n it = dir_Set n (nextIno d) i (d\<lparr>nextIno := nextIno d + 1, inodes := (inodes d)(nextIno d \<mapsto> it)\<rparr>)"

definition empty_inode :: "int \<Rightarrow> int \<Rightarrow> ram_inode \<Rightarrow> bool" where
  "empty_inode parent self it \<longleftrightarrow> in_Dir it = (if in_IsDir it then newDirectory parent self else Map.empty)"

lemma entered_child:
  assumes ok: "ram_ok d" and i: "inodes d i = Some cur" "in_IsDir cur" and e: "empty_inode i (nextIno d) it"
  shows "child (entered d i n it) k m =
    (if k = i \<and> m = n then Some (nextIno d)
     else if k = nextIno d then (if in_IsDir it then newDirectory i (nextIno d) m else None) else child d k m)"
proof -
  have "i < nextIno d" using ram_okD(2) [OF ok i(1)] .
  then show ?thesis using i e by (auto simp: child_def entered_def dir_Set_def empty_inode_def)
qed

lemma entered_inodes:
  assumes "ram_ok d" "inodes d i = Some cur" "in_IsDir cur"
  shows "inodes (entered d i n it) k =
    (if k = nextIno d then Some it else if k = i then Some (cur\<lparr>in_Dir := (in_Dir cur)(n \<mapsto> nextIno d)\<rparr>) else inodes d k)"
  using ram_okD(2) [OF assms(1,2)] assms(2) by (simp add: entered_def dir_Set_def)

lemma fresh_child: "ram_ok d \<Longrightarrow> child d (nextIno d) m = None"
  using ram_okD(2) [of d "nextIno d"] by (auto simp: child_def split: option.splits)

lemma entered_edge:
  assumes "ram_ok d" "inodes d i = Some cur" "in_IsDir cur" "empty_inode i (nextIno d) it" "child d i n = None" "normal_segment m"
  shows "child (entered d i n it) k m = Some j \<longleftrightarrow> k = i \<and> m = n \<and> j = nextIno d \<or> child d k m = Some j"
proof -
  have "newDirectory i (nextIno d) m = None" using assms(6) by (simp add: newDirectory_def normal_segment_def)
  then show ?thesis using entered_child [OF assms(1-4), of n k m] assms(5) fresh_child [OF assms(1), of m] by auto
qed

lemma entered_ok:
  assumes ok: "ram_ok d" and i: "inodes d i = Some cur" "in_IsDir cur" and e: "empty_inode i (nextIno d) it"
    and n: "normal_segment n" "child d i n = None"
  shows "ram_ok (entered d i n it)"
proof -
  note c = entered_child [OF ok i e, of n] and ins = entered_inodes [OF ok i, of n it]
    and edge = entered_edge [OF ok i e n(2)]
  have next': "nextIno (entered d i n it) = nextIno d + 1" by (simp add: entered_def dir_Set_def)
  have target: "j \<noteq> nextIno d" if "child d k m = Some j" "normal_segment m" for k m j
    using ram_okD(5) [OF ok that] ram_okD(2) [OF ok] by force
  have root: "rootIno \<noteq> nextIno d" using ram_okD(1) [OF ok] by simp
  have names: "m \<noteq> []" if "child (entered d i n it) k m = Some j" for k m j
  proof
    assume m: "m = []"
    have "newDirectory i (nextIno d) [] = None" by (simp add: newDirectory_def dot_def dotdot_def)
    then have "child d k [] = Some j" using that n(1) by (auto simp: m c normal_segment_def split: if_splits)
    then show False using ram_okD(7) [OF ok] by blast
  qed
  have dots: "child (entered d i n it) rootIno m = Some rootIno" if "m = dot \<or> m = dotdot" for m
  proof -
    have "m \<noteq> n" using that n(1) by (auto simp: normal_segment_def)
    then show ?thesis using that ram_okD(3,4) [OF ok] root by (auto simp: c)
  qed
  have bound: "k < nextIno d + 1" if k: "inodes (entered d i n it) k = Some x" for k x
  proof (cases "k = nextIno d")
    case False
    then have "inodes d k \<noteq> None" using k i(1) by (auto simp: ins split: if_splits)
    then show ?thesis using ram_okD(2) [OF ok] by force
  qed simp
  have tgt: "j \<noteq> rootIno \<and> inodes (entered d i n it) j \<noteq> None"
    if "child (entered d i n it) k m = Some j" "normal_segment m" for k m j
  proof -
    have "k = i \<and> m = n \<and> j = nextIno d \<or> child d k m = Some j" using that(1) unfolding edge [OF that(2)] .
    then consider "j = nextIno d" | "child d k m = Some j" by blast
    then show ?thesis
    proof cases
      case 1
      then show ?thesis using root by (simp add: ins)
    next
      case 2
      from ram_okD(5) [OF ok 2 that(2)] show ?thesis by (simp add: ins)
    qed
  qed
  have one: "k = k' \<and> m = m'"
    if "child (entered d i n it) k m = Some j" "child (entered d i n it) k' m' = Some j" "normal_segment m" "normal_segment m'" for k m k' m' j
  proof -
    have a: "k = i \<and> m = n \<and> j = nextIno d \<or> child d k m = Some j" using that(1) unfolding edge [OF that(3)] .
    have b: "k' = i \<and> m' = n \<and> j = nextIno d \<or> child d k' m' = Some j" using that(2) unfolding edge [OF that(4)] .
    show ?thesis
    proof (cases "j = nextIno d")
      case True
      then show ?thesis using a b target [of k m j] target [of k' m' j] that(3,4) by blast
    next
      case False
      then have "child d k m = Some j" "child d k' m' = Some j" using a b by blast+
      from ram_okD(6) [OF ok this that(3,4)] show ?thesis .
    qed
  qed
  show ?thesis
    unfolding ram_ok_def next'
  proof (intro conjI)
    show "rootIno < nextIno d + 1" using ram_okD(1) [OF ok] by simp
    show "\<forall>k x. inodes (entered d i n it) k = Some x \<longrightarrow> k < nextIno d + 1" by (intro allI impI bound)
    show "child (entered d i n it) rootIno dot = Some rootIno" "child (entered d i n it) rootIno dotdot = Some rootIno"
      by (simp_all add: dots)
    show "\<forall>k m j. child (entered d i n it) k m = Some j \<and> normal_segment m \<longrightarrow>
        j \<noteq> rootIno \<and> inodes (entered d i n it) j \<noteq> None"
      by (intro allI impI, elim conjE) (rule tgt)
    show "\<forall>k m k' m' j. child (entered d i n it) k m = Some j \<and> child (entered d i n it) k' m' = Some j \<and>
        normal_segment m \<and> normal_segment m' \<longrightarrow> k = k' \<and> m = m'"
      by (intro allI impI, elim conjE) (rule one)
    show "\<forall>k m j. child (entered d i n it) k m = Some j \<longrightarrow> m \<noteq> []" by (intro allI impI names)
  qed
qed

lemma entered_walk:
  assumes ok: "ram_ok d" and i: "inodes d i = Some cur" "in_IsDir cur" and e: "empty_inode i (nextIno d) it"
    and n: "normal_segment n" "child d i n = None" and p: "walk_to d rootIno p = Some i" "list_all normal_segment p"
  shows "list_all normal_segment q \<Longrightarrow> walk_to (entered d i n it) rootIno q =
    (if q = p @ [n] then Some (nextIno d) else walk_to d rootIno q)"
proof (induction q rule: rev_induct)
  case (snoc m q)
  note c = entered_child [OF ok i e, of n]
  have new: "newDirectory i (nextIno d) m = None"
    using snoc.prems by (simp add: newDirectory_def normal_segment_def)
  show ?case
  proof (cases "q = p @ [n]")
    case True
    have w: "walk_to d rootIno q = None" using p n(2) by (simp add: True)
    have "walk_to (entered d i n it) rootIno q = Some (nextIno d)" using snoc True by simp
    then have "walk_to (entered d i n it) rootIno (q @ [m]) = None"
      using new ram_okD(2) [OF ok i(1)] unfolding walk_to_simps(2) by (simp add: c)
    moreover have "q @ [m] \<noteq> p @ [n]" by (simp add: True)
    ultimately show ?thesis using w unfolding walk_to_simps(2) by simp
  next
    case False
    have nq: "list_all normal_segment q" using snoc.prems by simp
    have ih: "walk_to (entered d i n it) rootIno q = walk_to d rootIno q" using snoc.IH [OF nq] False by simp
    show ?thesis
    proof (cases "walk_to d rootIno q")
      case None
      then have "q \<noteq> p" using p(1) by auto
      then show ?thesis unfolding walk_to_simps(2) ih None by simp
    next
      case (Some k)
      have k: "k \<noteq> nextIno d" using walk_inode [OF ok Some nq] ram_okD(2) [OF ok] by force
      have "k = i \<longleftrightarrow> q = p"
        using walk_inj [OF ok Some _ nq p(2)] p(1) Some by auto
      then show ?thesis unfolding walk_to_simps(2) ih Some using k by (simp add: c)
    qed
  qed
qed simp

lemma entered_files:
  assumes ok: "ram_ok d" and i: "inodes d i = Some cur" "in_IsDir cur" and e: "empty_inode i (nextIno d) it"
    and n: "normal_segment n" "child d i n = None" and p: "walk_to d rootIno p = Some i" "list_all normal_segment p"
  shows "files (entered d i n it) = (if in_IsDir it then files d else (files d)(p @ [n] \<mapsto> in_File it))"
proof
  fix q
  show "files (entered d i n it) q = (if in_IsDir it then files d else (files d)(p @ [n] \<mapsto> in_File it)) q"
  proof (cases "list_all normal_segment q")
    case True
    note w = entered_walk [OF assms True] and ins = entered_inodes [OF ok i, of n it]
    have none: "walk_to d rootIno (p @ [n]) = None" using p(1) n(2) by simp
    show ?thesis
    proof (cases "q = p @ [n]")
      case new: True
      have "files (entered d i n it) q = (if in_IsDir it then None else Some (in_File it))"
        using True w new by (simp add: files_def ins)
      moreover have "files d q = None" using none new by (simp add: files_def)
      ultimately show ?thesis using new by simp
    next
      case old: False
      have "files (entered d i n it) q = files d q"
      proof (cases "walk_to d rootIno q")
        case None
        then show ?thesis using w old by (simp add: files_def)
      next
        case (Some k)
        have "k \<noteq> nextIno d" using walk_inode [OF ok Some True] ram_okD(2) [OF ok] by force
        then have "inodes (entered d i n it) k = inodes d k \<or> k = i \<and> inodes d k = Some cur \<and>
            inodes (entered d i n it) k = Some (cur\<lparr>in_Dir := (in_Dir cur)(n \<mapsto> nextIno d)\<rparr>)"
          using i(1) by (simp add: ins)
        then show ?thesis using w old Some i(2) True unfolding files_def by (elim disjE conjE) simp_all
      qed
      then show ?thesis using old by simp
    qed
  next
    case False
    then have "q \<noteq> p @ [n]" using p(2) n(1) by auto
    then show ?thesis using False by (simp add: files_def)
  qed
qed

section \<open>Overwriting a file\<close>

lemma overwrite:
  fixes d :: ram and data :: "byte list"
  assumes ok: "ram_ok d" and j: "inodes d j = Some it" "\<not> in_IsDir it" and p: "walk_to d rootIno p = Some j" "list_all normal_segment p"
  defines "d' \<equiv> d\<lparr>inodes := (inodes d)(j \<mapsto> it\<lparr>in_File := data\<rparr>)\<rparr>"
  shows "ram_ok d'" "files d' = (files d)(p \<mapsto> data)"
proof -
  have c: "child d' k m = child d k m" for k m using j by (simp add: d'_def child_def)
  have n: "nextIno d' = nextIno d" "inodes d' k = (if k = j then Some (it\<lparr>in_File := data\<rparr>) else inodes d k)" for k
    by (simp_all add: d'_def)
  have "k < nextIno d" if "inodes d' k = Some x" for k x
    using that ram_okD(2) [OF ok] j(1) by (cases "k = j") (auto simp: n)
  moreover have "inodes d' k \<noteq> None" if "inodes d k \<noteq> None" for k using that by (simp add: n)
  ultimately show "ram_ok d'" using ok unfolding ram_ok_def c n(1) by blast
  have w: "walk_to d' rootIno q = walk_to d rootIno q" for q by (simp add: walk_to_def c)
  show "files d' = (files d)(p \<mapsto> data)"
  proof
    fix q
    show "files d' q = ((files d)(p \<mapsto> data)) q"
    proof (cases "list_all normal_segment q")
      case True
      show ?thesis
      proof (cases "walk_to d rootIno q")
        case None
        then show ?thesis using p(1) by (auto simp: files_def w)
      next
        case (Some k)
        have "k = j \<longleftrightarrow> q = p" using walk_inj [OF ok Some _ True p(2)] p(1) Some by auto
        then show ?thesis using True Some j by (simp add: files_def w n)
      qed
    next
      case False
      then show ?thesis using p(2) by (auto simp: files_def)
    qed
  qed
qed

text \<open>Committing an object sets the map at its path, and an error changes no file.\<close>

definition commits :: "ram \<Rightarrow> gostring list \<Rightarrow> byte list \<Rightarrow> ram \<times> goerr option \<Rightarrow> bool" where
  "commits d p data r \<longleftrightarrow> ram_ok (fst r) \<and> \<not> is_panic (snd r) \<and>
     files (fst r) = (if snd r = None then (files d)(p \<mapsto> data) else files d)"

lemma commit_loop_commits:
  assumes "ram_ok d" "walk_to d rootIno p = Some cur" "list_all normal_segment p" "list_all normal_segment ss" "ss \<noteq> []"
  shows "commits d (p @ ss) data (commit_loop d cur ss data)"
  using assms
proof (induction ss arbitrary: d cur p)
  case (Cons n ss)
  note ok = Cons.prems(1) and w = Cons.prems(2) and np = Cons.prems(3)
  have n: "normal_segment n" "list_all normal_segment ss" using Cons.prems(4) by simp_all
  obtain it where it: "inodes d cur = Some it" using walk_inode [OF ok w np] by blast
  show ?case
  proof (cases "in_IsDir it")
    case False
    then show ?thesis using it ok by (simp add: commits_def)
  next
    case dir: True
    have c: "child d cur n = in_Dir it n" using it dir by (simp add: child_def)
    show ?thesis
    proof (cases "in_Dir it n")
      case None
      note none = c [unfolded None]
      have e: "empty_inode cur (nextIno d) (newDirInode cur (nextIno d))" "empty_inode cur (nextIno d) (newFileInode data)"
        by (simp_all add: empty_inode_def newDirInode_def newFileInode_def)
      show ?thesis
      proof (cases "ss = []")
        case True
        have "commit_loop d cur (n # ss) data = (entered d cur n (newFileInode data), None)"
          using it dir None True by (simp add: entered_def Let_def)
        then show ?thesis
          using entered_ok [OF ok it dir e(2) n(1) none] entered_files [OF ok it dir e(2) n(1) none w np] True
          by (simp add: commits_def newFileInode_def)
      next
        case False
        let ?d = "entered d cur n (newDirInode cur (nextIno d))"
        have ok': "ram_ok ?d" by (rule entered_ok [OF ok it dir e(1) n(1) none])
        have f: "files ?d = files d"
          using entered_files [OF ok it dir e(1) n(1) none w np] by (simp add: newDirInode_def)
        have w': "walk_to ?d rootIno (p @ [n]) = Some (nextIno d)"
          using entered_walk [OF ok it dir e(1) n(1) none w np, of "p @ [n]"] np n(1) by (simp del: walk_to_simps(2))
        have "commit_loop d cur (n # ss) data = commit_loop ?d (nextIno d) ss data"
          using it dir None False by (simp add: entered_def Let_def)
        then show ?thesis
          using Cons.IH [OF ok' w' _ n(2) False] np n(1) f by (simp add: commits_def)
      qed
    next
      case (Some ino)
      have w': "walk_to d rootIno (p @ [n]) = Some ino" using w c Some by simp
      have np': "list_all normal_segment (p @ [n])" using np n(1) by simp
      show ?thesis
      proof (cases "ss = []")
        case True
        obtain ex where ex: "inodes d ino = Some ex" using walk_inode [OF ok w' np'] by blast
        show ?thesis
        proof (cases "in_IsDir ex")
          case True
          then show ?thesis using it dir Some \<open>ss = []\<close> ex ok by (simp add: commits_def)
        next
          case False
          then show ?thesis using it dir Some \<open>ss = []\<close> ex overwrite [OF ok ex False w' np', of data] by (simp add: commits_def)
        qed
      next
        case False
        then show ?thesis using Cons.IH [OF ok w' np' n(2) False] it dir Some by simp
      qed
    qed
  qed
qed simp

section \<open>Looking a path up\<close>

lemma traverse_walk:
  assumes "ram_ok d" "walk_to d rootIno p = Some cur" "list_all normal_segment p" "list_all normal_segment ss" "ss \<noteq> []"
  shows "case traverse d cur ss of
      Inl e \<Rightarrow> walk_to d rootIno (p @ ss) = None \<and> \<not> is_panic (Some e)
    | Inr f \<Rightarrow> walk_to d rootIno (p @ ss) = Some (fo_Ino f) \<and> walk_to d rootIno (p @ butlast ss) = Some (fo_Parent f) \<and>
        fo_Name f = last ss"
  using assms
proof (induction ss arbitrary: cur p)
  case (Cons n ss)
  obtain it where it: "inodes d cur = Some it" using walk_inode [OF Cons.prems(1-3)] by blast
  have split: "p @ n # ss = (p @ [n]) @ ss" "ss \<noteq> [] \<Longrightarrow> p @ butlast (n # ss) = (p @ [n]) @ butlast ss"
    "ss \<noteq> [] \<Longrightarrow> last (n # ss) = last ss" by simp_all
  have w: "walk_to d rootIno (p @ [n]) = child d cur n" using Cons.prems(2) by simp
  show ?case
  proof (cases "child d cur n")
    case None
    then have "walk_to d rootIno (p @ n # ss) = None" unfolding split(1) walk_to_append [of d rootIno "p @ [n]"] w by simp
    then show ?thesis using None it by (auto simp: child_def split: if_splits)
  next
    case (Some ino)
    then have d: "in_IsDir it" "in_Dir it n = Some ino" using it by (auto simp: child_def split: if_splits)
    show ?thesis
    proof (cases "ss = []")
      case True
      then show ?thesis using it d w Some Cons.prems(2) by simp
    next
      case False
      then show ?thesis unfolding split(1) split(2,3) [OF False] using Cons.IH [of "p @ [n]" ino] Cons.prems w Some it d by simp
    qed
  qed
qed simp

section \<open>Names\<close>

lemma split_join: "xs \<noteq> [] \<Longrightarrow> \<forall>x \<in> set xs. slash \<notin> set x \<Longrightarrow> split_slash (join_slash xs) = xs"
proof (induction xs rule: join_slash.induct)
  case (2 s)
  have "slash \<notin> set s \<Longrightarrow> split_slash s = [s]" by (induction s) auto
  then show ?case using 2 by simp
next
  case (3 s t ss)
  have "slash \<notin> set s \<Longrightarrow> split_slash (s @ slash # r) = s # split_slash r" for r by (induction s) auto
  then show ?case using 3 by simp
qed simp

lemma split_no_slash: "x \<in> set (split_slash s) \<Longrightarrow> slash \<notin> set x"
proof (induction s arbitrary: x)
  case (Cons c s)
  then show ?case by (cases "split_slash s") (auto split: if_splits)
qed simp

text \<open>What \<open>Clean\<close> has put together: names, behind \<open>..\<close> elements in a relative path.\<close>

definition cleaned :: "bool \<Rightarrow> gostring list \<Rightarrow> bool" where
  "cleaned rooted out \<longleftrightarrow> (\<exists>k names. rev out = replicate k dotdot @ names \<and> (rooted \<longrightarrow> k = 0) \<and>
     list_all normal_segment names \<and> (\<forall>x \<in> set names. slash \<notin> set x))"

lemma cleaned_step:
  assumes "cleaned r out" "slash \<notin> set c"
  shows "cleaned r (clean_step r out c)"
proof -
  obtain k names where o: "rev out = replicate k dotdot @ names" "r \<longrightarrow> k = 0"
    "list_all normal_segment names" "\<forall>x \<in> set names. slash \<notin> set x"
    using assms(1) unfolding cleaned_def by blast
  have o': "out = rev names @ replicate k dotdot" using o(1) by (metis rev_append rev_replicate rev_rev_ident)
  consider (skip) "c = [] \<or> c = dot" | (up) "c = dotdot" | (name) "normal_segment c" by (auto simp: normal_segment_def)
  then show ?thesis
  proof cases
    case skip
    then show ?thesis using assms(1) by simp
  next
    case up
    have dd: "dotdot \<noteq> dot" "dotdot \<noteq> []" by (simp_all add: dot_def dotdot_def)
    show ?thesis
    proof (cases names rule: rev_cases)
      case Nil
      show ?thesis
      proof (cases k)
        case 0
        then have "clean_step r out c = (if r then [] else [dotdot])" using up dd o' Nil by simp
        then show ?thesis unfolding cleaned_def by (intro exI [of _ "if r then 0 else 1"] exI [of _ "[]"]) simp
      next
        case (Suc j)
        then have "clean_step r out c = dotdot # out" using up dd o' Nil by simp
        then show ?thesis using o Nil Suc unfolding cleaned_def
          by (intro exI [of _ "Suc k"] exI [of _ "[]"]) (simp add: replicate_append_same del: clean_step.simps)
      qed
    next
      case (snoc ns x)
      then have "x \<noteq> dotdot" using o(3) by (auto simp: normal_segment_def)
      then have "clean_step r out c = rev ns @ replicate k dotdot" using up dd o' snoc by simp
      then show ?thesis using o snoc unfolding cleaned_def by (intro exI [of _ k] exI [of _ ns]) simp
    qed
  next
    case name
    then have "clean_step r out c = c # out" by (simp add: normal_segment_def)
    then show ?thesis using o name assms(2) unfolding cleaned_def
      by (intro exI [of _ k] exI [of _ "names @ [c]"]) simp
  qed
qed

lemma cleaned_fold: "cleaned r out \<Longrightarrow> \<forall>c \<in> set cs. slash \<notin> set c \<Longrightarrow> cleaned r (foldl (clean_step r) out cs)"
proof (induction cs arbitrary: out)
  case (Cons c cs)
  then show ?case using cleaned_step [of r out c] by (simp del: clean_step.simps)
qed simp


lemma Clean_segments:
  assumes "p = [] \<or> hd p \<noteq> slash"
  shows "split_slash (path_Clean p) = [dot] \<or>
    (\<exists>k names. split_slash (path_Clean p) = replicate k dotdot @ names \<and> list_all normal_segment names)"
proof (cases "p = []")
  case True
  then show ?thesis by (simp add: path_Clean_def dot_def slash_def)
next
  case False
  define out where "out = foldl (clean_step False) [] (split_slash p)"
  have "cleaned False out"
    unfolding out_def by (rule cleaned_fold) (auto simp: cleaned_def split_no_slash intro: exI [of _ 0])
  then obtain k names where o: "rev out = replicate k dotdot @ names" "list_all normal_segment names"
    "\<forall>x \<in> set names. slash \<notin> set x"
    unfolding cleaned_def by blast
  have c: "path_Clean p = (if join_slash (rev out) = [] then dot else join_slash (rev out))"
    using assms False by (simp add: path_Clean_def out_def Let_def)
  have "split_slash (join_slash (rev out)) = rev out" if "rev out \<noteq> []"
    using that o(3) by (intro split_join) (auto simp: o(1) dotdot_def slash_def)
  moreover have "join_slash (rev out) = [] \<Longrightarrow> split_slash (path_Clean p) = [dot]" by (simp add: c dot_def slash_def)
  moreover have "rev out = [] \<Longrightarrow> join_slash (rev out) = []" by simp
  ultimately show ?thesis using o c by metis
qed

text \<open>A rooted path is cleaned to a rooted one, and what follows its slash does not start with another.\<close>

lemma Clean_rooted_tail:
  assumes "path_Clean p = slash # q"
  shows "q = [] \<or> hd q \<noteq> slash"
proof -
  define out where "out = foldl (clean_step (hd p = slash)) [] (split_slash p)"
  have ne: "p \<noteq> []" using assms by (auto simp: path_Clean_def dot_def slash_def)
  have "cleaned (hd p = slash) out"
    unfolding out_def by (rule cleaned_fold) (auto simp: cleaned_def split_no_slash intro: exI [of _ 0])
  then obtain k names where o: "rev out = replicate k dotdot @ names" "hd p = slash \<longrightarrow> k = 0" "list_all normal_segment names"
    "\<forall>x \<in> set names. slash \<notin> set x"
    unfolding cleaned_def by blast
  have front: "join_slash xs = [] \<or> hd (join_slash xs) \<noteq> slash" if "\<forall>x \<in> set xs. x \<noteq> [] \<and> slash \<notin> set x" for xs
    using that by (cases xs rule: join_slash.cases) (auto simp: hd_append dest: hd_in_set)
  have ns: "\<forall>x \<in> set (rev out). x \<noteq> [] \<and> slash \<notin> set x"
    using o by (auto simp: list_all_iff normal_segment_def dotdot_def slash_def)
  show ?thesis
  proof (cases "hd p = slash")
    case True
    then have "path_Clean p = slash # join_slash (rev out)" using ne by (simp add: path_Clean_def out_def Let_def)
    then show ?thesis using assms front [OF ns] by simp
  next
    case False
    then have "path_Clean p = (if join_slash (rev out) = [] then dot else join_slash (rev out))"
      using ne by (simp add: path_Clean_def out_def Let_def)
    then have "hd (path_Clean p) \<noteq> slash" using front [OF ns] by (auto simp: dot_def slash_def)
    then show ?thesis using assms by simp
  qed
qed

lemma urlToPath_segments:
  assumes "urlToPath U url = Inr path"
  shows "split_slash path = [dot] \<or> (\<exists>k names. split_slash path = replicate k dotdot @ names \<and> list_all normal_segment names)"
proof -
  obtain p where p: "path = path_Clean (if HasPrefix (path_Clean p) [slash] then drop 1 (path_Clean p) else path_Clean p)"
  proof (cases "url_Parse U url")
    case (Inr u)
    then show ?thesis
      using assms that [of "if u_Opaque u = [] then u_Path u else u_Opaque u"]
      by (simp add: urlToPath_def Let_def del: if_split split: if_split_asm)
  qed (use assms in \<open>simp add: urlToPath_def\<close>)
  show ?thesis
    unfolding p
  proof (rule Clean_segments)
    show "(if HasPrefix (path_Clean p) [slash] then drop 1 (path_Clean p) else path_Clean p) = [] \<or>
        hd (if HasPrefix (path_Clean p) [slash] then drop 1 (path_Clean p) else path_Clean p) \<noteq> slash"
      using Clean_rooted_tail [of p] by (cases "path_Clean p") (auto simp: HasPrefix_def)
  qed
qed


text \<open>The path that a URL names; the root has the empty path.\<close>

definition ram_name :: "url_ops \<Rightarrow> gostring \<Rightarrow> gostring list option" where
  "ram_name U url =
     (case urlToPath U url of
        Inl e \<Rightarrow> None
      | Inr path \<Rightarrow> Some (dropWhile (\<lambda>s. s = dot \<or> s = dotdot) (split_slash path)))"

lemma drop_dots:
  "list_all normal_segment names \<Longrightarrow> dropWhile (\<lambda>s. s = dot \<or> s = dotdot) (replicate k dotdot @ names) = names"
  by (induction k) (auto simp: normal_segment_def dropWhile_eq_self_iff list_all_iff)

lemma ram_nameE:
  assumes "ram_name U url = Some p"
  obtains path where "urlToPath U url = Inr path" "list_all normal_segment p"
    "(\<exists>k. split_slash path = replicate k dotdot @ p) \<or> p = [] \<and> split_slash path = [dot]"
proof -
  obtain path where path: "urlToPath U url = Inr path" "p = dropWhile (\<lambda>s. s = dot \<or> s = dotdot) (split_slash path)"
    using assms by (auto simp: ram_name_def split: sum.splits)
  from urlToPath_segments [OF path(1)] show ?thesis
  proof (elim disjE exE conjE)
    assume "split_slash path = [dot]"
    then show ?thesis using that [OF path(1)] path(2) by simp
  next
    fix k names
    assume "split_slash path = replicate k dotdot @ names" "list_all normal_segment names"
    then show ?thesis using that [OF path(1)] path(2) drop_dots by auto
  qed
qed

lemma root_dir:
  assumes "ram_ok d"
  obtains it where "inodes d rootIno = Some it" "in_IsDir it" "in_Dir it dot = Some rootIno" "in_Dir it dotdot = Some rootIno"
  using ram_okD(3,4) [OF assms] by (auto simp: child_def split: option.splits if_splits)

lemma traverse_root:
  assumes ok: "ram_ok d" and n: "ram_name U url = Some p" and path: "urlToPath U url = Inr path"
  shows "if p = [] then \<exists>f. traverse d rootIno (split_slash path) = Inr f \<and> fo_Ino f = rootIno \<and> fo_Parent f = rootIno
     else traverse d rootIno (split_slash path) = traverse d rootIno p"
proof -
  obtain it where it: "inodes d rootIno = Some it" "in_IsDir it" "in_Dir it dot = Some rootIno" "in_Dir it dotdot = Some rootIno"
    by (rule root_dir [OF ok])
  have skip: "p \<noteq> [] \<Longrightarrow> traverse d rootIno (replicate k dotdot @ p) = traverse d rootIno p" for k
    by (induction k) (simp_all add: it)
  have up: "k \<noteq> 0 \<Longrightarrow> \<exists>f. traverse d rootIno (replicate k dotdot) = Inr f \<and> fo_Ino f = rootIno \<and> fo_Parent f = rootIno" for k
  proof (induction k)
    case (Suc k)
    then show ?case by (cases k) (simp_all add: it)
  qed simp
  from n path obtain h: "(\<exists>k. split_slash path = replicate k dotdot @ p) \<or> p = [] \<and> split_slash path = [dot]"
    by (elim ram_nameE) simp
  then show ?thesis
  proof (elim disjE exE conjE)
    fix k assume k: "split_slash path = replicate k dotdot @ p"
    show ?thesis
    proof (cases "p = []")
      case True
      then have "k \<noteq> 0" using k split_slash_nonempty [of path] by (intro notI) simp
      then show ?thesis using up k True by simp
    qed (use skip k in simp)
  qed (simp add: it)
qed

lemma Open_files:
  assumes ok: "ram_ok d" and n: "ram_name U url = Some p"
  shows "case files d p of
      Some c \<Rightarrow> \<exists>x. ram_Open U url sz d = Inr x \<and> AnonymousObject.truncate x = bytes_object c
    | None \<Rightarrow> \<exists>e. ram_Open U url sz d = Inl e \<and> \<not> is_panic (Some e)"
proof -
  obtain path where path: "urlToPath U url = Inr path" and norm: "list_all normal_segment p" using n by (rule ram_nameE)
  obtain rt where rt: "inodes d rootIno = Some rt" "in_IsDir rt" by (rule root_dir [OF ok])
  note t = traverse_root [OF ok n path]
  show ?thesis
  proof (cases "p = []")
    case True
    then obtain f where "traverse d rootIno (split_slash path) = Inr f" "fo_Ino f = rootIno" using t by auto
    then have "ram_Open U url sz d = Inl EISDIR" using path rt by (simp add: ram_Open_def ram_open_def)
    moreover have "files d p = None" using True rt by (simp add: files_def)
    ultimately show ?thesis by simp
  next
    case False
    note w = traverse_walk [OF ok _ _ norm False, of "[]" rootIno]
    show ?thesis
    proof (cases "traverse d rootIno p")
      case (Inl e)
      then show ?thesis using w t False path norm by (simp add: files_def ram_Open_def ram_open_def)
    next
      case (Inr f)
      then have wf: "walk_to d rootIno p = Some (fo_Ino f)" using w by simp
      obtain it where it: "inodes d (fo_Ino f) = Some it" using walk_inode [OF ok wf norm] by blast
      show ?thesis
      proof (cases "in_IsDir it")
        case True
        then show ?thesis using wf it Inr t False path norm by (simp add: files_def ram_Open_def ram_open_def)
      next
        case plain: False
        have "AnonymousObject.truncate (ram_as_object \<lparr>ob_url = u, ob_br = c, ob_pos = 0, ob_closed = False\<rparr>) = bytes_object c" for u c
          by (simp add: ram_as_object_def AnonymousObject.defs bytes_object_def ram_ReadAt_def fun_eq_iff)
        then show ?thesis using wf it Inr t False path norm plain by (simp add: files_def ram_Open_def ram_open_def Let_def)
      qed
    qed
  qed
qed

lemma Commit_files:
  assumes ok: "ram_ok d" and n: "ram_name U url = Some p" and path: "urlToPath U url = Inr path"
  shows "commits d p data (ram_commit d path data) \<and> (p = [] \<longrightarrow> snd (ram_commit d path data) \<noteq> None)"
proof -
  obtain it where it: "inodes d rootIno = Some it" "in_IsDir it" "in_Dir it dot = Some rootIno" "in_Dir it dotdot = Some rootIno"
    by (rule root_dir [OF ok])
  obtain path' where "urlToPath U url = Inr path'" and norm: "list_all normal_segment p"
    and "(\<exists>k. split_slash path' = replicate k dotdot @ p) \<or> p = [] \<and> split_slash path' = [dot]"
    using n by (rule ram_nameE)
  then have h: "(\<exists>k. split_slash path = replicate k dotdot @ p) \<or> p = [] \<and> split_slash path = [dot]" using path by simp
  have dd: "dotdot \<noteq> []" "dot \<noteq> []" by (simp_all add: dot_def dotdot_def)
  have ne: "\<forall>s \<in> set p. s \<noteq> []" using norm by (auto simp: list_all_iff normal_segment_def)
  have "\<forall>s \<in> set (replicate k dotdot @ p). s \<noteq> []" for k using ne dd(1) by (induction k) simp_all
  then have "\<forall>s \<in> set (split_slash path). s \<noteq> []" using h dd(2) by fastforce
  then have "hd (split_slash path) \<noteq> []" by simp
  then have seg: "path_segments path = split_slash path" by (simp add: path_segments_def Let_def)
  have skip: "p \<noteq> [] \<Longrightarrow> commit_loop d rootIno (replicate k dotdot @ p) data = commit_loop d rootIno p data" for k
    by (induction k) (simp_all add: it)
  have up: "k \<noteq> 0 \<Longrightarrow> commit_loop d rootIno (replicate k dotdot) data = (d, Some ErrExist)" for k
  proof (induction k)
    case (Suc k)
    then show ?case by (cases k) (simp_all add: it)
  qed simp
  show ?thesis
  proof (cases "p = []")
    case False
    then obtain k where k: "split_slash path = replicate k dotdot @ p" using h by blast
    show ?thesis
      using commit_loop_commits [OF ok _ _ norm False, of "[]" rootIno data] False skip [of k]
      by (simp add: ram_commit_def seg k)
  next
    case True
    have "ram_commit d path data = (d, Some ErrExist)"
    proof (cases "split_slash path = [dot]")
      case True
      then show ?thesis by (simp add: ram_commit_def seg it)
    next
      case False
      then obtain k where k: "split_slash path = replicate k dotdot" using h True by auto
      then have "k \<noteq> 0" using split_slash_nonempty [of path] by (intro notI) simp
      then show ?thesis using up k by (simp add: ram_commit_def seg)
    qed
    then show ?thesis using ok by (simp add: commits_def)
  qed
qed


section \<open>What the driver promises\<close>

lemma ram_put:
  assumes "ram_ok d" "ram_name U url = Some p" "ram_Create U url d = Inr w"
    and "ram_Write w data d = (w1, d1, err)" "ram_Commit w1 d1 = (w2, d2, r)"
  shows "ram_ok d2 \<and> files d2 = (case r of Inl e \<Rightarrow> files d | Inr url \<Rightarrow> (files d)(p \<mapsto> data)) \<and>
    (\<forall>url' q sz. ram_name U url' = Some q \<longrightarrow>
       (case files d2 q of
          Some c \<Rightarrow> \<exists>x. ram_Open U url' sz d2 = Inr x \<and> AnonymousObject.truncate x = bytes_object c
        | None \<Rightarrow> \<exists>e. ram_Open U url' sz d2 = Inl e \<and> \<not> is_panic (Some e)))"
proof -
  obtain path where path: "urlToPath U url = Inr path" using assms(2) by (rule ram_nameE)
  have w: "w = \<lparr>wr_url = pathToUrl U path, wr_path = path, wr_buf = [], wr_state = stateCreating\<rparr>"
    using assms(3) path by (auto simp: ram_Create_def split: if_splits)
  have w1: "w1 = w\<lparr>wr_buf := data\<rparr>" "d1 = d" using assms(4) by (auto simp: ram_Write_def w)
  obtain d' e where c: "ram_commit d path data = (d', e)" by (cases "ram_commit d path data")
  have r: "d2 = d'" "r = (case e of Some x \<Rightarrow> Inl x | None \<Rightarrow> Inr (pathToUrl U path))"
    using assms(5) c by (auto simp: ram_Commit_def w1 w split: option.splits)
  have "ram_ok d' \<and> files d' = (if e = None then (files d)(p \<mapsto> data) else files d)"
    using Commit_files [OF assms(1,2) path, of data] by (simp add: c commits_def)
  then show ?thesis using Open_files [of d2 U] r by (cases e) auto
qed

text \<open>C9:
  The driver is a map from paths to bytes.  Writing bytes to a writer and committing it either
  sets the map at the path that the writer's URL names, leaving every other file as it is, or
  fails and changes no file; the tree stays well formed.  Afterwards opening a URL gives an object
  with the bytes that the map has at its path, or an error when it has none, and never panics.
\<close>

theorem ram_refines_map:
  assumes "ram_ok d" "ram_name U url = Some p" "ram_Create U url d = Inr w"
    and "ram_Write w data d = (w1, d1, err)" "ram_Commit w1 d1 = (w2, d2, r)"
  shows "ram_ok d2 \<and> files d2 = (case r of Inl e \<Rightarrow> files d | Inr url \<Rightarrow> (files d)(p \<mapsto> data)) \<and>
    (\<forall>url' q sz. ram_name U url' = Some q \<longrightarrow>
       (case files d2 q of
          Some c \<Rightarrow> \<exists>x. ram_Open U url' sz d2 = Inr x \<and> AnonymousObject.truncate x = bytes_object c
        | None \<Rightarrow> \<exists>e. ram_Open U url' sz d2 = Inl e \<and> \<not> is_panic (Some e)))"
  by (rule ram_put [OF assms])

text \<open>A concrete \<open>net/url\<close> for the examples: a scheme up to the first colon, the rest opaque and a path.\<close>

fun cut_colon :: "gostring \<Rightarrow> gostring \<times> gostring" where
  "cut_colon [] = ([], [])"
| "cut_colon (c # cs) = (if c = 0x3A then ([], cs) else (let (a, b) = cut_colon cs in (c # a, b)))"

definition plain_url :: url_ops where
  "plain_url = \<lparr>url_Parse = (\<lambda>s. if 0x3A \<in> set s
       then Inr (zero_url\<lparr>u_Scheme := fst (cut_colon s), u_Opaque := snd (cut_colon s), u_Path := snd (cut_colon s)\<rparr>) else Inr (zero_url\<lparr>u_Path := s\<rparr>)),
     url_String = (\<lambda>u. if u_Scheme u = [] then u_Path u else u_Scheme u @ [0x3A] @ u_Path u),
     url_ResolveReference = (\<lambda>b u. if u_Scheme u \<noteq> [] then u else if u_Path u = [] then b
       else b\<lparr>u_Path := u_Path u, u_Opaque := u_Path u\<rparr>)\<rparr>"

lemma sample_ram_name: "ram_name plain_url (bytes_of ''ram:a/b'') = Some [bytes_of ''a'', bytes_of ''b'']"
  by (simp add: ram_name_def urlToPath_def plain_url_def zero_url_def bytes_of_def path_Clean_def slash_def dot_def dotdot_def HasPrefix_def)

theorem ram_refines_map_witness:
  "\<exists>w w2 d2 url x. ram_Create plain_url (bytes_of ''ram:a/b'') NewDriver = Inr w \<and>
     ram_Commit (w\<lparr>wr_buf := [1, 2, 3]\<rparr>) NewDriver = (w2, d2, Inr url) \<and>
     ram_Open plain_url (bytes_of ''ram:a/b'') 3 d2 = Inr x \<and> AnonymousObject.truncate x = bytes_object [1, 2, 3]"
proof -
  let ?p = "[bytes_of ''a'', bytes_of ''b'']"
  obtain path where path: "urlToPath plain_url (bytes_of ''ram:a/b'') = Inr path" using sample_ram_name by (rule ram_nameE)
  have pe: "path = bytes_of ''a/b''"
    using path by (simp add: urlToPath_def plain_url_def zero_url_def bytes_of_def path_Clean_def slash_def dot_def dotdot_def HasPrefix_def)
  define w where "w = \<lparr>wr_url = pathToUrl plain_url path, wr_path = path, wr_buf = [] :: byte list, wr_state = stateCreating\<rparr>"
  have cr: "ram_Create plain_url (bytes_of ''ram:a/b'') NewDriver = Inr w"
    unfolding ram_Create_def path by (simp add: w_def path_segments_def pe bytes_of_def slash_def)
  have wr: "ram_Write w [1, 2, 3] NewDriver = (w\<lparr>wr_buf := [1, 2, 3]\<rparr>, NewDriver, None)"
    by (simp add: ram_Write_def w_def)
  have "snd (ram_commit NewDriver path [1, 2, 3]) = None"
    by (simp add: ram_commit_def path_segments_def pe bytes_of_def slash_def NewDriver_def rootIno_def newDirInode_def
        newDirectory_def dot_def dotdot_def dir_Set_def)
  then obtain w2 d2 where co: "ram_Commit (w\<lparr>wr_buf := [1, 2, 3]\<rparr>) NewDriver = (w2, d2, Inr (pathToUrl plain_url path))"
    by (cases "ram_commit NewDriver path [1, 2, 3]") (simp add: ram_Commit_def w_def)
  from ram_refines_map [OF NewDriver_ok sample_ram_name cr wr co]
  have "files d2 ?p = Some [1, 2, 3]" by simp
  with ram_refines_map [OF NewDriver_ok sample_ram_name cr wr co] sample_ram_name
  obtain x where "ram_Open plain_url (bytes_of ''ram:a/b'') 3 d2 = Inr x" "AnonymousObject.truncate x = bytes_object [1, 2, 3]"
    by fastforce
  then show ?thesis using cr co by blast
qed

section \<open>Removing\<close>

definition removed :: "ram \<Rightarrow> int \<Rightarrow> gostring \<Rightarrow> int \<Rightarrow> ram" where
  "removed d i n j = (dir_Delete n i d)\<lparr>inodes := (inodes (dir_Delete n i d))(j := None)\<rparr>"

lemma removed_child:
  assumes "i \<noteq> j"
  shows "child (removed d i n j) k m = (if k = j \<or> k = i \<and> m = n then None else child d k m)"
  using assms by (auto simp: child_def removed_def dir_Delete_def split: option.splits)

lemma removed_inodes:
  "inodes (removed d i n j) k = (if k = j then None else if k = i
     then map_option (\<lambda>it. it\<lparr>in_Dir := (in_Dir it)(n := None)\<rparr>) (inodes d i) else inodes d k)"
  by (simp add: removed_def dir_Delete_def)

lemma removed_ok:
  assumes ok: "ram_ok d" and n: "normal_segment n" "child d i n = Some j" "i \<noteq> j"
  shows "ram_ok (removed d i n j)"
proof -
  note c = removed_child [OF n(3), of d n]
  have next': "nextIno (removed d i n j) = nextIno d" by (simp add: removed_def dir_Delete_def)
  have root: "rootIno \<noteq> j" using ram_okD(5) [OF ok n(2,1)] by blast
  have old: "child d k m = Some l" if "child (removed d i n j) k m = Some l" for k m l using that by (simp add: c split: if_splits)
  show ?thesis
    unfolding ram_ok_def next'
  proof (intro conjI)
    show "rootIno < nextIno d" by (rule ram_okD(1) [OF ok])
    have "inodes d k \<noteq> None" if "inodes (removed d i n j) k = Some x" for k x
      using that by (auto simp: removed_inodes split: if_splits)
    then show "\<forall>k x. inodes (removed d i n j) k = Some x \<longrightarrow> k < nextIno d" using ram_okD(2) [OF ok] by blast
    show "child (removed d i n j) rootIno dot = Some rootIno" "child (removed d i n j) rootIno dotdot = Some rootIno"
      using ram_okD(3,4) [OF ok] root n(1) by (auto simp: c normal_segment_def)
    show "\<forall>k m l. child (removed d i n j) k m = Some l \<and> normal_segment m \<longrightarrow> l \<noteq> rootIno \<and> inodes (removed d i n j) l \<noteq> None"
    proof (intro allI impI, elim conjE)
      fix k m l assume a: "child (removed d i n j) k m = Some l" "normal_segment m"
      from ram_okD(5) [OF ok old [OF a(1)] a(2)] have l: "l \<noteq> rootIno" "inodes d l \<noteq> None" by blast+
      have "l \<noteq> j"
      proof
        assume "l = j"
        then have "k = i \<and> m = n" using ram_okD(6) [OF ok old [OF a(1)] _ a(2) n(1)] n(2) by blast
        then show False using a(1) by (simp add: c)
      qed
      then show "l \<noteq> rootIno \<and> inodes (removed d i n j) l \<noteq> None" using l by (cases "l = i") (auto simp: removed_inodes)
    qed
    show "\<forall>k m k' m' l. child (removed d i n j) k m = Some l \<and> child (removed d i n j) k' m' = Some l \<and>
        normal_segment m \<and> normal_segment m' \<longrightarrow> k = k' \<and> m = m'"
    proof (intro allI impI, elim conjE)
      fix k m k' m' l
      assume a: "child (removed d i n j) k m = Some l" "child (removed d i n j) k' m' = Some l" "normal_segment m" "normal_segment m'"
      show "k = k' \<and> m = m'" by (rule ram_okD(6) [OF ok old [OF a(1)] old [OF a(2)] a(3,4)])
    qed
    show "\<forall>k m l. child (removed d i n j) k m = Some l \<longrightarrow> m \<noteq> []" using old ram_okD(7) [OF ok] by blast
  qed
qed

lemma removed_walk:
  assumes ok: "ram_ok d" and n: "normal_segment n" "child d i n = Some j" "i \<noteq> j"
    and p: "walk_to d rootIno p = Some i" "list_all normal_segment p"
  shows "list_all normal_segment q \<Longrightarrow>
    walk_to (removed d i n j) rootIno q = (if prefix (p @ [n]) q then None else walk_to d rootIno q)"
proof (induction q rule: rev_induct)
  case (snoc m q)
  note c = removed_child [OF n(3), of d n]
  have nq: "list_all normal_segment q" "normal_segment m" using snoc.prems by simp_all
  show ?case
  proof (cases "prefix (p @ [n]) q")
    case True
    then have "walk_to (removed d i n j) rootIno q = None" using snoc.IH [OF nq(1)] by simp
    moreover have "prefix (p @ [n]) (q @ [m])" using True by simp
    ultimately show ?thesis unfolding walk_to_simps(2) by simp
  next
    case False
    have ih: "walk_to (removed d i n j) rootIno q = walk_to d rootIno q" using snoc.IH [OF nq(1)] False by simp
    have pre: "prefix (p @ [n]) (q @ [m]) \<longleftrightarrow> q = p \<and> m = n" using False by auto
    show ?thesis
    proof (cases "walk_to d rootIno q")
      case None
      then have "q \<noteq> p" using p(1) by auto
      then show ?thesis unfolding walk_to_simps(2) ih None pre by simp
    next
      case (Some k)
      have k: "k = i \<longleftrightarrow> q = p" using walk_inj [OF ok Some _ nq(1) p(2)] p(1) Some by auto
      have "k \<noteq> j"
      proof
        assume "k = j"
        then have "walk_to d rootIno (p @ [n]) = Some k" using p(1) n(2) by simp
        from walk_inj [OF ok Some this nq(1)] have "q = p @ [n]" using p(2) n(1) by simp
        then show False using False by simp
      qed
      then show ?thesis unfolding walk_to_simps(2) ih Some pre using k by (simp add: c)
    qed
  qed
qed simp

lemma removed_files:
  assumes "ram_ok d" "normal_segment n" "child d i n = Some j" "i \<noteq> j" "walk_to d rootIno p = Some i" "list_all normal_segment p"
  shows "files (removed d i n j) = (\<lambda>q. if prefix (p @ [n]) q then None else files d q)"
proof
  fix q
  show "files (removed d i n j) q = (if prefix (p @ [n]) q then None else files d q)"
  proof (cases "list_all normal_segment q")
    case True
    note w = removed_walk [OF assms True]
    show ?thesis
    proof (cases "prefix (p @ [n]) q \<or> walk_to d rootIno q = None")
      case True
      then show ?thesis using w by (auto simp: files_def)
    next
      case False
      then obtain k where k: "walk_to d rootIno q = Some k" by auto
      have "k \<noteq> j"
      proof
        assume "k = j"
        then have "walk_to d rootIno (p @ [n]) = Some k" using assms(3,5) by simp
        from walk_inj [OF assms(1) k this True] have "q = p @ [n]" using assms(2,6) by simp
        then show False using False by simp
      qed
      then have "Option.bind (inodes (removed d i n j) k) (\<lambda>it. if in_IsDir it then None else Some (in_File it)) =
          Option.bind (inodes d k) (\<lambda>it. if in_IsDir it then None else Some (in_File it))"
        by (cases "k = i"; cases "inodes d k"; simp add: removed_inodes)
      then show ?thesis using w False k True by (simp add: files_def)
    qed
  qed (simp add: files_def)
qed

text \<open>The root is taken out like any other directory.\<close>

lemma Remove_root:
  assumes "ram_ok d" "ram_name U url = Some []" "ram_Remove U url d = (d', err)"
  shows "err = None \<and> (urlToPath U url' = Inr path' \<longrightarrow> ram_Open U url' sz d' = Inl (Panic ''nil pointer''))"
proof -
  obtain path where path: "urlToPath U url = Inr path" using assms(2) by (rule ram_nameE)
  obtain f where f: "traverse d rootIno (split_slash path) = Inr f" "fo_Ino f = rootIno"
    using traverse_root [OF assms(1,2) path] by auto
  then have rm: "d' = removed d (fo_Parent f) (fo_Name f) rootIno \<and> err = None"
    using assms(3) path by (simp add: ram_Remove_def removed_def Let_def)
  then have "inodes d' rootIno = None" by (simp add: removed_inodes)
  then have "traverse d' rootIno (split_slash s) = Inl (Panic ''nil pointer'')" for s
    by (cases "split_slash s") simp_all
  then show ?thesis using rm by (simp add: ram_Open_def ram_open_def)
qed

lemma Remove_path:
  assumes "ram_ok d" "ram_name U url = Some p" "p \<noteq> []" "ram_Remove U url d = (d', err)"
  shows "ram_ok d' \<and> (if err = None then files d' = (\<lambda>q. if prefix p q then None else files d q) else d' = d)"
proof -
  obtain path where path: "urlToPath U url = Inr path" and norm: "list_all normal_segment p" using assms(2) by (rule ram_nameE)
  have t: "traverse d rootIno (split_slash path) = traverse d rootIno p" using traverse_root [OF assms(1,2) path] assms(3) by simp
  note w = traverse_walk [OF assms(1) _ _ norm assms(3), of "[]" rootIno, unfolded append_Nil]
  show ?thesis
  proof (cases "traverse d rootIno p")
    case (Inl e)
    then have "d' = d \<and> err = Some e" using assms(4) path t by (simp add: ram_Remove_def)
    then show ?thesis using assms(1) by simp
  next
    case (Inr f)
    have sp: "butlast p @ [last p] = p" using assms(3) by simp
    have nn: "list_all normal_segment (butlast p)" "normal_segment (last p)"
      using norm assms(3) by (auto simp: list_all_iff dest: in_set_butlastD)
    have wf: "walk_to d rootIno p = Some (fo_Ino f)" "walk_to d rootIno (butlast p) = Some (fo_Parent f)" "fo_Name f = last p"
      using w Inr by simp_all
    have "walk_to d rootIno (butlast p @ [last p]) = Some (fo_Ino f)" unfolding sp by (rule wf(1))
    then have ch: "child d (fo_Parent f) (last p) = Some (fo_Ino f)" unfolding walk_to_simps(2) wf(2) by simp
    have ne: "fo_Parent f \<noteq> fo_Ino f"
    proof
      assume "fo_Parent f = fo_Ino f"
      then have "walk_to d rootIno (butlast p) = Some (fo_Ino f)" using wf(2) by simp
      from walk_inj [OF assms(1) wf(1) this norm nn(1)] have "length p = length p - 1" by (metis length_butlast)
      then show False using assms(3) by (cases p) simp_all
    qed
    have "d' = removed d (fo_Parent f) (last p) (fo_Ino f) \<and> err = None"
      using assms(4) path t Inr wf(3) by (simp add: ram_Remove_def removed_def Let_def)
    then show ?thesis
      using removed_ok [OF assms(1) nn(2) ch ne] removed_files [OF assms(1) nn(2) ch ne wf(2) nn(1)] unfolding sp by simp
  qed
qed

text \<open>C33:
  \<open>Remove\<close> takes the path that a URL names out of the map, with everything below it, whether it
  is a file or a directory that has entries, or fails and changes nothing.  It does not refuse
  the root: then the root's inode is gone, and every later \<open>Open\<close> of a path panics.
\<close>

theorem ram_Remove_files:
  assumes "ram_ok d" "ram_name U url = Some p" "ram_Remove U url d = (d', err)"
  shows "if p \<noteq> [] then
      ram_ok d' \<and> (if err = None then files d' = (\<lambda>q. if prefix p q then None else files d q) else d' = d)
    else err = None \<and> (\<forall>url' path sz. urlToPath U url' = Inr path \<longrightarrow> ram_Open U url' sz d' = Inl (Panic ''nil pointer''))"
  using Remove_path [OF assms(1,2) _ assms(3)] Remove_root [OF assms(1) _ assms(3)] assms(2) by auto

theorem ram_Remove_files_witness:
  "\<exists>d'. ram_Remove plain_url (bytes_of ''ram:/'') NewDriver = (d', None) \<and>
     ram_Open plain_url (bytes_of ''ram:a/b'') 3 d' = Inl (Panic ''nil pointer'')"
proof -
  obtain d' err where r: "ram_Remove plain_url (bytes_of ''ram:/'') NewDriver = (d', err)" by fastforce
  have n: "ram_name plain_url (bytes_of ''ram:/'') = Some []"
    by (simp add: ram_name_def urlToPath_def plain_url_def zero_url_def bytes_of_def path_Clean_def slash_def dot_def dotdot_def HasPrefix_def)
  obtain path where path: "urlToPath plain_url (bytes_of ''ram:a/b'') = Inr path" using sample_ram_name by (rule ram_nameE)
  show ?thesis using ram_Remove_files [OF NewDriver_ok n r] r path by auto
qed

end
