(* ===== verification/DiscBuild.thy ===== *)
theory DiscBuild
  imports DiscLoad Ram TwoFiles
begin

text \<open>
  A disc from end to end: \<open>Build\<close> writes two objects to the storage, and \<open>Load\<close> reads them back.
  What the builder needs of the storage is an interface, which the ram driver provides.
\<close>

section \<open>Storage that keeps what is committed\<close>

text \<open>
  \<open>holds s url c\<close>: opening the URL in the state gives an object of the bytes.  URLs with one
  \<open>addr\<close> name one object; \<open>curl\<close> is the URL that a committed writer reports.
\<close>

locale object_store =
  fixes holds :: "'s \<Rightarrow> gostring \<Rightarrow> byte list \<Rightarrow> bool"
    and addr :: "gostring \<Rightarrow> 'a"
    and ok :: "'s \<Rightarrow> bool"
    and create :: "gostring \<Rightarrow> 's \<Rightarrow> goerr + 'w"
    and W :: "('s, 'w) ObjectWriter"
    and curl :: "gostring \<Rightarrow> gostring"
  assumes put: "ok s \<Longrightarrow> create url s = Inr w \<Longrightarrow> ow_Write W w data s = (w1, s1, None) \<Longrightarrow>
      ow_Commit W w1 s1 = (w2, s2, Inr u) \<Longrightarrow>
      ok s2 \<and> u = curl url \<and> (\<forall>v. addr v = addr url \<longrightarrow> holds s2 v data) \<and>
      (\<forall>v c. addr v \<noteq> addr url \<longrightarrow> holds s v c \<longrightarrow> holds s2 v c)"
    and abort: "snd (ow_Abort W w s) = s"
begin

lemma two_objects:
  assumes "ok s" "create url s = Inr w" "ow_Write W w data s = (w1, s1, None)" "ow_Commit W w1 s1 = (w2, s2, Inr u)"
    and "create url' s2 = Inr x" "ow_Write W x data' s2 = (x1, s3, None)" "ow_Commit W x1 s3 = (x2, s4, Inr u')"
    and "addr url \<noteq> addr url'"
  shows "u = curl url" "addr v = addr url \<Longrightarrow> holds s4 v data" "addr v = addr url' \<Longrightarrow> holds s4 v data'"
    "addr v \<noteq> addr url \<Longrightarrow> addr v \<noteq> addr url' \<Longrightarrow> holds s v c \<Longrightarrow> holds s4 v c"
proof -
  note a = put [OF assms(1-4)]
  then have "ok s2" by simp
  note b = put [OF this assms(5-7)]
  show "u = curl url" using a by simp
  show "addr v = addr url \<Longrightarrow> holds s4 v data" using a b assms(8) by metis
  show "addr v = addr url' \<Longrightarrow> holds s4 v data'" using b by blast
  show "addr v \<noteq> addr url \<Longrightarrow> addr v \<noteq> addr url' \<Longrightarrow> holds s v c \<Longrightarrow> holds s4 v c" using a b by blast
qed

end

section \<open>The ram driver\<close>

definition ram_writer_ops :: "(ram, ram_writer) ObjectWriter" where
  "ram_writer_ops = \<lparr>ow_Write = ram_Write, ow_Commit = ram_Commit, ow_Abort = ram_Abort\<rparr>"

definition ram_drivers ::
  "((gostring \<rightharpoonup> int) \<Rightarrow> (gostring \<times> int) list) \<Rightarrow> url_ops \<Rightarrow> (ram, ram_writer) drivers" where
  "ram_drivers rng U = [(bytes_of ''ram'', ram_driver rng U), (bytes_of ''zero'', zero_driver U)]"

definition ram_curl :: "url_ops \<Rightarrow> gostring \<Rightarrow> gostring" where
  "ram_curl U url = (case urlToPath U url of Inl e \<Rightarrow> [] | Inr path \<Rightarrow> pathToUrl U path)"

lemma scheme_names: "bytes_of ''ram'' \<noteq> bytes_of ''zero''" "bytes_of ''ram'' \<noteq> []" "bytes_of ''zero'' \<noteq> []"
  "bytes_of ''file'' \<noteq> bytes_of ''ram''" "bytes_of ''file'' \<noteq> bytes_of ''zero''"
  by (simp_all add: bytes_of_def)

lemma Find_ram:
  assumes "url_Parse U url = Inr u" "u_Scheme u = bytes_of ''ram''"
  shows "Find U (ram_drivers rng U) url = Inr (ram_driver rng U)"
  using assms scheme_names by (simp add: Find_def ram_drivers_def)

lemma Find_zero:
  assumes "url_Parse U url = Inr u" "u_Scheme u = bytes_of ''zero''"
  shows "Find U (ram_drivers rng U) url = Inr (zero_driver U)"
  using assms scheme_names by (simp add: Find_def ram_drivers_def)

lemma Find_drivers:
  assumes "Find U (ram_drivers rng U) url = Inr drv"
  shows "drv = ram_driver rng U \<or> drv = zero_driver U"
  using assms by (auto simp: Find_def ram_drivers_def Let_def split: sum.splits if_splits)

lemma ram_name_scheme:
  assumes "ram_name U url = Some p"
  shows "\<exists>u. url_Parse U url = Inr u \<and> u_Scheme u = bytes_of ''ram''"
  using assms by (auto simp: ram_name_def urlToPath_def split: sum.splits if_splits)

lemma stores_cong:
  assumes "\<And>sz x. OpenContextSize U ds v sz s = Inr x \<Longrightarrow>
      \<exists>x'. OpenContextSize U ds v sz s' = Inr x' \<and> AnonymousObject.truncate x' = AnonymousObject.truncate x"
    and "stores U ds s v c"
  shows "stores U ds s' v c"
  using assms unfolding stores_def by metis

lemma ram_stores:
  assumes "ram_ok d" "ram_name U v = Some p" "files d p = Some c"
  shows "stores U (ram_drivers rng U) d v c"
proof -
  obtain u where u: "url_Parse U v = Inr u" "u_Scheme u = bytes_of ''ram''" using ram_name_scheme [OF assms(2)] by blast
  show ?thesis
    using Open_files [OF assms(1,2)] assms(3) bytes.read_object_axioms
    by (fastforce simp: stores_def OpenContextSize_def Find_ram [OF u] ram_driver_def)
qed

lemma ram_keeps:
  assumes ok: "ram_ok d" "ram_ok d'" and f: "\<And>q. ram_name U v = Some q \<Longrightarrow> files d' q = files d q"
    and s: "stores U (ram_drivers rng U) d v c"
  shows "stores U (ram_drivers rng U) d' v c"
proof (rule stores_cong [OF _ s])
  fix sz x assume o: "OpenContextSize U (ram_drivers rng U) v sz d = Inr x"
  then obtain drv where drv: "Find U (ram_drivers rng U) v = Inr drv" "drv_Open drv v sz d = Inr x"
    by (auto simp: OpenContextSize_def split: sum.splits)
  from Find_drivers [OF drv(1)]
  show "\<exists>x'. OpenContextSize U (ram_drivers rng U) v sz d' = Inr x' \<and> AnonymousObject.truncate x' = AnonymousObject.truncate x"
  proof
    assume "drv = zero_driver U"
    then show ?thesis using drv by (simp add: OpenContextSize_def zero_driver_def zero_Open_def)
  next
    assume r: "drv = ram_driver rng U"
    then have x: "ram_Open U v sz d = Inr x" using drv(2) by (simp add: ram_driver_def)
    then obtain q where q: "ram_name U v = Some q"
      by (auto simp: ram_Open_def ram_open_def ram_name_def split: sum.splits)
    note a = Open_files [OF ok(1) q, of sz] and b = Open_files [OF ok(2) q, of sz]
    obtain c' where c: "files d q = Some c'" "AnonymousObject.truncate x = bytes_object c'"
      using a x by (cases "files d q") auto
    then show ?thesis using b f [OF q] drv(1) r by (auto simp: OpenContextSize_def ram_driver_def)
  qed
qed

interpretation ram_store: object_store "stores U (ram_drivers rng U)" "ram_name U" ram_ok "Create U (ram_drivers rng U)"
  ram_writer_ops "ram_curl U" for U rng
proof
  fix d url w data w1 d1 w2 d2 u
  assume ok: "ram_ok d" and c: "Create U (ram_drivers rng U) url d = Inr w"
    and wr: "ow_Write ram_writer_ops w data d = (w1, d1, None)" "ow_Commit ram_writer_ops w1 d1 = (w2, d2, Inr u)"
  obtain drv where drv: "Find U (ram_drivers rng U) url = Inr drv"
    using c by (auto simp: Create_def CreateContext_def split: sum.splits)
  have cr: "ram_Create U url d = Inr w"
    using Find_drivers [OF drv] c drv by (auto simp: Create_def CreateContext_def ram_driver_def zero_driver_def)
  then obtain path where path: "urlToPath U url = Inr path" by (auto simp: ram_Create_def split: sum.splits)
  then obtain p where p: "ram_name U url = Some p" by (simp add: ram_name_def)
  have rw: "ram_Write w data d = (w1, d1, None)" "ram_Commit w1 d1 = (w2, d2, Inr u)"
    using wr by (simp_all add: ram_writer_ops_def)
  have f: "ram_ok d2" "files d2 = (files d)(p \<mapsto> data)" using ram_put [OF ok p cr rw] by simp_all
  have "u = pathToUrl U path"
    using cr rw path by (auto simp: ram_Create_def ram_Write_def ram_Commit_def split: if_splits prod.splits option.splits)
  then have "u = ram_curl U url" using path by (simp add: ram_curl_def)
  moreover have "stores U (ram_drivers rng U) d2 v data" if "ram_name U v = ram_name U url" for v
    by (rule ram_stores [OF f(1), of U v p]) (use that p f(2) in simp_all)
  moreover have "stores U (ram_drivers rng U) d2 v c" if "ram_name U v \<noteq> ram_name U url" "stores U (ram_drivers rng U) d v c" for v c
    by (rule ram_keeps [OF ok f(1) _ that(2)]) (use that(1) p f(2) in simp)
  ultimately show "ram_ok d2 \<and> u = ram_curl U url \<and>
      (\<forall>v. ram_name U v = ram_name U url \<longrightarrow> stores U (ram_drivers rng U) d2 v data) \<and>
      (\<forall>v c. ram_name U v \<noteq> ram_name U url \<longrightarrow> stores U (ram_drivers rng U) d v c \<longrightarrow> stores U (ram_drivers rng U) d2 v c)"
    using f(1) by blast
next
  show "snd (ow_Abort ram_writer_ops w d) = d" for w d by (simp add: ram_writer_ops_def ram_Abort_def)
qed


section \<open>A build that succeeds\<close>

lemma Build_success:
  assumes "Build U ds W C p up T Q R IQ rng b s = Some (b', s', Inr durl)"
    and "WriteMetadataTo p up T Q R (b_volume b) = Some (v, out, None)" "\<And>w s. snd (ow_Abort W w s) = s"
  obtains w w1 s1 w2 s2 u mu m raw x x1 s3 x2 where
    "Create U ds (b_cfg_URL b @ bytes_of ''.isohdr'') s = Inr w" "ow_Write W w out s = (w1, s1, None)"
    "ow_Commit W w1 s1 = (w2, s2, Inr u)" "url_Parse U u = Inr mu"
    "build_message T R IQ rng v (b_numFiles b) (metadata_key U mu) (int (length out)) = Some (Inr m)"
    "Create U ds (b_cfg_URL b) s2 = Inr x" "cd_Marshal C m = Inr raw" "ow_Write W x (cd_gzip C raw) s2 = (x1, s3, None)"
    "ow_Commit W x1 s3 = (x2, s', Inr durl)" "b' = b\<lparr>b_volume := v\<rparr>"
  using assms(1,3)
  by (auto simp: Build_def Let_def assms(2) split: sum.splits option.splits prod.splits if_splits bind_splits)

text \<open>What the written volume says of its files.\<close>

lemma written_starts:
  assumes "treemap_laws T" "writable p T v" "p RuneError" "queue_laws Q items" "queue_laws R ritems"
    and "visited_files T (v_heap v) (v_root v) fs" "distinct (map rel_Child fs)" "list_all2 (file_holds (v_heap v)) fs cs"
    and "length (concat (map slot cs)) < 2047 * 2 ^ 32"
  shows "\<exists>v' out. WriteMetadataTo p up T Q R v = Some (v', out, None) \<and> slot out = out \<and> sectors (out # cs) < 2 ^ 32 \<and>
    moved (v_heap v) (v_heap v') \<and> v_root v' = v_root v \<and> (\<forall>r \<in> set fs. \<exists>f. v_heap v' ! rel_Child r = FileI f) \<and>
    (\<forall>i < length fs. f_start (file_at (v_heap v') (fs ! i)) = of_nat (sectors (take (Suc i) (out # cs))) \<and>
       Size (f_o (file_at (v_heap v') (fs ! i))) = int (length (cs ! i)) \<and>
       f_o (file_at (v_heap v') (fs ! i)) = f_o (file_at (v_heap v) (fs ! i)))"
proof -
  obtain v' out where w: "WriteMetadataTo p up T Q R v = Some (v', out, None)" "length out < 2 ^ 32" "0 < length out"
    "2048 dvd length out" "moved (v_heap v) (v_heap v')" "v_root v' = v_root v"
    "files_placed (v_heap v') (of_nat (length out div 2048)) fs (VolumeSpaceSize (v_pvd v'))"
    "list_all2 (file_holds (v_heap v')) fs cs"
    using written_files [where p = p and up = up, OF assms] by blast
  have so: "slot out = out" using w(3,4) pad_out_id [of out] by (auto simp: slot_def)
  have len: "length out + length (concat (map slot cs)) < 2048 * 2 ^ 32" using w(2) assms(9) by simp
  have sc: "length out + length (concat (map slot (take i cs))) = 2048 * sectors (take (Suc i) (out # cs))" for i
    using sectors_length [of "out # take i cs"] so by simp
  have total: "sectors (out # cs) < 2 ^ 32" using sectors_length [of "out # cs"] so len by simp
  have "f_start (file_at (v_heap v') (fs ! i)) = of_nat (sectors (take (Suc i) (out # cs)))" if i: "i < length fs" for i
  proof -
    have "unat (f_start (file_at (v_heap v') (fs ! i))) = sectors (take (Suc i) (out # cs))"
      using files_placed_start [OF w(7,8,4) len i] sc [of i] by simp
    then show ?thesis by (metis of_nat_unat ucast_id)
  qed
  moreover have "Size (f_o (file_at (v_heap v') (fs ! i))) = int (length (cs ! i)) \<and>
      f_o (file_at (v_heap v') (fs ! i)) = f_o (file_at (v_heap v) (fs ! i)) \<and> (\<exists>f. v_heap v' ! rel_Child (fs ! i) = FileI f)"
    if i: "i < length fs" for i
  proof -
    obtain f where f: "v_heap v ! rel_Child (fs ! i) = FileI f" "read_object (AnonymousObject.truncate (f_o f)) (cs ! i)"
      using assms(8) i by (auto simp: list_all2_conv_all_nth file_holds_def)
    have "rel_Child (fs ! i) < length (v_heap v)"
      using visited_valid [OF _ assms(6)] assms(2) i by (simp add: writable_def)
    from moved_file [OF w(5) this f(1)] show ?thesis
      using f read_object.size_content [OF f(2)] by (auto simp: file_at_def)
  qed
  ultimately show ?thesis using w(1,5,6) so total unfolding all_set_conv_all_nth by blast
qed

lemma sectors_mono:
  assumes "i < j" "j \<le> length cs"
  shows "sectors (take i cs) < sectors (take j cs)"
proof -
  have "take j cs = take i cs @ cs ! i # take (j - Suc i) (drop (Suc i) cs)"
    using assms by (metis (no_types, lifting) Cons_nth_drop_Suc diff_Suc_Suc le_add_diff_inverse less_le_trans less_or_eq_imp_le
        take_Suc_Cons take_add Suc_diff_Suc)
  then have "sectors (take j cs) = sectors (take i cs) + (length (slot (cs ! i)) div 2048 + sectors (take (j - Suc i) (drop (Suc i) cs)))"
    by (simp add: sectors_def)
  moreover have "0 < length (slot (cs ! i)) div 2048"
    using slot_pos [of "cs ! i"] dvd_imp_le [OF slot_aligned slot_pos, of "cs ! i"] by (simp add: div_greater_zero_iff)
  ultimately show ?thesis by simp
qed

lemma starts_distinct:
  assumes "sectors (out # cs) < 2 ^ 32" "length fs = length cs"
    and "\<forall>i < length fs. g (fs ! i) = of_nat (sectors (take (Suc i) (out # cs)))"
  shows "distinct ((0 :: u32) # map g fs)"
proof -
  let ?f = "\<lambda>i. sectors (take i (out # cs))"
  have le: "?f i < 2 ^ 32" if "i \<le> length (out # cs)" for i
    using that sectors_mono [of i "length (out # cs)" "out # cs"] assms(1) by (cases "i = length (out # cs)") auto
  have "0 # map g fs = map (\<lambda>i. of_nat (?f i)) [0..<Suc (length fs)]"
  proof (rule nth_equalityI)
    fix i assume "i < length (0 # map g fs)"
    then show "(0 # map g fs) ! i = map (\<lambda>i. of_nat (?f i)) [0..<Suc (length fs)] ! i"
      using assms(3) by (cases i) (simp_all del: upt_Suc take_Suc_Cons)
  qed simp
  moreover have "inj_on (\<lambda>i. of_nat (?f i) :: u32) {0..<Suc (length fs)}"
  proof (rule linorder_inj_onI')
    fix i j assume ij: "i \<in> {0..<Suc (length fs)}" "j \<in> {0..<Suc (length fs)}" "i < j"
    then have "?f i < ?f j" using sectors_mono assms(2) by simp
    moreover have "unat (of_nat (?f i) :: u32) = ?f i" "unat (of_nat (?f j) :: u32) = ?f j"
      using le [of i] le [of j] ij assms(2) by (simp_all add: unat_of_nat)
    ultimately show "(of_nat (?f i) :: u32) \<noteq> of_nat (?f j)" by (metis less_irrefl)
  qed
  ultimately show ?thesis by (simp add: distinct_map del: upt_Suc)
qed


section \<open>From the volume to the disc\<close>

definition file_urls :: "'m heap \<Rightarrow> Relationship list \<Rightarrow> gostring list" where
  "file_urls h fs = map (\<lambda>r. URL (f_o (file_at h r))) fs"

definition resolves :: "url_ops \<Rightarrow> net_url \<Rightarrow> gostring list \<Rightarrow> gostring list \<Rightarrow> bool" where
  "resolves U base = list_all2 (\<lambda>uri url. resolve_uri U base uri = Inr url)"

lemma uri_of_distinct:
  assumes "distinct us" "i < length us"
  shows "uri_of us i = us ! i"
proof -
  have "us = take i us @ us ! i # drop (Suc i) us" using assms(2) by (rule id_take_nth_drop)
  then have "us ! i \<notin> set (drop (Suc i) us)" using assms(1) by (metis distinct.simps(2) distinct_append)
  then show ?thesis by (simp add: uri_of_def)
qed

lemma disc_extents:
  assumes "distinct us" "length us = length cs" "length urls = length cs"
    and "says m key (int (length out)) (m_Extents m ! 0)"
    and "\<forall>i < length cs. says m (uri_of us i) (int (length (cs ! i))) (m_Extents m ! Suc i)"
    and "resolves U base (key # us) (murl # urls)" "stores U ds s murl out" "list_all2 (stores U ds s) urls cs"
    and i: "i < length (out # cs)"
  shows "says m ((key # us) ! i) (int (length ((out # cs) ! i))) (m_Extents m ! i) \<and>
    resolve_uri U base ((key # us) ! i) = Inr ((murl # urls) ! i) \<and> stores U ds s ((murl # urls) ! i) ((out # cs) ! i)"
proof (cases i)
  case 0
  then show ?thesis using assms(4,6,7) by (simp add: resolves_def)
next
  case (Suc j)
  then have j: "j < length cs" using i by simp
  then have "uri_of us j = us ! j" using uri_of_distinct [OF assms(1)] assms(2) by simp
  then have "says m (us ! j) (int (length (cs ! j))) (m_Extents m ! Suc j)" using assms(5) j by metis
  moreover have "list_all2 (\<lambda>uri url. resolve_uri U base uri = Inr url) us urls" using assms(6) by (simp add: resolves_def)
  then have "resolve_uri U base (us ! j) = Inr (urls ! j)" by (rule list_all2_nthD) (use j assms(2) in simp)
  moreover have "stores U ds s (urls ! j) (cs ! j)" using assms(8) j by (auto dest: list_all2_nthD2)
  ultimately show ?thesis using Suc by simp
qed

text \<open>The message of a written volume, with every object under its own URL.\<close>

lemma message_of_volume:
  assumes "volume_ok T v" "moved (v_heap v) (v_heap v')" "v_root v' = v_root v"
    and "queue_laws R ritems" "queue_laws IQ items" "range_order rng"
    and "visited_files T (v_heap v) (v_root v) fs" "length fs = length cs"
    and w: "sectors (out # cs) < 2 ^ 32" "\<forall>r \<in> set fs. \<exists>f. v_heap v' ! rel_Child r = FileI f"
      "\<forall>i < length fs. f_start (file_at (v_heap v') (fs ! i)) = of_nat (sectors (take (Suc i) (out # cs))) \<and>
         Size (f_o (file_at (v_heap v') (fs ! i))) = int (length (cs ! i)) \<and>
         f_o (file_at (v_heap v') (fs ! i)) = f_o (file_at (v_heap v) (fs ! i))"
    and "list_all valid_utf8 (key # file_urls (v_heap v) fs)" "key \<notin> set (file_urls (v_heap v) fs)"
    and "sint (numFiles + 1) = int (length fs) + 1"
    and "build_message T R IQ rng v' numFiles key (int (length out)) = Some (Inr m)"
  shows "m_BlockSize m = 2048 \<and> length (m_Extents m) = Suc (length fs) \<and>
    says m key (int (length out)) (m_Extents m ! 0) \<and>
    (\<forall>i < length fs. says m (uri_of (file_urls (v_heap v) fs) i) (int (length (cs ! i))) (m_Extents m ! Suc i))"
proof -
  have us: "file_urls (v_heap v) fs = map (\<lambda>r. URL (f_o (file_at (v_heap v') r))) fs"
    using w(3) by (intro nth_equalityI) (simp_all add: file_urls_def)
  have "distinct (0 # map (\<lambda>r. f_start (file_at (v_heap v') r)) fs)"
    by (rule starts_distinct [OF w(1)]) (use assms(8) w(3) in simp_all)
  from built_message [OF assms(1-7) w(2) us assms(12,13) refl this assms(14,15)]
  obtain x0 es where m: "m_BlockSize m = 2048" "m_Extents m = x0 # es" "says m key (int (length out)) x0" "length es = length fs"
    "\<forall>i < length fs. says m (uri_of (file_urls (v_heap v) fs) i) (Size (f_o (file_at (v_heap v') (fs ! i)))) (es ! i)"
    by blast
  have "says m (uri_of (file_urls (v_heap v) fs) i) (int (length (cs ! i))) (es ! i)" if "i < length fs" for i
    using m(5) w(3) that by metis
  then show ?thesis using m by simp
qed

text \<open>C1:
  A disc that has been built can be loaded, and shows what it was built from.  The storage keeps
  what is committed, under the URL it was created with; the URLs of the files are different from
  one another and from that of the metadata, and relative to the URL from which the disc is loaded
  they name the files' objects.  Then \<open>Load\<close> succeeds; the image is the metadata of the volume
  followed by the files, each padded to whole sectors; and at the address that the volume gives a
  file, \<open>OpenExtent\<close> opens an object that holds the file's bytes and \<open>ExtentURL\<close> is the file's URL.
\<close>

theorem built_disc_loads:
  assumes v: "treemap_laws T" "writable p T (b_volume b)" "p RuneError" "queue_laws Q items" "queue_laws R ritems"
      "visited_files T (v_heap (b_volume b)) (v_root (b_volume b)) fs" "distinct (map rel_Child fs)"
      "list_all2 (file_holds (v_heap (b_volume b))) fs cs" "length (concat (map slot cs)) < 2047 * 2 ^ 32"
    and lib: "queue_laws IQ iitems" "range_order rng" "codec_laws C" "btree_laws B" "\<And>n. mset (sched n) = mset [0..<n]"
      "transparent wc" "\<And>s. opens_zeros U ds s"
    and store: "object_store (stores U ds) addr ok (Create U ds) W curl" "ok s"
    and build: "Build U ds W C p up T Q R IQ rng b s = Some (b', s', Inr durl)"
      "sint (b_numFiles b + 1) = int (length fs) + 1"
    and meta: "url_Parse U (curl (b_cfg_URL b @ bytes_of ''.isohdr'')) = Inr mu" "key = metadata_key U mu"
      "addr (b_cfg_URL b @ bytes_of ''.isohdr'') \<noteq> addr (b_cfg_URL b)"
    and names: "list_all valid_utf8 (key # file_urls (v_heap (b_volume b)) fs)" "distinct (key # file_urls (v_heap (b_volume b)) fs)"
      "url_Parse U url = Inr base" "resolves U base (key # file_urls (v_heap (b_volume b)) fs) (murl # urls)"
      "addr url = addr (b_cfg_URL b)" "addr murl = addr (b_cfg_URL b @ bytes_of ''.isohdr'')"
    and files: "list_all2 (stores U ds s) urls cs"
      "\<And>u. u \<in> set urls \<Longrightarrow> addr u \<noteq> addr (b_cfg_URL b) \<and> addr u \<noteq> addr (b_cfg_URL b @ bytes_of ''.isohdr'')"
  shows "\<exists>out d. WriteMetadataTo p up T Q R (b_volume b) = Some (b_volume b', out, None) \<and>
    Load U ds C B sched wc url s' = Some (Inr d) \<and> read_object (vd_image d) (out @ concat (map slot cs)) \<and>
    (\<forall>i < length fs.
       (\<exists>x. OpenExtent U ds s' wc d (f_start (file_at (v_heap (b_volume b')) (fs ! i))) = Inr x \<and>
          read_object (AnonymousObject.truncate x) (cs ! i)) \<and>
       ExtentURL U d (f_start (file_at (v_heap (b_volume b')) (fs ! i))) = Some (Inr (urls ! i)))"
proof -
  let ?us = "file_urls (v_heap (b_volume b)) fs"
  obtain v' out where w: "WriteMetadataTo p up T Q R (b_volume b) = Some (v', out, None)" "slot out = out"
    "moved (v_heap (b_volume b)) (v_heap v')" "v_root v' = v_root (b_volume b)"
    and ws: "sectors (out # cs) < 2 ^ 32" "\<forall>r \<in> set fs. \<exists>f. v_heap v' ! rel_Child r = FileI f"
      "\<forall>i < length fs. f_start (file_at (v_heap v') (fs ! i)) = of_nat (sectors (take (Suc i) (out # cs))) \<and>
         Size (f_o (file_at (v_heap v') (fs ! i))) = int (length (cs ! i)) \<and>
         f_o (file_at (v_heap v') (fs ! i)) = f_o (file_at (v_heap (b_volume b)) (fs ! i))"
    using written_starts [where p = p and up = up, OF v] by blast
  obtain w0 w1 s1 w2 s2 u mu' m raw x x1 s3 x2 where st: "Create U ds (b_cfg_URL b @ bytes_of ''.isohdr'') s = Inr w0"
      "ow_Write W w0 out s = (w1, s1, None)" "ow_Commit W w1 s1 = (w2, s2, Inr u)" "Create U ds (b_cfg_URL b) s2 = Inr x"
      "ow_Write W x (cd_gzip C raw) s2 = (x1, s3, None)" "ow_Commit W x1 s3 = (x2, s', Inr durl)"
    and bm: "url_Parse U u = Inr mu'" "build_message T R IQ rng v' (b_numFiles b) (metadata_key U mu') (int (length out)) = Some (Inr m)"
      "cd_Marshal C m = Inr raw" "b' = b\<lparr>b_volume := v'\<rparr>"
    by (rule Build_success [OF build(1) w(1) object_store.abort [OF store(1)]])
  note kept = object_store.two_objects [OF store st meta(3)]
  have key: "metadata_key U mu' = key" using bm(1) meta(1,2) kept(1) by simp
  have vol: "volume_ok T (b_volume b)" using v(2) by (simp add: writable_def)
  have len: "length fs = length cs" "length ?us = length fs" "length urls = length cs"
    using v(8) files(1) by (auto simp: file_urls_def dest: list_all2_lengthD)
  note msg = message_of_volume [OF vol w(3,4) v(5) lib(1,2) v(6) len(1) ws names(1) _ build(2) bm(2) [unfolded key]]
  have "key \<notin> set ?us" using names(2) by simp
  note msg = msg [OF this]
  have "list_all2 (stores U ds s') urls cs"
    using files kept(4) unfolding list_all2_conv_all_nth by (metis nth_mem)
  note e = disc_extents [OF _ len(2) [unfolded len(1)] len(3) _ _ names(4) kept(2) [OF names(6)] this]
  from Load_shows [where keys = "key # ?us" and urls = "murl # urls" and cs = "out # cs", OF lib(3) bm(3) lib(4,5,6,7) kept(3) names(3) _ ws(1) _ _ _ e]
  obtain d where d: "Load U ds C B sched wc url s' = Some (Inr d)" "shows_disc U ds s' wc d (murl # urls) (out # cs)"
    using msg len names(2,5) by auto
  have img: "read_object (vd_image d) (out @ concat (map slot cs))" using d(2) w(2) by (simp add: shows_disc_def)
  have "(\<exists>x. OpenExtent U ds s' wc d (f_start (file_at (v_heap v') (fs ! i))) = Inr x \<and> read_object (AnonymousObject.truncate x) (cs ! i)) \<and>
      ExtentURL U d (f_start (file_at (v_heap v') (fs ! i))) = Some (Inr (urls ! i))" if i: "i < length fs" for i
  proof -
    have "Suc i < length (out # cs)" using i len by simp
    with d(2) ws(3) i show ?thesis unfolding shows_disc_def by (metis nth_Cons_Suc)
  qed
  then show ?thesis using w(1) d(1) img bm(4) by auto
qed


text \<open>C34:
  Of two files with the same URL the earlier is lost.  The trie keeps one value for a key, so no
  leaf has the address of the earlier file, and its extent is written with the zero value of the
  map of leaves: its URL is that of the empty reference, which is the URL of the disc itself.
\<close>

theorem duplicate_url_lost:
  assumes v: "treemap_laws T" "writable p T v" "p RuneError" "queue_laws Q items" "queue_laws R ritems"
      "visited_files T (v_heap v) (v_root v) fs" "distinct (map rel_Child fs)"
      "list_all2 (file_holds (v_heap v)) fs cs" "length (concat (map slot cs)) < 2047 * 2 ^ 32"
    and lib: "queue_laws IQ iitems" "range_order rng"
    and built: "WriteMetadataTo p up T Q R v = Some (v', out, None)" "sint (numFiles + 1) = int (length fs) + 1"
      "build_message T R IQ rng v' numFiles key (int (length out)) = Some (Inr m)"
    and names: "list_all valid_utf8 (key # file_urls (v_heap v) fs)" "key \<notin> set (file_urls (v_heap v) fs)"
    and dup: "i < j" "j < length fs" "file_urls (v_heap v) fs ! i = file_urls (v_heap v) fs ! j"
  shows "extent_URL U (new_extent base m (Suc i)) = Some (resolve_uri U base [])"
proof -
  let ?us = "file_urls (v_heap v) fs"
  obtain v1 out1 where w: "WriteMetadataTo p up T Q R v = Some (v1, out1, None)" "moved (v_heap v) (v_heap v1)" "v_root v1 = v_root v"
    and ws: "sectors (out1 # cs) < 2 ^ 32" "\<forall>r \<in> set fs. \<exists>f. v_heap v1 ! rel_Child r = FileI f"
      "\<forall>i < length fs. f_start (file_at (v_heap v1) (fs ! i)) = of_nat (sectors (take (Suc i) (out1 # cs))) \<and>
         Size (f_o (file_at (v_heap v1) (fs ! i))) = int (length (cs ! i)) \<and>
         f_o (file_at (v_heap v1) (fs ! i)) = f_o (file_at (v_heap v) (fs ! i))"
    using written_starts [where p = p and up = up, OF v] by blast
  have eq: "v1 = v'" "out1 = out" using w(1) built(1) by simp_all
  have vol: "volume_ok T v" using v(2) by (simp add: writable_def)
  have len: "length fs = length cs" "length ?us = length fs" using v(8) by (auto simp: file_urls_def dest: list_all2_lengthD)
  have i: "i < length fs" using dup by simp
  have "drop (Suc i) ?us ! (j - Suc i) = ?us ! j" "j - Suc i < length (drop (Suc i) ?us)" using dup len by simp_all
  then have "?us ! i \<in> set (drop (Suc i) ?us)" using dup(3) by (metis nth_mem)
  then have "uri_of ?us i = []" by (simp add: uri_of_def)
  with message_of_volume [OF vol w(2,3) v(5) lib v(6) len(1) ws names built(2) built(3) [folded eq]] i
  have "length (m_Extents m) = Suc (length fs)" "says m [] (int (length (cs ! i))) (m_Extents m ! Suc i)" by metis+
  then show ?thesis using i by (simp add: extent_URL_def new_extent_def says_def Let_def)
qed

section \<open>An example\<close>

definition zeros_at :: "gostring \<Rightarrow> nat \<Rightarrow> Object" where
  "zeros_at url n = WithURL (zero_object_of (int n)) url"

abbreviation z3 :: Object where "z3 \<equiv> zeros_at (bytes_of ''zero:3'') 3"
abbreviation z5 :: Object where "z5 \<equiv> zeros_at (bytes_of ''zero:5'') 5"

lemma zeros_at_simps [simp]: "Size (zeros_at url n) = int n" "URL (zeros_at url n) = url"
  "AnonymousObject.truncate (zeros_at url n) = zero_object_of (int n)"
  by (simp_all add: zeros_at_def WithURL_def zero_object_of_def AnonymousObject.defs)

lemma zeros_small: "n \<le> 2048 \<Longrightarrow> small_object (zeros_at url n)"
  by (simp add: small_object_def MaxPartSize_def)

lemma pair_files:
  assumes "n \<le> 2048" "k \<le> 2048"
  shows "list_all2 (file_holds (v_heap (pair_volume (zeros_at u n) (zeros_at v k)))) pair_rels [replicate n 0, replicate k 0]"
    "file_urls (v_heap (pair_volume (zeros_at u n) (zeros_at v k))) pair_rels = [u, v]"
  using assms zeros.read_object_axioms
  by (simp_all add: pair_rels_def pair_heap entry_rel_def file_holds_def pair_file_def MaxPartSize_def file_urls_def file_at_def
      numeral_2_eq_2)

lemma pair_slots:
  assumes "n \<le> 2048" "k \<le> 2048"
  shows "length (concat (map slot [replicate n (0 :: byte), replicate k 0])) < 2047 * 2 ^ 32"
proof -
  have "length (slot (replicate n (0 :: byte))) \<le> n + 2048" "length (slot (replicate k (0 :: byte))) \<le> k + 2048"
    using slot_rest [of "replicate n 0"] slot_rest [of "replicate k 0"] by simp_all
  then show ?thesis using assms by simp
qed


lemma pair_built:
  assumes "n \<le> 2048" "k \<le> 2048" "list_all valid_utf8 [key, u, w]"
  shows "\<exists>v' out m. WriteMetadataTo (\<lambda>r. True) (\<lambda>r. r) list_treemap list_queue list_queue (pair_volume (zeros_at u n) (zeros_at w k)) =
      Some (v', out, None) \<and>
    build_message list_treemap list_queue list_queue (\<lambda>n xs. xs) v' 2 key (int (length out)) = Some (Inr m)"
proof -
  let ?v = "pair_volume (zeros_at u n) (zeros_at w k)" and ?cs = "[replicate n (0 :: byte), replicate k 0]"
  have wr: "writable (\<lambda>r. True) list_treemap ?v" by (rule pair_writable) (use assms zeros_small in simp_all)
  note v = list_treemap_laws wr TrueI list_queue_laws list_queue_laws pair_visited pair_distinct pair_files(1) [OF assms(1,2)]
    pair_slots [OF assms(1,2)]
  obtain v' out where w: "WriteMetadataTo (\<lambda>r. True) (\<lambda>r. r) list_treemap list_queue list_queue ?v = Some (v', out, None)"
    "moved (v_heap ?v) (v_heap v')" "v_root v' = v_root ?v" "\<forall>r \<in> set pair_rels. \<exists>f. v_heap v' ! rel_Child r = FileI f"
    and ws: "sectors (out # ?cs) < 2 ^ 32" "\<forall>i < length pair_rels. f_start (file_at (v_heap v') (pair_rels ! i)) = of_nat (sectors (take (Suc i) (out # ?cs))) \<and>
         Size (f_o (file_at (v_heap v') (pair_rels ! i))) = int (length (?cs ! i)) \<and>
         f_o (file_at (v_heap v') (pair_rels ! i)) = f_o (file_at (v_heap ?v) (pair_rels ! i))"
    using written_starts [where up = "\<lambda>r. r", OF v] by blast
  have len: "length pair_rels = length ?cs" by (simp add: pair_rels_def)
  have us: "map (\<lambda>r. URL (f_o (file_at (v_heap v') r))) pair_rels = [u, w]"
  proof -
    have "f_o (file_at (v_heap v') r) = f_o (file_at (v_heap ?v) r)" if "r \<in> set pair_rels" for r
      using ws(2) that by (metis in_set_conv_nth)
    then show ?thesis using pair_files(2) [OF assms(1,2), of u w] by (simp add: file_urls_def cong: map_cong)
  qed
  have "volume_ok list_treemap ?v" by (rule pair_ok)
  moreover have "distinct (0 # map (\<lambda>r. f_start (file_at (v_heap v') r)) pair_rels)"
    by (rule starts_distinct [OF ws(1) len]) (use ws(2) in blast)
  moreover have "range_order (\<lambda>n xs. xs)" by (simp add: range_order_def)
  moreover have "sint (2 + 1 :: 32 word) = int (length pair_rels) + 1" by (simp add: pair_rels_def)
  moreover have "length pair_rels < 2 ^ 29" by (simp add: pair_rels_def)
  ultimately have "\<exists>m. build_message list_treemap list_queue list_queue (\<lambda>n xs. xs) v' 2 key (int (length out)) = Some (Inr m)"
    using message_built [OF _ w(2,3) list_queue_laws list_queue_laws _ pair_visited w(4) us [symmetric] assms(3) refl] by blast
  then show ?thesis using w(1) by blast
qed

lemma disc_names: "list_all valid_utf8 [bytes_of ''d.isohdr'', bytes_of ''zero:3'', bytes_of ''zero:5'']"
  by (simp add: bytes_of_def valid_utf8_ascii ascii_def)

theorem duplicate_url_lost_witness:
  "\<exists>v' out m base. WriteMetadataTo (\<lambda>r. True) (\<lambda>r. r) list_treemap list_queue list_queue (pair_volume z3 z3) = Some (v', out, None) \<and>
     build_message list_treemap list_queue list_queue (\<lambda>n xs. xs) v' 2 (bytes_of ''d.isohdr'') (int (length out)) = Some (Inr m) \<and>
     url_Parse plain_url (bytes_of ''ram:d'') = Inr base \<and>
     extent_URL plain_url (new_extent base m 1) = Some (Inr (bytes_of ''ram:d''))"
proof -
  let ?key = "bytes_of ''d.isohdr''" and ?v = "pair_volume z3 z3"
  obtain base where base: "url_Parse plain_url (bytes_of ''ram:d'') = Inr base" "resolve_uri plain_url base [] = Inr (bytes_of ''ram:d'')"
    by (simp add: plain_url_def bytes_of_def resolve_uri_def zero_url_def HasPrefix_def slash_def TrimPrefix_def)
  have names: "list_all valid_utf8 [?key, bytes_of ''zero:3'', bytes_of ''zero:3'']" using disc_names by simp
  obtain v' out m where w: "WriteMetadataTo (\<lambda>r. True) (\<lambda>r. r) list_treemap list_queue list_queue ?v = Some (v', out, None)"
    "build_message list_treemap list_queue list_queue (\<lambda>n xs. xs) v' 2 ?key (int (length out)) = Some (Inr m)"
    using pair_built [OF _ _ names, of 3 3] by auto
  have s: "3 \<le> (2048 :: nat)" by simp
  note files = pair_files [OF s s, of "bytes_of ''zero:3''" "bytes_of ''zero:3''"]
  have wr: "writable (\<lambda>r. True) list_treemap ?v" by (rule pair_writable) (use zeros_small in simp_all)
  have "extent_URL plain_url (new_extent base m (Suc 0)) = Some (resolve_uri plain_url base [])"
  proof (rule duplicate_url_lost [where i = 0 and j = 1, OF list_treemap_laws wr TrueI list_queue_laws list_queue_laws pair_visited
        pair_distinct files(1) pair_slots [OF s s] list_queue_laws _ w(1) _ w(2)])
    show "range_order (\<lambda>n xs. xs)" by (simp add: range_order_def)
    show "sint (2 + 1 :: 32 word) = int (length pair_rels) + 1" by (simp add: pair_rels_def)
    show "list_all valid_utf8 (?key # file_urls (v_heap ?v) pair_rels)" using names files(2) by simp
    show "?key \<notin> set (file_urls (v_heap ?v) pair_rels)" unfolding files(2) by (simp add: bytes_of_def)
    show "file_urls (v_heap ?v) pair_rels ! 0 = file_urls (v_heap ?v) pair_rels ! 1" unfolding files(2) by simp
  qed (simp_all add: pair_rels_def)
  then show ?thesis using w base by auto
qed


text \<open>A new file in the root of the ram driver.\<close>

lemma commit_new:
  assumes "inodes d rootIno = Some it" "in_IsDir it" "in_Dir it name = None" "nextIno d \<noteq> rootIno" "name \<noteq> []" "slash \<notin> set name"
  shows "\<exists>d'. ram_commit d name data = (d', None) \<and> inodes d' rootIno = Some (it\<lparr>in_Dir := (in_Dir it)(name \<mapsto> nextIno d)\<rparr>) \<and>
    nextIno d' = nextIno d + 1"
proof -
  have "path_segments name = [name]"
    using assms(5,6) split_join [of "[name]"] by (simp add: path_segments_def Let_def)
  then show ?thesis using assms by (simp add: ram_commit_def dir_Set_def Let_def)
qed

lemma sample_paths:
  "urlToPath plain_url (bytes_of ''ram:d.isohdr'') = Inr (bytes_of ''d.isohdr'')"
  "urlToPath plain_url (bytes_of ''ram:d'') = Inr (bytes_of ''d'')"
  by (simp_all add: urlToPath_def plain_url_def zero_url_def bytes_of_def path_Clean_def slash_def dot_def dotdot_def HasPrefix_def)

lemma sample_addrs:
  "ram_name plain_url (bytes_of ''ram:d.isohdr'') = Some [bytes_of ''d.isohdr'']"
  "ram_name plain_url (bytes_of ''ram:d'') = Some [bytes_of ''d'']"
  "ram_name plain_url (bytes_of ''zero:3'') = None" "ram_name plain_url (bytes_of ''zero:5'') = None"
  by (simp_all add: ram_name_def sample_paths) (simp_all add: urlToPath_def plain_url_def zero_url_def bytes_of_def slash_def dot_def dotdot_def)

lemma sample_parse:
  "url_Parse plain_url (bytes_of ''zero:'' @ s) = Inr (zero_url\<lparr>u_Scheme := bytes_of ''zero'', u_Opaque := s, u_Path := s\<rparr>)"
  "url_Parse plain_url (bytes_of ''ram:'' @ s) = Inr (zero_url\<lparr>u_Scheme := bytes_of ''ram'', u_Opaque := s, u_Path := s\<rparr>)"
  by (simp_all add: plain_url_def bytes_of_def)

lemma sample_opens:
  assumes "n < 2 ^ 63"
  shows "OpenContextSize plain_url (ram_drivers rng plain_url) (bytes_of ''zero:'' @ sprintf_d (int n)) sz s =
    Inr (zeros_at (bytes_of ''zero:'' @ sprintf_d (int n)) n)"
proof -
  have "zero_Open plain_url (bytes_of ''zero:'' @ sprintf_d (int n)) sz s = Inr (WithURL (zero_object_of (int n)) (bytes_of ''zero:'' @ sprintf_d (int n)))"
    by (rule zero_Open_object [OF sample_parse(1) _ _ assms]) simp_all
  then show ?thesis using Find_zero [OF sample_parse(1)] by (simp add: OpenContextSize_def zero_driver_def zeros_at_def)
qed

lemma sample_opens_zeros: "opens_zeros plain_url (ram_drivers rng plain_url) s"
  using sample_opens by (simp add: opens_zeros_def Open_def)

lemma sample_stores:
  "stores plain_url (ram_drivers rng plain_url) s (bytes_of ''zero:3'') (replicate 3 0)"
  "stores plain_url (ram_drivers rng plain_url) s (bytes_of ''zero:5'') (replicate 5 0)"
proof -
  have d: "bytes_of ''zero:3'' = bytes_of ''zero:'' @ sprintf_d (int 3)" "bytes_of ''zero:5'' = bytes_of ''zero:'' @ sprintf_d (int 5)"
    by (simp_all add: sprintf_d_def bytes_of_def decimal.simps)
  show "stores plain_url (ram_drivers rng plain_url) s (bytes_of ''zero:3'') (replicate 3 0)"
    "stores plain_url (ram_drivers rng plain_url) s (bytes_of ''zero:5'') (replicate 5 0)"
    unfolding d stores_def using sample_opens [of 3] sample_opens [of 5] zeros.read_object_axioms [of 3] zeros.read_object_axioms [of 5] by simp_all
qed

definition sample_builder :: "(gostring \<times> dirEntry) list builder" where
  "sample_builder = \<lparr>b_cfg_URL = bytes_of ''ram:d'', b_volume = pair_volume z3 z5, b_numFiles = 2\<rparr>"

text \<open>A codec that knows one message.\<close>

definition codec_of :: "VDiscV1 \<Rightarrow> codec" where
  "codec_of m = \<lparr>cd_Marshal = (\<lambda>m'. if m' = m then Inr [0] else Inl (Err ''marshal'')), cd_Unmarshal = (\<lambda>raw. Inr m),
     cd_gzip = (\<lambda>raw. gzip_header @ raw), cd_gunzip = (\<lambda>z. Inr (drop 4 z))\<rparr>"

lemma codec_of_laws: "codec_laws (codec_of m)"
  by (simp add: codec_laws_def codec_of_def gzip_header_def)


lemma sample_create:
  "Create plain_url (ram_drivers rng plain_url) (bytes_of ''ram:d.isohdr'') s =
     Inr \<lparr>wr_url = bytes_of ''ram:d.isohdr'', wr_path = bytes_of ''d.isohdr'', wr_buf = [], wr_state = stateCreating\<rparr>"
  "Create plain_url (ram_drivers rng plain_url) (bytes_of ''ram:d'') s =
     Inr \<lparr>wr_url = bytes_of ''ram:d'', wr_path = bytes_of ''d'', wr_buf = [], wr_state = stateCreating\<rparr>"
proof -
  have f: "Find plain_url (ram_drivers rng plain_url) (bytes_of ''ram:'' @ x) = Inr (ram_driver rng plain_url)" for x
    by (rule Find_ram [OF sample_parse(2)]) simp
  have d: "bytes_of ''ram:d.isohdr'' = bytes_of ''ram:'' @ bytes_of ''d.isohdr''" "bytes_of ''ram:d'' = bytes_of ''ram:'' @ bytes_of ''d''"
    by (simp_all add: bytes_of_def)
  have u: "pathToUrl plain_url x = bytes_of ''ram:'' @ x" for x
    by (simp add: pathToUrl_def plain_url_def zero_url_def bytes_of_def)
  have seg: "path_segments (bytes_of ''d.isohdr'') \<noteq> []" "path_segments (bytes_of ''d'') \<noteq> []"
    by (simp_all add: path_segments_def bytes_of_def slash_def)
  show "Create plain_url (ram_drivers rng plain_url) (bytes_of ''ram:d.isohdr'') s =
     Inr \<lparr>wr_url = bytes_of ''ram:d.isohdr'', wr_path = bytes_of ''d.isohdr'', wr_buf = [], wr_state = stateCreating\<rparr>"
    using f [of "bytes_of ''d.isohdr''"] sample_paths seg u [of "bytes_of ''d.isohdr''"] unfolding d(1) [symmetric]
    by (simp add: Create_def CreateContext_def ram_driver_def ram_Create_def)
  show "Create plain_url (ram_drivers rng plain_url) (bytes_of ''ram:d'') s =
     Inr \<lparr>wr_url = bytes_of ''ram:d'', wr_path = bytes_of ''d'', wr_buf = [], wr_state = stateCreating\<rparr>"
    using f [of "bytes_of ''d''"] sample_paths seg u [of "bytes_of ''d''"] unfolding d(2) [symmetric]
    by (simp add: Create_def CreateContext_def ram_driver_def ram_Create_def)
qed

lemma sample_commits:
  "\<exists>d1 d2. ram_commit NewDriver (bytes_of ''d.isohdr'') out = (d1, None) \<and> ram_commit d1 (bytes_of ''d'') raw = (d2, None)"
proof -
  let ?it = "newDirInode rootIno rootIno" and ?n = "bytes_of ''d.isohdr''"
  have n: "?n \<noteq> []" "slash \<notin> set ?n" "bytes_of ''d'' \<noteq> []" "slash \<notin> set (bytes_of ''d'')" "bytes_of ''d'' \<noteq> ?n"
    by (simp_all add: bytes_of_def slash_def)
  have it: "inodes NewDriver rootIno = Some ?it" "in_IsDir ?it" "in_Dir ?it ?n = None" "in_Dir ?it (bytes_of ''d'') = None"
      "nextIno NewDriver \<noteq> rootIno" "nextIno NewDriver + 1 \<noteq> rootIno"
    by (simp_all add: NewDriver_def rootIno_def newDirInode_def newDirectory_def bytes_of_def dot_def dotdot_def)
  from commit_new [OF it(1-3,5) n(1,2), of out] obtain d1 where d1: "ram_commit NewDriver ?n out = (d1, None)"
    "inodes d1 rootIno = Some (?it\<lparr>in_Dir := (in_Dir ?it)(?n \<mapsto> nextIno NewDriver)\<rparr>)" "nextIno d1 = nextIno NewDriver + 1"
    by blast
  from commit_new [OF d1(2) _ _ _ n(3,4), of raw] show ?thesis using d1(1,3) it n(5) by fastforce
qed

lemma sample_Build:
  "\<exists>C b' s'. codec_laws C \<and>
     Build plain_url (ram_drivers rng plain_url) ram_writer_ops C (\<lambda>r. True) (\<lambda>r. r) list_treemap list_queue list_queue list_queue
       (\<lambda>n xs. xs) sample_builder NewDriver = Some (b', s', Inr (bytes_of ''ram:d''))"
proof -
  have n: "3 \<le> (2048 :: nat)" "5 \<le> (2048 :: nat)" by simp_all
  obtain v' out m where w: "WriteMetadataTo (\<lambda>r. True) (\<lambda>r. r) list_treemap list_queue list_queue (pair_volume z3 z5) = Some (v', out, None)"
    "build_message list_treemap list_queue list_queue (\<lambda>n xs. xs) v' 2 (bytes_of ''d.isohdr'') (int (length out)) = Some (Inr m)"
    using pair_built [OF n disc_names] by blast
  obtain mu where mu: "url_Parse plain_url (bytes_of ''ram:d.isohdr'') = Inr mu" "metadata_key plain_url mu = bytes_of ''d.isohdr''"
    by (simp add: plain_url_def bytes_of_def metadata_key_def path_Base_def zero_url_def slash_def Let_def)
  obtain d1 d2 where c: "ram_commit NewDriver (bytes_of ''d.isohdr'') out = (d1, None)"
    "ram_commit d1 (bytes_of ''d'') (cd_gzip (codec_of m) [0]) = (d2, None)"
    using sample_commits by blast
  have i: "bytes_of ''ram:d'' @ bytes_of ''.isohdr'' = bytes_of ''ram:d.isohdr''" by (simp add: bytes_of_def)
  have "cd_Marshal (codec_of m) m = Inr [0]" by (simp add: codec_of_def)
  then have "\<exists>b' s'. Build plain_url (ram_drivers rng plain_url) ram_writer_ops (codec_of m) (\<lambda>r. True) (\<lambda>r. r) list_treemap list_queue
      list_queue list_queue (\<lambda>n xs. xs) sample_builder NewDriver = Some (b', s', Inr (bytes_of ''ram:d''))"
    using w mu c by (simp add: Build_def sample_builder_def i sample_create ram_writer_ops_def ram_Write_def ram_Commit_def
        ram_Abort_def Let_def)
  then show ?thesis using codec_of_laws by blast
qed


lemma sample_resolves:
  assumes "url_Parse plain_url (bytes_of ''ram:d'') = Inr base"
  shows "resolves plain_url base [bytes_of ''d.isohdr'', bytes_of ''zero:3'', bytes_of ''zero:5'']
     [bytes_of ''ram:d.isohdr'', bytes_of ''zero:3'', bytes_of ''zero:5'']"
  using assms by (auto simp: resolves_def resolve_uri_def plain_url_def bytes_of_def zero_url_def HasPrefix_def TrimPrefix_def
      slash_def Let_def)

theorem built_disc_loads_witness:
  "\<exists>C b' s' out d x. codec_laws C \<and>
     Build plain_url (ram_drivers (\<lambda>_. []) plain_url) ram_writer_ops C (\<lambda>r. True) (\<lambda>r. r) list_treemap list_queue list_queue list_queue
       (\<lambda>n xs. xs) sample_builder NewDriver = Some (b', s', Inr (bytes_of ''ram:d'')) \<and>
     Load plain_url (ram_drivers (\<lambda>_. []) plain_url) C list_btree (\<lambda>n. [0..<n]) (\<lambda>x. x) (bytes_of ''ram:d'') s' = Some (Inr d) \<and>
     read_object (vd_image d) (out @ concat (map slot [replicate 3 0, replicate 5 0])) \<and>
     OpenExtent plain_url (ram_drivers (\<lambda>_. []) plain_url) s' (\<lambda>x. x) d (f_start (file_at (v_heap (b_volume b')) (pair_rels ! 1))) = Inr x \<and>
     read_object (AnonymousObject.truncate x) (replicate 5 0)"
proof -
  let ?ds = "ram_drivers (\<lambda>_. []) plain_url" and ?key = "bytes_of ''d.isohdr''" and ?v = "b_volume sample_builder"
  let ?us = "[bytes_of ''zero:3'', bytes_of ''zero:5'']" and ?cs = "[replicate 3 0, replicate 5 0] :: byte list list"
  obtain C b' s' where C: "codec_laws C" and b: "Build plain_url ?ds ram_writer_ops C (\<lambda>r. True) (\<lambda>r. r) list_treemap list_queue
      list_queue list_queue (\<lambda>n xs. xs) sample_builder NewDriver = Some (b', s', Inr (bytes_of ''ram:d''))"
    using sample_Build by blast
  have sb: "b_cfg_URL sample_builder = bytes_of ''ram:d''" "?v = pair_volume z3 z5" "b_numFiles sample_builder = 2"
    by (simp_all add: sample_builder_def)
  have i: "bytes_of ''ram:d'' @ bytes_of ''.isohdr'' = bytes_of ''ram:d.isohdr''" by (simp add: bytes_of_def)
  have n: "3 \<le> (2048 :: nat)" "5 \<le> (2048 :: nat)" by simp_all
  note files = pair_files [OF n, of "bytes_of ''zero:3''" "bytes_of ''zero:5''"]
  obtain base where base: "url_Parse plain_url (bytes_of ''ram:d'') = Inr base" by (simp add: plain_url_def bytes_of_def)
  obtain mu where mu: "url_Parse plain_url (bytes_of ''ram:d.isohdr'') = Inr mu" "metadata_key plain_url mu = ?key"
    by (simp add: plain_url_def bytes_of_def metadata_key_def path_Base_def zero_url_def slash_def Let_def)
  have curl: "ram_curl plain_url (bytes_of ''ram:d.isohdr'') = bytes_of ''ram:d.isohdr''"
    by (simp add: ram_curl_def sample_paths) (simp add: pathToUrl_def plain_url_def zero_url_def bytes_of_def)
  have wr: "writable (\<lambda>r. True) list_treemap (pair_volume z3 z5)" by (rule pair_writable) (use zeros_small in simp_all)
  have dist: "distinct [?key, bytes_of ''zero:3'', bytes_of ''zero:5'']" "?key \<noteq> bytes_of ''d''" by (simp_all add: bytes_of_def)
  note v = list_treemap_laws wr [folded sb(2)] TrueI list_queue_laws list_queue_laws pair_visited [of z3 z5, folded sb(2)] pair_distinct
    files(1) [folded sb(2)] pair_slots [OF n] list_queue_laws
  have "\<exists>out d. WriteMetadataTo (\<lambda>r. True) (\<lambda>r. r) list_treemap list_queue list_queue ?v = Some (b_volume b', out, None) \<and>
    Load plain_url ?ds C list_btree (\<lambda>n. [0..<n]) (\<lambda>x. x) (bytes_of ''ram:d'') s' = Some (Inr d) \<and>
    read_object (vd_image d) (out @ concat (map slot ?cs)) \<and>
    (\<forall>i < length pair_rels.
       (\<exists>x. OpenExtent plain_url ?ds s' (\<lambda>x. x) d (f_start (file_at (v_heap (b_volume b')) (pair_rels ! i))) = Inr x \<and>
          read_object (AnonymousObject.truncate x) (?cs ! i)) \<and>
       ExtentURL plain_url d (f_start (file_at (v_heap (b_volume b')) (pair_rels ! i))) = Some (Inr (?us ! i)))"
  proof (rule built_disc_loads [where key = ?key and murl = "bytes_of ''ram:d.isohdr''" and mu = mu and base = base,
        OF v _ C list_btree_laws _ NopCache_transparent sample_opens_zeros ram_store.object_store_axioms NewDriver_ok b])
    show "range_order (\<lambda>n xs. xs)" by (simp add: range_order_def)
    show "sint (b_numFiles sample_builder + 1) = int (length pair_rels) + 1" by (simp add: sb pair_rels_def)
    show "list_all valid_utf8 (?key # file_urls (v_heap ?v) pair_rels)" "distinct (?key # file_urls (v_heap ?v) pair_rels)"
      unfolding files(2) [folded sb(2)] using disc_names dist(1) by blast+
    show "resolves plain_url base (?key # file_urls (v_heap ?v) pair_rels) (bytes_of ''ram:d.isohdr'' # ?us)"
      unfolding files(2) [folded sb(2)] by (rule sample_resolves [OF base])
    show "list_all2 (stores plain_url ?ds NewDriver) ?us ?cs" using sample_stores by simp
  qed (use mu curl base dist(2) in \<open>auto simp: sb i sample_addrs\<close>)
  then obtain out d where d: "Load plain_url ?ds C list_btree (\<lambda>n. [0..<n]) (\<lambda>x. x) (bytes_of ''ram:d'') s' = Some (Inr d)"
    "read_object (vd_image d) (out @ concat (map slot ?cs))"
    "\<forall>i < length pair_rels. \<exists>x. OpenExtent plain_url ?ds s' (\<lambda>x. x) d (f_start (file_at (v_heap (b_volume b')) (pair_rels ! i))) = Inr x \<and>
       read_object (AnonymousObject.truncate x) (?cs ! i)"
    by blast
  from d(3) have "\<exists>x. OpenExtent plain_url ?ds s' (\<lambda>x. x) d (f_start (file_at (v_heap (b_volume b')) (pair_rels ! 1))) = Inr x \<and>
       read_object (AnonymousObject.truncate x) (?cs ! 1)"
    by (rule allE [of _ 1]) (simp add: pair_rels_def)
  then show ?thesis using C b d(1,2) by (auto intro!: exI)
qed

end
