(* ===== verification/Spec2Isabelle.thy ===== *)
theory Spec2Isabelle
  imports Safecast Slices IsoText Pvd Walker DiskCache DiscBuild
begin

text \<open>
  Verification of vdisc, the program under \<open>src/\<close>.  A virtual disc is an ISO 9660 image whose files
  are not in it: the disc is a list of extents, each a URL and a size, and reading the image reads
  the objects at those URLs.  A builder makes a disc of a tree of files and links, a loader shows it
  as one object and by its extents, and a walker finds paths and lists directories in the image.

  \<^bold>\<open>The parts and their theories.\<close>  Paths are relative to \<open>src/pkg\<close>.

    \<^item> Shared vocabulary: \<open>Prelude\<close> (machine words, errors and panics as values, readers and
      writers), \<open>Utf8\<close> (runes, \<open>unicode/utf8\<close>, \<open>strings\<close>), \<open>Containers\<close> (queues and the order of
      map iteration, as parameters with laws), \<open>Objects\<close> (the interfaces of \<open>storage/driver/object.go\<close>
      as the locales \<open>read_object\<close> and \<open>seekable\<close>), \<open>SectionReader\<close> (\<open>io.SectionReader\<close>).
    \<^item> \<open>safecast\<close>, \<open>interval\<close>: the theories \<open>Safecast\<close> and \<open>Interval\<close>.
    \<^item> The encodings of \<open>iso9660\<close>: \<open>IoUtil\<close> (\<open>ioutil.go\<close>), \<open>IsoText\<close> (\<open>stra.go\<close>, \<open>strd.go\<close>), \<open>IsoNames\<close>
      (\<open>namevalidator.go\<close>, \<open>identifier.go\<close>), \<open>DateTime\<close> (\<open>datetime\<close>), \<open>SystemUse\<close> and \<open>RockRidge\<close>
      (\<open>susp\<close>, \<open>rrip\<close>), \<open>DirRecord\<close> (\<open>directoryrecord.go\<close>, \<open>directory.go\<close>), \<open>Pvd\<close> (\<open>pvd.go\<close>,
      \<open>terminator.go\<close>, \<open>pathtable.go\<close>), \<open>Continuation\<close> (\<open>continuation.go\<close>).
    \<^item> The volume being built: \<open>Inode\<close> (the three kinds of node, on a heap), \<open>DirInode\<close>
      (\<open>directoryinode.go\<close>), \<open>Volume\<close> (\<open>volume.go\<close>), \<open>FileLayout\<close> (its walks over the files and
      \<open>WriteTo\<close>).  What they do is in \<open>VolumeTree\<close> (the tree invariant and what adding does),
      \<open>Layout\<close>, \<open>LevelOrder\<close>, \<open>DirExtent\<close>, \<open>Passes\<close> (addresses assigned in one walk are where the
      other walk writes), \<open>Listing\<close>, \<open>Image\<close> (what a reader finds in the image); \<open>TwoFiles\<close> is an
      example.
    \<^item> Reading an image: \<open>Walk\<close> (continuation entries), \<open>ReadDir\<close> (the iterators of \<open>walk.go\<close>,
      \<open>fileinfo.go\<close>), \<open>Walker\<close> (lookup with its cache, links, \<open>Walk\<close>, \<open>file.go\<close>).
    \<^item> Storage: \<open>Concat\<close> and \<open>Slices\<close> (\<open>storage/concat.go\<close>, \<open>Slice\<close>), \<open>Storage\<close> (the registry, the
      calls of \<open>storage/storage.go\<close> and the zero driver), \<open>Ram\<close> (\<open>storage/ram\<close>).
    \<^item> \<open>caching\<close>: \<open>Caching\<close> (\<open>cache.go\<close>, \<open>mem.go\<close>), \<open>DiskCache\<close> (\<open>disk.go\<close>) and \<open>ReadAhead\<close>
      (\<open>readahead.go\<close>).
    \<^item> \<open>vdisc\<close>: \<open>Trie\<close> and \<open>TrieSize\<close> (\<open>trie.go\<close>), \<open>Vdisc\<close> (\<open>builder.go\<close>, \<open>loader.go\<close>, \<open>extent.go\<close>),
      \<open>Disc\<close> (what the built message says), \<open>DiscLoad\<close> (what is loaded from it), \<open>DiscBuild\<close> (both
      together, over a storage that keeps what is committed).

  \<^bold>\<open>How the code is modelled.\<close>

    \<^item> Fixed width integers of the encodings are words; a 32 bit block address wraps as in Go.  An
      \<open>int64\<close> offset, position or size is an unbounded integer: the code does no arithmetic on them
      that leaves 64 bits for objects of less than 8 EiB.
    \<^item> A string is its bytes, as in Go.  An error or a panic is a value of \<open>goerr\<close>; after a panic
      nothing else happens.  A loop that may not end is \<open>partial_function (option)\<close> and \<open>None\<close> is
      running for ever; that a function returns is proved where it is claimed.
    \<^item> A writer is the bytes written, an image a byte list; a counting writer's count is their
      length.  A reader that can fail is an \<open>AnonymousObject\<close>: its \<open>ReadAt\<close> maps a buffer and an
      offset to the buffer, a count and an error.
    \<^item> Nodes that point at each other live in a list and refer to each other by index.  Slices that
      share an array are modelled with the array where it matters, in \<open>Walk\<close> of \<open>Walker\<close>.
    \<^item> Goroutines and locks: every critical section is a step of a step relation (\<open>cache_step\<close>,
      \<open>ra_step\<close>, \<open>disk_step\<close>) or, for \<open>ConcurrentConcat\<close>, an order in which the workers finish.  The iteration
      order of a Go map is a parameter (\<open>range_order\<close>).
    \<^item> Code that is not in the repository is a parameter, with what is documented of it as a
      predicate: the tree map (\<open>treemap_laws\<close>), queues (\<open>queue_laws\<close>), the B-tree (\<open>btree_laws\<close>), the
      LRU caches (\<open>simplelru_laws\<close>, \<open>lru_laws\<close>), Cap'n Proto and gzip (\<open>codec_laws\<close>), the keys of the
      disk cache (\<open>keys_differ\<close>; its hashes have no law), \<open>net/url\<close> (\<open>url_ops\<close>, with no law), \<open>unicode.IsPrint\<close> and \<open>unicode.ToUpper\<close>.  Each predicate is proved
      of an instance, which the examples use.

  \<^bold>\<open>Interfaces.\<close>  \<open>read_object\<close> (an object of given bytes; provided by byte readers, zero objects,
  slices, cached slices, concatenations), \<open>seekable\<close> (a position kept inside the object), \<open>slicer\<close>
  (what the cache needs of a block, provided by the memory slicer), \<open>object_store\<close> (what the builder
  needs of storage, provided by the ram driver).

  \<^bold>\<open>What is shown.\<close>

    \<^item> Encodings: each reader inverts its writer (directory records, System Use entries, names and
      links over several entries, continuation areas, descriptors, times), no record crosses a sector,
      the checked conversions are exact at the bounds of their types.
    \<^item> The volume: adding keeps the tree well formed and adds what was asked; writing succeeds, or
      fails for one of three reasons; every directory and file is where its node says; listing and
      lookup in the image agree with the tree.
    \<^item> Storage: concatenation and the memory cache are transparent under any interleaving; the
      caches and the read-ahead keep their invariants, and the disk cache serves a block's bytes even
      when the names of its files collide; the ram driver is a map from paths to bytes.
    \<^item> The disc: the trie is a map, its inversion gives every URL back and ends in any order of map
      iteration, and a disc that is built and loaded shows the metadata and the files.
    \<^item> Where the code goes wrong, the theorem says how: a cached lookup that takes another directory
      for the root, links and paths that are mixed up, errors that are lost, a continuation cycle that
      is followed for ever, empty files, an empty last part of a concatenation, duplicate URLs, a
      failed read-ahead, removing the ram root.

  \<^bold>\<open>Bounds.\<close>  A volume is \<open>writable\<close> when its metadata takes less than 4 GiB, its files fit one part
  of a record (4 GiB less a sector), and its names and times are valid; images end below block
  \<open>2 ^ 32\<close>, which the hypotheses on \<open>length (concat (map slot cs))\<close> say.  A disc has fewer than
  \<open>2 ^ 29\<close> files where its message is claimed to exist.

  \<^bold>\<open>Not modelled.\<close>  The drivers for \<open>http\<close>, \<open>s3\<close>, \<open>swift\<close>, \<open>file\<close> and \<open>data\<close> URLs with
  \<open>httputil\<close> and \<open>s3util\<close>, which are requests to third-party clients; the recursive visitor of
  \<open>storage/driver\<close>; \<open>isofuse\<close>, \<open>blockdev\<close> and \<open>kmod\<close>, which answer the kernel; the command line;
  generated Cap'n Proto types; logging.  The writer that a volume is written to takes all its bytes:
  failing writes are not modelled, failing reads of the files are.
\<close>

end
